(* ===== verification/Prelude.thy ===== *)
theory Prelude
  imports Main "HOL-Library.List_Lexorder" "HOL-Library.Char_ord" "HOL-Library.AList"
    "HOL-Library.While_Combinator"
begin

text \<open>
  Shared vocabulary of the development. A Go string is a sequence of bytes, so it is a
  \<open>string\<close> (a list of \<open>char\<close>, each one byte), and Go's \<open><\<close> on strings is the
  lexicographic order of \<open>List_Lexorder\<close> over the byte order of \<open>Char_ord\<close>.
  The slice helpers of the standard library that the components share (\<open>slices.Sort\<close>,
  \<open>slices.Compact\<close>, \<open>slices.Index\<close>, \<open>slices.Delete\<close>) are here with their lemmas, and so
  are iteration over a Go map (in an order the language leaves open) and the collections
  of facts the component proofs share.
\<close>

named_theorems slice_simps
named_theorems loop_simps

type_synonym vuln_id = string
type_synonym timestamp = int

section \<open>Errors\<close>

text \<open>
  A Go function that can fail returns an error; a run-time panic (an index out of range,
  say) ends it too. Both are values here.
\<close>

datatype go_error = GoErr string | GoPanic string

section \<open>Slices\<close>

text \<open>\<open>slices.Sort\<close> on strings.\<close>

abbreviation slices_sort :: "'a::linorder list \<Rightarrow> 'a list" where
  "slices_sort xs \<equiv> sort xs"

text \<open>\<open>slices.Compact\<close>: replaces runs of equal elements by one of them.\<close>

abbreviation slices_compact :: "'a list \<Rightarrow> 'a list" where
  "slices_compact xs \<equiv> remdups_adj xs"

text \<open>\<open>slices.Index\<close>: the first position of the element, or -1.\<close>

fun slices_index :: "'a list \<Rightarrow> 'a \<Rightarrow> int" where
  "slices_index [] y = -1"
| "slices_index (x # xs) y =
     (if x = y then 0
      else (let i = slices_index xs y in if i = -1 then -1 else i + 1))"

text \<open>\<open>slices.Delete(s, i, i+1)\<close>: panics when the range is not within the slice.\<close>

definition slices_delete1 :: "'a list \<Rightarrow> int \<Rightarrow> go_error + 'a list" where
  "slices_delete1 xs i =
     (if 0 \<le> i \<and> i < int (length xs)
      then Inr (take (nat i) xs @ drop (Suc (nat i)) xs)
      else Inl (GoPanic ''slice bounds out of range''))"

lemma slices_index_lower: "slices_index xs y \<ge> -1"
  by (induction xs) (auto simp: Let_def)

lemma slices_index_notin: "slices_index xs y = -1 \<longleftrightarrow> y \<notin> set xs"
proof (induction xs)
  case Nil
  then show ?case by simp
next
  case (Cons x xs)
  then show ?case
    using slices_index_lower [of xs y] by (auto simp: Let_def)
qed

lemma slices_index_in:
  "y \<in> set xs \<Longrightarrow> 0 \<le> slices_index xs y \<and> slices_index xs y < int (length xs)"
proof (induction xs)
  case Nil
  then show ?case by simp
next
  case (Cons x xs)
  then show ?case
    using slices_index_notin [of xs y] slices_index_lower [of xs y]
    by (auto simp: Let_def)
qed

text \<open>Deleting at the index of an element removes its first occurrence.\<close>

lemma slices_delete_index:
  "y \<in> set xs \<Longrightarrow> slices_delete1 xs (slices_index xs y) = Inr (remove1 y xs)"
proof (induction xs)
  case Nil
  then show ?case by simp
next
  case (Cons x xs)
  show ?case
  proof (cases "x = y")
    case True
    then show ?thesis by (simp add: slices_delete1_def)
  next
    case False
    with Cons.prems have y: "y \<in> set xs" by simp
    have b: "0 \<le> slices_index xs y" "slices_index xs y < int (length xs)"
      using slices_index_in [OF y] by auto
    have n: "nat (slices_index xs y + 1) = Suc (nat (slices_index xs y))"
      using b by simp
    from Cons.IH [OF y] b have
      "take (nat (slices_index xs y)) xs @ drop (Suc (nat (slices_index xs y))) xs
         = remove1 y xs"
      by (simp add: slices_delete1_def)
    with False b n show ?thesis
      by (simp add: slices_delete1_def Let_def)
  qed
qed

lemma sort_distinct_sorted_list:
  "distinct xs \<Longrightarrow> sort xs = sorted_list_of_set (set xs)"
  by (simp add: sorted_list_of_set_sort_remdups distinct_remdups_id)

lemma sorted_distinct_is_sorted_list:
  "sorted xs \<Longrightarrow> distinct xs \<Longrightarrow> xs = sorted_list_of_set (set xs)"
  by (simp add: sorted_list_of_set.idem_if_sorted_distinct)

lemma distinct_compact_sorted: "sorted xs \<Longrightarrow> distinct (remdups_adj xs)"
proof (induction xs rule: remdups_adj.induct)
  case (3 x y xs)
  then show ?case by (auto simp: order.antisym)
qed simp_all

lemma compact_sort_sorted_list [slice_simps]:
  "remdups_adj (sort xs) = sorted_list_of_set (set xs)"
  using sorted_distinct_is_sorted_list [of "remdups_adj (sort xs)"]
  by (simp add: distinct_compact_sorted)

section \<open>Iteration over maps and sets\<close>

text \<open>
  Go visits the keys of a map in an order the language leaves open. A model that ranges
  over a map takes the order as a parameter; the code may rely on nothing but this: every
  key is visited, and no key twice.
\<close>

definition iteration_order :: "('a list \<Rightarrow> 'a list) \<Rightarrow> bool" where
  "iteration_order ord \<longleftrightarrow>
     (\<forall>xs. distinct xs \<longrightarrow> distinct (ord xs) \<and> set (ord xs) = set xs)"

lemma iteration_orderD:
  assumes "iteration_order ord" and "distinct xs"
  shows "distinct (ord xs)" and "set (ord xs) = set xs"
  using assms by (auto simp: iteration_order_def)

lemma iteration_order_id: "iteration_order id"
  and iteration_order_rev: "iteration_order rev"
  by (simp_all add: iteration_order_def)

text \<open>A \<open>map[string]struct{}\<close> used as a set: an element is added once.\<close>

definition set_add :: "'a \<Rightarrow> 'a list \<Rightarrow> 'a list" where
  "set_add x xs = (if x \<in> set xs then xs else xs @ [x])"

lemma set_set_add [simp]: "set (set_add x xs) = insert x (set xs)"
  by (auto simp: set_add_def)

lemma distinct_set_add [simp]: "distinct (set_add x xs) = distinct xs"
  by (auto simp: set_add_def)

text \<open>Adding every element of a list the same way.\<close>

definition set_add_all :: "'a list \<Rightarrow> 'a list \<Rightarrow> 'a list" where
  "set_add_all ys xs = fold set_add ys xs"

lemma set_set_add_all [simp]: "set (set_add_all ys xs) = set xs \<union> set ys"
  unfolding set_add_all_def by (induction ys arbitrary: xs) auto

lemma distinct_set_add_all [simp]: "distinct (set_add_all ys xs) = distinct xs"
  unfolding set_add_all_def by (induction ys arbitrary: xs) auto

section \<open>Maps as association lists\<close>

text \<open>
  A Go map that is ranged over is an association list with distinct keys, so that its keys
  can be listed; \<open>AList.update\<close> stores, \<open>map_of\<close> looks up.
\<close>

definition keys :: "('k \<times> 'v) list \<Rightarrow> 'k list" where
  "keys al = map fst al"

lemma set_keys [simp]: "set (keys al) = dom (map_of al)"
  by (simp add: keys_def dom_map_of_conv_image_fst)

lemma distinct_keys_update [simp]:
  "distinct (keys al) \<Longrightarrow> distinct (keys (AList.update k v al))"
  by (simp add: keys_def distinct_update)

definition put_all :: "'k list \<Rightarrow> 'v \<Rightarrow> ('k \<times> 'v) list \<Rightarrow> ('k \<times> 'v) list" where
  "put_all ks v al = fold (\<lambda>k. AList.update k v) ks al"

lemma map_of_put_all [simp]:
  "map_of (put_all ks v al) = (\<lambda>k. if k \<in> set ks then Some v else map_of al k)"
  unfolding put_all_def
  by (induction ks arbitrary: al) (auto simp: update_conv' fun_eq_iff)

lemma distinct_keys_put_all [simp]:
  "distinct (keys al) \<Longrightarrow> distinct (keys (put_all ks v al))"
  unfolding put_all_def by (induction ks arbitrary: al) auto

section \<open>Loops with an error exit\<close>

text \<open>
  A \<open>for ... range\<close> loop over a slice whose body may return an error: the body takes the
  state of the function and gives the state after it, and the error if it returned one.
  The loop stops at the first error.
\<close>

fun for_each :: "('a \<Rightarrow> 's \<Rightarrow> 's \<times> 'e option) \<Rightarrow> 'a list \<Rightarrow> 's \<Rightarrow> 's \<times> 'e option" where
  "for_each f [] s = (s, None)"
| "for_each f (x # xs) s =
     (case f x s of
        (s', None) \<Rightarrow> for_each f xs s'
      | (s', Some e) \<Rightarrow> (s', Some e))"

text \<open>A property that mentions what is left to process, kept by every round that succeeds.\<close>

lemma for_each_success:
  assumes "for_each f xs s = (s', None)" and "I xs s"
    and "\<And>x ys s t. I (x # ys) s \<Longrightarrow> x \<in> set xs \<Longrightarrow> f x s = (t, None) \<Longrightarrow> I ys t"
  shows "I [] s'"
  using assms
proof (induction xs arbitrary: s)
  case Nil
  then show ?case by simp
next
  case (Cons x xs)
  from Cons.prems(1) obtain t where t: "f x s = (t, None)" "for_each f xs t = (s', None)"
    by (auto split: prod.splits option.splits)
  have "I xs t" using Cons.prems(2,3) t(1) by auto
  with t(2) Cons.prems(3) show ?case by (intro Cons.IH [of t]) auto
qed

text \<open>A property of the state alone, kept by every round, whether it succeeds or not.\<close>

lemma for_each_inv:
  assumes "P s" and "\<And>x s. x \<in> set xs \<Longrightarrow> P s \<Longrightarrow> P (fst (f x s))"
  shows "P (fst (for_each f xs s))"
  using assms
proof (induction xs arbitrary: s)
  case Nil
  then show ?case by simp
next
  case (Cons x xs)
  have "P (fst (f x s))" using Cons.prems by simp
  then have "P (fst (for_each f xs (fst (f x s))))"
    using Cons.prems(2) by (intro Cons.IH) auto
  with \<open>P (fst (f x s))\<close> show ?case
    by (auto split: prod.splits option.splits)
qed

end
