(* ===== verification/Worklist.thy ===== *)
theory Worklist
  imports Prelude
begin

text \<open>
  The interface of the graph searches of the program: a loop over a state that holds the
  nodes already expanded and those still to expand. The laws say what one round of the
  loop does to the two sets; the lemmas say, once for every search, that the loop stops
  and which nodes it has expanded then. The components interpret the locale on their own
  loop bodies.
\<close>

section \<open>Reachability\<close>

definition edge_rel :: "('n \<Rightarrow> 'n set) \<Rightarrow> ('n \<times> 'n) set" where
  "edge_rel succ = {(u, v). v \<in> succ u}"

definition reach :: "('n \<Rightarrow> 'n set) \<Rightarrow> 'n set \<Rightarrow> 'n set" where
  "reach succ A = (edge_rel succ)\<^sup>* `` A"

lemma reach_refl: "x \<in> A \<Longrightarrow> x \<in> reach succ A"
  by (auto simp: reach_def)

lemma reach_step: "x \<in> reach succ A \<Longrightarrow> y \<in> succ x \<Longrightarrow> y \<in> reach succ A"
  by (auto simp: reach_def edge_rel_def intro: rtrancl_into_rtrancl)

lemma reach_closed_subset:
  assumes "A \<subseteq> S" and closed: "\<And>x. x \<in> S \<Longrightarrow> succ x \<subseteq> S"
  shows "reach succ A \<subseteq> S"
proof
  fix y
  assume "y \<in> reach succ A"
  then obtain x where "x \<in> A" and "(x, y) \<in> (edge_rel succ)\<^sup>*"
    by (auto simp: reach_def)
  from this(2) show "y \<in> S"
    by (induction rule: rtrancl_induct)
      (use \<open>x \<in> A\<close> assms in \<open>auto simp: edge_rel_def\<close>)
qed

lemma reach_mono: "A \<subseteq> B \<Longrightarrow> reach succ A \<subseteq> reach succ B"
  by (auto simp: reach_def)

lemma reach_Un: "reach succ (A \<union> B) = reach succ A \<union> reach succ B"
  by (auto simp: reach_def)

lemma reach_empty [simp]: "reach succ {} = {}"
  by (simp add: reach_def)

lemma reach_idem: "reach succ (reach succ A) = reach succ A"
proof
  show "reach succ (reach succ A) \<subseteq> reach succ A"
    by (rule reach_closed_subset) (auto intro: reach_step)
  show "reach succ A \<subseteq> reach succ (reach succ A)"
    by (auto intro: reach_refl)
qed

lemma reach_cong: "(\<And>x. succ x = succ' x) \<Longrightarrow> reach succ A = reach succ' A"
  by (simp add: reach_def edge_rel_def)

section \<open>The interface\<close>

locale worklist_search =
  fixes succ :: "'n \<Rightarrow> 'n set"
    and live :: "'s \<Rightarrow> bool"
    and ok :: "'s \<Rightarrow> bool"
    and expanded :: "'s \<Rightarrow> 'n set"
    and pending :: "'s \<Rightarrow> 'n set"
    and step :: "'s \<Rightarrow> 's"
    and rank :: "'s \<Rightarrow> nat \<times> nat"
  assumes ok_step: "ok s \<Longrightarrow> live s \<Longrightarrow> ok (step s)"
    and step_expands: "ok s \<Longrightarrow> live s \<Longrightarrow>
      \<exists>x \<in> pending s. expanded (step s) = insert x (expanded s)
        \<and> pending (step s) \<subseteq> pending s \<union> succ x
        \<and> pending s \<union> (if x \<in> expanded s then {} else succ x)
            \<subseteq> pending (step s) \<union> expanded (step s)"
    and step_rank: "ok s \<Longrightarrow> live s \<Longrightarrow>
      (rank (step s), rank s) \<in> less_than <*lex*> less_than"
begin

text \<open>
  What holds in every round of a search that started in \<open>s0\<close>: nothing but what the start
  can reach is touched, nothing of the start is lost, and the successors of everything
  expanded since are touched.
\<close>

definition search_inv :: "'s \<Rightarrow> 's \<Rightarrow> bool" where
  "search_inv s0 s \<longleftrightarrow>
     ok s \<and> expanded s0 \<subseteq> expanded s
     \<and> expanded s \<union> pending s \<subseteq> expanded s0 \<union> reach succ (pending s0)
     \<and> pending s \<subseteq> reach succ (pending s0)
     \<and> pending s0 \<subseteq> expanded s \<union> pending s
     \<and> (\<forall>x \<in> expanded s - expanded s0. succ x \<subseteq> expanded s \<union> pending s)"

lemma search_inv_start: "ok s0 \<Longrightarrow> search_inv s0 s0"
  by (auto simp: search_inv_def reach_refl)

lemma search_inv_step:
  assumes inv: "search_inv s0 s" and live: "live s"
  shows "search_inv s0 (step s)"
proof -
  from inv have ok: "ok s" by (simp add: search_inv_def)
  from step_expands [OF ok live] obtain x where
    x: "x \<in> pending s" "expanded (step s) = insert x (expanded s)"
      "pending (step s) \<subseteq> pending s \<union> succ x"
      "pending s \<union> (if x \<in> expanded s then {} else succ x)
         \<subseteq> pending (step s) \<union> expanded (step s)"
    by blast
  let ?R = "reach succ (pending s0)"
  from inv x(1) have xR: "x \<in> ?R" by (auto simp: search_inv_def)
  then have sR: "succ x \<subseteq> ?R" by (auto intro: reach_step)
  have grow: "expanded s \<union> pending s \<subseteq> expanded (step s) \<union> pending (step s)"
    using x by auto
  have new: "succ x \<subseteq> expanded (step s) \<union> pending (step s)"
    if "x \<notin> expanded s"
    using x(4) that by auto
  show ?thesis
    unfolding search_inv_def
  proof (intro conjI ballI)
    show "ok (step s)" by (rule ok_step [OF ok live])
    show "expanded s0 \<subseteq> expanded (step s)"
      using inv x(2) by (auto simp: search_inv_def)
    show p: "pending (step s) \<subseteq> ?R"
      using inv x(3) sR by (auto simp: search_inv_def)
    show "expanded (step s) \<union> pending (step s) \<subseteq> expanded s0 \<union> ?R"
      using inv x(2) xR p by (auto simp: search_inv_def)
    show "pending s0 \<subseteq> expanded (step s) \<union> pending (step s)"
      using inv grow unfolding search_inv_def by blast
    show "succ y \<subseteq> expanded (step s) \<union> pending (step s)"
      if "y \<in> expanded (step s) - expanded s0" for y
    proof (cases "y \<in> expanded s")
      case True
      with that inv have "succ y \<subseteq> expanded s \<union> pending s"
        by (auto simp: search_inv_def)
      with grow show ?thesis by blast
    next
      case False
      with that x(2) have "y = x" by simp
      with False new show ?thesis by simp
    qed
  qed
qed

lemma search_stops:
  assumes "ok s0"
  shows "\<exists>s. while_option live step s0 = Some s"
proof (rule wf_rel_while_option_Some
    [where P = ok and R = "inv_image (less_than <*lex*> less_than) rank"])
  show "wf (inv_image (less_than <*lex*> less_than) rank)"
    by (simp add: wf_inv_image wf_lex_prod)
qed (use assms in \<open>auto intro: ok_step dest: step_rank\<close>)

lemma search_result_inv:
  assumes "ok s0" and "while_option live step s0 = Some s"
  shows "search_inv s0 s" and "\<not> live s"
  using while_option_rule [where P = "search_inv s0", OF _ assms(2)]
    search_inv_step search_inv_start [OF assms(1)] while_option_stop [OF assms(2)]
  by auto

text \<open>
  The outcome of a search that ran until nothing was pending: what it expanded is what the
  start reaches, next to a closed set that was expanded before.
\<close>

lemma search_expands_reach:
  assumes ok: "ok s0" and run: "while_option live step s0 = Some s"
    and drained: "pending s = {}"
    and closed: "\<And>x. x \<in> expanded s0 \<Longrightarrow> succ x \<subseteq> expanded s0"
  shows "expanded s = expanded s0 \<union> reach succ (pending s0)"
proof
  from search_result_inv [OF ok run] have inv: "search_inv s0 s" by simp
  then show "expanded s \<subseteq> expanded s0 \<union> reach succ (pending s0)"
    by (auto simp: search_inv_def)
  have "succ x \<subseteq> expanded s" if "x \<in> expanded s" for x
    using inv drained closed [of x] that unfolding search_inv_def by fastforce
  then have "reach succ (pending s0) \<subseteq> expanded s"
    by (rule reach_closed_subset [rotated])
      (use inv drained in \<open>auto simp: search_inv_def\<close>)
  with inv show "expanded s0 \<union> reach succ (pending s0) \<subseteq> expanded s"
    by (auto simp: search_inv_def)
qed

lemma search_while:
  assumes "ok s0"
  shows "while_option live step s0 = Some (while live step s0)"
  using search_stops [OF assms] by (auto simp: while_def)

end

section \<open>Symmetric graphs and their components\<close>

locale symmetric_graph =
  fixes succ :: "'n \<Rightarrow> 'n set"
  assumes succ_sym: "y \<in> succ x \<longleftrightarrow> x \<in> succ y"
    and finite_component: "finite (reach succ {x})"
begin

lemma component_sym: "y \<in> reach succ {x} \<longleftrightarrow> x \<in> reach succ {y}"
proof -
  have "(edge_rel succ)\<inverse> = edge_rel succ"
    using succ_sym by (auto simp: edge_rel_def)
  then have "((edge_rel succ)\<^sup>*)\<inverse> = (edge_rel succ)\<^sup>*"
    by (metis rtrancl_converse)
  then show ?thesis
    unfolding reach_def by (metis Image_singleton_iff converse_iff)
qed

lemma component_eq: "y \<in> reach succ {x} \<Longrightarrow> reach succ {y} = reach succ {x}"
proof
  assume y: "y \<in> reach succ {x}"
  then show "reach succ {y} \<subseteq> reach succ {x}"
    by (metis empty_subsetI insert_subset reach_idem reach_mono)
  from y have "x \<in> reach succ {y}" by (simp add: component_sym)
  then show "reach succ {x} \<subseteq> reach succ {y}"
    by (metis empty_subsetI insert_subset reach_idem reach_mono)
qed

lemma self_component: "x \<in> reach succ {x}"
  by (simp add: reach_refl)

lemma closed_component:
  "(\<And>y. y \<in> V \<Longrightarrow> succ y \<subseteq> V) \<Longrightarrow> x \<in> V \<Longrightarrow> reach succ {x} \<subseteq> V"
  by (rule reach_closed_subset) auto

lemma closed_disjoint:
  assumes "\<And>y. y \<in> V \<Longrightarrow> succ y \<subseteq> V" and "x \<notin> V"
  shows "reach succ {x} - V = reach succ {x}"
proof -
  have "y \<notin> V" if "y \<in> reach succ {x}" for y
    using closed_component [of V y] assms that component_sym [of y x] by auto
  then show ?thesis by auto
qed

lemma closed_union:
  assumes "\<And>y. y \<in> V \<Longrightarrow> succ y \<subseteq> V" and "y \<in> V \<union> reach succ {x}"
  shows "succ y \<subseteq> V \<union> reach succ {x}"
  using assms reach_step [of y succ "{x}"] by blast

lemma component_outside:
  "(\<And>y. y \<in> V \<Longrightarrow> succ y \<subseteq> V) \<Longrightarrow> x \<notin> V \<Longrightarrow> w \<in> V \<Longrightarrow> reach succ {x} \<noteq> reach succ {w}"
  using closed_component [of V w] self_component [of x] by auto

end

end
