(* ===== verification/Datastore.thy ===== *)
theory Datastore
  imports Prelude
begin

text \<open>
  The datastore entities the relations worker reads and writes
  (\<open>services/shared/pkg/database/datastore/models.go\<close>), the update message it sends
  (\<open>apps/cli/cmd/relations/update.go\<close>), and the boundary to Cloud Datastore itself.

  The Datastore client is not part of the repository, so it is a parameter: a function
  that tells the outcome of a call from the calls made before it. What the worker did to the
  store is the list of its successful calls. Properties about what the store then holds
  take the documented meaning of the calls as the hypothesis \<open>datastore_laws\<close>.
\<close>

section \<open>Entities\<close>

datatype ds_key = IDKey int | NameKey string

record vulnerability =
  v_key :: string
  v_source_id :: string
  v_modified :: timestamp
  v_is_withdrawn :: bool
  v_modified_raw :: timestamp
  v_alias_raw :: "vuln_id list"
  v_related_raw :: "vuln_id list"
  v_upstream_raw :: "vuln_id list"

record alias_group =
  ag_vuln_ids :: "vuln_id list"
  ag_modified :: timestamp

record upstream_group =
  ug_key :: ds_key
  ug_vuln_id :: vuln_id
  ug_upstream_ids :: "vuln_id list"
  ug_modified :: timestamp
  ug_hierarchy :: string

record related_group =
  rg_related_ids :: "vuln_id list"
  rg_modified :: timestamp

datatype update_field = FieldAlias | FieldUpstream | FieldRelated

record update =
  u_id :: vuln_id
  u_timestamp :: timestamp
  u_field :: update_field
  u_value :: "vuln_id list"

section \<open>Calls of the datastore client\<close>

text \<open>
  \<open>Put\<close> under a complete key, \<open>Put\<close> under an incomplete key (the store picks the key and
  returns it), and \<open>Delete\<close>. The log pairs a call with the key it returned.
\<close>

datatype 'g ds_op = DsPut ds_key 'g | DsCreate 'g | DsDelete ds_key

type_synonym 'g ds_log = "('g ds_op \<times> ds_key) list"
type_synonym 'g ds_client = "'g ds_log \<Rightarrow> 'g ds_op \<Rightarrow> string + ds_key"

text \<open>
  A query is a stream of entities that ends with \<open>iterator.Done\<close> (\<open>None\<close>) or with an
  error.
\<close>

type_synonym 'a ds_stream = "'a list \<times> string option"

definition call_ds :: "'g ds_client \<Rightarrow> 'g ds_op \<Rightarrow> 'g ds_log \<Rightarrow> go_error + 'g ds_log \<times> ds_key" where
  "call_ds cl op log =
     (case cl log op of
        Inl e \<Rightarrow> Inl (GoErr e)
      | Inr k \<Rightarrow> Inr (log @ [(op, k)], k))"

definition datastore_laws ::
  "('g ds_log \<Rightarrow> ds_key \<rightharpoonup> 'g) \<Rightarrow> 'g ds_client \<Rightarrow> bool" where
  "datastore_laws contents cl \<longleftrightarrow>
     (\<forall>log k g k'. contents (log @ [(DsPut k g, k')]) = (contents log)(k \<mapsto> g))
     \<and> (\<forall>log g k. contents (log @ [(DsCreate g, k)]) = (contents log)(k \<mapsto> g))
     \<and> (\<forall>log k k'. contents (log @ [(DsDelete k, k')]) = (contents log)(k := None))
     \<and> (\<forall>log g k. cl log (DsCreate g) = Inr k \<longrightarrow> contents log k = None)"

lemma datastore_lawsD:
  assumes "datastore_laws contents cl"
  shows "contents (log @ [(DsPut k g, k')]) = (contents log)(k \<mapsto> g)"
    and "contents (log @ [(DsCreate g, k)]) = (contents log)(k \<mapsto> g)"
    and "contents (log @ [(DsDelete k, k')]) = (contents log)(k := None)"
    and "cl log (DsCreate g) = Inr k \<Longrightarrow> contents log k = None"
  using assms by (simp_all add: datastore_laws_def)

text \<open>
  A store that satisfies the laws, for closed instances of the properties: it starts with
  the entities given and numbers what it creates by a key above every key in use.
\<close>

fun replay_op :: "'g ds_op \<times> ds_key \<Rightarrow> (ds_key \<rightharpoonup> 'g) \<Rightarrow> (ds_key \<rightharpoonup> 'g)" where
  "replay_op (DsPut k g, _) m = m(k \<mapsto> g)"
| "replay_op (DsCreate g, k) m = m(k \<mapsto> g)"
| "replay_op (DsDelete k, _) m = m(k := None)"

definition replay :: "(ds_key \<times> 'g) list \<Rightarrow> 'g ds_log \<Rightarrow> ds_key \<rightharpoonup> 'g" where
  "replay init log = fold replay_op log (map_of init)"

fun key_number :: "ds_key \<Rightarrow> nat" where
  "key_number (IDKey i) = nat \<bar>i\<bar>"
| "key_number (NameKey s) = 0"

definition fresh_number :: "(ds_key \<times> 'g) list \<Rightarrow> 'g ds_log \<Rightarrow> nat" where
  "fresh_number init log =
     Suc (sum_list (map (key_number \<circ> fst) init) + sum_list (map (key_number \<circ> snd) log)
       + sum_list (map (\<lambda>(op, k). case op of DsPut k _ \<Rightarrow> key_number k | _ \<Rightarrow> 0) log))"

fun numbering_client :: "(ds_key \<times> 'g) list \<Rightarrow> 'g ds_client" where
  "numbering_client init log (DsPut k g) = Inr k"
| "numbering_client init log (DsCreate g) = Inr (IDKey (int (fresh_number init log)))"
| "numbering_client init log (DsDelete k) = Inr k"

lemma replay_Nil [simp]: "replay init [] = map_of init"
  by (simp add: replay_def)

lemma replay_snoc [simp]: "replay init (log @ [e]) = replay_op e (replay init log)"
  by (simp add: replay_def)

lemma replay_number_bound:
  "replay init log k = Some g \<Longrightarrow> key_number k < fresh_number init log"
proof (induction log arbitrary: g rule: rev_induct)
  case Nil
  then have "k \<in> fst ` set init" by (metis domI dom_map_of_conv_image_fst replay_Nil)
  then have "key_number k \<in> set (map (key_number \<circ> fst) init)" by auto
  then have "key_number k \<le> sum_list (map (key_number \<circ> fst) init)"
    by (intro member_le_sum_list) simp_all
  then show ?case by (simp add: fresh_number_def)
next
  case (snoc e log)
  obtain op k' where e: "e = (op, k')" by (cases e)
  have mono: "fresh_number init log \<le> fresh_number init (log @ [e])"
    by (simp add: fresh_number_def)
  show ?case
  proof (cases "replay init log k = Some g")
    case True
    then show ?thesis using snoc.IH mono by (meson less_le_trans)
  next
    case False
    with snoc.prems have "\<exists>g'. op = DsPut k g' \<or> (op = DsCreate g' \<and> k = k')"
      by (cases op) (auto simp: e split: if_splits)
    then show ?thesis by (auto simp: e fresh_number_def)
  qed
qed

lemma datastore_laws_replay: "datastore_laws (replay init) (numbering_client init)"
proof -
  have "replay init log (IDKey (int (fresh_number init log))) = None" for log :: "'a ds_log"
    using replay_number_bound [of init log "IDKey (int (fresh_number init log))"]
    by (cases "replay init log (IDKey (int (fresh_number init log)))") auto
  then show ?thesis
    unfolding datastore_laws_def by auto
qed

end
