(* ===== verification/AliasGroups.thy ===== *)
theory AliasGroups
  imports Worklist Datastore
begin

text \<open>
  The alias computation of the relations worker (\<open>apps/cli/cmd/relations/alias.go\<close>):
  the alias graph built from the raw aliases of the vulnerabilities, the search for the
  vulnerabilities connected to one, and the rewriting of the stored alias groups into the
  connected components of the graph.
\<close>

section \<open>The alias graph\<close>

definition aliasGroupVulnLimit :: nat where
  "aliasGroupVulnLimit = 32"

definition vulnAliasesLimit :: nat where
  "vulnAliasesLimit = 5"

type_synonym alias_map = "(vuln_id \<times> vuln_id list) list"

definition aliasesOf :: "alias_map \<Rightarrow> vuln_id \<Rightarrow> vuln_id list" where
  "aliasesOf sets key = (case map_of sets key of None \<Rightarrow> [] | Some m \<Rightarrow> m)"

definition addToSet :: "alias_map \<Rightarrow> vuln_id \<Rightarrow> vuln_id \<Rightarrow> alias_map" where
  "addToSet sets key value =
     AList.update key (set_add value (aliasesOf sets key)) sets"

text \<open>
  One round of the loop over the vulnerabilities: a withdrawn one, one on the deny list
  and one with too many aliases that is not on the allow list are skipped; otherwise
  every raw alias is entered in both directions.
\<close>

definition skipVuln :: "vuln_id list \<Rightarrow> vuln_id list \<Rightarrow> vulnerability \<Rightarrow> bool" where
  "skipVuln allowList denyList vuln \<longleftrightarrow>
     v_is_withdrawn vuln
     \<or> v_key vuln \<in> set denyList
     \<or> (length (v_alias_raw vuln) > vulnAliasesLimit \<and> v_key vuln \<notin> set allowList)"

definition addVulnAliases ::
  "vuln_id list \<Rightarrow> vuln_id list \<Rightarrow> vulnerability \<Rightarrow> alias_map \<Rightarrow> alias_map" where
  "addVulnAliases allowList denyList vuln m =
     (if skipVuln allowList denyList vuln then m
      else fold (\<lambda>alias m. addToSet (addToSet m (v_key vuln) alias) alias (v_key vuln))
             (v_alias_raw vuln) m)"

definition collectAliases ::
  "vuln_id list \<Rightarrow> vuln_id list \<Rightarrow> vulnerability list \<Rightarrow> alias_map" where
  "collectAliases allowList denyList vulns =
     fold (addVulnAliases allowList denyList) vulns []"

section \<open>The search for the aliases of one vulnerability\<close>

record alias_search =
  al_toVisit :: "vuln_id list"
  al_visited :: "vuln_id set"
  al_vulnIDs :: "vuln_id list"

definition rangeAliases ::
  "alias_map \<Rightarrow> (vuln_id list \<Rightarrow> vuln_id list) \<Rightarrow> vuln_id \<Rightarrow> vuln_id list" where
  "rangeAliases m ord v = (case map_of m v of None \<Rightarrow> [] | Some as \<Rightarrow> ord as)"

definition aliasRound ::
  "alias_map \<Rightarrow> (vuln_id list \<Rightarrow> vuln_id list) \<Rightarrow> alias_search \<Rightarrow> alias_search" where
  "aliasRound m ord s =
     (case al_toVisit s of
        [] \<Rightarrow> s
      | v # q \<Rightarrow>
          if v \<in> al_visited s then s\<lparr>al_toVisit := q\<rparr>
          else s\<lparr>al_visited := insert v (al_visited s),
                 al_vulnIDs := al_vulnIDs s @ [v],
                 al_toVisit := set_add_all (rangeAliases m ord v) q\<rparr>)"

definition aliasLive :: "alias_search \<Rightarrow> bool" where
  "aliasLive s \<longleftrightarrow> al_toVisit s \<noteq> []"

definition aliasStart :: "vuln_id \<Rightarrow> vuln_id set \<Rightarrow> alias_search" where
  "aliasStart v visited = \<lparr>al_toVisit = [v], al_visited = visited, al_vulnIDs = []\<rparr>"

definition computeAliases ::
  "alias_map \<Rightarrow> (vuln_id list \<Rightarrow> vuln_id list) \<Rightarrow> vuln_id \<Rightarrow> vuln_id set
     \<Rightarrow> vuln_id list \<times> vuln_id set" where
  "computeAliases m ord vulnID visited =
     (let s = while aliasLive (aliasRound m ord) (aliasStart vulnID visited)
      in (slices_sort (al_vulnIDs s), al_visited s))"

section \<open>Rewriting the stored groups\<close>

text \<open>
  The state of the function: the calls made to the datastore, the readings taken of the
  clock, the vulnerabilities already placed, and the group each changed vulnerability
  belongs to now (\<open>None\<close>: its group is gone).
\<close>

record alias_state =
  as_log :: "alias_group ds_log"
  as_tick :: nat
  as_visited :: "vuln_id set"
  as_changed :: "(vuln_id \<times> alias_group option) list"

type_synonym alias_result = "alias_state \<times> go_error option"

definition aliasCall ::
  "alias_group ds_client \<Rightarrow> alias_group ds_op \<Rightarrow> alias_state \<Rightarrow> alias_result" where
  "aliasCall cl op s =
     (case call_ds cl op (as_log s) of
        Inl e \<Rightarrow> (s, Some e)
      | Inr (log, _) \<Rightarrow> (s\<lparr>as_log := log\<rparr>, None))"

definition setChanged :: "vuln_id list \<Rightarrow> alias_group option \<Rightarrow> alias_state \<Rightarrow> alias_state" where
  "setChanged vs g s = s\<lparr>as_changed := put_all vs g (as_changed s)\<rparr>"

definition updateAliasGroup ::
  "alias_group ds_client \<Rightarrow> (nat \<Rightarrow> timestamp) \<Rightarrow> vuln_id list \<Rightarrow> ds_key \<Rightarrow> alias_group
     \<Rightarrow> alias_state \<Rightarrow> alias_result" where
  "updateAliasGroup cl clock vulnIDs key grp s =
     (if length vulnIDs \<le> 1 then aliasCall cl (DsDelete key) (setChanged vulnIDs None s)
      else if length vulnIDs > aliasGroupVulnLimit
      then aliasCall cl (DsDelete key) (setChanged vulnIDs None s)
      else if vulnIDs = ag_vuln_ids grp then (s, None)
      else
        let grp' = grp\<lparr>ag_vuln_ids := vulnIDs, ag_modified := clock (as_tick s)\<rparr>;
            s1 = s\<lparr>as_tick := Suc (as_tick s)\<rparr>
        in case aliasCall cl (DsPut key grp') s1 of
             (s2, Some e) \<Rightarrow> (s2, Some e)
           | (s2, None) \<Rightarrow> (setChanged vulnIDs (Some grp') s2, None))"

definition createAliasGroup ::
  "alias_group ds_client \<Rightarrow> (nat \<Rightarrow> timestamp) \<Rightarrow> vuln_id list
     \<Rightarrow> alias_state \<Rightarrow> alias_result" where
  "createAliasGroup cl clock vulnIDs s =
     (if length vulnIDs \<le> 1 then (s, None)
      else if length vulnIDs > aliasGroupVulnLimit then (s, None)
      else
        let newGroup = \<lparr>ag_vuln_ids = vulnIDs, ag_modified = clock (as_tick s)\<rparr>;
            s1 = s\<lparr>as_tick := Suc (as_tick s)\<rparr>
        in case aliasCall cl (DsCreate newGroup) s1 of
             (s2, Some e) \<Rightarrow> (s2, Some e)
           | (s2, None) \<Rightarrow> (setChanged vulnIDs (Some newGroup) s2, None))"

text \<open>The body of the loop over the stored groups. An empty group panics at \<open>VulnIDs[0]\<close>.\<close>

definition markGone :: "vuln_id list \<Rightarrow> alias_state \<Rightarrow> alias_state" where
  "markGone vs s =
     fold (\<lambda>v s. if v \<in> dom (map_of (as_changed s)) then s else setChanged [v] None s) vs s"

definition regroupStored ::
  "alias_group ds_client \<Rightarrow> (nat \<Rightarrow> timestamp) \<Rightarrow> alias_map \<Rightarrow> (vuln_id list \<Rightarrow> vuln_id list)
     \<Rightarrow> ds_key \<times> alias_group \<Rightarrow> alias_state \<Rightarrow> alias_result" where
  "regroupStored cl clock m ord kg s =
     (case kg of (key, grp) \<Rightarrow>
        (case ag_vuln_ids grp of
           [] \<Rightarrow> (s, Some (GoPanic ''index out of range''))
         | vulnID # _ \<Rightarrow>
             if vulnID \<in> as_visited s
             then aliasCall cl (DsDelete key) (markGone (ag_vuln_ids grp) s)
             else
               let (vulnIDs, visited) = computeAliases m ord vulnID (as_visited s)
               in updateAliasGroup cl clock vulnIDs key grp (s\<lparr>as_visited := visited\<rparr>)))"

text \<open>The body of the loop over the vulnerabilities of the alias graph.\<close>

definition groupRemaining ::
  "alias_group ds_client \<Rightarrow> (nat \<Rightarrow> timestamp) \<Rightarrow> alias_map \<Rightarrow> (vuln_id list \<Rightarrow> vuln_id list)
     \<Rightarrow> vuln_id \<Rightarrow> alias_state \<Rightarrow> alias_result" where
  "groupRemaining cl clock m ord vulnID s =
     (if vulnID \<in> as_visited s then (s, None)
      else
        let (vulnIDs, visited) = computeAliases m ord vulnID (as_visited s)
        in createAliasGroup cl clock vulnIDs (s\<lparr>as_visited := visited\<rparr>))"

section \<open>The updates sent\<close>

definition updateVulnWithAliasGroup ::
  "(nat \<Rightarrow> timestamp) \<Rightarrow> nat \<Rightarrow> vuln_id \<Rightarrow> alias_group option \<Rightarrow> go_error + update \<times> nat" where
  "updateVulnWithAliasGroup clock tick vulnID aliasGroup =
     (case aliasGroup of
        None \<Rightarrow>
          Inr (\<lparr>u_id = vulnID, u_timestamp = clock tick, u_field = FieldAlias, u_value = []\<rparr>,
               Suc tick)
      | Some g \<Rightarrow>
          (let vulns = ag_vuln_ids g; idx = slices_index vulns vulnID
           in case slices_delete1 vulns idx of
                Inl e \<Rightarrow> Inl e
              | Inr vs \<Rightarrow>
                  Inr (\<lparr>u_id = vulnID, u_timestamp = ag_modified g, u_field = FieldAlias,
                        u_value = vs\<rparr>, tick)))"

definition sendAliasUpdate ::
  "(nat \<Rightarrow> timestamp) \<Rightarrow> (vuln_id \<rightharpoonup> alias_group option) \<Rightarrow> vuln_id
     \<Rightarrow> update list \<times> nat \<Rightarrow> (update list \<times> nat) \<times> go_error option" where
  "sendAliasUpdate clock changed vulnID ut =
     (case ut of (sent, tick) \<Rightarrow>
        (case changed vulnID of
           None \<Rightarrow> (ut, None)
         | Some g \<Rightarrow>
             (case updateVulnWithAliasGroup clock tick vulnID g of
                Inl e \<Rightarrow> (ut, Some e)
              | Inr (u, tick') \<Rightarrow> ((sent @ [u], tick'), None))))"

record alias_run =
  ar_sent :: "update list"
  ar_log :: "alias_group ds_log"
  ar_error :: "go_error option"

definition ComputeAliasGroups ::
  "alias_group ds_client \<Rightarrow> (nat \<Rightarrow> timestamp) \<Rightarrow> (vuln_id list \<Rightarrow> vuln_id list)
     \<Rightarrow> string + vuln_id list \<Rightarrow> string + vuln_id list
     \<Rightarrow> vulnerability ds_stream \<Rightarrow> (ds_key \<times> alias_group) ds_stream \<Rightarrow> alias_run" where
  "ComputeAliasGroups cl clock ord allowEntries denyEntries vulns groups =
     (let failed = (\<lambda>e log. \<lparr>ar_sent = [], ar_log = log, ar_error = Some e\<rparr>) in
      case allowEntries of Inl e \<Rightarrow> failed (GoErr e) [] | Inr allowList \<Rightarrow>
      case denyEntries of Inl e \<Rightarrow> failed (GoErr e) [] | Inr denyList \<Rightarrow>
      case snd vulns of Some e \<Rightarrow> failed (GoErr e) [] | None \<Rightarrow>
      let m = collectAliases allowList denyList (fst vulns);
          s0 = \<lparr>as_log = [], as_tick = 0, as_visited = {}, as_changed = []\<rparr>
      in case for_each (regroupStored cl clock m ord) (fst groups) s0 of
           (s1, Some e) \<Rightarrow> failed e (as_log s1)
         | (s1, None) \<Rightarrow>
      (case snd groups of Some e \<Rightarrow> failed (GoErr e) (as_log s1) | None \<Rightarrow>
      case for_each (groupRemaining cl clock m ord) (ord (keys m)) s1 of
           (s2, Some e) \<Rightarrow> failed e (as_log s2)
         | (s2, None) \<Rightarrow>
      case for_each (sendAliasUpdate clock (map_of (as_changed s2)))
             (ord (keys (as_changed s2))) ([], as_tick s2) of
           ((sent, _), err) \<Rightarrow> \<lparr>ar_sent = sent, ar_log = as_log s2, ar_error = err\<rparr>))"

section \<open>What the search finds\<close>

definition alias_succ :: "alias_map \<Rightarrow> (vuln_id list \<Rightarrow> vuln_id list) \<Rightarrow> vuln_id \<Rightarrow> vuln_id set" where
  "alias_succ m ord v = set (rangeAliases m ord v)"

definition alias_rank :: "alias_map \<Rightarrow> alias_search \<Rightarrow> nat \<times> nat" where
  "alias_rank m s = (card (dom (map_of m) - al_visited s), length (al_toVisit s))"

interpretation alias_bfs: worklist_search "alias_succ m ord" aliasLive "\<lambda>_. True" al_visited
  "\<lambda>s. set (al_toVisit s)" "aliasRound m ord" "alias_rank m" for m ord
proof
  fix s
  assume "aliasLive s"
  then obtain v q where q: "al_toVisit s = v # q"
    by (auto simp: aliasLive_def neq_Nil_conv)
  show "\<exists>x\<in>set (al_toVisit s).
        al_visited (aliasRound m ord s) = insert x (al_visited s) \<and>
        set (al_toVisit (aliasRound m ord s)) \<subseteq> set (al_toVisit s) \<union> alias_succ m ord x \<and>
        set (al_toVisit s) \<union> (if x \<in> al_visited s then {} else alias_succ m ord x)
        \<subseteq> set (al_toVisit (aliasRound m ord s)) \<union> al_visited (aliasRound m ord s)"
    by (rule bexI [of _ v]) (auto simp: aliasRound_def q alias_succ_def)
  show "(alias_rank m (aliasRound m ord s), alias_rank m s) \<in> less_than <*lex*> less_than"
  proof (cases "v \<in> al_visited s \<or> v \<notin> dom (map_of m)")
    case True
    then have "dom (map_of m) - al_visited (aliasRound m ord s) = dom (map_of m) - al_visited s"
      and "length (al_toVisit (aliasRound m ord s)) = length q"
      by (auto simp: aliasRound_def q rangeAliases_def set_add_all_def split: option.splits)
    with q show ?thesis by (simp add: alias_rank_def)
  next
    case False
    then have "dom (map_of m) - al_visited (aliasRound m ord s)
        \<subset> dom (map_of m) - al_visited s"
      by (auto simp: aliasRound_def q)
    then show ?thesis
      by (auto simp: alias_rank_def finite_dom_map_of intro!: psubset_card_mono)
  qed
qed simp

text \<open>The IDs collected are the ones visited since the start, each once.\<close>

lemma alias_search_ids:
  assumes "while_option aliasLive (aliasRound m ord) (aliasStart v visited) = Some s"
  shows "distinct (al_vulnIDs s)" and "set (al_vulnIDs s) = al_visited s - visited"
proof -
  have "distinct (al_vulnIDs s) \<and> set (al_vulnIDs s) = al_visited s - visited \<and> visited \<subseteq> al_visited s"
    by (rule while_option_rule [OF _ assms])
      (auto simp: aliasStart_def aliasRound_def split: list.splits)
  then show "distinct (al_vulnIDs s)" and "set (al_vulnIDs s) = al_visited s - visited"
    by auto
qed

lemma computeAliases_reach:
  assumes "v \<notin> visited" and closed: "\<And>x. x \<in> visited \<Longrightarrow> alias_succ m ord x \<subseteq> visited"
    and "computeAliases m ord v visited = (ids, visited')"
  shows "visited' = visited \<union> reach (alias_succ m ord) {v}"
    and "ids = sorted_list_of_set (reach (alias_succ m ord) {v} - visited)"
proof -
  define s where "s = while aliasLive (aliasRound m ord) (aliasStart v visited)"
  have run: "while_option aliasLive (aliasRound m ord) (aliasStart v visited) = Some s"
    unfolding s_def by (rule alias_bfs.search_while) simp
  have "\<not> aliasLive s" by (rule while_option_stop [OF run])
  then have "set (al_toVisit s) = {}" by (simp add: aliasLive_def)
  from alias_bfs.search_expands_reach [OF TrueI run this] closed
  have vis: "al_visited s = visited \<union> reach (alias_succ m ord) {v}"
    by (simp add: aliasStart_def)
  from assms(3) have r: "ids = sort (al_vulnIDs s)" "visited' = al_visited s"
    by (simp_all add: computeAliases_def s_def Let_def)
  from r vis show "visited' = visited \<union> reach (alias_succ m ord) {v}" by simp
  have "al_visited s - visited = reach (alias_succ m ord) {v} - visited"
    using vis by auto
  with alias_search_ids [OF run] r(1)
  show "ids = sorted_list_of_set (reach (alias_succ m ord) {v} - visited)"
    by (simp add: sort_distinct_sorted_list)
qed

section \<open>The alias graph\<close>

definition alias_map_ok :: "alias_map \<Rightarrow> bool" where
  "alias_map_ok m \<longleftrightarrow> distinct (keys m) \<and> (\<forall>v. distinct (aliasesOf m v))"

lemma aliasesOf_addToSet [simp]:
  "aliasesOf (addToSet m k x) v = (if v = k then set_add x (aliasesOf m v) else aliasesOf m v)"
  by (simp add: addToSet_def aliasesOf_def update_conv')

lemma addToSet_ok [simp]: "alias_map_ok m \<Longrightarrow> alias_map_ok (addToSet m k x)"
  by (simp add: alias_map_ok_def) (simp add: addToSet_def)

text \<open>Two IDs are linked when an accepted vulnerability names one and lists the other.\<close>

definition alias_link ::
  "vuln_id list \<Rightarrow> vuln_id list \<Rightarrow> vulnerability list \<Rightarrow> vuln_id \<Rightarrow> vuln_id set" where
  "alias_link allowList denyList vulns u =
     {w. \<exists>vuln \<in> set vulns. \<not> skipVuln allowList denyList vuln
        \<and> (u = v_key vuln \<and> w \<in> set (v_alias_raw vuln)
           \<or> w = v_key vuln \<and> u \<in> set (v_alias_raw vuln))}"

lemma alias_link_sym: "w \<in> alias_link al dl vulns u \<longleftrightarrow> u \<in> alias_link al dl vulns w"
  by (auto simp: alias_link_def)

lemma addVulnAliases_set:
  "set (aliasesOf (addVulnAliases al dl vuln m) u) = set (aliasesOf m u) \<union> alias_link al dl [vuln] u"
proof -
  have "set (aliasesOf (fold (\<lambda>alias m. addToSet (addToSet m k alias) alias k) as m) u)
      = set (aliasesOf m u) \<union> {w. u = k \<and> w \<in> set as \<or> w = k \<and> u \<in> set as}" for k as
    by (induction as arbitrary: m) auto
  then show ?thesis
    by (auto simp: addVulnAliases_def alias_link_def)
qed

lemma addVulnAliases_ok: "alias_map_ok m \<Longrightarrow> alias_map_ok (addVulnAliases al dl vuln m)"
proof -
  have "alias_map_ok m \<Longrightarrow>
      alias_map_ok (fold (\<lambda>alias m. addToSet (addToSet m k alias) alias k) as m)" for k as
    by (induction as arbitrary: m) auto
  then show "alias_map_ok m \<Longrightarrow> ?thesis" by (simp add: addVulnAliases_def)
qed

lemma alias_link_Cons:
  "alias_link al dl (vuln # vulns) u = alias_link al dl [vuln] u \<union> alias_link al dl vulns u"
  by (auto simp: alias_link_def)

lemma collectAliases_set:
  "set (aliasesOf (collectAliases al dl vulns) u) = alias_link al dl vulns u"
proof -
  have "set (aliasesOf (fold (addVulnAliases al dl) vulns m) u) = set (aliasesOf m u) \<union> alias_link al dl vulns u" for m
  proof (induction vulns arbitrary: m)
    case Nil
    then show ?case by (simp add: alias_link_def)
  next
    case (Cons vuln vulns)
    show ?case
      unfolding fold_Cons comp_apply Cons.IH addVulnAliases_set
        alias_link_Cons [of al dl vuln vulns] by (rule Un_assoc)
  qed
  from this [of "[]"] show ?thesis by (simp add: collectAliases_def aliasesOf_def)
qed

lemma collectAliases_ok: "alias_map_ok (collectAliases al dl vulns)"
proof -
  have "alias_map_ok m \<Longrightarrow> alias_map_ok (fold (addVulnAliases al dl) vulns m)" for m
    by (induction vulns arbitrary: m) (auto intro: addVulnAliases_ok)
  moreover have "alias_map_ok []" by (simp add: alias_map_ok_def aliasesOf_def keys_def)
  ultimately show ?thesis by (simp add: collectAliases_def)
qed

lemma alias_succ_set:
  "iteration_order ord \<Longrightarrow> alias_map_ok m \<Longrightarrow> alias_succ m ord v = set (aliasesOf m v)"
proof -
  assume ord: "iteration_order ord" and "alias_map_ok m"
  then have "distinct (aliasesOf m v)" by (simp add: alias_map_ok_def)
  with ord show ?thesis
    by (cases "map_of m v")
      (simp_all add: alias_succ_def rangeAliases_def aliasesOf_def iteration_orderD)
qed

section \<open>The stored groups and the components\<close>

lemma alias_link_reach_finite: "finite (reach (alias_link al dl vulns) {x})"
proof (rule finite_subset)
  show "reach (alias_link al dl vulns) {x}
      \<subseteq> insert x (v_key ` set vulns \<union> (\<Union>v \<in> set vulns. set (v_alias_raw v)))"
    by (rule reach_closed_subset) (auto simp: alias_link_def)
qed simp

interpretation link_graph: symmetric_graph "alias_link al dl vulns" for al dl vulns
  by unfold_locales (simp_all add: alias_link_sym [symmetric] alias_link_reach_finite)

text \<open>The component of a vulnerability, and whether it becomes a group.\<close>

definition alias_component ::
  "vuln_id list \<Rightarrow> vuln_id list \<Rightarrow> vulnerability list \<Rightarrow> vuln_id \<Rightarrow> vuln_id set" where
  "alias_component al dl vulns v = reach (alias_link al dl vulns) {v}"

definition groupable ::
  "vuln_id list \<Rightarrow> vuln_id list \<Rightarrow> vulnerability list \<Rightarrow> vuln_id \<Rightarrow> bool" where
  "groupable al dl vulns v \<longleftrightarrow>
     1 < card (alias_component al dl vulns v)
     \<and> card (alias_component al dl vulns v) \<le> aliasGroupVulnLimit"

definition group_ids ::
  "vuln_id list \<Rightarrow> vuln_id list \<Rightarrow> vulnerability list \<Rightarrow> vuln_id \<Rightarrow> vuln_id list" where
  "group_ids al dl vulns v = sorted_list_of_set (alias_component al dl vulns v)"

definition alias_closed ::
  "vuln_id list \<Rightarrow> vuln_id list \<Rightarrow> vulnerability list \<Rightarrow> vuln_id set \<Rightarrow> bool" where
  "alias_closed al dl vulns V \<longleftrightarrow> (\<forall>v \<in> V. alias_link al dl vulns v \<subseteq> V)"

lemma group_ids_simps [simp]:
  "set (group_ids al dl vulns v) = alias_component al dl vulns v"
  "length (group_ids al dl vulns v) = card (alias_component al dl vulns v)"
  "distinct (group_ids al dl vulns v)"
  "sorted (group_ids al dl vulns v)"
  by (simp_all add: group_ids_def alias_component_def link_graph.finite_component)

lemma alias_component_self [simp]: "v \<in> alias_component al dl vulns v"
  by (simp add: alias_component_def link_graph.self_component)

lemma group_ids_eq_iff:
  "group_ids al dl vulns v = group_ids al dl vulns w
     \<longleftrightarrow> alias_component al dl vulns v = alias_component al dl vulns w"
  by (metis group_ids_def group_ids_simps(1))

lemma component_subset_closed:
  "alias_closed al dl vulns V \<Longrightarrow> v \<in> V \<Longrightarrow> alias_component al dl vulns v \<subseteq> V"
  unfolding alias_component_def alias_closed_def by (rule link_graph.closed_component) auto

lemma alias_closed_union:
  "alias_closed al dl vulns V \<Longrightarrow> alias_closed al dl vulns (V \<union> alias_component al dl vulns v)"
  unfolding alias_component_def alias_closed_def using link_graph.closed_union by blast

lemma component_of_union:
  "w \<in> alias_component al dl vulns v \<Longrightarrow> alias_component al dl vulns w = alias_component al dl vulns v"
  by (simp add: alias_component_def link_graph.component_eq)

lemma groupable_of_union:
  "w \<in> alias_component al dl vulns v \<Longrightarrow> groupable al dl vulns w = groupable al dl vulns v"
  by (simp add: groupable_def component_of_union)

lemma group_ids_of_union:
  "w \<in> alias_component al dl vulns v \<Longrightarrow> group_ids al dl vulns w = group_ids al dl vulns v"
  by (simp add: group_ids_def component_of_union)

text \<open>What the search of the code returns, in terms of the components.\<close>

lemma computeAliases_component:
  assumes "iteration_order ord" and "m = collectAliases al dl vulns"
    and "alias_closed al dl vulns V" and "v \<notin> V"
  shows "computeAliases m ord v V
    = (group_ids al dl vulns v, V \<union> alias_component al dl vulns v)"
proof -
  have succ: "alias_succ m ord = alias_link al dl vulns"
    using assms(1,2) by (simp add: fun_eq_iff alias_succ_set collectAliases_ok collectAliases_set)
  obtain ids V' where r: "computeAliases m ord v V = (ids, V')" by fastforce
  have "V' = V \<union> reach (alias_link al dl vulns) {v}"
    "ids = sorted_list_of_set (reach (alias_link al dl vulns) {v} - V)"
    using computeAliases_reach [OF assms(4) _ r] assms(3) by (auto simp: succ alias_closed_def)
  moreover have "reach (alias_link al dl vulns) {v} - V = reach (alias_link al dl vulns) {v}"
    using assms(3,4) by (intro link_graph.closed_disjoint) (auto simp: alias_closed_def)
  ultimately show ?thesis
    by (simp add: r group_ids_def alias_component_def)
qed

text \<open>
  The contents \<open>c\<close> of the store agree with the vulnerabilities placed so far: apart from the
  keys \<open>R\<close> still to be looked at, each key holds the group of a component placed, and each
  component placed that makes a group is under exactly one key.
\<close>

definition slots :: "(ds_key \<rightharpoonup> alias_group) \<Rightarrow> ds_key set \<Rightarrow> (ds_key \<times> vuln_id list) set" where
  "slots c R = {(k, ag_vuln_ids g) | k g. c k = Some g \<and> k \<notin> R}"

definition grouped ::
  "vuln_id list \<Rightarrow> vuln_id list \<Rightarrow> vulnerability list \<Rightarrow> vuln_id set \<Rightarrow> ds_key set
     \<Rightarrow> (ds_key \<rightharpoonup> alias_group) \<Rightarrow> bool" where
  "grouped al dl vulns V R c \<longleftrightarrow>
     (\<forall>(k, ids) \<in> slots c R. \<exists>v \<in> V. groupable al dl vulns v \<and> ids = group_ids al dl vulns v)
     \<and> (\<forall>v \<in> V. groupable al dl vulns v \<longrightarrow> (\<exists>!k. (k, group_ids al dl vulns v) \<in> slots c R))"

lemma slots_drop [simp]: "k \<notin> R \<Longrightarrow> slots (c(k := None)) R = slots c (insert k R)"
  by (auto simp: slots_def)

lemma slots_fresh: "c k = None \<Longrightarrow> slots c (insert k R) = slots c R"
  by (auto simp: slots_def)

lemma slots_store [simp]:
  "k \<notin> R \<Longrightarrow> slots (c(k \<mapsto> g)) R = insert (k, ag_vuln_ids g) (slots c (insert k R))"
  by (auto simp: slots_def)

lemma grouped_drop:
  "grouped al dl vulns V (insert k R) c \<Longrightarrow> k \<notin> R \<Longrightarrow> grouped al dl vulns V R (c(k := None))"
  by (simp add: grouped_def)

lemma grouped_fresh:
  "grouped al dl vulns V R c \<Longrightarrow> c k = None \<Longrightarrow> grouped al dl vulns V (insert k R) c"
  by (simp add: grouped_def slots_fresh)

lemma groupedI:
  assumes "\<And>k ids. (k, ids) \<in> slots c R \<Longrightarrow>
      \<exists>v \<in> V. groupable al dl vulns v \<and> ids = group_ids al dl vulns v"
    and "\<And>v. v \<in> V \<Longrightarrow> groupable al dl vulns v \<Longrightarrow>
      \<exists>!k. (k, group_ids al dl vulns v) \<in> slots c R"
  shows "grouped al dl vulns V R c"
  using assms unfolding grouped_def by fast

lemma groupedD:
  assumes "grouped al dl vulns V R c"
  shows "(k, ids) \<in> slots c R \<Longrightarrow>
      \<exists>v \<in> V. groupable al dl vulns v \<and> ids = group_ids al dl vulns v"
    and "v \<in> V \<Longrightarrow> groupable al dl vulns v \<Longrightarrow>
      \<exists>!k. (k, group_ids al dl vulns v) \<in> slots c R"
  using assms unfolding grouped_def by fast+

lemma grouped_ungroupable:
  assumes "grouped al dl vulns V R c" and "\<not> groupable al dl vulns v"
  shows "grouped al dl vulns (V \<union> alias_component al dl vulns v) R c"
proof (rule groupedI)
  show "\<exists>w \<in> V \<union> alias_component al dl vulns v.
      groupable al dl vulns w \<and> ids = group_ids al dl vulns w"
    if "(k, ids) \<in> slots c R" for k ids
    using groupedD(1) [OF assms(1) that] by blast
  show "\<exists>!k. (k, group_ids al dl vulns w) \<in> slots c R"
    if "w \<in> V \<union> alias_component al dl vulns v" "groupable al dl vulns w" for w
  proof (rule groupedD(2) [OF assms(1) _ that(2)])
    show "w \<in> V" using that assms(2) groupable_of_union [of w al dl vulns v] by auto
  qed
qed

lemma grouped_store:
  assumes G: "grouped al dl vulns V (insert k R) c" and "k \<notin> R"
    and closed: "alias_closed al dl vulns V" and "v \<notin> V"
    and v: "groupable al dl vulns v" "ag_vuln_ids g = group_ids al dl vulns v"
  shows "grouped al dl vulns (V \<union> alias_component al dl vulns v) R (c(k \<mapsto> g))"
proof -
  let ?S = "slots c (insert k R)" and ?ids = "group_ids al dl vulns"
  have new: "?ids v \<noteq> ?ids w" if "w \<in> V" for w
    using that closed \<open>v \<notin> V\<close> component_subset_closed [OF closed that]
      alias_component_self [of v al dl vulns] by (auto simp: group_ids_eq_iff)
  have other: "(k', ?ids v) \<notin> ?S" for k'
    using groupedD(1) [OF G] new by metis
  have uniq: "\<exists>!k'. (k', ?ids w) \<in> insert (k, ?ids v) ?S"
    if w: "w \<in> V \<union> alias_component al dl vulns v" "groupable al dl vulns w" for w
  proof (cases "w \<in> V")
    case True
    then have "\<exists>!k'. (k', ?ids w) \<in> ?S" using groupedD(2) [OF G] w(2) by blast
    with new [OF True] show ?thesis by auto
  next
    case False
    with w(1) have "?ids w = ?ids v" by (intro group_ids_of_union) simp
    with other show ?thesis by auto
  qed
  have "\<exists>w \<in> V \<union> alias_component al dl vulns v. groupable al dl vulns w \<and> ids = ?ids w"
    if "(k', ids) \<in> insert (k, ?ids v) ?S" for k' ids
  proof (cases "(k', ids) \<in> ?S")
    case True
    then show ?thesis using groupedD(1) [OF G] by blast
  next
    case False
    with that v(1) show ?thesis by (intro bexI [of _ v]) auto
  qed
  with uniq show ?thesis
    by (intro groupedI) (simp_all only: slots_store [OF \<open>k \<notin> R\<close>] v(2))
qed

section \<open>One round of the rewriting\<close>

lemma aliasCall_success:
  assumes "aliasCall cl op s = (s', None)"
  obtains k where "s' = s\<lparr>as_log := as_log s @ [(op, k)]\<rparr>" and "cl (as_log s) op = Inr k"
  using assms by (auto simp: aliasCall_def call_ds_def split: sum.splits)

lemma setChanged_frame [simp]:
  "as_log (setChanged vs g s) = as_log s" "as_visited (setChanged vs g s) = as_visited s"
  "as_tick (setChanged vs g s) = as_tick s"
  "as_changed (setChanged vs g s) = put_all vs g (as_changed s)"
  by (simp_all add: setChanged_def)

lemma markGone_frame [simp]:
  "as_log (markGone vs s) = as_log s" "as_visited (markGone vs s) = as_visited s"
  "as_tick (markGone vs s) = as_tick s"
  unfolding markGone_def by (induction vs arbitrary: s) auto

lemma markGone_changed [simp]:
  "map_of (as_changed (markGone vs s)) v =
     (case map_of (as_changed s) v of
        Some x \<Rightarrow> Some x
      | None \<Rightarrow> if v \<in> set vs then Some None else None)"
  unfolding markGone_def by (induction vs arbitrary: s) (auto split: option.splits)

lemma markGone_distinct:
  "distinct (keys (as_changed s)) \<Longrightarrow> distinct (keys (as_changed (markGone vs s)))"
  unfolding markGone_def by (induction vs arbitrary: s) auto

text \<open>
  The group each changed vulnerability is recorded with contains it and is in the store,
  under a key that is not looked at again.
\<close>

definition changed_ok :: "(vuln_id \<times> alias_group option) list \<Rightarrow> ds_key set
     \<Rightarrow> (ds_key \<rightharpoonup> alias_group) \<Rightarrow> bool" where
  "changed_ok changed R c \<longleftrightarrow>
     distinct (keys changed)
     \<and> (\<forall>v g. map_of changed v = Some (Some g) \<longrightarrow>
          v \<in> set (ag_vuln_ids g) \<and> distinct (ag_vuln_ids g) \<and> (\<exists>k. k \<notin> R \<and> c k = Some g))"

lemma changed_ok_other:
  "changed_ok changed (insert k R) c \<Longrightarrow> changed_ok changed R (c(k := x))"
  unfolding changed_ok_def by (metis fun_upd_other insertI1 insert_iff)

lemma changed_ok_put_None:
  "changed_ok changed R c \<Longrightarrow> changed_ok (put_all vs None changed) R c"
  unfolding changed_ok_def by auto

lemma changed_ok_put_Some:
  "changed_ok changed R c \<Longrightarrow> distinct (ag_vuln_ids g) \<Longrightarrow> k \<notin> R \<Longrightarrow> c k = Some g
     \<Longrightarrow> changed_ok (put_all (ag_vuln_ids g) (Some g) changed) R c"
  unfolding changed_ok_def by auto

lemma changed_ok_markGone:
  "changed_ok (as_changed s) R c \<Longrightarrow> changed_ok (as_changed (markGone vs s)) R c"
  unfolding changed_ok_def by (auto simp: markGone_distinct split: option.splits if_splits)

lemma changed_ok_fresh:
  "changed_ok changed R c \<Longrightarrow> c k = None \<Longrightarrow> changed_ok changed (insert k R) c"
  unfolding changed_ok_def by (metis insertE option.distinct(1))

text \<open>The invariant of both loops: \<open>R\<close> are the keys of the stored groups still to come.\<close>

definition regroup_inv ::
  "(alias_group ds_log \<Rightarrow> ds_key \<rightharpoonup> alias_group) \<Rightarrow> vuln_id list \<Rightarrow> vuln_id list
     \<Rightarrow> vulnerability list \<Rightarrow> ds_key set \<Rightarrow> alias_state \<Rightarrow> bool" where
  "regroup_inv contents al dl vulns R s \<longleftrightarrow>
     alias_closed al dl vulns (as_visited s)
     \<and> grouped al dl vulns (as_visited s) R (contents (as_log s))
     \<and> changed_ok (as_changed s) R (contents (as_log s))"

lemma regroup_invD:
  assumes "regroup_inv contents al dl vulns R s"
  shows "alias_closed al dl vulns (as_visited s)"
    and "grouped al dl vulns (as_visited s) R (contents (as_log s))"
    and "changed_ok (as_changed s) R (contents (as_log s))"
  using assms by (simp_all add: regroup_inv_def)

lemma updateAliasGroup_inv:
  assumes laws: "datastore_laws contents cl"
    and inv: "regroup_inv contents al dl vulns (insert key R) s"
    and v: "v \<notin> as_visited s" and key: "key \<notin> R" "contents (as_log s) key = Some grp"
    and run: "updateAliasGroup cl clock (group_ids al dl vulns v) key grp
        (s\<lparr>as_visited := as_visited s \<union> alias_component al dl vulns v\<rparr>) = (s', None)"
  shows "regroup_inv contents al dl vulns R s'"
    and "\<And>k. k \<noteq> key \<Longrightarrow> contents (as_log s') k = contents (as_log s) k"
proof -
  let ?s = "s\<lparr>as_visited := as_visited s \<union> alias_component al dl vulns v\<rparr>"
  let ?ids = "group_ids al dl vulns v"
  note closed = regroup_invD(1) [OF inv] and G = regroup_invD(2) [OF inv]
    and C = regroup_invD(3) [OF inv]
  have closed': "alias_closed al dl vulns (as_visited ?s)"
    using alias_closed_union [OF closed] by simp
  have *: "regroup_inv contents al dl vulns R s' \<and>
      (\<forall>k. k \<noteq> key \<longrightarrow> contents (as_log s') k = contents (as_log s) k)"
  proof (cases "groupable al dl vulns v")
    case False
    then have "length ?ids \<le> 1 \<or> length ?ids > aliasGroupVulnLimit"
      by (auto simp: groupable_def)
    with run have "aliasCall cl (DsDelete key) (setChanged ?ids None ?s) = (s', None)"
      by (auto simp: updateAliasGroup_def split: if_splits)
    then obtain k where s': "s' = (setChanged ?ids None ?s)\<lparr>as_log := as_log s @ [(DsDelete key, k)]\<rparr>"
      by (rule aliasCall_success) auto
    have c': "contents (as_log s') = (contents (as_log s))(key := None)"
      by (simp add: s' datastore_lawsD(3) [OF laws])
    then show ?thesis
      using grouped_ungroupable [OF grouped_drop [OF G key(1)] False] closed'
        changed_ok_put_None [OF changed_ok_other [OF C]]
      unfolding regroup_inv_def c' by (simp add: s' del: fun_upd_apply) simp
  next
    case True
    then have len: "\<not> length ?ids \<le> 1" "\<not> length ?ids > aliasGroupVulnLimit"
      by (auto simp: groupable_def)
    show ?thesis
    proof (cases "?ids = ag_vuln_ids grp")
      case eq: True
      with run len have s': "s' = ?s" by (simp add: updateAliasGroup_def)
      have c: "(contents (as_log s))(key \<mapsto> grp) = contents (as_log s)"
        using key(2) by (simp add: fun_upd_idem)
      show ?thesis
        using grouped_store [OF G key(1) closed v True eq [symmetric]] closed'
          changed_ok_other [OF C, of "Some grp"]
        by (simp add: regroup_inv_def s' c)
    next
      case False
      let ?g = "grp\<lparr>ag_vuln_ids := ?ids, ag_modified := clock (as_tick ?s)\<rparr>"
      let ?s1 = "?s\<lparr>as_tick := Suc (as_tick ?s)\<rparr>"
      from run len False obtain s2 where
        call: "aliasCall cl (DsPut key ?g) ?s1 = (s2, None)"
        and s': "s' = setChanged ?ids (Some ?g) s2"
        by (auto simp: updateAliasGroup_def Let_def split: prod.splits option.splits)
      from call obtain k where s2: "s2 = ?s1\<lparr>as_log := as_log s @ [(DsPut key ?g, k)]\<rparr>"
        by (rule aliasCall_success) auto
      have c': "contents (as_log s') = (contents (as_log s))(key \<mapsto> ?g)"
        by (simp add: s' s2 datastore_lawsD(1) [OF laws])
      have "changed_ok (put_all ?ids (Some ?g) (as_changed s)) R ((contents (as_log s))(key \<mapsto> ?g))"
        using changed_ok_put_Some [OF changed_ok_other [OF C], of ?g key "Some ?g"] key(1) by simp
      then show ?thesis
        using grouped_store [OF G key(1) closed v True, of ?g] closed'
        unfolding regroup_inv_def c' by (simp add: s' s2 del: fun_upd_apply) simp
    qed
  qed
  from * show "regroup_inv contents al dl vulns R s'" by blast
  from * show "\<And>k. k \<noteq> key \<Longrightarrow> contents (as_log s') k = contents (as_log s) k" by blast
qed

lemma createAliasGroup_inv:
  assumes laws: "datastore_laws contents cl"
    and inv: "regroup_inv contents al dl vulns {} s"
    and v: "v \<notin> as_visited s"
    and run: "createAliasGroup cl clock (group_ids al dl vulns v)
        (s\<lparr>as_visited := as_visited s \<union> alias_component al dl vulns v\<rparr>) = (s', None)"
  shows "regroup_inv contents al dl vulns {} s'"
    and "as_visited s' = as_visited s \<union> alias_component al dl vulns v"
proof -
  let ?s = "s\<lparr>as_visited := as_visited s \<union> alias_component al dl vulns v\<rparr>"
  let ?ids = "group_ids al dl vulns v"
  note closed = regroup_invD(1) [OF inv] and G = regroup_invD(2) [OF inv]
    and C = regroup_invD(3) [OF inv]
  have closed': "alias_closed al dl vulns (as_visited ?s)"
    using alias_closed_union [OF closed] by simp
  have *: "regroup_inv contents al dl vulns {} s'
      \<and> as_visited s' = as_visited s \<union> alias_component al dl vulns v"
  proof (cases "groupable al dl vulns v")
    case False
    then have "length ?ids \<le> 1 \<or> length ?ids > aliasGroupVulnLimit"
      by (auto simp: groupable_def)
    with run have "s' = ?s" by (auto simp: createAliasGroup_def split: if_splits)
    then show ?thesis
      using grouped_ungroupable [OF G False] closed' C by (simp add: regroup_inv_def)
  next
    case True
    then have len: "\<not> length ?ids \<le> 1" "\<not> length ?ids > aliasGroupVulnLimit"
      by (auto simp: groupable_def)
    let ?g = "\<lparr>ag_vuln_ids = ?ids, ag_modified = clock (as_tick ?s)\<rparr>"
    let ?s1 = "?s\<lparr>as_tick := Suc (as_tick ?s)\<rparr>"
    from run len obtain s2 where
      call: "aliasCall cl (DsCreate ?g) ?s1 = (s2, None)"
      and s': "s' = setChanged ?ids (Some ?g) s2"
      by (auto simp: createAliasGroup_def Let_def split: prod.splits option.splits)
    from call obtain k where s2: "s2 = ?s1\<lparr>as_log := as_log s @ [(DsCreate ?g, k)]\<rparr>"
      and "cl (as_log s) (DsCreate ?g) = Inr k"
      by (rule aliasCall_success) auto
    then have fresh: "contents (as_log s) k = None"
      using datastore_lawsD(4) [OF laws] by blast
    have c': "contents (as_log s') = (contents (as_log s))(k \<mapsto> ?g)"
      by (simp add: s' s2 datastore_lawsD(2) [OF laws])
    have "changed_ok (put_all ?ids (Some ?g) (as_changed s)) {} ((contents (as_log s))(k \<mapsto> ?g))"
      using changed_ok_put_Some [OF changed_ok_other [OF changed_ok_fresh [OF C fresh]], of ?g k "Some ?g"]
      by simp
    then show ?thesis
      using grouped_store [OF grouped_fresh [OF G fresh] _ closed v True, of ?g] closed'
      unfolding regroup_inv_def c' by (simp add: s' s2 del: fun_upd_apply)
  qed
  from * show "regroup_inv contents al dl vulns {} s'"
    and "as_visited s' = as_visited s \<union> alias_component al dl vulns v" by simp_all
qed

section \<open>Whole runs\<close>

definition stored_inv ::
  "(alias_group ds_log \<Rightarrow> ds_key \<rightharpoonup> alias_group) \<Rightarrow> vuln_id list \<Rightarrow> vuln_id list
     \<Rightarrow> vulnerability list \<Rightarrow> (ds_key \<times> alias_group) list \<Rightarrow> alias_state \<Rightarrow> bool" where
  "stored_inv contents al dl vulns rem s \<longleftrightarrow>
     regroup_inv contents al dl vulns (fst ` set rem) s
     \<and> distinct (map fst rem)
     \<and> (\<forall>(k, g) \<in> set rem. contents (as_log s) k = Some g)"

lemma regroupStored_inv:
  assumes laws: "datastore_laws contents cl" and ord: "iteration_order ord"
    and inv: "stored_inv contents al dl vulns ((key, grp) # rem) s"
    and run: "regroupStored cl clock (collectAliases al dl vulns) ord (key, grp) s = (s', None)"
  shows "stored_inv contents al dl vulns rem s'"
proof -
  let ?R = "fst ` set rem"
  from inv have I: "regroup_inv contents al dl vulns (insert key ?R) s"
    and key: "key \<notin> ?R" "contents (as_log s) key = Some grp"
    and rem: "distinct (map fst rem)" "\<forall>(k, g) \<in> set rem. contents (as_log s) k = Some g"
    by (auto simp: stored_inv_def)
  from run obtain v vs where ids: "ag_vuln_ids grp = v # vs"
    by (cases "ag_vuln_ids grp") (auto simp: regroupStored_def)
  have *: "regroup_inv contents al dl vulns ?R s' \<and>
      (\<forall>k. k \<noteq> key \<longrightarrow> contents (as_log s') k = contents (as_log s) k)"
  proof (cases "v \<in> as_visited s")
    case True
    with run ids have "aliasCall cl (DsDelete key) (markGone (ag_vuln_ids grp) s) = (s', None)"
      by (simp add: regroupStored_def)
    then obtain k where
      s': "s' = (markGone (ag_vuln_ids grp) s)\<lparr>as_log := as_log s @ [(DsDelete key, k)]\<rparr>"
      by (rule aliasCall_success) auto
    have c': "contents (as_log s') = (contents (as_log s))(key := None)"
      by (simp add: s' datastore_lawsD(3) [OF laws])
    show ?thesis
      using grouped_drop [OF regroup_invD(2) [OF I] key(1)] regroup_invD(1) [OF I]
        changed_ok_other [OF changed_ok_markGone [OF regroup_invD(3) [OF I]]]
      unfolding regroup_inv_def c' by (simp add: s' del: fun_upd_apply) simp
  next
    case False
    have "computeAliases (collectAliases al dl vulns) ord v (as_visited s)
        = (group_ids al dl vulns v, as_visited s \<union> alias_component al dl vulns v)"
      using computeAliases_component [OF ord refl regroup_invD(1) [OF I] False] .
    with run ids False have "updateAliasGroup cl clock (group_ids al dl vulns v) key grp
        (s\<lparr>as_visited := as_visited s \<union> alias_component al dl vulns v\<rparr>) = (s', None)"
      by (simp add: regroupStored_def)
    from updateAliasGroup_inv [OF laws I False key this] show ?thesis by blast
  qed
  moreover have "k \<noteq> key" if "(k, g) \<in> set rem" for k g
    using key(1) that by force
  ultimately show ?thesis
    using rem by (auto simp: stored_inv_def)
qed

lemma groupRemaining_inv:
  assumes laws: "datastore_laws contents cl" and ord: "iteration_order ord"
    and inv: "regroup_inv contents al dl vulns {} s"
    and run: "groupRemaining cl clock (collectAliases al dl vulns) ord v s = (s', None)"
  shows "regroup_inv contents al dl vulns {} s'"
    and "as_visited s \<subseteq> as_visited s'" and "v \<in> as_visited s'"
proof -
  have "regroup_inv contents al dl vulns {} s' \<and> as_visited s \<subseteq> as_visited s' \<and> v \<in> as_visited s'"
  proof (cases "v \<in> as_visited s")
    case True
    with run inv show ?thesis by (simp add: groupRemaining_def)
  next
    case False
    with run computeAliases_component [OF ord refl regroup_invD(1) [OF inv] False]
    have "createAliasGroup cl clock (group_ids al dl vulns v)
        (s\<lparr>as_visited := as_visited s \<union> alias_component al dl vulns v\<rparr>) = (s', None)"
      by (simp add: groupRemaining_def)
    from createAliasGroup_inv [OF laws inv False this] show ?thesis by simp
  qed
  then show "regroup_inv contents al dl vulns {} s'" "as_visited s \<subseteq> as_visited s'"
    "v \<in> as_visited s'" by simp_all
qed

lemma ComputeAliasGroups_success:
  assumes "ar_error (ComputeAliasGroups cl clock ord ae de vulns groups) = None"
  obtains al dl s1 s2 sent tick where
    "ae = Inr al" "de = Inr dl" "snd vulns = None" "snd groups = None"
    "for_each (regroupStored cl clock (collectAliases al dl (fst vulns)) ord) (fst groups)
        \<lparr>as_log = [], as_tick = 0, as_visited = {}, as_changed = []\<rparr> = (s1, None)"
    "for_each (groupRemaining cl clock (collectAliases al dl (fst vulns)) ord)
        (ord (keys (collectAliases al dl (fst vulns)))) s1 = (s2, None)"
    "for_each (sendAliasUpdate clock (map_of (as_changed s2)))
        (ord (keys (as_changed s2))) ([], as_tick s2) = ((sent, tick), None)"
    "ComputeAliasGroups cl clock ord ae de vulns groups
       = \<lparr>ar_sent = sent, ar_log = as_log s2, ar_error = None\<rparr>"
  using assms
  by (auto simp: ComputeAliasGroups_def Let_def split: sum.splits option.splits prod.splits)

lemma groupable_in_keys:
  assumes "groupable al dl vulns v"
  shows "v \<in> set (keys (collectAliases al dl vulns))"
proof -
  have "alias_link al dl vulns v \<noteq> {}"
  proof
    assume "alias_link al dl vulns v = {}"
    then have "alias_component al dl vulns v \<subseteq> {v}"
      unfolding alias_component_def by (intro reach_closed_subset) auto
    then have "alias_component al dl vulns v = {v}" by auto
    with assms show False by (simp add: groupable_def)
  qed
  then have "aliasesOf (collectAliases al dl vulns) v \<noteq> []"
    using collectAliases_set [of al dl vulns v] by auto
  then show ?thesis by (auto simp: aliasesOf_def split: option.splits)
qed

lemma stored_inv_start:
  assumes init: "contents [] = map_of groups" "distinct (map fst groups)"
  shows "stored_inv contents al dl vulns groups
      \<lparr>as_log = [], as_tick = 0, as_visited = {}, as_changed = []\<rparr>"
  using init
  by (auto simp: stored_inv_def regroup_inv_def alias_closed_def changed_ok_def keys_def
      intro!: groupedI dest: map_of_SomeD)
    (force simp: slots_def dest: map_of_SomeD)

text \<open>After both loops the store holds exactly the components that make a group.\<close>

lemma both_loops_inv:
  assumes laws: "datastore_laws contents cl" and ord: "iteration_order ord"
    and init: "contents [] = map_of groups" "distinct (map fst groups)"
    and run1: "for_each (regroupStored cl clock (collectAliases al dl vulns) ord) groups
        \<lparr>as_log = [], as_tick = 0, as_visited = {}, as_changed = []\<rparr> = (s1, None)"
    and run2: "for_each (groupRemaining cl clock (collectAliases al dl vulns) ord)
        (ord (keys (collectAliases al dl vulns))) s1 = (s2, None)"
  shows "regroup_inv contents al dl vulns {} s2"
    and "groupable al dl vulns v \<Longrightarrow> v \<in> as_visited s2"
proof -
  let ?m = "collectAliases al dl vulns"
  have "stored_inv contents al dl vulns groups
      \<lparr>as_log = [], as_tick = 0, as_visited = {}, as_changed = []\<rparr>"
    using init by (rule stored_inv_start)
  from for_each_success [OF run1, of "stored_inv contents al dl vulns", OF this]
  have "stored_inv contents al dl vulns [] s1"
    using regroupStored_inv [OF laws ord] by (metis prod.collapse)
  then have start: "regroup_inv contents al dl vulns {} s1" by (simp add: stored_inv_def)
  define I where "I = (\<lambda>rem s. regroup_inv contents al dl vulns {} s
      \<and> set (keys ?m) \<subseteq> as_visited s \<union> set rem)"
  have "I [] s2"
  proof (rule for_each_success [OF run2])
    show "I (ord (keys ?m)) s1"
      using start iteration_orderD(2) [OF ord, of "keys ?m"] collectAliases_ok [of al dl vulns]
      by (simp add: I_def alias_map_ok_def)
    show "I ys t"
      if "I (x # ys) s" "groupRemaining cl clock ?m ord x s = (t, None)" for x ys s t
      using groupRemaining_inv [OF laws ord _ that(2)] that(1) unfolding I_def by auto
  qed
  then show "regroup_inv contents al dl vulns {} s2" by (simp add: I_def)
  show "v \<in> as_visited s2" if "groupable al dl vulns v"
    using groupable_in_keys [OF that] \<open>I [] s2\<close> by (auto simp: I_def)
qed

text \<open>The updates that are sent, one for each changed vulnerability.\<close>

definition update_of :: "(vuln_id \<rightharpoonup> alias_group option) \<Rightarrow> update \<Rightarrow> bool" where
  "update_of changed u \<longleftrightarrow>
     u_field u = FieldAlias
     \<and> (case changed (u_id u) of
          Some (Some g) \<Rightarrow>
            u_value u = remove1 (u_id u) (ag_vuln_ids g) \<and> u_timestamp u = ag_modified g
        | _ \<Rightarrow> u_value u = [])"

lemma sendAliasUpdate_ok:
  assumes "changed_ok changed R c" and "v \<in> set (keys changed)"
  shows "\<exists>u tick'. sendAliasUpdate clock (map_of changed) v (sent, tick) = ((sent @ [u], tick'), None)
      \<and> u_id u = v \<and> update_of (map_of changed) u"
proof -
  from assms(2) obtain x where x: "map_of changed v = Some x" by auto
  show ?thesis
  proof (cases x)
    case None
    with x show ?thesis by (simp add: sendAliasUpdate_def updateVulnWithAliasGroup_def update_of_def)
  next
    case (Some g)
    with assms(1) x have "v \<in> set (ag_vuln_ids g)" by (auto simp: changed_ok_def)
    from slices_delete_index [OF this] x Some show ?thesis
      by (simp add: sendAliasUpdate_def updateVulnWithAliasGroup_def update_of_def Let_def)
  qed
qed

lemma sendAliasUpdates:
  assumes C: "changed_ok changed R c" and "set vs \<subseteq> set (keys changed)"
  shows "\<exists>us tick'. for_each (sendAliasUpdate clock (map_of changed)) vs (sent, tick)
       = ((sent @ us, tick'), None)
     \<and> map u_id us = vs \<and> (\<forall>u \<in> set us. update_of (map_of changed) u)"
  using assms(2)
proof (induction vs arbitrary: sent tick)
  case Nil
  then show ?case by simp
next
  case (Cons v vs)
  then have "v \<in> set (keys changed)" by simp
  from sendAliasUpdate_ok [OF C this, of clock sent tick] obtain u t where
    u: "sendAliasUpdate clock (map_of changed) v (sent, tick) = ((sent @ [u], t), None)"
      "u_id u = v" "update_of (map_of changed) u"
    by blast
  from Cons.prems have "set vs \<subseteq> set (keys changed)" by simp
  from Cons.IH [OF this, of "sent @ [u]" t] obtain us t' where
    "for_each (sendAliasUpdate clock (map_of changed)) vs (sent @ [u], t) = ((sent @ [u] @ us, t'), None)"
    "map u_id us = vs" "\<forall>u \<in> set us. update_of (map_of changed) u"
    by auto
  with u show ?case by (intro exI [of _ "u # us"] exI [of _ t']) simp
qed

section \<open>Properties\<close>

text \<open>
  From a vulnerability that is not placed yet, the search returns exactly the
  vulnerabilities connected to it by alias links, sorted and without repetition, and marks
  exactly these as placed, whatever the order in which the alias sets are ranged over.
\<close>

theorem computeAliases_finds_component:
  assumes "iteration_order ord" and "v \<notin> V"
    and "\<forall>x \<in> V. alias_link al dl vulns x \<subseteq> V"
  shows "computeAliases (collectAliases al dl vulns) ord v V
    = (sorted_list_of_set {w. (v, w) \<in> {(a, b). b \<in> alias_link al dl vulns a}\<^sup>*},
       V \<union> {w. (v, w) \<in> {(a, b). b \<in> alias_link al dl vulns a}\<^sup>*})"
proof -
  have "alias_component al dl vulns v = {w. (v, w) \<in> {(a, b). b \<in> alias_link al dl vulns a}\<^sup>*}"
    by (auto simp: alias_component_def reach_def edge_rel_def)
  with computeAliases_component [OF assms(1) refl _ assms(2), of al dl vulns] assms(3)
  show ?thesis by (simp add: alias_closed_def group_ids_def)
qed

definition ex_vuln :: "string \<Rightarrow> vuln_id list \<Rightarrow> vulnerability" where
  "ex_vuln k as = \<lparr>v_key = k, v_source_id = '''', v_modified = 0, v_is_withdrawn = False,
     v_modified_raw = 0, v_alias_raw = as, v_related_raw = [], v_upstream_raw = []\<rparr>"

theorem computeAliases_finds_component_witness:
  "computeAliases (collectAliases [] [] [ex_vuln ''A'' [''B''], ex_vuln ''C'' [''B'']]) id ''A'' {}
    = (sorted_list_of_set {w. (''A'', w)
         \<in> {(a, b). b \<in> alias_link [] [] [ex_vuln ''A'' [''B''], ex_vuln ''C'' [''B'']] a}\<^sup>*},
       {} \<union> {w. (''A'', w)
         \<in> {(a, b). b \<in> alias_link [] [] [ex_vuln ''A'' [''B''], ex_vuln ''C'' [''B'']] a}\<^sup>*})"
  by (rule computeAliases_finds_component) (simp_all add: iteration_order_id)

lemma ComputeAliasGroups_grouped:
  assumes "datastore_laws contents cl" and "iteration_order ord"
    and "contents [] = map_of groups" and "distinct (map fst groups)"
    and "ar_error (ComputeAliasGroups cl clock ord (Inr al) (Inr dl) (vulns, None) (groups, None)) = None"
    and "final = contents (ar_log (ComputeAliasGroups cl clock ord (Inr al) (Inr dl) (vulns, None) (groups, None)))"
  shows "(\<forall>k g. final k = Some g \<longrightarrow>
        (\<exists>v. groupable al dl vulns v \<and> ag_vuln_ids g = sorted_list_of_set (alias_component al dl vulns v)))
    \<and> (\<forall>v. groupable al dl vulns v \<longrightarrow>
        (\<exists>!k. \<exists>g. final k = Some g \<and> ag_vuln_ids g = sorted_list_of_set (alias_component al dl vulns v)))"
proof -
  from assms(5) obtain s1 s2 where
    run: "for_each (regroupStored cl clock (collectAliases al dl vulns) ord) groups
        \<lparr>as_log = [], as_tick = 0, as_visited = {}, as_changed = []\<rparr> = (s1, None)"
      "for_each (groupRemaining cl clock (collectAliases al dl vulns) ord)
        (ord (keys (collectAliases al dl vulns))) s1 = (s2, None)"
    and final: "final = contents (as_log s2)"
    using assms(6) by (elim ComputeAliasGroups_success) auto
  note inv = both_loops_inv [OF assms(1-4) run]
  note G = groupedD [OF regroup_invD(2) [OF inv(1)]]
  have slots: "(k, ids) \<in> slots final {} \<longleftrightarrow> (\<exists>g. final k = Some g \<and> ag_vuln_ids g = ids)" for k ids
    by (auto simp: slots_def)
  show ?thesis
  proof (intro conjI allI impI)
    fix k g
    assume "final k = Some g"
    then have "(k, ag_vuln_ids g) \<in> slots final {}" by (auto simp: slots)
    from G(1) [OF this [unfolded final]] show
      "\<exists>v. groupable al dl vulns v \<and> ag_vuln_ids g = sorted_list_of_set (alias_component al dl vulns v)"
      by (auto simp: group_ids_def)
  next
    fix v
    assume v: "groupable al dl vulns v"
    from G(2) [OF inv(2) [OF v] v] have "\<exists>!k. (k, group_ids al dl vulns v) \<in> slots final {}"
      by (simp add: final)
    then show "\<exists>!k. \<exists>g. final k = Some g
        \<and> ag_vuln_ids g = sorted_list_of_set (alias_component al dl vulns v)"
      by (simp only: slots group_ids_def)
  qed
qed

text \<open>
  C1: A run that no datastore call stops leaves in the store exactly the connected
  components of the alias graph that have between 2 and 32 members: every stored group is
  one of them, sorted, and each of them is stored under exactly one key. Groups that were
  stored before are rewritten, merged or deleted to get there.
\<close>

theorem ComputeAliasGroups_stores_components:
  assumes "datastore_laws contents cl" and "iteration_order ord"
    and "contents [] = map_of groups" and "distinct (map fst groups)"
    and "ar_error (ComputeAliasGroups cl clock ord (Inr al) (Inr dl) (vulns, None) (groups, None)) = None"
    and "final = contents (ar_log (ComputeAliasGroups cl clock ord (Inr al) (Inr dl) (vulns, None) (groups, None)))"
  shows "(\<forall>k g. final k = Some g \<longrightarrow>
        (\<exists>v. groupable al dl vulns v \<and> ag_vuln_ids g = sorted_list_of_set (alias_component al dl vulns v)))
    \<and> (\<forall>v. groupable al dl vulns v \<longrightarrow>
        (\<exists>!k. \<exists>g. final k = Some g \<and> ag_vuln_ids g = sorted_list_of_set (alias_component al dl vulns v)))"
  by (rule ComputeAliasGroups_grouped [OF assms])

section \<open>What the updates say of the store\<close>

text \<open>
  Every group that the run wrote, under a key that is not looked at again, is the one its
  members are recorded with.
\<close>

definition written ::
  "(alias_group ds_log \<Rightarrow> ds_key \<rightharpoonup> alias_group) \<Rightarrow> ds_key set \<Rightarrow> alias_state \<Rightarrow> bool" where
  "written contents R s \<longleftrightarrow>
     (\<forall>k g v. k \<notin> R \<longrightarrow> contents (as_log s) k = Some g \<longrightarrow> contents [] k \<noteq> Some g
        \<longrightarrow> v \<in> set (ag_vuln_ids g) \<longrightarrow> map_of (as_changed s) v = Some (Some g))"

lemma writtenD:
  "written contents R s \<Longrightarrow> k \<notin> R \<Longrightarrow> contents (as_log s) k = Some g
     \<Longrightarrow> contents [] k \<noteq> Some g \<Longrightarrow> v \<in> set (ag_vuln_ids g)
     \<Longrightarrow> map_of (as_changed s) v = Some (Some g)"
  by (simp add: written_def)

lemma changed_okD:
  assumes "changed_ok changed R c" and "map_of changed v = Some (Some g)"
  shows "v \<in> set (ag_vuln_ids g)" and "\<exists>k. c k = Some g"
  using assms unfolding changed_ok_def by blast+

lemma group_member_placed:
  assumes "grouped al dl vulns V R c" and "alias_closed al dl vulns V"
    and "k \<notin> R" and "c k = Some g" and "v \<in> set (ag_vuln_ids g)"
  shows "v \<in> V"
proof -
  have "(k, ag_vuln_ids g) \<in> slots c R" using assms(3,4) by (auto simp: slots_def)
  from groupedD(1) [OF assms(1) this] obtain w where
    "w \<in> V" "ag_vuln_ids g = group_ids al dl vulns w" by blast
  with assms(5) component_subset_closed [OF assms(2)] show ?thesis by auto
qed

lemma component_not_placed:
  assumes "alias_closed al dl vulns V" and "v \<notin> V" and "w \<in> V"
  shows "w \<notin> alias_component al dl vulns v"
proof
  assume "w \<in> alias_component al dl vulns v"
  from component_of_union [OF this] alias_component_self [of v al dl vulns]
  have "v \<in> alias_component al dl vulns w" by simp
  with component_subset_closed [OF assms(1,3)] assms(2) show False by auto
qed

lemma written_delete:
  assumes "written contents (insert key R) s"
    and "contents (as_log s') = (contents (as_log s))(key := None)"
    and "\<And>v g. map_of (as_changed s) v = Some (Some g) \<Longrightarrow> v \<in> V
      \<Longrightarrow> map_of (as_changed s') v = Some (Some g)"
    and "\<And>k g v. k \<notin> insert key R \<Longrightarrow> contents (as_log s) k = Some g \<Longrightarrow> v \<in> set (ag_vuln_ids g)
      \<Longrightarrow> v \<in> V"
  shows "written contents R s'"
  unfolding written_def
proof (intro allI impI)
  fix k g v
  assume k: "k \<notin> R" "contents (as_log s') k = Some g" and g: "contents [] k \<noteq> Some g"
    and v: "v \<in> set (ag_vuln_ids g)"
  then have k': "k \<notin> insert key R" "contents (as_log s) k = Some g"
    by (auto simp: assms(2) split: if_splits)
  from writtenD [OF assms(1) this g v] assms(3) assms(4) [OF k' v]
  show "map_of (as_changed s') v = Some (Some g)" by blast
qed

lemma written_store:
  assumes "written contents (insert key R) s"
    and "contents (as_log s') = (contents (as_log s))(key \<mapsto> h)"
    and "as_changed s' = put_all (ag_vuln_ids h) (Some h) (as_changed s)"
    and "\<And>k g v. k \<notin> insert key R \<Longrightarrow> contents (as_log s) k = Some g \<Longrightarrow> v \<in> set (ag_vuln_ids g)
      \<Longrightarrow> v \<notin> set (ag_vuln_ids h)"
  shows "written contents R s'"
  unfolding written_def
proof (intro allI impI)
  fix k g v
  assume k: "k \<notin> R" "contents (as_log s') k = Some g" and g: "contents [] k \<noteq> Some g"
    and v: "v \<in> set (ag_vuln_ids g)"
  show "map_of (as_changed s') v = Some (Some g)"
  proof (cases "k = key")
    case True
    with k(2) v show ?thesis by (simp add: assms(2,3))
  next
    case False
    with k have k': "k \<notin> insert key R" "contents (as_log s) k = Some g" by (auto simp: assms(2))
    from writtenD [OF assms(1) this g v] assms(4) [OF k' v] show ?thesis by (simp add: assms(3))
  qed
qed

lemma written_fresh:
  "written contents R s \<Longrightarrow> contents (as_log s) k = None \<Longrightarrow> written contents (insert k R) s"
  unfolding written_def by blast

lemma written_keep:
  assumes "written contents (insert key R) s" and "contents [] key = contents (as_log s) key"
    and "as_log s' = as_log s" and "as_changed s' = as_changed s"
  shows "written contents R s'"
  unfolding written_def
proof (intro allI impI)
  fix k g v
  assume "k \<notin> R" "contents (as_log s') k = Some g" "contents [] k \<noteq> Some g"
    and v: "v \<in> set (ag_vuln_ids g)"
  then have "k \<notin> insert key R" "contents (as_log s) k = Some g" "contents [] k \<noteq> Some g"
    using assms(2,3) by auto
  from writtenD [OF assms(1) this v] show "map_of (as_changed s') v = Some (Some g)"
    by (simp add: assms(4))
qed

lemma updateAliasGroup_written:
  assumes laws: "datastore_laws contents cl"
    and inv: "regroup_inv contents al dl vulns (insert key R) s"
    and W: "written contents (insert key R) s"
    and v: "v \<notin> as_visited s" and key: "contents [] key = Some grp" "contents (as_log s) key = Some grp"
    and run: "updateAliasGroup cl clock (group_ids al dl vulns v) key grp
        (s\<lparr>as_visited := as_visited s \<union> alias_component al dl vulns v\<rparr>) = (s', None)"
  shows "written contents R s'"
proof -
  let ?s = "s\<lparr>as_visited := as_visited s \<union> alias_component al dl vulns v\<rparr>"
  let ?ids = "group_ids al dl vulns v"
  note closed = regroup_invD(1) [OF inv] and G = regroup_invD(2) [OF inv]
  note placed = group_member_placed [OF G closed]
  note new = component_not_placed [OF closed v]
  show ?thesis
  proof (cases "length ?ids \<le> 1 \<or> length ?ids > aliasGroupVulnLimit")
    case True
    with run have "aliasCall cl (DsDelete key) (setChanged ?ids None ?s) = (s', None)"
      by (auto simp: updateAliasGroup_def split: if_splits)
    then obtain k where s': "s' = (setChanged ?ids None ?s)\<lparr>as_log := as_log s @ [(DsDelete key, k)]\<rparr>"
      by (rule aliasCall_success) auto
    show ?thesis
      by (rule written_delete [OF W, of _ "as_visited s"])
        (use new placed in \<open>auto simp: s' datastore_lawsD(3) [OF laws]\<close>)
  next
    case len: False
    show ?thesis
    proof (cases "?ids = ag_vuln_ids grp")
      case True
      with run len have "s' = ?s" by (simp add: updateAliasGroup_def)
      with key show ?thesis by (intro written_keep [OF W]) simp_all
    next
      case False
      let ?g = "grp\<lparr>ag_vuln_ids := ?ids, ag_modified := clock (as_tick ?s)\<rparr>"
      let ?s1 = "?s\<lparr>as_tick := Suc (as_tick ?s)\<rparr>"
      from run len False obtain s2 where
        call: "aliasCall cl (DsPut key ?g) ?s1 = (s2, None)"
        and s': "s' = setChanged ?ids (Some ?g) s2"
        by (auto simp: updateAliasGroup_def Let_def split: prod.splits option.splits)
      from call obtain k where s2: "s2 = ?s1\<lparr>as_log := as_log s @ [(DsPut key ?g, k)]\<rparr>"
        by (rule aliasCall_success) auto
      show ?thesis
        by (rule written_store [OF W, of _ ?g])
          (use new placed in \<open>auto simp: s' s2 datastore_lawsD(1) [OF laws]\<close>)
    qed
  qed
qed

lemma createAliasGroup_written:
  assumes laws: "datastore_laws contents cl"
    and inv: "regroup_inv contents al dl vulns {} s" and W: "written contents {} s"
    and v: "v \<notin> as_visited s"
    and run: "createAliasGroup cl clock (group_ids al dl vulns v)
        (s\<lparr>as_visited := as_visited s \<union> alias_component al dl vulns v\<rparr>) = (s', None)"
  shows "written contents {} s'"
proof -
  let ?s = "s\<lparr>as_visited := as_visited s \<union> alias_component al dl vulns v\<rparr>"
  let ?ids = "group_ids al dl vulns v"
  note closed = regroup_invD(1) [OF inv] and G = regroup_invD(2) [OF inv]
  note placed = group_member_placed [OF G closed]
  note new = component_not_placed [OF closed v]
  show ?thesis
  proof (cases "length ?ids \<le> 1 \<or> length ?ids > aliasGroupVulnLimit")
    case True
    with run have "s' = ?s" by (auto simp: createAliasGroup_def split: if_splits)
    with W show ?thesis by (simp add: written_def)
  next
    case False
    let ?g = "\<lparr>ag_vuln_ids = ?ids, ag_modified = clock (as_tick ?s)\<rparr>"
    let ?s1 = "?s\<lparr>as_tick := Suc (as_tick ?s)\<rparr>"
    from run False obtain s2 where
      call: "aliasCall cl (DsCreate ?g) ?s1 = (s2, None)"
      and s': "s' = setChanged ?ids (Some ?g) s2"
      by (auto simp: createAliasGroup_def Let_def split: prod.splits option.splits)
    from call obtain k where s2: "s2 = ?s1\<lparr>as_log := as_log s @ [(DsCreate ?g, k)]\<rparr>"
      and "cl (as_log s) (DsCreate ?g) = Inr k"
      by (rule aliasCall_success) auto
    then have "contents (as_log s) k = None"
      using datastore_lawsD(4) [OF laws] by blast
    note F = written_fresh [OF W this]
    show ?thesis
      by (rule written_store [OF F, of _ ?g])
        (use new placed in \<open>auto simp: s' s2 datastore_lawsD(2) [OF laws]\<close>)
  qed
qed


text \<open>Both invariants through the two loops.\<close>

definition run_inv ::
  "(alias_group ds_log \<Rightarrow> ds_key \<rightharpoonup> alias_group) \<Rightarrow> vuln_id list \<Rightarrow> vuln_id list
     \<Rightarrow> vulnerability list \<Rightarrow> (ds_key \<times> alias_group) list \<Rightarrow> alias_state \<Rightarrow> bool" where
  "run_inv contents al dl vulns rem s \<longleftrightarrow>
     stored_inv contents al dl vulns rem s \<and> written contents (fst ` set rem) s
     \<and> (\<forall>(k, g) \<in> set rem. contents [] k = Some g)"

lemma regroupStored_written:
  assumes laws: "datastore_laws contents cl" and ord: "iteration_order ord"
    and inv: "run_inv contents al dl vulns ((key, grp) # rem) s"
    and run: "regroupStored cl clock (collectAliases al dl vulns) ord (key, grp) s = (s', None)"
  shows "written contents (fst ` set rem) s'"
proof -
  let ?R = "fst ` set rem"
  from inv have I: "regroup_inv contents al dl vulns (insert key ?R) s"
    and W: "written contents (insert key ?R) s"
    and key: "contents [] key = Some grp" "contents (as_log s) key = Some grp"
    by (auto simp: run_inv_def stored_inv_def)
  from run obtain v vs where ids: "ag_vuln_ids grp = v # vs"
    by (cases "ag_vuln_ids grp") (auto simp: regroupStored_def)
  show ?thesis
  proof (cases "v \<in> as_visited s")
    case True
    with run ids have "aliasCall cl (DsDelete key) (markGone (ag_vuln_ids grp) s) = (s', None)"
      by (simp add: regroupStored_def)
    then obtain k where
      s': "s' = (markGone (ag_vuln_ids grp) s)\<lparr>as_log := as_log s @ [(DsDelete key, k)]\<rparr>"
      by (rule aliasCall_success) auto
    show ?thesis
      by (rule written_delete [OF W, of _ UNIV])
        (simp_all add: s' datastore_lawsD(3) [OF laws])
  next
    case False
    have "computeAliases (collectAliases al dl vulns) ord v (as_visited s)
        = (group_ids al dl vulns v, as_visited s \<union> alias_component al dl vulns v)"
      using computeAliases_component [OF ord refl regroup_invD(1) [OF I] False] .
    with run ids False have "updateAliasGroup cl clock (group_ids al dl vulns v) key grp
        (s\<lparr>as_visited := as_visited s \<union> alias_component al dl vulns v\<rparr>) = (s', None)"
      by (simp add: regroupStored_def)
    from updateAliasGroup_written [OF laws I W False key this] show ?thesis .
  qed
qed

lemma groupRemaining_written:
  assumes laws: "datastore_laws contents cl" and ord: "iteration_order ord"
    and inv: "regroup_inv contents al dl vulns {} s" and W: "written contents {} s"
    and run: "groupRemaining cl clock (collectAliases al dl vulns) ord v s = (s', None)"
  shows "written contents {} s'"
proof (cases "v \<in> as_visited s")
  case True
  with run W show ?thesis by (simp add: groupRemaining_def)
next
  case False
  with run computeAliases_component [OF ord refl regroup_invD(1) [OF inv] False]
  have "createAliasGroup cl clock (group_ids al dl vulns v)
      (s\<lparr>as_visited := as_visited s \<union> alias_component al dl vulns v\<rparr>) = (s', None)"
    by (simp add: groupRemaining_def)
  from createAliasGroup_written [OF laws inv W False this] show ?thesis .
qed

lemma run_inv_start:
  assumes init: "contents [] = map_of groups" "distinct (map fst groups)"
  shows "run_inv contents al dl vulns groups
      \<lparr>as_log = [], as_tick = 0, as_visited = {}, as_changed = []\<rparr>"
proof -
  have "stored_inv contents al dl vulns groups
      \<lparr>as_log = [], as_tick = 0, as_visited = {}, as_changed = []\<rparr>"
    using init by (rule stored_inv_start)
  then show ?thesis
    using init by (auto simp: run_inv_def written_def)
qed

lemma both_loops_written:
  assumes laws: "datastore_laws contents cl" and ord: "iteration_order ord"
    and init: "contents [] = map_of groups" "distinct (map fst groups)"
    and run1: "for_each (regroupStored cl clock (collectAliases al dl vulns) ord) groups
        \<lparr>as_log = [], as_tick = 0, as_visited = {}, as_changed = []\<rparr> = (s1, None)"
    and run2: "for_each (groupRemaining cl clock (collectAliases al dl vulns) ord)
        (ord (keys (collectAliases al dl vulns))) s1 = (s2, None)"
  shows "written contents {} s2"
proof -
  have s0: "run_inv contents al dl vulns groups
      \<lparr>as_log = [], as_tick = 0, as_visited = {}, as_changed = []\<rparr>"
    using init by (rule run_inv_start)
  have "run_inv contents al dl vulns [] s1"
  proof (rule for_each_success [OF run1, of "run_inv contents al dl vulns", OF s0])
    fix x rem s t
    assume I: "run_inv contents al dl vulns (x # rem) s"
      and r: "regroupStored cl clock (collectAliases al dl vulns) ord x s = (t, None)"
    obtain key grp where x: "x = (key, grp)" by fastforce
    show "run_inv contents al dl vulns rem t"
      using regroupStored_inv [OF laws ord _ r [unfolded x]] I
        regroupStored_written [OF laws ord _ r [unfolded x]]
      by (simp add: run_inv_def x)
  qed
  then have start: "regroup_inv contents al dl vulns {} s1" "written contents {} s1"
    by (simp_all add: run_inv_def stored_inv_def)
  show ?thesis
  proof (rule conjunct2, rule for_each_success
      [OF run2, of "\<lambda>_ s. regroup_inv contents al dl vulns {} s \<and> written contents {} s"])
    show "regroup_inv contents al dl vulns {} s1 \<and> written contents {} s1" using start ..
  next
    fix x ys s t
    assume I: "regroup_inv contents al dl vulns {} s \<and> written contents {} s"
      and r: "groupRemaining cl clock (collectAliases al dl vulns) ord x s = (t, None)"
    show "regroup_inv contents al dl vulns {} t \<and> written contents {} t"
      using groupRemaining_inv(1) [OF laws ord conjunct1 [OF I] r]
        groupRemaining_written [OF laws ord conjunct1 [OF I] conjunct2 [OF I] r] ..
  qed
qed


text \<open>What a run that nothing stopped sends.\<close>

lemma ComputeAliasGroups_sends:
  assumes laws: "datastore_laws contents cl" and ord: "iteration_order ord"
    and init: "contents [] = map_of groups" "distinct (map fst groups)"
    and ok: "ar_error (ComputeAliasGroups cl clock ord (Inr al) (Inr dl) (vulns, None) (groups, None)) = None"
    and r: "r = ComputeAliasGroups cl clock ord (Inr al) (Inr dl) (vulns, None) (groups, None)"
  obtains s where "ar_log r = as_log s" and "regroup_inv contents al dl vulns {} s"
    and "written contents {} s"
    and "map u_id (ar_sent r) = ord (keys (as_changed s))"
    and "\<forall>u \<in> set (ar_sent r). update_of (map_of (as_changed s)) u"
proof -
  from ok r obtain s1 s2 sent tick where
    run: "for_each (regroupStored cl clock (collectAliases al dl vulns) ord) groups
        \<lparr>as_log = [], as_tick = 0, as_visited = {}, as_changed = []\<rparr> = (s1, None)"
      "for_each (groupRemaining cl clock (collectAliases al dl vulns) ord)
        (ord (keys (collectAliases al dl vulns))) s1 = (s2, None)"
    and send: "for_each (sendAliasUpdate clock (map_of (as_changed s2)))
        (ord (keys (as_changed s2))) ([], as_tick s2) = ((sent, tick), None)"
    and r': "ar_log r = as_log s2" "ar_sent r = sent"
    by (elim ComputeAliasGroups_success) auto
  note inv = both_loops_inv(1) [OF laws ord init run]
  note C = regroup_invD(3) [OF inv]
  then have "set (ord (keys (as_changed s2))) \<subseteq> set (keys (as_changed s2))"
    using iteration_orderD [OF ord, of "keys (as_changed s2)"] by (auto simp: changed_ok_def)
  from sendAliasUpdates [OF C this, of clock "[]" "as_tick s2"] send
  have "map u_id sent = ord (keys (as_changed s2))"
    "\<forall>u \<in> set sent. update_of (map_of (as_changed s2)) u" by auto
  then show thesis
    using that [of s2] inv both_loops_written [OF laws ord init run] r' by simp
qed


abbreviation ex_alias_vulns :: "vulnerability list" where
  "ex_alias_vulns \<equiv> [ex_vuln ''A'' [''B''], ex_vuln ''C'' [''B''], ex_vuln ''D'' [''E'']]"

abbreviation ex_alias_groups :: "(ds_key \<times> alias_group) list" where
  "ex_alias_groups \<equiv> [(IDKey 1, \<lparr>ag_vuln_ids = [''A'', ''B''], ag_modified = 0\<rparr>),
     (IDKey 2, \<lparr>ag_vuln_ids = [''B'', ''C''], ag_modified = 0\<rparr>)]"

text \<open>A run that merges two stored groups and creates a third.\<close>

lemma ex_alias_run:
  "ar_error (ComputeAliasGroups (numbering_client ex_alias_groups) int id (Inr []) (Inr [])
     (ex_alias_vulns, None) (ex_alias_groups, None)) = None"
  by code_simp


theorem ComputeAliasGroups_stores_components_witness:
  "\<exists>!k. \<exists>g. replay ex_alias_groups (ar_log (ComputeAliasGroups (numbering_client ex_alias_groups) int id
     (Inr []) (Inr []) (ex_alias_vulns, None) (ex_alias_groups, None))) k = Some g
     \<and> ag_vuln_ids g = sorted_list_of_set (alias_component [] [] ex_alias_vulns ''A'')"
proof -
  have "computeAliases (collectAliases [] [] ex_alias_vulns) id ''A'' {} = ([''A'', ''B'', ''C''], {''A'', ''B'', ''C''})"
    by code_simp
  with computeAliases_component [OF iteration_order_id refl, of "[]" "[]" ex_alias_vulns "{}" "''A''"]
  have "group_ids [] [] ex_alias_vulns ''A'' = [''A'', ''B'', ''C'']"
    by (simp add: alias_closed_def)
  then have "length (group_ids [] [] ex_alias_vulns ''A'') = 3" by simp
  then have "groupable [] [] ex_alias_vulns ''A''"
    by (simp add: groupable_def aliasGroupVulnLimit_def)
  with ComputeAliasGroups_stores_components
    [OF datastore_laws_replay iteration_order_id _ _ ex_alias_run refl]
  show ?thesis by simp
qed


section \<open>No run panics\<close>

definition members_ok :: "alias_state \<Rightarrow> bool" where
  "members_ok s \<longleftrightarrow> (\<forall>v g. map_of (as_changed s) v = Some (Some g) \<longrightarrow> v \<in> set (ag_vuln_ids g))"

lemma members_ok_setChanged:
  "members_ok s \<Longrightarrow> g = None \<or> (\<exists>h. g = Some h \<and> ag_vuln_ids h = vs) \<Longrightarrow> members_ok (setChanged vs g s)"
  by (auto simp: members_ok_def)

lemma members_ok_frame [simp]:
  "members_ok (s\<lparr>as_log := l\<rparr>) = members_ok s" "members_ok (s\<lparr>as_tick := t\<rparr>) = members_ok s"
  "members_ok (s\<lparr>as_visited := V\<rparr>) = members_ok s"
  by (simp_all add: members_ok_def)

lemma members_ok_aliasCall [simp]: "members_ok (fst (aliasCall cl op s)) = members_ok s"
  by (auto simp: aliasCall_def split: sum.splits)

lemma members_ok_markGone: "members_ok s \<Longrightarrow> members_ok (markGone vs s)"
  by (auto simp: members_ok_def split: option.splits if_splits)

lemma members_ok_updateAliasGroup:
  "members_ok s \<Longrightarrow> members_ok (fst (updateAliasGroup cl clock ids key grp s))"
proof -
  assume s: "members_ok s"
  let ?g = "grp\<lparr>ag_vuln_ids := ids, ag_modified := clock (as_tick s)\<rparr>"
  obtain s2 e where call: "aliasCall cl (DsPut key ?g) (s\<lparr>as_tick := Suc (as_tick s)\<rparr>) = (s2, e)"
    by fastforce
  then have "members_ok s2"
    using s members_ok_aliasCall [of cl "DsPut key ?g" "s\<lparr>as_tick := Suc (as_tick s)\<rparr>"] by simp
  then show ?thesis
    using s call by (cases e) (simp_all add: updateAliasGroup_def Let_def members_ok_setChanged)
qed

lemma members_ok_createAliasGroup:
  "members_ok s \<Longrightarrow> members_ok (fst (createAliasGroup cl clock ids s))"
proof -
  assume s: "members_ok s"
  let ?g = "\<lparr>ag_vuln_ids = ids, ag_modified = clock (as_tick s)\<rparr>"
  obtain s2 e where call: "aliasCall cl (DsCreate ?g) (s\<lparr>as_tick := Suc (as_tick s)\<rparr>) = (s2, e)"
    by fastforce
  then have "members_ok s2"
    using s members_ok_aliasCall [of cl "DsCreate ?g" "s\<lparr>as_tick := Suc (as_tick s)\<rparr>"] by simp
  then show ?thesis
    using s call by (cases e) (simp_all add: createAliasGroup_def Let_def members_ok_setChanged)
qed

lemma members_ok_rounds:
  assumes "members_ok s"
  shows "members_ok (fst (regroupStored cl clock m ord kg s))"
    and "members_ok (fst (groupRemaining cl clock m ord v s))"
  using assms
  by (auto simp: regroupStored_def groupRemaining_def members_ok_markGone
      members_ok_updateAliasGroup members_ok_createAliasGroup split: prod.splits list.splits)

lemma aliasCall_error: "snd (aliasCall cl op s) = Some e \<Longrightarrow> \<exists>m. e = GoErr m"
  by (auto simp: aliasCall_def call_ds_def split: sum.splits)

lemma for_each_error:
  assumes "snd (for_each f xs s) = Some e"
  shows "\<exists>x \<in> set xs. \<exists>s. snd (f x s) = Some e"
  using assms
proof (induction xs arbitrary: s)
  case (Cons x xs)
  then show ?case by (cases "f x s") (auto split: option.splits, metis snd_conv)
qed simp

lemma updateAliasGroup_error:
  "snd (updateAliasGroup cl clock ids key grp s) = Some e \<Longrightarrow> \<exists>m. e = GoErr m"
  by (auto simp: updateAliasGroup_def Let_def split: if_splits prod.splits option.splits
      dest: aliasCall_error) (metis aliasCall_error snd_conv)

lemma createAliasGroup_error:
  "snd (createAliasGroup cl clock ids s) = Some e \<Longrightarrow> \<exists>m. e = GoErr m"
  by (auto simp: createAliasGroup_def Let_def split: if_splits prod.splits option.splits
      dest: aliasCall_error) (metis aliasCall_error snd_conv)

lemma rounds_error:
  shows "ag_vuln_ids grp \<noteq> [] \<Longrightarrow> snd (regroupStored cl clock m ord (key, grp) s) = Some e
      \<Longrightarrow> \<exists>m. e = GoErr m"
    and "snd (groupRemaining cl clock m ord v s) = Some e \<Longrightarrow> \<exists>m. e = GoErr m"
  by (auto simp: regroupStored_def groupRemaining_def aliasCall_error
      dest: updateAliasGroup_error createAliasGroup_error split: prod.splits list.splits if_splits)

lemma sendAliasUpdates_no_error:
  assumes "members_ok s"
  shows "snd (for_each (sendAliasUpdate clock (map_of (as_changed s))) vs ut) = None"
proof (induction vs arbitrary: ut)
  case (Cons v vs)
  obtain sent tick where ut: "ut = (sent, tick)" by fastforce
  have "\<exists>ut'. sendAliasUpdate clock (map_of (as_changed s)) v ut = (ut', None)"
  proof (cases "\<exists>g. map_of (as_changed s) v = Some (Some g)")
    case False
    then show ?thesis
      by (auto simp: ut sendAliasUpdate_def updateVulnWithAliasGroup_def split: option.splits)
  next
    case True
    then obtain g where x: "map_of (as_changed s) v = Some (Some g)" by blast
    with assms(1) have "v \<in> set (ag_vuln_ids g)" by (simp add: members_ok_def)
    from slices_delete_index [OF this] x show ?thesis
      by (simp add: ut sendAliasUpdate_def updateVulnWithAliasGroup_def Let_def)
  qed
  then obtain ut' where "sendAliasUpdate clock (map_of (as_changed s)) v ut = (ut', None)" by blast
  with Cons show ?case by simp
qed simp




section \<open>A second run changes nothing\<close>

definition components_stored ::
  "vuln_id list \<Rightarrow> vuln_id list \<Rightarrow> vulnerability list \<Rightarrow> alias_group list \<Rightarrow> bool" where
  "components_stored al dl vulns groups \<longleftrightarrow>
     distinct (map ag_vuln_ids groups)
     \<and> (\<forall>ids. ids \<in> set (map ag_vuln_ids groups)
          \<longleftrightarrow> (\<exists>v. groupable al dl vulns v \<and> ids = group_ids al dl vulns v))"

text \<open>In the loop over the stored groups: \<open>rem\<close> is what is left of them.\<close>

lemma regroup_settled:
  assumes ord: "iteration_order ord"
    and "distinct (map ag_vuln_ids (map snd rem))"
    and "\<forall>(k, g) \<in> set rem. \<exists>v. groupable al dl vulns v \<and> ag_vuln_ids g = group_ids al dl vulns v"
    and "alias_closed al dl vulns (as_visited s)"
    and "\<forall>(k, g) \<in> set rem. set (ag_vuln_ids g) \<inter> as_visited s = {}"
  shows "\<exists>V. for_each (regroupStored cl clock (collectAliases al dl vulns) ord) rem s
      = (s\<lparr>as_visited := V\<rparr>, None)
    \<and> alias_closed al dl vulns V
    \<and> V = as_visited s \<union> \<Union> (set ` ag_vuln_ids ` set (map snd rem))"
  using assms(2-)
proof (induction rem arbitrary: s)
  case Nil
  then show ?case by (intro exI [of _ "as_visited s"]) simp
next
  case (Cons x rem)
  obtain key grp where x: "x = (key, grp)" by fastforce
  from Cons.prems(2) obtain v where v: "groupable al dl vulns v"
    and grp: "ag_vuln_ids grp = group_ids al dl vulns v" by (auto simp: x)
  have "0 < length (ag_vuln_ids grp)" using v grp by (simp add: groupable_def)
  then obtain w ws where ids: "ag_vuln_ids grp = w # ws" by (cases "ag_vuln_ids grp") auto
  have "w \<in> set (group_ids al dl vulns v)" by (simp add: ids flip: grp)
  then have w: "w \<in> alias_component al dl vulns v" by simp
  have new: "w \<notin> as_visited s" using Cons.prems(4) ids by (auto simp: x)
  let ?V = "as_visited s \<union> alias_component al dl vulns v"
  have run: "computeAliases (collectAliases al dl vulns) ord w (as_visited s) = (group_ids al dl vulns v, ?V)"
    using computeAliases_component [OF ord refl Cons.prems(3) new] w
    by (simp add: group_ids_of_union component_of_union)
  have "\<not> length (ag_vuln_ids grp) \<le> 1 \<and> \<not> length (ag_vuln_ids grp) > aliasGroupVulnLimit"
    using v by (simp add: groupable_def grp)
  then have step: "regroupStored cl clock (collectAliases al dl vulns) ord x s
      = (s\<lparr>as_visited := ?V\<rparr>, None)"
    using ids new run [folded grp] by (simp add: regroupStored_def x updateAliasGroup_def)
  have "set (ag_vuln_ids g) \<inter> alias_component al dl vulns v = {}"
    if "(k, g) \<in> set rem" for k g
  proof -
    from Cons.prems(2) that obtain u where u: "ag_vuln_ids g = group_ids al dl vulns u" by fastforce
    have "ag_vuln_ids g \<noteq> ag_vuln_ids grp"
      using Cons.prems(1) that by (auto simp: x image_iff)
    then have "alias_component al dl vulns u \<noteq> alias_component al dl vulns v"
      by (simp add: u grp group_ids_eq_iff)
    then have "y \<notin> alias_component al dl vulns u" if "y \<in> alias_component al dl vulns v" for y
      using component_of_union [OF that] component_of_union [of y al dl vulns u] by auto
    then show ?thesis by (auto simp: u)
  qed
  with Cons.prems(4) have "\<forall>(k, g) \<in> set rem. set (ag_vuln_ids g) \<inter> as_visited (s\<lparr>as_visited := ?V\<rparr>) = {}"
    by fastforce
  with Cons.IH [of "s\<lparr>as_visited := ?V\<rparr>"] Cons.prems(1,2,3) obtain V where
    "for_each (regroupStored cl clock (collectAliases al dl vulns) ord) rem (s\<lparr>as_visited := ?V\<rparr>)
        = (s\<lparr>as_visited := V\<rparr>, None)"
    "alias_closed al dl vulns V" "V = ?V \<union> \<Union> (set ` ag_vuln_ids ` set (map snd rem))"
    by (auto simp: alias_closed_union)
  with step grp show ?case
    by (intro exI [of _ V]) (simp add: x Un_assoc)
qed

text \<open>In the loop over the graph: what is not placed makes no group.\<close>

lemma remaining_settled:
  assumes ord: "iteration_order ord" and "alias_closed al dl vulns (as_visited s)"
    and "\<And>v. groupable al dl vulns v \<Longrightarrow> v \<in> as_visited s"
  shows "\<exists>V. for_each (groupRemaining cl clock (collectAliases al dl vulns) ord) vs s
      = (s\<lparr>as_visited := V\<rparr>, None)"
  using assms(2-)
proof (induction vs arbitrary: s)
  case Nil
  then show ?case by (intro exI [of _ "as_visited s"]) simp
next
  case (Cons v vs)
  show ?case
  proof (cases "v \<in> as_visited s")
    case True
    then have "groupRemaining cl clock (collectAliases al dl vulns) ord v s = (s, None)"
      by (simp add: groupRemaining_def)
    with Cons show ?thesis by simp
  next
    case False
    let ?V = "as_visited s \<union> alias_component al dl vulns v"
    from False Cons.prems(2) have "\<not> groupable al dl vulns v" by blast
    then have "length (group_ids al dl vulns v) \<le> 1 \<or> length (group_ids al dl vulns v) > aliasGroupVulnLimit"
      by (auto simp: groupable_def)
    then have "groupRemaining cl clock (collectAliases al dl vulns) ord v s = (s\<lparr>as_visited := ?V\<rparr>, None)"
      using computeAliases_component [OF ord refl Cons.prems(1) False] False
      by (auto simp: groupRemaining_def createAliasGroup_def)
    with Cons.IH [of "s\<lparr>as_visited := ?V\<rparr>"] Cons.prems show ?thesis
      by (auto simp: alias_closed_union)
  qed
qed

text \<open>
  When the stored groups already are the components that make a group, a run calls the
  datastore for nothing and sends no update, whatever the client and the clock are.
\<close>

theorem ComputeAliasGroups_settled:
  assumes "iteration_order ord" and "components_stored al dl vulns (map snd groups)"
  shows "ComputeAliasGroups cl clock ord (Inr al) (Inr dl) (vulns, None) (groups, None)
    = \<lparr>ar_sent = [], ar_log = [], ar_error = None\<rparr>"
proof -
  let ?m = "collectAliases al dl vulns"
    and ?s0 = "\<lparr>as_log = [], as_tick = 0, as_visited = {}, as_changed = []\<rparr>"
  from assms(2) have d: "distinct (map ag_vuln_ids (map snd groups))"
    and sound: "\<forall>(k, g) \<in> set groups. \<exists>v. groupable al dl vulns v \<and> ag_vuln_ids g = group_ids al dl vulns v"
    and complete: "groupable al dl vulns v \<Longrightarrow> group_ids al dl vulns v \<in> ag_vuln_ids ` set (map snd groups)" for v
    by (force simp: components_stored_def)+
  from regroup_settled [OF assms(1) d sound, of ?s0 cl clock] obtain V where
    r1: "for_each (regroupStored cl clock ?m ord) groups ?s0 = (?s0\<lparr>as_visited := V\<rparr>, None)"
    and V: "alias_closed al dl vulns V" "V = \<Union> (set ` ag_vuln_ids ` set (map snd groups))"
    by (auto simp: alias_closed_def)
  have "v \<in> V" if "groupable al dl vulns v" for v
  proof -
    have "v \<in> set (group_ids al dl vulns v)" by simp
    with complete [OF that] show ?thesis unfolding V(2) by blast
  qed
  with remaining_settled [OF assms(1), of al dl vulns "?s0\<lparr>as_visited := V\<rparr>" cl clock "ord (keys ?m)"] V(1)
  obtain V' where r2: "for_each (groupRemaining cl clock ?m ord) (ord (keys ?m)) (?s0\<lparr>as_visited := V\<rparr>)
      = (?s0\<lparr>as_visited := V'\<rparr>, None)" by auto
  have "ord (keys ([] :: (vuln_id \<times> alias_group option) list)) = []"
    using iteration_orderD(2) [OF assms(1), of "[]"] by (simp add: keys_def)
  with r1 r2 show ?thesis by (simp add: ComputeAliasGroups_def Let_def)
qed


lemma ex_settled_components:
  "alias_component [] [] [ex_vuln ''A'' [''B'']] v
     = (if v = ''A'' \<or> v = ''B'' then {''A'', ''B''} else {v})"
proof -
  let ?vs = "[ex_vuln ''A'' [''B'']]"
  have "computeAliases (collectAliases [] [] ?vs) id ''A'' {} = ([''A'', ''B''], {''A'', ''B''})"
    by code_simp
  with computeAliases_component [OF iteration_order_id refl, of "[]" "[]" ?vs "{}" "''A''"]
  have A: "alias_component [] [] ?vs ''A'' = {''A'', ''B''}" by (simp add: alias_closed_def)
  then have B: "alias_component [] [] ?vs ''B'' = {''A'', ''B''}"
    using component_of_union [of "''B''" "[]" "[]" ?vs "''A''"] by simp
  have "alias_component [] [] ?vs v \<subseteq> {v}" if "v \<noteq> ''A''" "v \<noteq> ''B''"
    unfolding alias_component_def
    by (rule reach_closed_subset) (use that in \<open>auto simp: alias_link_def ex_vuln_def\<close>)
  then have "alias_component [] [] ?vs v = {v}" if "v \<noteq> ''A''" "v \<noteq> ''B''"
    using that alias_component_self [of v "[]" "[]" ?vs] by auto
  with A B show ?thesis by simp
qed

theorem ComputeAliasGroups_settled_witness:
  "ComputeAliasGroups (\<lambda>_ _. Inl ''unavailable'') int rev (Inr []) (Inr [])
     ([ex_vuln ''A'' [''B'']], None) ([(IDKey 7, \<lparr>ag_vuln_ids = [''A'', ''B''], ag_modified = 0\<rparr>)], None)
    = \<lparr>ar_sent = [], ar_log = [], ar_error = None\<rparr>"
proof (rule ComputeAliasGroups_settled [OF iteration_order_rev])
  have g: "groupable [] [] [ex_vuln ''A'' [''B'']] v \<longleftrightarrow> v = ''A'' \<or> v = ''B''" for v
    by (simp add: groupable_def ex_settled_components aliasGroupVulnLimit_def)
  have s: "sorted_list_of_set {''A'', ''B''} = [''A'', ''B'']" by code_simp
  show "components_stored [] [] [ex_vuln ''A'' [''B'']]
      (map snd [(IDKey 7, \<lparr>ag_vuln_ids = [''A'', ''B''], ag_modified = 0\<rparr>)])"
    by (auto simp: components_stored_def g group_ids_def ex_settled_components s)
qed

text \<open>
  A vulnerability that loses its last alias link keeps its old aliases: when a stored
  group is rewritten to fewer members, the ones that left it get no update (unlike the
  members of a group that is deleted in a merge, which are all marked). Here C left the
  group of A and B, and the updates sent are those of A and B alone.
\<close>

theorem ComputeAliasGroups_forgets_leavers:
  "map (\<lambda>u. (u_id u, u_value u)) (ar_sent (ComputeAliasGroups
      (numbering_client [(IDKey 1, \<lparr>ag_vuln_ids = [''A'', ''B'', ''C''], ag_modified = 0\<rparr>)]) int id
      (Inr []) (Inr []) ([ex_vuln ''A'' [''B''], ex_vuln ''C'' []], None)
      ([(IDKey 1, \<lparr>ag_vuln_ids = [''A'', ''B'', ''C''], ag_modified = 0\<rparr>)], None)))
    = [(''A'', [''B'']), (''B'', [''A''])]"
  by code_simp

end
