(* ===== verification/RelatedGroups.thy ===== *)
theory RelatedGroups
  imports Datastore
begin

text \<open>
  The computation of the related groups (\<open>apps/cli/cmd/relations/related.go\<close>): the related
  vulnerabilities of each vulnerability, the inverse relation added to them, and the
  datastore brought in line with the result.
\<close>

section \<open>The inverse relation\<close>

type_synonym related_map = "(vuln_id \<times> vuln_id list) list"

definition relatedOf :: "related_map \<Rightarrow> vuln_id \<Rightarrow> vuln_id list" where
  "relatedOf groups vid = (case map_of groups vid of None \<Rightarrow> [] | Some g \<Rightarrow> g)"

definition addInverse :: "vuln_id \<Rightarrow> vuln_id \<Rightarrow> related_map \<Rightarrow> related_map" where
  "addInverse vid related groups =
     (if vid \<in> set (relatedOf groups related) then groups
      else AList.update related (slices_sort (relatedOf groups related @ [vid])) groups)"

text \<open>
  The loop ranges over the map it extends, so Go may or may not visit the entries added on
  the way. The keys visited are a parameter: a list that holds every key the map has at the
  start, and no key twice; a key that the map does not have yet is not visited.
\<close>

definition computeRelatedRound :: "vuln_id set \<Rightarrow> vuln_id \<Rightarrow> related_map \<Rightarrow> related_map" where
  "computeRelatedRound withdrawnVulns vid groups =
     (if vid \<in> withdrawnVulns then groups
      else case map_of groups vid of
             None \<Rightarrow> groups
           | Some grp \<Rightarrow> fold (addInverse vid) grp groups)"

definition computeRelated :: "vuln_id list \<Rightarrow> related_map \<Rightarrow> vuln_id set \<Rightarrow> related_map" where
  "computeRelated visit groups withdrawnVulns =
     fold (computeRelatedRound withdrawnVulns) visit groups"

definition range_growing :: "(vuln_id list \<Rightarrow> vuln_id list) \<Rightarrow> bool" where
  "range_growing visit \<longleftrightarrow>
     (\<forall>ks. distinct ks \<longrightarrow> distinct (visit ks) \<and> set ks \<subseteq> set (visit ks))"

section \<open>Bringing the datastore in line\<close>

record related_state =
  rs_log :: "related_group ds_log"
  rs_tick :: nat
  rs_sent :: "update list"

definition sendRelated :: "vuln_id \<Rightarrow> timestamp \<Rightarrow> vuln_id list \<Rightarrow> related_state \<Rightarrow> related_state" where
  "sendRelated vid t ids s =
     s\<lparr>rs_sent := rs_sent s
         @ [\<lparr>u_id = vid, u_timestamp = t, u_field = FieldRelated, u_value = ids\<rparr>]\<rparr>"

definition updateRelated ::
  "related_group ds_client \<Rightarrow> (nat \<Rightarrow> timestamp) \<Rightarrow> vuln_id \<Rightarrow> vuln_id list
     \<Rightarrow> related_state \<Rightarrow> related_state \<times> go_error option" where
  "updateRelated cl clock vid relatedIDs s =
     (if relatedIDs = [] then
        case call_ds cl (DsDelete (NameKey vid)) (rs_log s) of
          Inl e \<Rightarrow> (s, Some e)
        | Inr (log, _) \<Rightarrow>
            (sendRelated vid (clock (rs_tick s)) []
               (s\<lparr>rs_log := log, rs_tick := Suc (rs_tick s)\<rparr>), None)
      else
        let grp = \<lparr>rg_related_ids = relatedIDs, rg_modified = clock (rs_tick s)\<rparr>;
            s1 = s\<lparr>rs_tick := Suc (rs_tick s)\<rparr>
        in case call_ds cl (DsPut (NameKey vid) grp) (rs_log s1) of
             Inl e \<Rightarrow> (s1, Some e)
           | Inr (log, _) \<Rightarrow>
               (sendRelated vid (rg_modified grp) relatedIDs (s1\<lparr>rs_log := log\<rparr>), None))"

text \<open>The maps read from the datastore.\<close>

definition collectRelated :: "vulnerability list \<Rightarrow> related_map \<times> vuln_id set" where
  "collectRelated vulns =
     fold (\<lambda>v (raw, withdrawn).
            (AList.update (v_key v) (slices_compact (slices_sort (v_related_raw v))) raw,
             if v_is_withdrawn v then insert (v_key v) withdrawn else withdrawn))
       vulns ([], {})"

definition collectRelatedGroups :: "(vuln_id \<times> related_group) list \<Rightarrow> (vuln_id \<times> related_group) list" where
  "collectRelatedGroups stored = fold (\<lambda>(vid, g). AList.update vid g) stored []"

text \<open>The body of the loop over the computed map, and of the loop over what is left.\<close>

definition syncRelated ::
  "related_group ds_client \<Rightarrow> (nat \<Rightarrow> timestamp) \<Rightarrow> related_map \<Rightarrow> vuln_id
     \<Rightarrow> related_state \<times> (vuln_id \<times> related_group) list
     \<Rightarrow> (related_state \<times> (vuln_id \<times> related_group) list) \<times> go_error option" where
  "syncRelated cl clock related vid st =
     (case st of (s, relatedGroups) \<Rightarrow>
        let g = map_of relatedGroups vid;
            relatedGroups' = AList.delete vid relatedGroups;
            relatedIDs = relatedOf related vid
        in if g = None \<or> rg_related_ids (the g) \<noteq> relatedIDs
           then case updateRelated cl clock vid relatedIDs s of
                  (s', e) \<Rightarrow> ((s', relatedGroups'), e)
           else ((s, relatedGroups'), None))"

definition dropRelated ::
  "related_group ds_client \<Rightarrow> (nat \<Rightarrow> timestamp) \<Rightarrow> vuln_id
     \<Rightarrow> related_state \<Rightarrow> related_state \<times> go_error option" where
  "dropRelated cl clock vid s = updateRelated cl clock vid [] s"

record related_run =
  rr_sent :: "update list"
  rr_log :: "related_group ds_log"
  rr_error :: "go_error option"

definition ComputeRelatedGroups ::
  "related_group ds_client \<Rightarrow> (nat \<Rightarrow> timestamp) \<Rightarrow> (vuln_id list \<Rightarrow> vuln_id list)
     \<Rightarrow> (vuln_id list \<Rightarrow> vuln_id list) \<Rightarrow> vulnerability ds_stream
     \<Rightarrow> (vuln_id \<times> related_group) ds_stream \<Rightarrow> related_run" where
  "ComputeRelatedGroups cl clock visit ord vulns groups =
     (let s0 = \<lparr>rs_log = [], rs_tick = 0, rs_sent = []\<rparr>;
          result = (\<lambda>s e. \<lparr>rr_sent = rs_sent s, rr_log = rs_log s, rr_error = e\<rparr>) in
      case snd vulns of Some e \<Rightarrow> result s0 (Some (GoErr e)) | None \<Rightarrow>
      let (rawRelated, withdrawnVulns) = collectRelated (fst vulns) in
      case snd groups of Some e \<Rightarrow> result s0 (Some (GoErr e)) | None \<Rightarrow>
      let relatedGroups = collectRelatedGroups (fst groups);
          related = computeRelated (visit (keys rawRelated)) rawRelated withdrawnVulns
      in case for_each (syncRelated cl clock related) (ord (keys related)) (s0, relatedGroups) of
           ((s1, rest), Some e) \<Rightarrow> result s1 (Some e)
         | ((s1, rest), None) \<Rightarrow>
             (case for_each (dropRelated cl clock) (ord (keys rest)) s1 of
                (s2, e) \<Rightarrow> result s2 e))"

section \<open>What the inverse relation adds\<close>

definition related_ok :: "related_map \<Rightarrow> bool" where
  "related_ok groups \<longleftrightarrow> distinct (keys groups)
     \<and> (\<forall>vid. sorted (relatedOf groups vid) \<and> distinct (relatedOf groups vid))"

lemma relatedOf_update [simp]:
  "relatedOf (AList.update k v groups) vid = (if vid = k then v else relatedOf groups vid)"
  by (simp add: relatedOf_def update_conv')

lemma relatedOf_dom: "x \<in> set (relatedOf groups y) \<Longrightarrow> y \<in> dom (map_of groups)"
  by (cases "map_of groups y") (auto simp: relatedOf_def)

lemma addInverse_set [simp]:
  "set (relatedOf (addInverse vid r groups) x)
     = set (relatedOf groups x) \<union> (if x = r then {vid} else {})"
  by (auto simp: addInverse_def)

lemma addInverse_ok: "related_ok groups \<Longrightarrow> related_ok (addInverse vid r groups)"
  by (auto simp: related_ok_def addInverse_def)

lemma addInverse_dom: "dom (map_of groups) \<subseteq> dom (map_of (addInverse vid r groups))"
  by (auto simp: addInverse_def update_conv')

lemma addInverses:
  "set (relatedOf (fold (addInverse vid) rs groups) x)
     = set (relatedOf groups x) \<union> (if x \<in> set rs then {vid} else {})"
  "related_ok groups \<Longrightarrow> related_ok (fold (addInverse vid) rs groups)"
  by (induction rs arbitrary: groups) (auto simp: addInverse_ok)

lemma computeRelatedRound_set:
  "set (relatedOf (computeRelatedRound W vid groups) x)
     = set (relatedOf groups x)
       \<union> (if vid \<notin> W \<and> x \<in> set (relatedOf groups vid) then {vid} else {})"
  by (auto simp: computeRelatedRound_def addInverses relatedOf_def [of groups vid] split: option.splits)

lemma computeRelatedRound_ok: "related_ok groups \<Longrightarrow> related_ok (computeRelatedRound W vid groups)"
  by (auto simp: computeRelatedRound_def addInverses(2) split: option.splits)

text \<open>
  Whatever was visited, an entry holds at least its raw members, at most the inverse
  relation besides, and the inverse of what was visited.
\<close>

lemma computeRelated_inv:
  assumes "\<And>x. set (relatedOf g x) \<subseteq> set (relatedOf raw x) \<union> {y. y \<notin> W \<and> x \<in> set (relatedOf raw y)}"
    and "\<And>x. set (relatedOf raw x) \<subseteq> set (relatedOf g x)"
  shows "set (relatedOf (fold (computeRelatedRound W) vs g) x)
      \<subseteq> set (relatedOf raw x) \<union> {y. y \<notin> W \<and> x \<in> set (relatedOf raw y)}"
    and "set (relatedOf g x) \<union> {y \<in> set vs. y \<notin> W \<and> x \<in> set (relatedOf raw y)}
      \<subseteq> set (relatedOf (fold (computeRelatedRound W) vs g) x)"
proof -
  let ?full = "\<lambda>x. set (relatedOf raw x) \<union> {y. y \<notin> W \<and> x \<in> set (relatedOf raw y)}"
  have "set (relatedOf (fold (computeRelatedRound W) vs g) x) \<subseteq> ?full x
    \<and> set (relatedOf g x) \<union> {y \<in> set vs. y \<notin> W \<and> x \<in> set (relatedOf raw y)}
      \<subseteq> set (relatedOf (fold (computeRelatedRound W) vs g) x)"
    using assms
  proof (induction vs arbitrary: g)
    case Nil
    then show ?case by simp
  next
    case (Cons v vs)
    have up: "set (relatedOf (computeRelatedRound W v g) z) \<subseteq> ?full z" for z
      unfolding computeRelatedRound_set using Cons.prems(1) by auto
    have low: "set (relatedOf raw z) \<subseteq> set (relatedOf (computeRelatedRound W v g) z)" for z
      unfolding computeRelatedRound_set using Cons.prems(2) by blast
    have "{y \<in> set (v # vs). y \<notin> W \<and> x \<in> set (relatedOf raw y)}
        \<subseteq> set (relatedOf (computeRelatedRound W v g) x) \<union> {y \<in> set vs. y \<notin> W \<and> x \<in> set (relatedOf raw y)}"
      unfolding computeRelatedRound_set using Cons.prems(2) by auto
    moreover have "set (relatedOf g x) \<subseteq> set (relatedOf (computeRelatedRound W v g) x)"
      by (simp add: computeRelatedRound_set)
    ultimately show ?case
      using Cons.IH [OF up low] by simp blast
  qed
  then show "set (relatedOf (fold (computeRelatedRound W) vs g) x) \<subseteq> ?full x"
    and "set (relatedOf g x) \<union> {y \<in> set vs. y \<notin> W \<and> x \<in> set (relatedOf raw y)}
      \<subseteq> set (relatedOf (fold (computeRelatedRound W) vs g) x)" by blast+
qed

lemma computeRelated_set:
  assumes "dom (map_of raw) \<subseteq> set vs"
  shows "set (relatedOf (computeRelated vs raw W) x)
    = set (relatedOf raw x) \<union> {y. y \<notin> W \<and> x \<in> set (relatedOf raw y)}"
proof -
  have "{y. y \<notin> W \<and> x \<in> set (relatedOf raw y)} \<subseteq> {y \<in> set vs. y \<notin> W \<and> x \<in> set (relatedOf raw y)}"
    using assms relatedOf_dom by fast
  with computeRelated_inv [where g = raw and raw = raw and W = W and vs = vs and x = x] show ?thesis
    by (auto simp: computeRelated_def)
qed

lemma computeRelated_ok: "related_ok raw \<Longrightarrow> related_ok (computeRelated vs raw W)"
  unfolding computeRelated_def by (induction vs arbitrary: raw) (simp_all add: computeRelatedRound_ok)

lemma computeRelated_sorted:
  assumes "related_ok raw" and "dom (map_of raw) \<subseteq> set vs"
  shows "relatedOf (computeRelated vs raw W) x
    = sorted_list_of_set (set (relatedOf raw x) \<union> {y. y \<notin> W \<and> x \<in> set (relatedOf raw y)})"
  using sorted_distinct_is_sorted_list [of "relatedOf (computeRelated vs raw W) x"]
    computeRelated_ok [OF assms(1), of vs W] computeRelated_set [OF assms(2), of W x]
  by (simp add: related_ok_def)

section \<open>The maps read from the datastore\<close>

lemma collectRelated_fold:
  fixes vulns :: "vulnerability list"
  defines "F \<equiv> fold (\<lambda>v (raw, withdrawn).
            (AList.update (v_key v) (slices_compact (slices_sort (v_related_raw v))) raw,
             if v_is_withdrawn v then insert (v_key v) withdrawn else withdrawn)) vulns"
  shows "related_ok raw \<Longrightarrow> related_ok (fst (F (raw, W)))"
    and "dom (map_of (fst (F (raw, W)))) = v_key ` set vulns \<union> dom (map_of raw)"
    and "snd (F (raw, W)) = W \<union> {v_key v | v. v \<in> set vulns \<and> v_is_withdrawn v}"
  unfolding F_def
  by (induction vulns arbitrary: raw W)
    (auto simp: related_ok_def compact_sort_sorted_list update_conv')

text \<open>
  The related vulnerabilities as a relation: the last entity read under a key counts, as
  in the map the code builds.
\<close>

definition raw_related :: "vulnerability list \<Rightarrow> vuln_id \<Rightarrow> vuln_id set" where
  "raw_related vulns x =
     (case filter (\<lambda>v. v_key v = x) vulns of
        [] \<Rightarrow> {} | vs \<Rightarrow> set (v_related_raw (last vs)))"

definition withdrawn_ids :: "vulnerability list \<Rightarrow> vuln_id set" where
  "withdrawn_ids vulns = {v_key v | v. v \<in> set vulns \<and> v_is_withdrawn v}"

definition all_related :: "vulnerability list \<Rightarrow> vuln_id \<Rightarrow> vuln_id set" where
  "all_related vulns x =
     raw_related vulns x \<union> {y. y \<notin> withdrawn_ids vulns \<and> x \<in> raw_related vulns y}"

lemma collectRelated_ok: "related_ok (fst (collectRelated vulns))"
  and collectRelated_dom: "dom (map_of (fst (collectRelated vulns))) = v_key ` set vulns"
  and collectRelated_withdrawn: "snd (collectRelated vulns) = withdrawn_ids vulns"
  using collectRelated_fold [where raw = "[]" and W = "{}" and vulns = vulns]
  by (simp_all add: collectRelated_def withdrawn_ids_def related_ok_def keys_def relatedOf_def)

lemma collectRelated_raw:
  "set (relatedOf (fst (collectRelated vulns)) x) = raw_related vulns x"
proof (induction vulns rule: rev_induct)
  case Nil
  then show ?case by (simp add: collectRelated_def raw_related_def relatedOf_def)
next
  case (snoc v vulns)
  have step: "fst (collectRelated (vulns @ [v]))
      = AList.update (v_key v) (remdups_adj (sort (v_related_raw v))) (fst (collectRelated vulns))"
    by (simp add: collectRelated_def split: prod.splits)
  show ?case
  proof (cases "v_key v = x")
    case True
    have "raw_related (vulns @ [v]) x = set (v_related_raw v)"
      using True by (cases "filter (\<lambda>v. v_key v = x) vulns") (simp_all add: raw_related_def)
    with True show ?thesis by (simp add: step)
  next
    case False
    with snoc show ?thesis by (simp add: step raw_related_def)
  qed
qed

lemma computed_related:
  assumes "range_growing visit" and raw_def: "raw = fst (collectRelated vulns)"
  shows "relatedOf (computeRelated (visit (keys raw)) raw (withdrawn_ids vulns)) x
    = sorted_list_of_set (all_related vulns x)"
proof -
  have "related_ok raw" by (simp add: raw_def collectRelated_ok)
  moreover from this have "set (keys raw) \<subseteq> set (visit (keys raw))"
    using assms(1) unfolding range_growing_def related_ok_def by blast
  ultimately show ?thesis
    by (simp add: computeRelated_sorted all_related_def collectRelated_raw raw_def)
qed

section \<open>One round\<close>

lemma updateRelated_success:
  assumes "updateRelated cl clock vid ids s = (s', None)"
  shows "\<exists>k t. rs_log s' = rs_log s @ [(if ids = [] then DsDelete (NameKey vid)
       else DsPut (NameKey vid) \<lparr>rg_related_ids = ids, rg_modified = t\<rparr>, k)]
    \<and> rs_sent s' = rs_sent s @ [\<lparr>u_id = vid, u_timestamp = t, u_field = FieldRelated, u_value = ids\<rparr>]"
  using assms
  by (cases "ids = []") (auto simp: updateRelated_def call_ds_def sendRelated_def Let_def split: sum.splits)

lemma updateRelated_contents:
  assumes laws: "datastore_laws contents cl" and "updateRelated cl clock vid ids s = (s', None)"
  shows "\<exists>t. contents (rs_log s') = (contents (rs_log s))(NameKey vid :=
       (if ids = [] then None else Some \<lparr>rg_related_ids = ids, rg_modified = t\<rparr>))
    \<and> rs_sent s' = rs_sent s @ [\<lparr>u_id = vid, u_timestamp = t, u_field = FieldRelated, u_value = ids\<rparr>]"
proof -
  from updateRelated_success [OF assms(2)] show ?thesis
    by (auto simp: datastore_lawsD(1) [OF laws] datastore_lawsD(3) [OF laws])
qed

lemma syncRelated_success:
  assumes "syncRelated cl clock related vid (s, rest) = ((s', rest'), None)"
  shows "rest' = AList.delete vid rest
    \<and> (if \<exists>g. map_of rest vid = Some g \<and> rg_related_ids g = relatedOf related vid then s' = s
       else updateRelated cl clock vid (relatedOf related vid) s = (s', None))"
  using assms by (auto simp: syncRelated_def Let_def split: if_splits prod.splits)

section \<open>The loops over the maps\<close>

definition in_line :: "vuln_id list \<Rightarrow> related_group option \<Rightarrow> bool" where
  "in_line ids stored \<longleftrightarrow> (case stored of None \<Rightarrow> ids = [] | Some g \<Rightarrow> rg_related_ids g = ids)"

lemma in_line_simps [simp]:
  "in_line ids None \<longleftrightarrow> ids = []" "in_line ids (Some g) \<longleftrightarrow> rg_related_ids g = ids"
  by (simp_all add: in_line_def)

definition is_stored :: "vuln_id list \<Rightarrow> related_group option \<Rightarrow> bool" where
  "is_stored ids stored \<longleftrightarrow> (\<exists>g. stored = Some g \<and> rg_related_ids g = ids)"

text \<open>
  \<open>P\<close> are the vulnerabilities dealt with: the store is in line with the computed lists on
  these and as it was on the others, and an update was sent for each one of these that
  \<open>changed\<close> holds of.
\<close>

definition sync_inv ::
  "(related_group ds_log \<Rightarrow> ds_key \<rightharpoonup> related_group) \<Rightarrow> (vuln_id \<Rightarrow> vuln_id list)
     \<Rightarrow> (vuln_id \<rightharpoonup> related_group) \<Rightarrow> (vuln_id \<Rightarrow> bool) \<Rightarrow> vuln_id set \<Rightarrow> related_state \<Rightarrow> bool" where
  "sync_inv contents full stored changed P s \<longleftrightarrow>
     (\<forall>x \<in> P. in_line (full x) (contents (rs_log s) (NameKey x)))
     \<and> (\<forall>x. x \<notin> P \<longrightarrow> contents (rs_log s) (NameKey x) = stored x)
     \<and> distinct (map u_id (rs_sent s))
     \<and> u_id ` set (rs_sent s) = {x \<in> P. changed x}
     \<and> (\<forall>u \<in> set (rs_sent s). u_field u = FieldRelated \<and> u_value u = full (u_id u))"

lemma sync_inv_update:
  assumes laws: "datastore_laws contents cl"
    and inv: "sync_inv contents full stored changed P s" and x: "x \<notin> P" "changed x"
    and run: "updateRelated cl clock x (full x) s = (s', None)"
  shows "sync_inv contents full stored changed (insert x P) s'"
proof -
  from updateRelated_contents [OF laws run] obtain t where
    c: "contents (rs_log s') = (contents (rs_log s))(NameKey x :=
       (if full x = [] then None else Some \<lparr>rg_related_ids = full x, rg_modified = t\<rparr>))"
    and sent: "rs_sent s' = rs_sent s @ [\<lparr>u_id = x, u_timestamp = t, u_field = FieldRelated, u_value = full x\<rparr>]"
    by blast
  from inv x have "x \<notin> u_id ` set (rs_sent s)" by (simp add: sync_inv_def)
  with inv x show ?thesis
    unfolding sync_inv_def by (auto simp: c sent)
qed

lemma sync_inv_skip:
  assumes inv: "sync_inv contents full stored changed P s"
    and x: "x \<notin> P" "\<not> changed x" "is_stored (full x) (stored x)"
  shows "sync_inv contents full stored changed (insert x P) s"
  using assms unfolding sync_inv_def by (auto simp: is_stored_def)

lemma syncRelated_loop:
  assumes laws: "datastore_laws contents cl"
    and inv: "sync_inv contents (relatedOf related) stored changed P s"
    and rest: "\<And>x. map_of rest x = (if x \<in> P then None else stored x)"
    and ks: "distinct ks" "set ks \<inter> P = {}"
    and changed: "\<And>x. x \<in> set ks \<Longrightarrow> changed x \<longleftrightarrow> \<not> is_stored (relatedOf related x) (stored x)"
    and run: "for_each (syncRelated cl clock related) ks (s, rest) = ((s', rest'), None)"
  shows "sync_inv contents (relatedOf related) stored changed (P \<union> set ks) s'
    \<and> (\<forall>x. map_of rest' x = (if x \<in> P \<union> set ks then None else stored x))"
  using inv rest ks changed run
proof (induction ks arbitrary: P s rest)
  case Nil
  then show ?case by simp
next
  case (Cons k ks)
  from Cons.prems(6) obtain s1 rest1 where
    step: "syncRelated cl clock related k (s, rest) = ((s1, rest1), None)"
    and loop: "for_each (syncRelated cl clock related) ks (s1, rest1) = ((s', rest'), None)"
    by (auto split: prod.splits option.splits)
  note S = syncRelated_success [OF step]
  have k: "k \<notin> P" "map_of rest k = stored k" using Cons.prems(2,4) by auto
  have I: "sync_inv contents (relatedOf related) stored changed (insert k P) s1"
  proof (cases "is_stored (relatedOf related k) (stored k)")
    case True
    then have "\<exists>g. map_of rest k = Some g \<and> rg_related_ids g = relatedOf related k"
      using k by (simp add: is_stored_def)
    with S have "s1 = s" by simp
    with True show ?thesis
      using sync_inv_skip [OF Cons.prems(1) k(1)] Cons.prems(5) [of k] by simp
  next
    case False
    then have "\<nexists>g. map_of rest k = Some g \<and> rg_related_ids g = relatedOf related k"
      using k by (simp add: is_stored_def)
    with S have "updateRelated cl clock k (relatedOf related k) s = (s1, None)" by metis
    with False show ?thesis
      using sync_inv_update [OF laws Cons.prems(1) k(1)] Cons.prems(5) [of k] by simp
  qed
  have "map_of rest1 x = (if x \<in> insert k P then None else stored x)" for x
    using S Cons.prems(2) by (simp add: delete_conv')
  from Cons.IH [OF I this _ _ _ loop] Cons.prems(3-5) show ?case by auto
qed

lemma syncRelated_distinct:
  assumes "distinct (keys rest)"
  shows "distinct (keys (snd (fst (for_each (syncRelated cl clock related) ks (s, rest)))))"
  by (rule for_each_inv)
    (use assms in \<open>auto simp: syncRelated_def Let_def keys_def distinct_delete split: prod.splits\<close>)

lemma dropRelated_loop:
  assumes laws: "datastore_laws contents cl"
    and inv: "sync_inv contents full stored changed P s"
    and ks: "distinct ks" "set ks \<inter> P = {}" "\<And>x. x \<in> set ks \<Longrightarrow> changed x \<and> full x = []"
    and run: "for_each (dropRelated cl clock) ks s = (s', None)"
  shows "sync_inv contents full stored changed (P \<union> set ks) s'"
  using inv ks run
proof (induction ks arbitrary: P s)
  case Nil
  then show ?case by simp
next
  case (Cons k ks)
  from Cons.prems(5) obtain s1 where
    step: "dropRelated cl clock k s = (s1, None)"
    and loop: "for_each (dropRelated cl clock) ks s1 = (s', None)"
    by (auto split: prod.splits option.splits)
  from step have "updateRelated cl clock k (full k) s = (s1, None)"
    using Cons.prems(4) by (simp add: dropRelated_def)
  from sync_inv_update [OF laws Cons.prems(1) _ _ this] Cons.prems(3,4)
  have "sync_inv contents full stored changed (insert k P) s1" by simp
  from Cons.IH [OF this _ _ _ loop] Cons.prems(2-4) show ?case by auto
qed

section \<open>Properties\<close>

text \<open>
  The inverse relation does not depend on the order in which Go ranges over the map,
  nor on which of the entries added on the way it visits: each list computed is the sorted
  list of what the vulnerability relates to and of the vulnerabilities, not withdrawn, that
  relate to it.
\<close>

theorem computeRelated_adds_inverse:
  assumes "range_growing visit"
  shows "relatedOf (computeRelated (visit (keys (fst (collectRelated vulns))))
      (fst (collectRelated vulns)) (snd (collectRelated vulns))) x
    = sorted_list_of_set (raw_related vulns x
        \<union> {y. y \<notin> withdrawn_ids vulns \<and> x \<in> raw_related vulns y})"
  using computed_related [OF assms refl, of vulns x]
  by (simp add: collectRelated_withdrawn all_related_def)

definition ex_related :: "string \<Rightarrow> bool \<Rightarrow> vuln_id list \<Rightarrow> vulnerability" where
  "ex_related k w rs = \<lparr>v_key = k, v_source_id = '''', v_modified = 0, v_is_withdrawn = w,
     v_modified_raw = 0, v_alias_raw = [], v_related_raw = rs, v_upstream_raw = []\<rparr>"

theorem computeRelated_adds_inverse_witness:
  "relatedOf (computeRelated (rev (keys (fst (collectRelated [ex_related ''A'' False [''B'']]))))
      (fst (collectRelated [ex_related ''A'' False [''B'']]))
      (snd (collectRelated [ex_related ''A'' False [''B'']]))) ''B''
    = sorted_list_of_set (raw_related [ex_related ''A'' False [''B'']] ''B''
        \<union> {y. y \<notin> withdrawn_ids [ex_related ''A'' False [''B'']]
              \<and> ''B'' \<in> raw_related [ex_related ''A'' False [''B'']] y})"
  by (rule computeRelated_adds_inverse) (simp add: range_growing_def)

lemma ComputeRelatedGroups_success:
  assumes "rr_error (ComputeRelatedGroups cl clock visit ord (vulns, None) (groups, None)) = None"
  obtains s1 rest s2 related where
    "related = computeRelated (visit (keys (fst (collectRelated vulns))))
       (fst (collectRelated vulns)) (snd (collectRelated vulns))"
    "for_each (syncRelated cl clock related) (ord (keys related))
       (\<lparr>rs_log = [], rs_tick = 0, rs_sent = []\<rparr>, collectRelatedGroups groups) = ((s1, rest), None)"
    "for_each (dropRelated cl clock) (ord (keys rest)) s1 = (s2, None)"
    "ComputeRelatedGroups cl clock visit ord (vulns, None) (groups, None)
       = \<lparr>rr_sent = rs_sent s2, rr_log = rs_log s2, rr_error = None\<rparr>"
  using assms
  by (auto simp: ComputeRelatedGroups_def Let_def split: option.splits prod.splits)


lemma collectRelatedGroups_fold:
  "distinct (map fst gs) \<Longrightarrow> map_of (fold (\<lambda>(vid, g). AList.update vid g) gs al)
     = map_of al ++ map_of gs"
  "distinct (keys al) \<Longrightarrow> distinct (keys (fold (\<lambda>(vid, g). AList.update vid g) gs al))"
proof (induction gs arbitrary: al)
  case (Cons x gs)
  { case 1
    obtain k g where x: "x = (k, g)" by fastforce
    from 1 have k: "map_of gs k = None" by (auto simp: x map_of_eq_None_iff)
    have "map_of (AList.update k g al) ++ map_of gs = (map_of al ++ map_of gs)(k \<mapsto> g)"
      using k by (auto simp: fun_eq_iff map_add_def update_conv' split: option.splits)
    with Cons.IH(1) [of "AList.update k g al"] 1 show ?case by (simp add: x map_add_upd del: fun_upd_apply)
  next
    case 2
    obtain k g where x: "x = (k, g)" by fastforce
    from Cons.IH(2) [of "AList.update k g al"] 2 show ?case by (simp add: x)
  }
qed simp_all

lemma collectRelatedGroups_map:
  "distinct (map fst gs) \<Longrightarrow> map_of (collectRelatedGroups gs) = map_of gs"
  "distinct (keys (collectRelatedGroups gs))"
  using collectRelatedGroups_fold(1) [of gs "[]"] collectRelatedGroups_fold(2) [of "[]" gs]
  unfolding collectRelatedGroups_def by (simp_all add: keys_def [of "[]"])

text \<open>A vulnerability gets an update when what is stored for it is not what was computed.\<close>

definition related_changed ::
  "vulnerability list \<Rightarrow> (vuln_id \<rightharpoonup> related_group) \<Rightarrow> vuln_id \<Rightarrow> bool" where
  "related_changed vulns stored x \<longleftrightarrow>
     (case stored x of
        None \<Rightarrow> x \<in> v_key ` set vulns \<or> all_related vulns x \<noteq> {}
      | Some g \<Rightarrow> rg_related_ids g \<noteq> sorted_list_of_set (all_related vulns x)
          \<or> (x \<notin> v_key ` set vulns \<and> all_related vulns x = {}))"

lemma raw_related_finite: "finite (raw_related vulns x)"
  by (simp add: raw_related_def split: list.splits)

lemma all_related_finite: "finite (all_related vulns x)"
proof -
  have "y \<in> v_key ` set vulns" if y: "x \<in> raw_related vulns y" for y
  proof -
    from y have "filter (\<lambda>v. v_key v = y) vulns \<noteq> []" by (auto simp: raw_related_def)
    then show ?thesis by (auto simp: filter_empty_conv)
  qed
  then have "{y. x \<in> raw_related vulns y} \<subseteq> v_key ` set vulns" by blast
  then have "finite {y. x \<in> raw_related vulns y}" by (rule finite_subset) simp
  then show ?thesis
    unfolding all_related_def using raw_related_finite [of vulns x] by (auto intro: finite_subset)
qed

text \<open>The keys of the computed map: those of the raw one, and those with an inverse.\<close>

lemma relatedOf_nonempty: "relatedOf g x \<noteq> [] \<Longrightarrow> x \<in> dom (map_of g)"
  by (auto simp: relatedOf_def split: option.splits)

definition keys_inv :: "vuln_id set \<Rightarrow> related_map \<Rightarrow> bool" where
  "keys_inv D g \<longleftrightarrow> D \<subseteq> dom (map_of g) \<and> (\<forall>x \<in> dom (map_of g). x \<in> D \<or> relatedOf g x \<noteq> [])"

lemma slices_sort_snoc: "slices_sort (xs @ [x]) \<noteq> []"
  by (metis append_is_Nil_conv not_Cons_self2 set_empty set_sort)

lemma keys_inv_addInverse: "keys_inv D g \<Longrightarrow> keys_inv D (addInverse vid x g)"
  using slices_sort_snoc by (auto simp: keys_inv_def addInverse_def update_conv')

lemma keys_inv_round: "keys_inv D g \<Longrightarrow> keys_inv D (computeRelatedRound W x g)"
proof -
  have "keys_inv D g \<Longrightarrow> keys_inv D (fold (addInverse vid) rs g)" for vid rs
    by (induction rs arbitrary: g) (simp_all add: keys_inv_addInverse)
  then show "keys_inv D g \<Longrightarrow> keys_inv D (computeRelatedRound W x g)"
    by (simp add: computeRelatedRound_def split: option.splits)
qed

lemma computed_keys:
  assumes "range_growing visit" and "raw = fst (collectRelated vulns)"
    and "related = computeRelated (visit (keys raw)) raw (withdrawn_ids vulns)"
  shows "dom (map_of related) = v_key ` set vulns \<union> {x. all_related vulns x \<noteq> {}}"
    and "distinct (keys related)"
proof -
  show "distinct (keys related)"
    using computeRelated_ok [OF collectRelated_ok] by (simp add: assms(2,3) related_ok_def)
  have "keys_inv (dom (map_of raw)) g \<Longrightarrow> keys_inv (dom (map_of raw)) (fold (computeRelatedRound W) vs g)"
    for g W vs
    by (induction vs arbitrary: g) (simp_all add: keys_inv_round)
  then have K: "keys_inv (v_key ` set vulns) related"
    using assms(2) by (simp add: assms(3) computeRelated_def keys_inv_def collectRelated_dom)
  have full: "set (relatedOf related x) = all_related vulns x" for x
    using computed_related [OF assms(1,2), of x] by (simp add: assms(3) all_related_finite)
  show "dom (map_of related) = v_key ` set vulns \<union> {x. all_related vulns x \<noteq> {}}"
  proof (intro equalityI subsetI)
    fix x
    assume "x \<in> dom (map_of related)"
    with K have "x \<in> v_key ` set vulns \<or> relatedOf related x \<noteq> []" by (auto simp: keys_inv_def)
    then show "x \<in> v_key ` set vulns \<union> {x. all_related vulns x \<noteq> {}}"
      by (simp flip: full)
  next
    fix x
    assume "x \<in> v_key ` set vulns \<union> {x. all_related vulns x \<noteq> {}}"
    then show "x \<in> dom (map_of related)"
      using K relatedOf_nonempty [of related x] by (auto simp: keys_inv_def simp flip: full)
  qed
qed



abbreviation ex_related_groups :: "(vuln_id \<times> related_group) list" where
  "ex_related_groups \<equiv> [(''A'', \<lparr>rg_related_ids = [''X''], rg_modified = 3\<rparr>),
     (''Z'', \<lparr>rg_related_ids = [''A''], rg_modified = 4\<rparr>)]"

abbreviation ex_related_store :: "(ds_key \<times> related_group) list" where
  "ex_related_store \<equiv> map (\<lambda>(k, g). (NameKey k, g)) ex_related_groups"


end
