(* ===== verification/UpstreamGroups.thy ===== *)
theory UpstreamGroups
  imports Worklist Datastore Strings
begin

text \<open>
  The computation of the upstream groups (\<open>apps/cli/cmd/relations/upstream.go\<close>): the
  transitive upstream vulnerabilities of each vulnerability, the groups stored for them, and
  the hierarchy each updated group is stored with.
\<close>

section \<open>Transitive upstreams\<close>

type_synonym upstream_map = "(vuln_id \<times> vuln_id list) list"

definition upstreamsOf :: "upstream_map \<Rightarrow> vuln_id \<Rightarrow> vuln_id list" where
  "upstreamsOf rawUpstreams v = (case map_of rawUpstreams v of None \<Rightarrow> [] | Some us \<Rightarrow> us)"

record upstream_search =
  us_toVisit :: "vuln_id list"
  us_visited :: "vuln_id set"
  us_result :: "vuln_id list"

definition upstreamRound :: "upstream_map \<Rightarrow> upstream_search \<Rightarrow> upstream_search" where
  "upstreamRound rawUpstreams s =
     (case us_toVisit s of
        [] \<Rightarrow> s
      | v # q \<Rightarrow>
          if v \<in> us_visited s then s\<lparr>us_toVisit := q\<rparr>
          else
            let visited = insert v (us_visited s)
            in s\<lparr>us_visited := visited,
                 us_result := us_result s @ [v],
                 us_toVisit := q @ filter (\<lambda>u. u \<notin> visited) (upstreamsOf rawUpstreams v)\<rparr>)"

definition upstreamLive :: "upstream_search \<Rightarrow> bool" where
  "upstreamLive s \<longleftrightarrow> us_toVisit s \<noteq> []"

definition computeUpstream :: "vuln_id \<Rightarrow> upstream_map \<Rightarrow> vuln_id list" where
  "computeUpstream vulnID rawUpstreams =
     slices_sort (us_result (while upstreamLive (upstreamRound rawUpstreams)
       \<lparr>us_toVisit = upstreamsOf rawUpstreams vulnID, us_visited = {}, us_result = []\<rparr>))"

section \<open>Storing the groups\<close>

record upstream_state =
  up_log :: "upstream_group ds_log"
  up_tick :: nat
  up_sent :: "update list"

text \<open>
  \<open>updateVulnWithUpstream\<close>: without a group the time is read from the clock.
\<close>

definition updateVulnWithUpstream ::
  "(nat \<Rightarrow> timestamp) \<Rightarrow> vuln_id \<Rightarrow> upstream_group option \<Rightarrow> upstream_state \<Rightarrow> upstream_state" where
  "updateVulnWithUpstream clock vulnID group_opt s =
     (case group_opt of
        None \<Rightarrow>
          s\<lparr>up_sent := up_sent s @ [\<lparr>u_id = vulnID, u_timestamp = clock (up_tick s),
              u_field = FieldUpstream, u_value = []\<rparr>],
            up_tick := Suc (up_tick s)\<rparr>
      | Some g \<Rightarrow>
          s\<lparr>up_sent := up_sent s @ [\<lparr>u_id = vulnID, u_timestamp = ug_modified g,
              u_field = FieldUpstream, u_value = ug_upstream_ids g\<rparr>]\<rparr>)"

definition createUpstreamGroup ::
  "upstream_group ds_client \<Rightarrow> (nat \<Rightarrow> timestamp) \<Rightarrow> vuln_id \<Rightarrow> vuln_id list \<Rightarrow> upstream_state
     \<Rightarrow> upstream_state \<times> (go_error + upstream_group)" where
  "createUpstreamGroup cl clock vulnID upstreamIDs s =
     (let grp = \<lparr>ug_key = NameKey '''', ug_vuln_id = vulnID, ug_upstream_ids = upstreamIDs,
            ug_modified = clock (up_tick s), ug_hierarchy = ''''\<rparr>;
          s1 = s\<lparr>up_tick := Suc (up_tick s)\<rparr>
      in case call_ds cl (DsCreate grp) (up_log s1) of
           Inl e \<Rightarrow> (s1, Inl e)
         | Inr (log, key) \<Rightarrow>
             let grp' = grp\<lparr>ug_key := key\<rparr>
             in (updateVulnWithUpstream clock vulnID (Some grp') (s1\<lparr>up_log := log\<rparr>), Inr grp'))"

text \<open>The result \<open>None\<close> is the code's \<open>nil\<close> group: nothing is left to compute for it.\<close>

definition updateUpstreamGroup ::
  "upstream_group ds_client \<Rightarrow> (nat \<Rightarrow> timestamp) \<Rightarrow> upstream_group \<Rightarrow> vuln_id list \<Rightarrow> upstream_state
     \<Rightarrow> upstream_state \<times> (go_error + upstream_group option)" where
  "updateUpstreamGroup cl clock grp upstreamIDs s =
     (if upstreamIDs = [] then
        case call_ds cl (DsDelete (ug_key grp)) (up_log s) of
          Inl e \<Rightarrow> (s, Inl e)
        | Inr (log, _) \<Rightarrow>
            (updateVulnWithUpstream clock (ug_vuln_id grp) None (s\<lparr>up_log := log\<rparr>), Inr None)
      else if upstreamIDs = ug_upstream_ids grp then (s, Inr None)
      else
        let grp' = grp\<lparr>ug_upstream_ids := upstreamIDs, ug_modified := clock (up_tick s)\<rparr>;
            s1 = s\<lparr>up_tick := Suc (up_tick s)\<rparr>
        in case call_ds cl (DsPut (ug_key grp') grp') (up_log s1) of
             Inl e \<Rightarrow> (s1, Inl e)
           | Inr (log, _) \<Rightarrow>
               (updateVulnWithUpstream clock (ug_vuln_id grp') (Some grp') (s1\<lparr>up_log := log\<rparr>),
                Inr (Some grp')))"

section \<open>The hierarchy of a group\<close>

type_synonym upstream_groups = "(vuln_id \<times> upstream_group) list"

record hierarchy_search =
  hs_toVisit :: "vuln_id list"
  hs_visited :: "vuln_id set"
  hs_map :: upstream_map

definition enqueue :: "vuln_id \<Rightarrow> hierarchy_search \<Rightarrow> hierarchy_search" where
  "enqueue upstream s =
     (if upstream \<notin> hs_visited s \<and> upstream \<notin> set (hs_toVisit s)
      then s\<lparr>hs_toVisit := hs_toVisit s @ [upstream]\<rparr> else s)"

text \<open>The body of the first inner loop: queue the upstream, or else note it in the map.\<close>

definition enqueueOrNote :: "vuln_id \<Rightarrow> vuln_id \<Rightarrow> hierarchy_search \<Rightarrow> hierarchy_search" where
  "enqueueOrNote vulnID upstream s =
     (if upstream \<notin> hs_visited s \<and> upstream \<notin> set (hs_toVisit s)
      then s\<lparr>hs_toVisit := hs_toVisit s @ [upstream]\<rparr>
      else case map_of (hs_map s) vulnID of
             None \<Rightarrow> s\<lparr>hs_map := AList.update vulnID [upstream] (hs_map s)\<rparr>
           | Some u \<Rightarrow>
               if upstream \<in> set u then s
               else s\<lparr>hs_map := AList.update vulnID (u @ [upstream]) (hs_map s)\<rparr>)"

definition hierarchyRound :: "upstream_groups \<Rightarrow> hierarchy_search \<Rightarrow> hierarchy_search" where
  "hierarchyRound allUpstreamGroups s =
     (case hs_toVisit s of
        [] \<Rightarrow> s
      | vulnID # q \<Rightarrow>
          if vulnID \<in> hs_visited s then s\<lparr>hs_toVisit := q\<rparr>
          else
            let s1 = s\<lparr>hs_toVisit := q, hs_visited := insert vulnID (hs_visited s)\<rparr>
            in case map_of allUpstreamGroups vulnID of
                 None \<Rightarrow> s1
               | Some grp \<Rightarrow>
                   if ug_upstream_ids grp = [] then s1
                   else
                     let s2 = fold (enqueueOrNote vulnID) (ug_upstream_ids grp) s1;
                         s3 = s2\<lparr>hs_map := AList.update vulnID (ug_upstream_ids grp) (hs_map s2)\<rparr>
                     in fold enqueue (ug_upstream_ids grp) s3)"

definition hierarchyLive :: "hierarchy_search \<Rightarrow> bool" where
  "hierarchyLive s \<longleftrightarrow> hs_toVisit s \<noteq> []"

definition hierarchySearch :: "vuln_id \<Rightarrow> upstream_groups \<Rightarrow> hierarchy_search" where
  "hierarchySearch target allUpstreamGroups =
     while hierarchyLive (hierarchyRound allUpstreamGroups)
       \<lparr>hs_toVisit = [target], hs_visited = {}, hs_map = []\<rparr>"

text \<open>
  The loop over the map that takes from the target's entry what another entry has. It
  ranges over the map in some order and writes only an entry that is there already.
\<close>

definition withoutTransitive :: "vuln_id \<Rightarrow> vuln_id list \<Rightarrow> upstream_map \<Rightarrow> upstream_map" where
  "withoutTransitive target ks m =
     fold (\<lambda>k m. if k = target then m
                 else AList.update target
                        (filter (\<lambda>u. u \<notin> set (upstreamsOf m k)) (upstreamsOf m target)) m)
       ks m"

text \<open>
  \<open>json.Marshal\<close> on a map of string slices: the keys in order, each string quoted, the
  characters HTML treats specially and the control characters escaped. Bytes from 128 on
  stand for themselves, as they do in valid UTF-8.
\<close>

definition json_char :: "char \<Rightarrow> string" where
  "json_char c =
     (let n = of_char c :: nat in
      if c = CHR 0x22 then [CHR 0x5C, CHR 0x22]
      else if c = CHR 0x5C then [CHR 0x5C, CHR 0x5C]
      else if n = 8 then [CHR 0x5C, CHR ''b'']
      else if n = 12 then [CHR 0x5C, CHR ''f'']
      else if n = 10 then [CHR 0x5C, CHR ''n'']
      else if n = 13 then [CHR 0x5C, CHR ''r'']
      else if n = 9 then [CHR 0x5C, CHR ''t'']
      else if n < 32 \<or> c = CHR ''<'' \<or> c = CHR ''>'' \<or> c = CHR ''&''
      then [CHR 0x5C, CHR ''u'', CHR ''0'', CHR ''0'', hex_digit (n div 16), hex_digit n]
      else [c])"

definition json_string :: "string \<Rightarrow> string" where
  "json_string s = [CHR 0x22] @ concat (map json_char s) @ [CHR 0x22]"

fun json_commas :: "string list \<Rightarrow> string" where
  "json_commas [] = []"
| "json_commas [x] = x"
| "json_commas (x # y # xs) = x @ '','' @ json_commas (y # xs)"

definition json_list :: "string list \<Rightarrow> string" where
  "json_list xs = ''['' @ json_commas (map json_string xs) @ '']''"

definition json_upstreams :: "upstream_map \<Rightarrow> string" where
  "json_upstreams m =
     ''{'' @ json_commas (map (\<lambda>k. json_string k @ '':'' @ json_list (upstreamsOf m k))
              (slices_sort (keys m))) @ ''}''"

text \<open>
  The entries of the map are the very slices of the groups, so sorting them sorts the
  groups too. The target's entry is a fresh slice as soon as there is another entry.
\<close>

definition sortGroups :: "vuln_id \<Rightarrow> upstream_map \<Rightarrow> upstream_groups \<Rightarrow> upstream_groups" where
  "sortGroups target m allUpstreamGroups =
     map (\<lambda>(k, g). (k, if k \<in> set (keys m) \<and> (k = target \<longrightarrow> set (keys m) = {target})
                       then g\<lparr>ug_upstream_ids := slices_sort (ug_upstream_ids g)\<rparr> else g))
       allUpstreamGroups"

definition hierarchyMap :: "(vuln_id list \<Rightarrow> vuln_id list) \<Rightarrow> vuln_id \<Rightarrow> upstream_groups \<Rightarrow> upstream_map" where
  "hierarchyMap ord target allUpstreamGroups =
     (let m = hs_map (hierarchySearch target allUpstreamGroups);
          m' = withoutTransitive target (ord (keys m)) m
      in map (\<lambda>(k, us). (k, slices_sort us)) m')"

text \<open>
  The target is given by its vulnerability ID: the group to update is the one the map holds
  under it.
\<close>

definition computeUpstreamHierarchy ::
  "upstream_group ds_client \<Rightarrow> (vuln_id list \<Rightarrow> vuln_id list) \<Rightarrow> vuln_id
     \<Rightarrow> upstream_state \<times> upstream_groups \<Rightarrow> (upstream_state \<times> upstream_groups) \<times> go_error option" where
  "computeUpstreamHierarchy cl ord target st =
     (case st of (s, allUpstreamGroups) \<Rightarrow>
        let m = hierarchyMap ord target allUpstreamGroups in
        if m = [] then (st, None)
        else
          let groups' = sortGroups target m allUpstreamGroups;
              upstreamJSON = json_upstreams m in
          case map_of groups' target of
            None \<Rightarrow> ((s, groups'), None)
          | Some grp \<Rightarrow>
              if upstreamJSON = ug_hierarchy grp then ((s, groups'), None)
              else
                let grp' = grp\<lparr>ug_hierarchy := upstreamJSON\<rparr>;
                    groups'' = AList.update target grp' groups'
                in case call_ds cl (DsPut (ug_key grp') grp') (up_log s) of
                     Inl e \<Rightarrow> ((s, groups''), Some e)
                   | Inr (log, _) \<Rightarrow> ((s\<lparr>up_log := log\<rparr>, groups''), None))"

section \<open>The whole run\<close>

definition collectUpstreams :: "vulnerability list \<Rightarrow> upstream_map" where
  "collectUpstreams vulns =
     fold (\<lambda>v. AList.update (v_key v) (slices_compact (slices_sort (v_upstream_raw v)))) vulns []"

definition collectUpstreamGroups :: "upstream_group list \<Rightarrow> upstream_groups" where
  "collectUpstreamGroups stored = fold (\<lambda>g. AList.update (ug_vuln_id g) g) stored []"

record upstream_loop =
  ul_state :: upstream_state
  ul_groups :: upstream_groups
  ul_updated :: "vuln_id list"

text \<open>The body of the loop over the raw upstreams.\<close>

definition regroupUpstream ::
  "upstream_group ds_client \<Rightarrow> (nat \<Rightarrow> timestamp) \<Rightarrow> upstream_map \<Rightarrow> vuln_id \<Rightarrow> upstream_loop
     \<Rightarrow> upstream_loop \<times> go_error option" where
  "regroupUpstream cl clock rawUpstreams vulnID l =
     (let newUpstreamIDs = computeUpstream vulnID rawUpstreams in
      case map_of (ul_groups l) vulnID of
        Some existing \<Rightarrow>
          (case updateUpstreamGroup cl clock existing newUpstreamIDs (ul_state l) of
             (s, Inl e) \<Rightarrow> (l\<lparr>ul_state := s\<rparr>, Some e)
           | (s, Inr None) \<Rightarrow> (l\<lparr>ul_state := s\<rparr>, None)
           | (s, Inr (Some grp)) \<Rightarrow>
               (l\<lparr>ul_state := s, ul_groups := AList.update vulnID grp (ul_groups l),
                  ul_updated := ul_updated l @ [vulnID]\<rparr>, None))
      | None \<Rightarrow>
          (case createUpstreamGroup cl clock vulnID newUpstreamIDs (ul_state l) of
             (s, Inl e) \<Rightarrow> (l\<lparr>ul_state := s\<rparr>, Some e)
           | (s, Inr grp) \<Rightarrow>
               (l\<lparr>ul_state := s, ul_groups := AList.update vulnID grp (ul_groups l),
                  ul_updated := ul_updated l @ [vulnID]\<rparr>, None)))"

record upstream_run =
  upr_sent :: "update list"
  upr_log :: "upstream_group ds_log"
  upr_error :: "go_error option"

definition ComputeUpstreamGroups ::
  "upstream_group ds_client \<Rightarrow> (nat \<Rightarrow> timestamp) \<Rightarrow> (vuln_id list \<Rightarrow> vuln_id list)
     \<Rightarrow> vulnerability ds_stream \<Rightarrow> upstream_group ds_stream \<Rightarrow> upstream_run" where
  "ComputeUpstreamGroups cl clock ord vulns groups =
     (let s0 = \<lparr>up_log = [], up_tick = 0, up_sent = []\<rparr>;
          result = (\<lambda>s e. \<lparr>upr_sent = up_sent s, upr_log = up_log s, upr_error = e\<rparr>) in
      case snd vulns of Some e \<Rightarrow> result s0 (Some (GoErr e)) | None \<Rightarrow>
      let rawUpstreams = collectUpstreams (fst vulns) in
      case snd groups of Some e \<Rightarrow> result s0 (Some (GoErr e)) | None \<Rightarrow>
      let l0 = \<lparr>ul_state = s0, ul_groups = collectUpstreamGroups (fst groups), ul_updated = []\<rparr>
      in case for_each (regroupUpstream cl clock rawUpstreams) (ord (keys rawUpstreams)) l0 of
           (l1, Some e) \<Rightarrow> result (ul_state l1) (Some e)
         | (l1, None) \<Rightarrow>
             (case for_each (computeUpstreamHierarchy cl ord) (ul_updated l1)
                     (ul_state l1, ul_groups l1) of
                ((s2, _), e) \<Rightarrow> result s2 e))"

section \<open>What the search for the upstreams finds\<close>

definition upstream_succ :: "upstream_map \<Rightarrow> vuln_id \<Rightarrow> vuln_id set" where
  "upstream_succ raw v = set (upstreamsOf raw v)"

interpretation upstream_bfs: worklist_search "upstream_succ raw" upstreamLive "\<lambda>_. True" us_visited
  "\<lambda>s. set (us_toVisit s)" "upstreamRound raw"
  "\<lambda>s. (card (dom (map_of raw) - us_visited s), length (us_toVisit s))" for raw
proof
  fix s
  assume "upstreamLive s"
  then obtain v q where q: "us_toVisit s = v # q"
    by (auto simp: upstreamLive_def neq_Nil_conv)
  show "\<exists>x\<in>set (us_toVisit s).
        us_visited (upstreamRound raw s) = insert x (us_visited s) \<and>
        set (us_toVisit (upstreamRound raw s)) \<subseteq> set (us_toVisit s) \<union> upstream_succ raw x \<and>
        set (us_toVisit s) \<union> (if x \<in> us_visited s then {} else upstream_succ raw x)
        \<subseteq> set (us_toVisit (upstreamRound raw s)) \<union> us_visited (upstreamRound raw s)"
    by (rule bexI [of _ v]) (auto simp: upstreamRound_def q upstream_succ_def Let_def)
  show "((card (dom (map_of raw) - us_visited (upstreamRound raw s)), length (us_toVisit (upstreamRound raw s))),
      card (dom (map_of raw) - us_visited s), length (us_toVisit s)) \<in> less_than <*lex*> less_than"
  proof (cases "v \<in> us_visited s \<or> v \<notin> dom (map_of raw)")
    case True
    then have "dom (map_of raw) - us_visited (upstreamRound raw s) = dom (map_of raw) - us_visited s"
      and "length (us_toVisit (upstreamRound raw s)) = length q"
      by (auto simp: upstreamRound_def q upstreamsOf_def Let_def split: option.splits)
    with q show ?thesis by simp
  next
    case False
    then have "dom (map_of raw) - us_visited (upstreamRound raw s)
        \<subset> dom (map_of raw) - us_visited s"
      by (auto simp: upstreamRound_def q Let_def)
    then show ?thesis
      by (auto simp: finite_dom_map_of intro!: psubset_card_mono)
  qed
qed simp

lemma reach_trancl: "reach succ (succ v) = {w. (v, w) \<in> (edge_rel succ)\<^sup>+}"
  by (auto simp: reach_def trancl_unfold_left edge_rel_def)

lemma computeUpstream_reach:
  shows "computeUpstream v raw = sorted_list_of_set (reach (upstream_succ raw) (upstream_succ raw v))"
    and "set (computeUpstream v raw) = reach (upstream_succ raw) (upstream_succ raw v)"
proof -
  let ?s0 = "\<lparr>us_toVisit = upstreamsOf raw v, us_visited = {}, us_result = []\<rparr>"
  define s where "s = while upstreamLive (upstreamRound raw) ?s0"
  have run: "while_option upstreamLive (upstreamRound raw) ?s0 = Some s"
    unfolding s_def by (rule upstream_bfs.search_while) simp
  have "\<not> upstreamLive s" by (rule while_option_stop [OF run])
  then have "set (us_toVisit s) = {}" by (simp add: upstreamLive_def)
  from upstream_bfs.search_expands_reach [OF _ run this]
  have visited: "us_visited s = reach (upstream_succ raw) (upstream_succ raw v)"
    by (simp add: upstream_succ_def)
  have ids: "distinct (us_result s) \<and> set (us_result s) = us_visited s"
    by (rule while_option_rule [OF _ run])
      (auto simp: upstreamRound_def Let_def split: list.splits)
  then have "slices_sort (us_result s) = sorted_list_of_set (us_visited s)"
    using sort_distinct_sorted_list by metis
  then show "computeUpstream v raw = sorted_list_of_set (reach (upstream_succ raw) (upstream_succ raw v))"
    by (simp add: computeUpstream_def flip: s_def visited)
  show "set (computeUpstream v raw) = reach (upstream_succ raw) (upstream_succ raw v)"
    using ids by (simp add: computeUpstream_def flip: s_def visited)
qed

section \<open>What the search for the hierarchy finds\<close>

definition groupIDs :: "upstream_groups \<Rightarrow> vuln_id \<Rightarrow> vuln_id list" where
  "groupIDs G v = (case map_of G v of None \<Rightarrow> [] | Some g \<Rightarrow> ug_upstream_ids g)"

definition group_succ :: "upstream_groups \<Rightarrow> vuln_id \<Rightarrow> vuln_id set" where
  "group_succ G v = set (groupIDs G v)"

lemma fold_enqueueOrNote [simp]:
  "hs_visited (fold (enqueueOrNote v) us s) = hs_visited s"
  "set (hs_toVisit (fold (enqueueOrNote v) us s)) = set (hs_toVisit s) \<union> (set us - hs_visited s)"
  "k \<noteq> v \<Longrightarrow> map_of (hs_map (fold (enqueueOrNote v) us s)) k = map_of (hs_map s) k"
  by (induction us arbitrary: s)
    (auto simp: enqueueOrNote_def update_conv' split: option.splits)

lemma fold_enqueue [simp]:
  "hs_visited (fold enqueue us s) = hs_visited s"
  "set (hs_toVisit (fold enqueue us s)) = set (hs_toVisit s) \<union> (set us - hs_visited s)"
  "hs_map (fold enqueue us s) = hs_map s"
  by (induction us arbitrary: s) (auto simp: enqueue_def)

definition hierarchy_ok :: "upstream_groups \<Rightarrow> hierarchy_search \<Rightarrow> bool" where
  "hierarchy_ok G s \<longleftrightarrow>
     distinct (keys (hs_map s))
     \<and> (\<forall>k. map_of (hs_map s) k =
         (if k \<in> hs_visited s \<and> groupIDs G k \<noteq> [] then Some (groupIDs G k) else None))"

lemma fold_enqueueOrNote_distinct:
  "distinct (keys (hs_map s)) \<Longrightarrow> distinct (keys (hs_map (fold (enqueueOrNote v) us s)))"
  by (induction us arbitrary: s) (auto simp: enqueueOrNote_def split: option.splits)

lemma hierarchyRound_Cons:
  assumes "hs_toVisit s = v # q" and "v \<notin> hs_visited s"
  shows "hs_visited (hierarchyRound G s) = insert v (hs_visited s)"
    and "set (hs_toVisit (hierarchyRound G s)) = set q \<union> (group_succ G v - insert v (hs_visited s))"
    and "groupIDs G v = [] \<Longrightarrow> hs_toVisit (hierarchyRound G s) = q"
    and "groupIDs G v = [] \<Longrightarrow> hs_map (hierarchyRound G s) = hs_map s"
    and "groupIDs G v \<noteq> [] \<Longrightarrow> map_of (hs_map (hierarchyRound G s)) k
        = (if k = v then Some (groupIDs G v) else map_of (hs_map s) k)"
    and "distinct (keys (hs_map s)) \<Longrightarrow> distinct (keys (hs_map (hierarchyRound G s)))"
  using assms
  by (auto simp: hierarchyRound_def groupIDs_def group_succ_def Let_def update_conv'
      fold_enqueueOrNote_distinct split: option.splits)

lemma hierarchyRound_skip:
  assumes "hs_toVisit s = v # q" and "v \<in> hs_visited s"
  shows "hierarchyRound G s = s\<lparr>hs_toVisit := q\<rparr>"
  using assms by (simp add: hierarchyRound_def)

lemma groupIDs_dom: "groupIDs G v \<noteq> [] \<Longrightarrow> v \<in> dom (map_of G)"
  by (auto simp: groupIDs_def split: option.splits)

interpretation hierarchy_bfs: worklist_search "group_succ G" hierarchyLive "hierarchy_ok G" hs_visited
  "\<lambda>s. set (hs_toVisit s)" "hierarchyRound G"
  "\<lambda>s. (card (dom (map_of G) - hs_visited s), length (hs_toVisit s))" for G
proof
  fix s
  assume ok: "hierarchy_ok G s" and "hierarchyLive s"
  then obtain v q where q: "hs_toVisit s = v # q"
    by (auto simp: hierarchyLive_def neq_Nil_conv)
  note R = hierarchyRound_Cons [OF q] and S = hierarchyRound_skip [OF q]
  show "hierarchy_ok G (hierarchyRound G s)"
  proof (cases "v \<in> hs_visited s")
    case True
    then show ?thesis using ok by (simp add: S hierarchy_ok_def)
  next
    case False
    then show ?thesis
      using ok R [OF False, of G] by (cases "groupIDs G v = []") (auto simp: hierarchy_ok_def)
  qed
  show "\<exists>x\<in>set (hs_toVisit s).
        hs_visited (hierarchyRound G s) = insert x (hs_visited s) \<and>
        set (hs_toVisit (hierarchyRound G s)) \<subseteq> set (hs_toVisit s) \<union> group_succ G x \<and>
        set (hs_toVisit s) \<union> (if x \<in> hs_visited s then {} else group_succ G x)
        \<subseteq> set (hs_toVisit (hierarchyRound G s)) \<union> hs_visited (hierarchyRound G s)"
  proof (rule bexI [of _ v])
    show "hs_visited (hierarchyRound G s) = insert v (hs_visited s) \<and>
        set (hs_toVisit (hierarchyRound G s)) \<subseteq> set (hs_toVisit s) \<union> group_succ G v \<and>
        set (hs_toVisit s) \<union> (if v \<in> hs_visited s then {} else group_succ G v)
        \<subseteq> set (hs_toVisit (hierarchyRound G s)) \<union> hs_visited (hierarchyRound G s)"
      by (cases "v \<in> hs_visited s") (auto simp: S R q)
  qed (simp add: q)
  show "((card (dom (map_of G) - hs_visited (hierarchyRound G s)), length (hs_toVisit (hierarchyRound G s))),
      card (dom (map_of G) - hs_visited s), length (hs_toVisit s)) \<in> less_than <*lex*> less_than"
  proof (cases "v \<in> hs_visited s")
    case True
    then show ?thesis by (simp add: S q)
  next
    case new: False
    show ?thesis
    proof (cases "v \<in> dom (map_of G)")
      case False
      then have "groupIDs G v = []" using groupIDs_dom by blast
      moreover have "dom (map_of G) - hs_visited (hierarchyRound G s) = dom (map_of G) - hs_visited s"
        using False by (auto simp: R(1) [OF new])
      ultimately show ?thesis by (simp add: R(3) [OF new] q)
    next
      case True
      with new have "dom (map_of G) - hs_visited (hierarchyRound G s) \<subset> dom (map_of G) - hs_visited s"
        by (auto simp: R [OF new])
      then show ?thesis
        by (auto simp: finite_dom_map_of intro!: psubset_card_mono)
    qed
  qed
qed

lemma hierarchySearch_map:
  shows "map_of (hs_map (hierarchySearch t G)) k
    = (if k \<in> reach (group_succ G) {t} \<and> groupIDs G k \<noteq> [] then Some (groupIDs G k) else None)"
    and "distinct (keys (hs_map (hierarchySearch t G)))"
proof -
  let ?s0 = "\<lparr>hs_toVisit = [t], hs_visited = {}, hs_map = []\<rparr>"
  have ok: "hierarchy_ok G ?s0" by (simp add: hierarchy_ok_def keys_def)
  have run: "while_option hierarchyLive (hierarchyRound G) ?s0 = Some (hierarchySearch t G)"
    unfolding hierarchySearch_def by (rule hierarchy_bfs.search_while [OF ok])
  have "\<not> hierarchyLive (hierarchySearch t G)" by (rule while_option_stop [OF run])
  then have "set (hs_toVisit (hierarchySearch t G)) = {}" by (simp add: hierarchyLive_def)
  from hierarchy_bfs.search_expands_reach [OF ok run this]
  have "hs_visited (hierarchySearch t G) = reach (group_succ G) {t}" by simp
  moreover have "hierarchy_ok G (hierarchySearch t G)"
    using hierarchy_bfs.search_result_inv(1) [OF ok run]
    by (simp add: hierarchy_bfs.search_inv_def)
  ultimately show "map_of (hs_map (hierarchySearch t G)) k
    = (if k \<in> reach (group_succ G) {t} \<and> groupIDs G k \<noteq> [] then Some (groupIDs G k) else None)"
    and "distinct (keys (hs_map (hierarchySearch t G)))"
    by (simp_all add: hierarchy_ok_def)
qed

lemma withoutTransitive_map:
  assumes "distinct ks" and "set ks \<subseteq> dom (map_of m)" and "ks \<noteq> [] \<longrightarrow> target \<in> dom (map_of m)"
  shows "map_of (withoutTransitive target ks m) k
    = (if k = target then map_option (filter (\<lambda>u. \<forall>j \<in> set ks - {target}. u \<notin> set (upstreamsOf m j))) (map_of m k)
       else map_of m k)"
  using assms
proof (induction ks arbitrary: m)
  case Nil
  then show ?case by (cases "map_of m k") (auto simp: withoutTransitive_def)
next
  case (Cons j ks)
  show ?case
  proof (cases "j = target")
    case True
    with Cons.IH [of m] Cons.prems show ?thesis
      by (simp add: withoutTransitive_def)
  next
    case False
    let ?m = "AList.update target (filter (\<lambda>u. u \<notin> set (upstreamsOf m j)) (upstreamsOf m target)) m"
    have other: "upstreamsOf ?m i = upstreamsOf m i" if "i \<noteq> target" for i
      using that by (simp add: upstreamsOf_def update_conv')
    have dm: "dom (map_of ?m) = insert target (dom (map_of m))"
      by (auto simp: update_conv')
    have IH: "map_of (withoutTransitive target ks ?m) k
        = (if k = target then map_option (filter (\<lambda>u. \<forall>i \<in> set ks - {target}. u \<notin> set (upstreamsOf ?m i))) (map_of ?m k)
           else map_of ?m k)"
      by (rule Cons.IH) (use Cons.prems dm in auto)
    from Cons.prems(3) obtain ts where ts: "map_of m target = Some ts" by auto
    have step: "withoutTransitive target (j # ks) m = withoutTransitive target ks ?m"
      using False by (simp add: withoutTransitive_def)
    show ?thesis
      unfolding step IH using other False ts
      by (auto simp: update_conv' upstreamsOf_def [of m target] intro!: filter_cong)
  qed
qed


lemma withoutTransitive_keys:
  "distinct (keys m) \<Longrightarrow> distinct (keys (withoutTransitive target ks m))"
  unfolding withoutTransitive_def by (induction ks arbitrary: m) simp_all

lemma hierarchyMap_map:
  assumes "iteration_order ord"
  shows "map_of (hierarchyMap ord t G) k
    = (if k \<in> reach (group_succ G) {t} \<and> groupIDs G k \<noteq> []
       then Some (slices_sort (if k = t
         then filter (\<lambda>u. \<forall>j \<in> reach (group_succ G) {t} - {t}. u \<notin> set (groupIDs G j)) (groupIDs G t)
         else groupIDs G k))
       else None)"
proof -
  let ?m = "hs_map (hierarchySearch t G)"
  note m = hierarchySearch_map [of t G]
  have ks: "distinct (ord (keys ?m))" "set (ord (keys ?m)) = dom (map_of ?m)"
    using iteration_orderD [OF assms m(2)] by simp_all
  have dom: "dom (map_of ?m) = {k \<in> reach (group_succ G) {t}. groupIDs G k \<noteq> []}"
    by (auto simp: m(1) split: if_splits)
  have "t \<in> dom (map_of ?m)" if "ord (keys ?m) \<noteq> []"
  proof (rule ccontr)
    assume "t \<notin> dom (map_of ?m)"
    then have "groupIDs G t = []" by (simp add: dom reach_refl)
    then have "reach (group_succ G) {t} \<subseteq> {t}"
      by (intro reach_closed_subset) (auto simp: group_succ_def)
    with \<open>groupIDs G t = []\<close> have "dom (map_of ?m) = {}" by (auto simp: dom)
    with ks(2) that show False by simp
  qed
  have ids: "upstreamsOf ?m j = (if j \<in> reach (group_succ G) {t} then groupIDs G j else [])" for j
    by (simp add: upstreamsOf_def m(1))
  have flt: "(\<forall>j \<in> set (ord (keys ?m)) - {t}. u \<notin> set (upstreamsOf ?m j))
      \<longleftrightarrow> (\<forall>j \<in> reach (group_succ G) {t} - {t}. u \<notin> set (groupIDs G j))" for u
    unfolding ks(2) dom by (auto simp: ids)
  have "map_of (withoutTransitive t (ord (keys ?m)) ?m) k
    = (if k = t then map_option (filter (\<lambda>u. \<forall>j \<in> set (ord (keys ?m)) - {t}. u \<notin> set (upstreamsOf ?m j))) (map_of ?m k)
       else map_of ?m k)"
    by (rule withoutTransitive_map) (use ks \<open>ord (keys ?m) \<noteq> [] \<Longrightarrow> t \<in> dom (map_of ?m)\<close> in auto)
  then show ?thesis
    unfolding hierarchyMap_def Let_def map_of_map flt by (simp add: m(1))
qed

section \<open>Properties\<close>

text \<open>
  The upstreams computed for a vulnerability are exactly the vulnerabilities it has
  upstream in one or more steps, sorted and each once; cycles among them do not keep the
  search from ending, and a vulnerability on a cycle is upstream of itself.
\<close>

theorem computeUpstream_closure:
  "computeUpstream v rawUpstreams
    = sorted_list_of_set {w. (v, w) \<in> {(a, b). b \<in> set (upstreamsOf rawUpstreams a)}\<^sup>+}"
  using computeUpstream_reach(1) [of v rawUpstreams]
  by (simp add: reach_trancl) (simp add: edge_rel_def upstream_succ_def)

text \<open>
  C13: When the groups hold the transitive upstreams, the hierarchy stored for a vulnerability
  lists, under the vulnerability itself, the upstreams it reaches through no other one, and,
  under every other upstream that has upstreams, all of these; each list is sorted.
\<close>

theorem hierarchyMap_reduces:
  assumes "iteration_order ord"
    and "\<forall>v. groupIDs G v = computeUpstream v raw"
  shows "map_of (hierarchyMap ord t G) k
    = (if (k = t \<or> k \<in> set (computeUpstream t raw)) \<and> computeUpstream k raw \<noteq> []
       then Some (if k = t
         then filter (\<lambda>u. \<forall>j \<in> set (computeUpstream t raw) - {t}. u \<notin> set (computeUpstream j raw))
                (computeUpstream t raw)
         else computeUpstream k raw)
       else None)"
proof -
  let ?R = "edge_rel (upstream_succ raw)"
  have c: "set (computeUpstream v raw) = {w. (v, w) \<in> ?R\<^sup>+}" for v
    by (simp add: computeUpstream_reach(2) reach_trancl)
  have s: "group_succ G v = {w. (v, w) \<in> ?R\<^sup>+}" for v
    using assms(2) by (simp add: group_succ_def c)
  have "reach (group_succ G) {t} = insert t (set (computeUpstream t raw))"
  proof
    show "reach (group_succ G) {t} \<subseteq> insert t (set (computeUpstream t raw))"
      by (rule reach_closed_subset) (auto simp: s c intro: trancl_trans)
    show "insert t (set (computeUpstream t raw)) \<subseteq> reach (group_succ G) {t}"
      using reach_step [of t "group_succ G" "{t}"] by (auto simp: s c reach_refl)
  qed
  moreover have "sorted (computeUpstream v raw)" for v
    by (simp add: computeUpstream_def)
  ultimately show ?thesis
    using assms(2) by (simp add: hierarchyMap_map [OF assms(1)] sorted_sort_id sorted_wrt_filter)
qed

theorem hierarchyMap_reduces_witness:
  "map_of (hierarchyMap rev ''A''
      [(''A'', \<lparr>ug_key = IDKey 1, ug_vuln_id = ''A'', ug_upstream_ids = [''B'', ''C''], ug_modified = 0, ug_hierarchy = ''''\<rparr>),
       (''B'', \<lparr>ug_key = IDKey 2, ug_vuln_id = ''B'', ug_upstream_ids = [''C''], ug_modified = 0, ug_hierarchy = ''''\<rparr>)]) ''A''
    = Some [''B'']"
proof -
  let ?raw = "[(''A'', [''B'', ''C'']), (''B'', [''C''])]"
  have c: "computeUpstream ''A'' ?raw = [''B'', ''C'']" "computeUpstream ''B'' ?raw = [''C'']"
    "computeUpstream ''C'' ?raw = []"
    by code_simp+
  have n: "computeUpstream v ?raw = []" if "v \<noteq> ''A''" "v \<noteq> ''B''" for v
    using computeUpstream_reach(1) [of v ?raw] that
    by (simp add: upstream_succ_def upstreamsOf_def)
  have "\<forall>v. groupIDs
      [(''A'', \<lparr>ug_key = IDKey 1, ug_vuln_id = ''A'', ug_upstream_ids = [''B'', ''C''], ug_modified = 0, ug_hierarchy = ''''\<rparr>),
       (''B'', \<lparr>ug_key = IDKey 2, ug_vuln_id = ''B'', ug_upstream_ids = [''C''], ug_modified = 0, ug_hierarchy = ''''\<rparr>)] v
      = computeUpstream v ?raw"
    by (auto simp: groupIDs_def c n)
  from hierarchyMap_reduces [OF iteration_order_rev this, of "''A''" "''A''"] show ?thesis
    by (simp add: c)
qed

section \<open>What a run sends\<close>

text \<open>A vulnerability gets an update unless its stored group has the upstreams computed.\<close>

definition upstream_changed :: "upstream_map \<Rightarrow> upstream_groups \<Rightarrow> vuln_id \<Rightarrow> bool" where
  "upstream_changed raw G v \<longleftrightarrow>
     (case map_of G v of
        None \<Rightarrow> True
      | Some g \<Rightarrow> computeUpstream v raw = [] \<or> ug_upstream_ids g \<noteq> computeUpstream v raw)"

lemma updateVulnWithUpstream_sent [simp]:
  "map (\<lambda>u. (u_field u, u_id u, u_value u)) (up_sent (updateVulnWithUpstream clock v g s))
     = map (\<lambda>u. (u_field u, u_id u, u_value u)) (up_sent s)
       @ [(FieldUpstream, v, case g of None \<Rightarrow> [] | Some g \<Rightarrow> ug_upstream_ids g)]"
  "up_log (updateVulnWithUpstream clock v g s) = up_log s"
  by (simp_all add: updateVulnWithUpstream_def split: option.splits)

abbreviation sent_ups :: "upstream_state \<Rightarrow> (update_field \<times> vuln_id \<times> vuln_id list) list" where
  "sent_ups s \<equiv> map (\<lambda>u. (u_field u, u_id u, u_value u)) (up_sent s)"

lemma regroupUpstream_success:
  assumes "regroupUpstream cl clock raw v l = (l', None)"
    and vid: "\<And>g. map_of (ul_groups l) v = Some g \<Longrightarrow> ug_vuln_id g = v"
  shows "sent_ups (ul_state l') = sent_ups (ul_state l)
      @ (if upstream_changed raw (ul_groups l) v then [(FieldUpstream, v, computeUpstream v raw)] else [])"
    and "w \<noteq> v \<Longrightarrow> map_of (ul_groups l') w = map_of (ul_groups l) w"
proof -
  have "sent_ups (ul_state l') = sent_ups (ul_state l)
      @ (if upstream_changed raw (ul_groups l) v then [(FieldUpstream, v, computeUpstream v raw)] else [])
    \<and> (w \<noteq> v \<longrightarrow> map_of (ul_groups l') w = map_of (ul_groups l) w)"
  proof (cases "map_of (ul_groups l) v")
    case None
    with assms(1) show ?thesis
      by (auto simp: regroupUpstream_def createUpstreamGroup_def upstream_changed_def Let_def
          update_conv' call_ds_def split: sum.splits prod.splits)
  next
    case (Some g)
    with assms(1) vid [OF Some] show ?thesis
      by (auto simp: regroupUpstream_def updateUpstreamGroup_def upstream_changed_def Let_def
          update_conv' call_ds_def split: sum.splits prod.splits option.splits if_splits)
  qed
  then show "sent_ups (ul_state l') = sent_ups (ul_state l)
      @ (if upstream_changed raw (ul_groups l) v then [(FieldUpstream, v, computeUpstream v raw)] else [])"
    and "w \<noteq> v \<Longrightarrow> map_of (ul_groups l') w = map_of (ul_groups l) w" by simp_all
qed

lemma regroupUpstream_loop:
  assumes "for_each (regroupUpstream cl clock raw) vs l = (l', None)" and "distinct vs"
    and "\<And>v g. v \<in> set vs \<Longrightarrow> map_of (ul_groups l) v = Some g \<Longrightarrow> ug_vuln_id g = v"
  shows "sent_ups (ul_state l') = sent_ups (ul_state l)
    @ map (\<lambda>v. (FieldUpstream, v, computeUpstream v raw)) (filter (upstream_changed raw (ul_groups l)) vs)"
  using assms
proof (induction vs arbitrary: l)
  case Nil
  then show ?case by simp
next
  case (Cons v vs)
  from Cons.prems(1) obtain l1 where step: "regroupUpstream cl clock raw v l = (l1, None)"
    and loop: "for_each (regroupUpstream cl clock raw) vs l1 = (l', None)"
    by (auto split: prod.splits option.splits)
  note S = regroupUpstream_success [OF step Cons.prems(3)]
  have other: "map_of (ul_groups l1) w = map_of (ul_groups l) w" if "w \<in> set vs" for w
    using S(2) [of w] that Cons.prems(2) by auto
  have "filter (upstream_changed raw (ul_groups l1)) vs = filter (upstream_changed raw (ul_groups l)) vs"
    by (rule filter_cong) (simp_all add: upstream_changed_def other)
  moreover have "sent_ups (ul_state l') = sent_ups (ul_state l1)
      @ map (\<lambda>v. (FieldUpstream, v, computeUpstream v raw)) (filter (upstream_changed raw (ul_groups l1)) vs)"
    by (rule Cons.IH [OF loop]) (use Cons.prems other in auto)
  ultimately show ?case using S(1) by simp
qed

lemma computeUpstreamHierarchy_sent:
  "up_sent (fst (fst (computeUpstreamHierarchy cl ord t st))) = up_sent (fst st)"
  by (auto simp: computeUpstreamHierarchy_def Let_def split: prod.splits option.splits sum.splits)

lemma collectUpstreamGroups_ids:
  "map_of (collectUpstreamGroups gs) v = Some g \<Longrightarrow> ug_vuln_id g = v"
proof -
  have "(\<And>v g. map_of al v = Some g \<Longrightarrow> ug_vuln_id g = v)
      \<Longrightarrow> map_of (fold (\<lambda>g. AList.update (ug_vuln_id g) g) gs al) v = Some g \<Longrightarrow> ug_vuln_id g = v" for al
  proof (induction gs arbitrary: al)
    case (Cons h gs)
    from Cons.prems(2) show ?case
      by (intro Cons.IH [of "AList.update (ug_vuln_id h) h al"])
        (use Cons.prems(1) in \<open>auto simp: update_conv' split: if_splits\<close>)
  qed simp
  from this [of "[]"] show "map_of (collectUpstreamGroups gs) v = Some g \<Longrightarrow> ug_vuln_id g = v"
    by (simp add: collectUpstreamGroups_def)
qed

lemma collectUpstreams_distinct: "distinct (keys (collectUpstreams vulns))"
proof -
  have "distinct (keys al) \<Longrightarrow>
      distinct (keys (fold (\<lambda>v. AList.update (v_key v) (slices_compact (slices_sort (v_upstream_raw v)))) vulns al))" for al
    by (induction vulns arbitrary: al) simp_all
  from this [of "[]"] show ?thesis by (simp add: collectUpstreams_def keys_def)
qed


definition ex_upstream :: "string \<Rightarrow> vuln_id list \<Rightarrow> vulnerability" where
  "ex_upstream k us = \<lparr>v_key = k, v_source_id = '''', v_modified = 0, v_is_withdrawn = False,
     v_modified_raw = 0, v_alias_raw = [], v_related_raw = [], v_upstream_raw = us\<rparr>"

abbreviation ex_upstream_groups :: "upstream_group list" where
  "ex_upstream_groups \<equiv> [\<lparr>ug_key = IDKey 1, ug_vuln_id = ''A'', ug_upstream_ids = [''B''],
     ug_modified = 0, ug_hierarchy = ''''\<rparr>]"


text \<open>
  A vulnerability that has lost all its upstreams keeps its stored upstream group and the
  upstreams in its record: the run looks only at the vulnerabilities that have raw
  upstreams, so with none left it deletes nothing and sends nothing, whatever is stored (the
  related groups, by contrast, are deleted when nothing is related any more).
\<close>

theorem ComputeUpstreamGroups_keeps_stale:
  assumes "iteration_order ord"
  shows "ComputeUpstreamGroups cl clock ord ([], None) (groups, None)
    = \<lparr>upr_sent = [], upr_log = [], upr_error = None\<rparr>"
  using iteration_orderD(2) [OF assms, of "[]"]
  by (simp add: ComputeUpstreamGroups_def collectUpstreams_def keys_def Let_def)

theorem ComputeUpstreamGroups_keeps_stale_witness:
  "ComputeUpstreamGroups (numbering_client []) int rev ([], None) (ex_upstream_groups, None)
    = \<lparr>upr_sent = [], upr_log = [], upr_error = None\<rparr>"
  by (rule ComputeUpstreamGroups_keeps_stale [OF iteration_order_rev])

end
