(* ===== verification/Updater.thy ===== *)
theory Updater
  imports Datastore
begin

text \<open>
  The updater of the relations worker (\<open>apps/cli/cmd/relations/update.go\<close>): it collects the
  updates sent to it by vulnerability and, once the channel is closed, writes each changed
  record to the datastore, in a transaction, and then to the bucket, or publishes a message
  when that fails.

  The bucket, the datastore, the message queue and the wire format are not part of the
  repository: what each call answers is a parameter.
\<close>

section \<open>Applying the updates to a record\<close>

record 'r osv_record =
  os_aliases :: "vuln_id list"
  os_upstream :: "vuln_id list"
  os_related :: "vuln_id list"
  os_modified :: timestamp
  os_rest :: 'r

text \<open>The zero \<open>time.Time\<close>, the first of January of the year 1, in nanoseconds.\<close>

definition zero_time :: timestamp where
  "zero_time = -62135596800000000000"

record 'r applied =
  ap_record :: "'r osv_record"
  ap_hasUpdates :: bool
  ap_modified :: timestamp
  ap_fields :: "string list"

definition field_of :: "update_field \<Rightarrow> 'r osv_record \<Rightarrow> vuln_id list" where
  "field_of f v = (case f of FieldAlias \<Rightarrow> os_aliases v | FieldUpstream \<Rightarrow> os_upstream v
     | FieldRelated \<Rightarrow> os_related v)"

definition set_field :: "update_field \<Rightarrow> vuln_id list \<Rightarrow> 'r osv_record \<Rightarrow> 'r osv_record" where
  "set_field f xs v = (case f of FieldAlias \<Rightarrow> v\<lparr>os_aliases := xs\<rparr>
     | FieldUpstream \<Rightarrow> v\<lparr>os_upstream := xs\<rparr> | FieldRelated \<Rightarrow> v\<lparr>os_related := xs\<rparr>)"

definition field_name :: "update_field \<Rightarrow> string" where
  "field_name f = (case f of FieldAlias \<Rightarrow> ''aliases'' | FieldUpstream \<Rightarrow> ''upstream''
     | FieldRelated \<Rightarrow> ''related'')"

text \<open>The body of the loop over the updates of one record.\<close>

definition applyUpdate :: "update \<Rightarrow> 'r applied \<Rightarrow> 'r applied" where
  "applyUpdate u a =
     (if field_of (u_field u) (ap_record a) = u_value u then a
      else
        \<lparr>ap_record = set_field (u_field u) (u_value u) (ap_record a),
         ap_hasUpdates = True,
         ap_modified = (if u_timestamp u > ap_modified a then u_timestamp u else ap_modified a),
         ap_fields = ap_fields a @ [field_name (u_field u)]\<rparr>)"

definition applyUpdates :: "update list \<Rightarrow> 'r osv_record \<Rightarrow> 'r applied" where
  "applyUpdates us v =
     fold applyUpdate us
       \<lparr>ap_record = v, ap_hasUpdates = False, ap_modified = zero_time, ap_fields = []\<rparr>"

section \<open>Writing one record\<close>

datatype 'd object_read = ObjData 'd | ObjNotFound | ObjError
datatype write_answer = WriteOk | PreconditionFailed | WriteError

text \<open>What the services answer for one vulnerability.\<close>

record ('d, 'r) answers =
  an_read :: "'d object_read"
  an_inDatastore :: bool
  an_attrs :: "int option"
  an_unmarshal :: "'d \<Rightarrow> 'r osv_record option"
  an_newTransaction :: bool
  an_txGet :: bool
  an_txPut :: bool
  an_txPutListed :: bool
  an_commit :: bool
  an_marshal :: "'r osv_record \<Rightarrow> 'd option"
  an_write :: write_answer

text \<open>What the updater does to the outside, in order.\<close>

datatype ('d, 'r) effect =
    Committed vuln_id timestamp "'r osv_record"
  | Written vuln_id 'd int timestamp
  | PublishMissing vuln_id
  | PublishMismatch vuln_id "string list"
  | PublishRetry 'd

definition updateVuln ::
  "('d, 'r) answers \<Rightarrow> vuln_id \<Rightarrow> update list \<Rightarrow> ('d, 'r) effect list" where
  "updateVuln an vid updates =
     (case an_read an of
        ObjNotFound \<Rightarrow> if an_inDatastore an then [PublishMissing vid] else []
      | ObjError \<Rightarrow> []
      | ObjData data \<Rightarrow>
          (case an_attrs an of None \<Rightarrow> [] | Some generation \<Rightarrow>
           case an_unmarshal an data of None \<Rightarrow> [] | Some v0 \<Rightarrow>
           let a = applyUpdates updates v0 in
           if \<not> ap_hasUpdates a then []
           else
             let v = (ap_record a)\<lparr>os_modified := ap_modified a\<rparr> in
             if \<not> an_newTransaction an then []
             else if \<not> an_txGet an then []
             else if \<not> an_txPut an then []
             else if \<not> an_txPutListed an then []
             else if \<not> an_commit an then []
             else Committed vid (ap_modified a) v #
               (case an_marshal an v of
                  None \<Rightarrow> []
                | Some newData \<Rightarrow>
                    (case an_write an of
                       WriteOk \<Rightarrow> [Written vid newData generation (ap_modified a)]
                     | PreconditionFailed \<Rightarrow> [PublishMismatch vid (ap_fields a)]
                     | WriteError \<Rightarrow> [PublishRetry newData]))))"

section \<open>The whole run\<close>

text \<open>
  The consumer loop ends when the channel is closed, or when the context is cancelled, and
  then nothing is written.
\<close>

definition collate :: "update list \<Rightarrow> (vuln_id \<times> update list) list" where
  "collate us =
     fold (\<lambda>u m. AList.update (u_id u)
                  ((case map_of m (u_id u) of None \<Rightarrow> [] | Some l \<Rightarrow> l) @ [u]) m) us []"

definition updaterRun ::
  "(vuln_id \<Rightarrow> ('d, 'r) answers) \<Rightarrow> (vuln_id list \<Rightarrow> vuln_id list) \<Rightarrow> bool \<Rightarrow> update list
     \<Rightarrow> ('d, 'r) effect list" where
  "updaterRun an ord cancelled us =
     (if cancelled then []
      else
        let allUpdates = collate us
        in concat (map (\<lambda>vid. updateVuln (an vid) vid (the (map_of allUpdates vid)))
             (ord (keys allUpdates))))"

section \<open>What applying the updates gives\<close>

lemma field_of_set_field [simp]:
  "field_of f (set_field g xs v) = (if f = g then xs else field_of f v)"
  by (simp add: field_of_def set_field_def split: update_field.splits)

text \<open>The value an update list leaves in a field: that of the last update of the field.\<close>

definition last_value :: "update_field \<Rightarrow> update list \<Rightarrow> vuln_id list \<Rightarrow> vuln_id list" where
  "last_value f us old = last (old # map u_value (filter (\<lambda>u. u_field u = f) us))"

lemma last_value_snoc:
  "last_value f (us @ [u]) old = (if u_field u = f then u_value u else last_value f us old)"
  by (simp add: last_value_def)

lemma applyUpdates_snoc: "applyUpdates (us @ [u]) v = applyUpdate u (applyUpdates us v)"
  by (simp add: applyUpdates_def)

lemma applyUpdates_field:
  "field_of f (ap_record (applyUpdates us v)) = last_value f us (field_of f v)"
proof (induction us rule: rev_induct)
  case Nil
  then show ?case by (simp add: applyUpdates_def last_value_def)
next
  case (snoc u us)
  then show ?case
    by (auto simp: applyUpdates_snoc applyUpdate_def last_value_snoc)
qed

lemma applyUpdates_frame:
  "os_rest (ap_record (applyUpdates us v)) = os_rest v"
  "os_modified (ap_record (applyUpdates us v)) = os_modified v"
  by (induction us rule: rev_induct)
    (auto simp: applyUpdates_snoc applyUpdate_def applyUpdates_def set_field_def split: update_field.splits)

lemma applyUpdates_modified:
  "ap_modified (applyUpdates us v) \<in> insert zero_time (u_timestamp ` set us)"
  "ap_hasUpdates (applyUpdates us v) \<longleftrightarrow> ap_fields (applyUpdates us v) \<noteq> []"
  "\<not> ap_hasUpdates (applyUpdates us v) \<Longrightarrow> ap_record (applyUpdates us v) = v"
  "set (ap_fields (applyUpdates us v)) \<subseteq> {field_name (u_field u) | u. u \<in> set us}"
  by (induction us rule: rev_induct)
    (auto simp: applyUpdates_snoc applyUpdate_def applyUpdates_def)

lemma collate_lookup:
  "map_of (collate us) x
    = (if x \<in> u_id ` set us then Some (filter (\<lambda>u. u_id u = x) us) else None)"
proof (induction us arbitrary: x rule: rev_induct)
  case Nil
  then show ?case by (simp add: collate_def)
next
  case (snoc u us)
  have none: "filter (\<lambda>u. u_id u = x) us = []" if "x \<notin> u_id ` set us" for x
    using that by (auto simp: filter_empty_conv)
  have "map_of (collate (us @ [u])) = (map_of (collate us))(u_id u \<mapsto>
      (case map_of (collate us) (u_id u) of None \<Rightarrow> [] | Some l \<Rightarrow> l) @ [u])"
    by (simp add: collate_def update_conv')
  then show ?case using snoc.IH none by auto
qed

lemma collate_distinct: "distinct (keys (collate us))"
  by (induction us rule: rev_induct) (simp_all add: collate_def keys_def [of "[]"])

lemmas collate_map = collate_lookup collate_distinct

text \<open>
  What is done for one vulnerability: nothing is stored, or the record is committed first
  and one more thing may follow.
\<close>

lemma updateVuln_cases:
  obtains "set (updateVuln an x us) \<subseteq> {PublishMissing x}"
  | data v g r rest where "an_read an = ObjData data" "an_unmarshal an data = Some v" "an_attrs an = Some g"
      "r = (ap_record (applyUpdates us v))\<lparr>os_modified := ap_modified (applyUpdates us v)\<rparr>"
      "ap_hasUpdates (applyUpdates us v)"
      "updateVuln an x us = Committed x (os_modified r) r # rest"
      "rest = [] \<or> (\<exists>nd. an_marshal an r = Some nd
         \<and> (rest = [Written x nd g (os_modified r)] \<and> an_write an = WriteOk
            \<or> rest = [PublishMismatch x (ap_fields (applyUpdates us v))] \<or> rest = [PublishRetry nd]))"
proof (cases "an_read an")
  case (ObjData data)
  show thesis
  proof (cases "an_attrs an = None \<or> an_unmarshal an data = None")
    case True
    with ObjData that(1) show thesis by (auto simp: updateVuln_def split: option.splits)
  next
    case False
    then obtain g v where gv: "an_attrs an = Some g" "an_unmarshal an data = Some v" by auto
    let ?a = "applyUpdates us v"
    let ?r = "(ap_record ?a)\<lparr>os_modified := ap_modified ?a\<rparr>"
    show thesis
    proof (cases "ap_hasUpdates ?a \<and> an_newTransaction an \<and> an_txGet an \<and> an_txPut an
        \<and> an_txPutListed an \<and> an_commit an")
      case True
      show thesis
        by (rule that(2) [OF ObjData gv(2,1) refl])
          (use True ObjData gv in \<open>auto simp: updateVuln_def Let_def split: option.splits write_answer.splits\<close>)
    next
      case False
      with ObjData gv have "updateVuln an x us = []" by (auto simp: updateVuln_def Let_def)
      with that(1) show thesis by simp
    qed
  qed
qed (use that(1) in \<open>auto simp: updateVuln_def\<close>)

text \<open>Every write of the list follows the commit of the same record at once.\<close>

definition commit_before ::
  "(vuln_id \<Rightarrow> ('d, 'r) answers) \<Rightarrow> ('d, 'r) effect list \<Rightarrow> bool" where
  "commit_before an es \<longleftrightarrow>
     (\<forall>i < length es. \<forall>x data g t. es ! i = Written x data g t \<longrightarrow>
        (\<exists>r. 0 < i \<and> es ! (i - 1) = Committed x t r \<and> an_marshal (an x) r = Some data
          \<and> an_attrs (an x) = Some g \<and> an_write (an x) = WriteOk))"

lemma commit_before_append:
  assumes "commit_before an es" and "commit_before an fs"
  shows "commit_before an (es @ fs)"
  unfolding commit_before_def
proof (intro allI impI)
  fix i x data g t
  assume i: "i < length (es @ fs)" and e: "(es @ fs) ! i = Written x data g t"
  show "\<exists>r. 0 < i \<and> (es @ fs) ! (i - 1) = Committed x t r \<and> an_marshal (an x) r = Some data
      \<and> an_attrs (an x) = Some g \<and> an_write (an x) = WriteOk"
  proof (cases "i < length es")
    case True
    with e assms(1) have "\<exists>r. 0 < i \<and> es ! (i - 1) = Committed x t r \<and> an_marshal (an x) r = Some data
        \<and> an_attrs (an x) = Some g \<and> an_write (an x) = WriteOk"
      unfolding commit_before_def by (metis nth_append)
    with True show ?thesis by (auto simp: nth_append)
  next
    case False
    define j where "j = i - length es"
    have j: "i = length es + j" "j < length fs" "fs ! j = Written x data g t"
      using False i e by (auto simp: j_def nth_append)
    with assms(2) have "\<exists>r. 0 < j \<and> fs ! (j - 1) = Committed x t r \<and> an_marshal (an x) r = Some data
        \<and> an_attrs (an x) = Some g \<and> an_write (an x) = WriteOk"
      unfolding commit_before_def by metis
    then show ?thesis by (auto simp: j(1) nth_append)
  qed
qed

lemma commit_before_updateVuln: "commit_before an (updateVuln (an x) x us)"
proof (cases rule: updateVuln_cases [of "an x" x us])
  case 1
  have "updateVuln (an x) x us ! i \<noteq> Written y data g t" if "i < length (updateVuln (an x) x us)" for i y data g t
    using 1 nth_mem [OF that] by auto
  then show ?thesis unfolding commit_before_def by blast
next
  case (2 data v g r rest)
  from 2(7) have "i = 1 \<and> rest = [Written x nd g (os_modified r)] \<and> an_marshal (an x) r = Some nd
      \<and> an_write (an x) = WriteOk \<and> y = x \<and> e = g \<and> t = os_modified r"
    if "i < length (updateVuln (an x) x us)" "updateVuln (an x) x us ! i = Written y nd e t" for i y nd e t
    using that unfolding 2(6) by (cases i) (auto simp: less_Suc_eq)
  then show ?thesis
    unfolding commit_before_def using 2(3,6) by fastforce
qed

section \<open>Properties\<close>


text \<open>
  C14: The bucket is never ahead of the datastore: an object is written only right after the
  transaction that stored the same record, with the same time, was committed, and under the
  generation the object was read at.
\<close>

theorem updater_commits_first:
  assumes "i < length (updaterRun an ord cancelled us)"
    and "updaterRun an ord cancelled us ! i = Written x data g t"
  shows "\<exists>r. 0 < i \<and> updaterRun an ord cancelled us ! (i - 1) = Committed x t r
    \<and> an_marshal (an x) r = Some data \<and> an_attrs (an x) = Some g"
proof -
  have "commit_before an (concat (map (\<lambda>vid. updateVuln (an vid) vid (m vid)) vs))" for m vs
    by (induction vs) (simp_all add: commit_before_append commit_before_updateVuln, simp add: commit_before_def)
  then have "commit_before an (updaterRun an ord cancelled us)"
    by (auto simp: updaterRun_def Let_def) (simp add: commit_before_def)
  with assms show ?thesis unfolding commit_before_def by blast
qed

definition ex_answers :: "(unit osv_record, unit) answers" where
  "ex_answers = \<lparr>an_read = ObjData \<lparr>os_aliases = [''A''], os_upstream = [], os_related = [],
       os_modified = 1, os_rest = ()\<rparr>, an_inDatastore = True, an_attrs = Some 5,
     an_unmarshal = Some, an_newTransaction = True, an_txGet = True, an_txPut = True,
     an_txPutListed = True, an_commit = True, an_marshal = Some, an_write = WriteOk\<rparr>"

abbreviation ex_updates :: "update list" where
  "ex_updates \<equiv> [\<lparr>u_id = ''X'', u_timestamp = 7, u_field = FieldAlias, u_value = [''B'']\<rparr>,
     \<lparr>u_id = ''X'', u_timestamp = 3, u_field = FieldUpstream, u_value = [''C'']\<rparr>]"

lemma ex_updater_run:
  "updaterRun (\<lambda>_. ex_answers) id False ex_updates =
    [Committed ''X'' 7 \<lparr>os_aliases = [''B''], os_upstream = [''C''], os_related = [], os_modified = 7, os_rest = ()\<rparr>,
     Written ''X'' \<lparr>os_aliases = [''B''], os_upstream = [''C''], os_related = [], os_modified = 7, os_rest = ()\<rparr> 5 7]"
  by code_simp


theorem updater_commits_first_witness:
  "\<exists>r. updaterRun (\<lambda>_. ex_answers) id False ex_updates ! 0 = Committed ''X'' 7 r \<and> os_aliases r = [''B'']"
  using updater_commits_first [of 1 "\<lambda>_. ex_answers" id False ex_updates "''X''"
      "\<lparr>os_aliases = [''B''], os_upstream = [''C''], os_related = [], os_modified = 7, os_rest = ()\<rparr>" 5 7]
  unfolding ex_updater_run by auto

end
