(* ===== verification/Repository.thy ===== *)
theory Repository
  imports Strings
begin

text \<open>
  The commit graph of a git repository as gitter keeps it in memory
  (\<open>apps/cli/cmd/gitter/repository.go\<close>, with the cache of \<open>persistence.go\<close>): the graph built from
  the lines of \<open>git log\<close>, the patch IDs noted in it, and the look-ups by hash, tag and patch ID.
  What git prints is an input; running it, and the parallel workers that read the patch IDs,
  are not modelled, only what one line they read does to the repository.
\<close>

section \<open>The repository\<close>

type_synonym sha1 = string

text \<open>\<open>SHA1(bytes)\<close> converts a slice to an array: it panics on a slice that is too short.\<close>

definition to_sha1 :: "string \<Rightarrow> go_error + sha1" where
  "to_sha1 bs =
     (if length bs < 20 then Inl (GoPanic ''cannot convert slice to array'')
      else Inr (take 20 bs))"

definition zero_sha1 :: sha1 where
  "zero_sha1 = replicate 20 (CHR 0x00)"

record commit =
  c_hash :: sha1
  c_patch_id :: sha1
  c_parents :: "nat list"
  c_tags :: "string list"

record repository =
  r_commits :: "commit list"
  r_graph :: "nat list list"
  r_hash_index :: "sha1 \<rightharpoonup> nat"
  r_tag_commit :: "string \<rightharpoonup> nat"
  r_patch_commits :: "sha1 \<rightharpoonup> nat list"
  r_roots :: "nat list"

definition NewRepository :: repository where
  "NewRepository = \<lparr>r_commits = [], r_graph = [], r_hash_index = Map.empty,
     r_tag_commit = Map.empty, r_patch_commits = Map.empty, r_roots = []\<rparr>"

definition getOrCreateIndex :: "sha1 \<Rightarrow> repository \<Rightarrow> nat \<times> repository" where
  "getOrCreateIndex hash r =
     (case r_hash_index r hash of
        Some idx \<Rightarrow> (idx, r)
      | None \<Rightarrow>
          let idx = length (r_commits r) in
          (idx, r\<lparr>r_commits := r_commits r @ [\<lparr>c_hash = hash, c_patch_id = zero_sha1,
                                c_parents = [], c_tags = []\<rparr>],
                  r_hash_index := (r_hash_index r)(hash \<mapsto> idx),
                  r_graph := r_graph r @ [[]]\<rparr>))"

section \<open>One line of the log\<close>

text \<open>The refs of a line that are tags, without their prefix.\<close>

definition parseTags :: "string \<Rightarrow> string list" where
  "parseTags refs =
     map (\<lambda>ref. trim_prefix ref ''tag: '')
       (filter (\<lambda>ref. ref \<noteq> [] \<and> has_prefix ref ''tag: '') (strings_split refs '', ''))"

fun parseParents :: "string list \<Rightarrow> go_error + sha1 list" where
  "parseParents [] = Inr []"
| "parseParents (p # ps) =
     (case hex_decode p of
        None \<Rightarrow> parseParents ps
      | Some bs \<Rightarrow>
          (case to_sha1 bs of
             Inl e \<Rightarrow> Inl e
           | Inr h \<Rightarrow>
               (case parseParents ps of Inl e \<Rightarrow> Inl e | Inr hs \<Rightarrow> Inr (h # hs))))"

text \<open>\<open>None\<close>: the line is skipped, with a warning.\<close>

definition parseLogLine :: "string \<Rightarrow> go_error + (sha1 \<times> sha1 list \<times> string list) option" where
  "parseLogLine line =
     (let fields = strings_split line [CHR 0x09];
          child = (\<lambda>parents tags.
            case hex_decode (fields ! 0) of
              None \<Rightarrow> Inr None
            | Some bs \<Rightarrow>
                (case to_sha1 bs of Inl e \<Rightarrow> Inl e | Inr h \<Rightarrow> Inr (Some (h, parents, tags))));
          with_parents = (\<lambda>tags.
            case parseParents (strings_fields (fields ! 1)) of
              Inl e \<Rightarrow> Inl e
            | Inr parents \<Rightarrow> child parents tags)
      in if length fields = 3 then with_parents (parseTags (fields ! 2))
         else if length fields = 2 then with_parents []
         else if length fields = 1 then child [] []
         else Inr None)"

definition addParent :: "nat \<Rightarrow> sha1 \<Rightarrow> repository \<Rightarrow> repository" where
  "addParent childIdx parentHash r =
     (let (parentIdx, r1) = getOrCreateIndex parentHash r;
          commit = r_commits r1 ! childIdx
      in r1\<lparr>r_commits := (r_commits r1)[childIdx := commit\<lparr>c_parents := c_parents commit @ [parentIdx]\<rparr>],
            r_graph := (r_graph r1)[parentIdx := r_graph r1 ! parentIdx @ [childIdx]]\<rparr>)"

definition notePatchID :: "nat \<Rightarrow> sha1 \<Rightarrow> repository \<Rightarrow> repository" where
  "notePatchID idx patchID r =
     r\<lparr>r_commits := (r_commits r)[idx := (r_commits r ! idx)\<lparr>c_patch_id := patchID\<rparr>],
       r_patch_commits := (r_patch_commits r)(patchID \<mapsto>
         (case r_patch_commits r patchID of None \<Rightarrow> [] | Some is \<Rightarrow> is) @ [idx])\<rparr>"

definition addLogCommit ::
  "(sha1 \<rightharpoonup> sha1) \<Rightarrow> sha1 \<times> sha1 list \<times> string list \<Rightarrow> repository \<times> nat list
     \<Rightarrow> repository \<times> nat list" where
  "addLogCommit cachedPatchIDs info rn =
     (case (info, rn) of ((childHash, parentHashes, tags), (r, newCommits)) \<Rightarrow>
        let (childIdx, r1) = getOrCreateIndex childHash r;
            r2 = r1\<lparr>r_commits := (r_commits r1)[childIdx := (r_commits r1 ! childIdx)\<lparr>c_tags := tags\<rparr>]\<rparr>;
            r3 = (if parentHashes = [] then r2\<lparr>r_roots := r_roots r2 @ [childIdx]\<rparr> else r2);
            r4 = fold (addParent childIdx) parentHashes r3;
            (r5, newCommits') =
              (case cachedPatchIDs childHash of
                 Some patchID \<Rightarrow> (notePatchID childIdx patchID r4, newCommits)
               | None \<Rightarrow> (r4, newCommits @ [childIdx]));
            r6 = fold (\<lambda>tag r. r\<lparr>r_tag_commit := (r_tag_commit r)(tag \<mapsto> childIdx)\<rparr>) tags r5
        in (r6, newCommits'))"

text \<open>
  The loop over the lines. The context may be cancelled before any line is read:
  \<open>cancelled n\<close> tells whether it is when \<open>n\<close> lines have been read.
\<close>

fun addLogLines ::
  "(nat \<Rightarrow> bool) \<Rightarrow> (sha1 \<rightharpoonup> sha1) \<Rightarrow> nat \<Rightarrow> string list \<Rightarrow> repository \<times> nat list
     \<Rightarrow> go_error + repository \<times> nat list" where
  "addLogLines cancelled cached n [] rn = Inr rn"
| "addLogLines cancelled cached n (line # lines) rn =
     (if cancelled n then Inl (GoErr ''context canceled'')
      else case parseLogLine line of
             Inl e \<Rightarrow> Inl e
           | Inr None \<Rightarrow> addLogLines cancelled cached (Suc n) lines rn
           | Inr (Some info) \<Rightarrow>
               addLogLines cancelled cached (Suc n) lines (addLogCommit cached info rn))"

text \<open>The cache on disk: hash and patch ID of each commit that has one.\<close>

definition cachedPatchIDs :: "(string \<times> string) list \<Rightarrow> sha1 \<rightharpoonup> sha1" where
  "cachedPatchIDs cache =
     fold (\<lambda>(h, pid) m. if length h = 20 \<and> length pid = 20 then m(h \<mapsto> pid) else m) cache Map.empty"

definition buildCommitGraph ::
  "(nat \<Rightarrow> bool) \<Rightarrow> (string \<times> string) list \<Rightarrow> string list \<Rightarrow> repository
     \<Rightarrow> go_error + repository \<times> nat list" where
  "buildCommitGraph cancelled cache lines r =
     addLogLines cancelled (cachedPatchIDs cache) 0 lines (r, [])"

definition saveRepositoryCache :: "repository \<Rightarrow> (string \<times> string) list" where
  "saveRepositoryCache r =
     map (\<lambda>c. (c_hash c, c_patch_id c)) (filter (\<lambda>c. c_patch_id c \<noteq> zero_sha1) (r_commits r))"

section \<open>Patch IDs and look-ups\<close>

definition updatePatchID :: "sha1 \<Rightarrow> sha1 \<Rightarrow> repository \<Rightarrow> repository" where
  "updatePatchID commitHash patchID r =
     (case r_hash_index r commitHash of
        None \<Rightarrow> r
      | Some idx \<Rightarrow> notePatchID idx patchID r)"

text \<open>One line that \<open>git patch-id\<close> prints.\<close>

definition patchIDLine :: "string \<Rightarrow> repository \<Rightarrow> go_error + repository" where
  "patchIDLine line r =
     (if line = [] then Inr r
      else case strings_fields line of
             [p, c] \<Rightarrow>
               (case hex_decode p of None \<Rightarrow> Inl (GoErr ''failed to decode patch ID'')
                | Some pb \<Rightarrow>
                case to_sha1 pb of Inl e \<Rightarrow> Inl e | Inr patchID \<Rightarrow>
                case hex_decode c of None \<Rightarrow> Inl (GoErr ''failed to decode commit hash'')
                | Some cb \<Rightarrow>
                case to_sha1 cb of Inl e \<Rightarrow> Inl e | Inr hash \<Rightarrow> Inr (updatePatchID hash patchID r))
           | _ \<Rightarrow> Inl (GoErr ''invalid patch ID format''))"

fun parseHashesFrom :: "repository \<Rightarrow> bool \<Rightarrow> string list \<Rightarrow> nat list" where
  "parseHashesFrom r addedRoot [] = []"
| "parseHashesFrom r addedRoot (hash # hashes) =
     (if hash = ''0'' then
        (if addedRoot then [] else r_roots r) @ parseHashesFrom r True hashes
      else
        (case hex_decode hash of
           None \<Rightarrow> []
         | Some bs \<Rightarrow>
             if length bs \<noteq> 20 then []
             else case r_hash_index r bs of None \<Rightarrow> [] | Some idx \<Rightarrow> [idx])
        @ parseHashesFrom r addedRoot hashes)"

definition parseHashes :: "repository \<Rightarrow> string list \<Rightarrow> nat list" where
  "parseHashes r hashes = parseHashesFrom r False hashes"

definition hexHashes :: "repository \<Rightarrow> nat list \<Rightarrow> string list" where
  "hexHashes r indices = map (\<lambda>i. hex_encode (c_hash (r_commits r ! i))) indices"

text \<open>
  Commits with the patch ID of one of the given commits. The array \<open>seen\<close> of the code is the
  set of the positions it holds true at.
\<close>

definition addCherrypicks :: "repository \<Rightarrow> nat \<Rightarrow> nat set \<times> nat list \<Rightarrow> nat set \<times> nat list" where
  "addCherrypicks r idx st =
     (let pid = c_patch_id (r_commits r ! idx) in
      if pid = zero_sha1 then st
      else fold (\<lambda>eqIdx (seen, found).
                   if eqIdx \<in> seen then (seen, found) else (insert eqIdx seen, found @ [eqIdx]))
             (case r_patch_commits r pid of None \<Rightarrow> [] | Some is \<Rightarrow> is) st)"

definition expandByCherrypick :: "repository \<Rightarrow> nat list \<Rightarrow> nat list" where
  "expandByCherrypick r commits = snd (fold (addCherrypicks r) commits (set commits, []))"

section \<open>What the build keeps\<close>

text \<open>Each hash has exactly one index, that of its commit.\<close>

definition index_ok :: "(sha1 \<rightharpoonup> nat) \<Rightarrow> sha1 list \<Rightarrow> bool" where
  "index_ok m hs \<longleftrightarrow> (\<forall>h i. m h = Some i \<longleftrightarrow> i < length hs \<and> hs ! i = h)"

text \<open>The adjacency list is the inverse of the parents, edge by edge.\<close>

definition edges_ok :: "nat list list \<Rightarrow> nat list list \<Rightarrow> bool" where
  "edges_ok g ps \<longleftrightarrow>
     length g = length ps
     \<and> (\<forall>i < length ps. set (ps ! i) \<subseteq> {..<length ps})
     \<and> (\<forall>p < length ps. set (g ! p) \<subseteq> {..<length ps})
     \<and> (\<forall>p < length ps. \<forall>i < length ps. count_list (g ! p) i = count_list (ps ! i) p)"

definition repo_ok :: "repository \<Rightarrow> bool" where
  "repo_ok r \<longleftrightarrow>
     index_ok (r_hash_index r) (map c_hash (r_commits r))
     \<and> edges_ok (r_graph r) (map c_parents (r_commits r))
     \<and> set (r_roots r) \<subseteq> {..<length (r_commits r)}
     \<and> ran (r_tag_commit r) \<subseteq> {..<length (r_commits r)}
     \<and> (\<forall>is \<in> ran (r_patch_commits r). set is \<subseteq> {..<length (r_commits r)})"

lemma index_okD: "index_ok m hs \<Longrightarrow> m h = Some i \<longleftrightarrow> i < length hs \<and> hs ! i = h"
  unfolding index_ok_def by blast

lemma edges_okD:
  assumes "edges_ok g ps"
  shows "length g = length ps"
    and "i < length ps \<Longrightarrow> p \<in> set (ps ! i) \<Longrightarrow> p < length ps"
    and "p < length ps \<Longrightarrow> i \<in> set (g ! p) \<Longrightarrow> i < length ps"
    and "p < length ps \<Longrightarrow> i < length ps \<Longrightarrow> count_list (g ! p) i = count_list (ps ! i) p"
  using assms unfolding edges_ok_def by blast+

lemma index_ok_new:
  assumes "index_ok m hs" and "m h = None"
  shows "index_ok (m(h \<mapsto> length hs)) (hs @ [h])"
proof -
  have new: "hs ! i \<noteq> h" if "i < length hs" for i
    using index_okD [OF assms(1), of h i] assms(2) that by simp
  show ?thesis
    unfolding index_ok_def
  proof (intro allI)
    fix k i
    show "(m(h \<mapsto> length hs)) k = Some i \<longleftrightarrow> i < length (hs @ [h]) \<and> (hs @ [h]) ! i = k"
      using index_okD [OF assms(1), of k i] new [of i]
      by (cases "i < length hs") (auto simp: nth_append)
  qed
qed

lemma edges_ok_new:
  assumes E: "edges_ok g ps"
  shows "edges_ok (g @ [[]]) (ps @ [[]])"
proof -
  note D = edges_okD [OF E]
  have g0: "count_list (g ! p) (length ps) = 0" if "p < length ps" for p
    using D(3) [OF that, of "length ps"] by (auto simp: count_list_0_iff)
  have p0: "count_list (ps ! j) (length ps) = 0" if "j < length ps" for j
    using D(2) [OF that, of "length ps"] by (auto simp: count_list_0_iff)
  have P: "(ps @ [[]]) ! j = (if j < length ps then ps ! j else [])" if "j < Suc (length ps)" for j
    using that by (simp add: nth_append)
  have G: "(g @ [[]]) ! j = (if j < length ps then g ! j else [])" if "j < Suc (length ps)" for j
    using that D(1) by (simp add: nth_append)
  have c: "count_list ((g @ [[]]) ! p) i = count_list ((ps @ [[]]) ! i) p"
    if "p < Suc (length ps)" "i < Suc (length ps)" for p i
  proof (cases "p < length ps"; cases "i < length ps")
    assume "p < length ps" "i < length ps"
    then show ?thesis using D(4) [of p i] by (simp add: P G)
  next
    assume "p < length ps" "\<not> i < length ps"
    with that g0 [of p] show ?thesis by (simp add: P G less_Suc_eq)
  next
    assume "\<not> p < length ps" "i < length ps"
    with that p0 [of i] show ?thesis by (simp add: P G less_Suc_eq)
  next
    assume "\<not> p < length ps" "\<not> i < length ps"
    with that show ?thesis by (simp add: P G)
  qed
  have "set ((ps @ [[]]) ! i) \<subseteq> {..<Suc (length ps)}" if "i < Suc (length ps)" for i
    using D(2) [of i] that by (auto simp: P intro: less_SucI)
  moreover have "set ((g @ [[]]) ! i) \<subseteq> {..<Suc (length ps)}" if "i < Suc (length ps)" for i
    using D(3) [of i] that by (auto simp: G intro: less_SucI)
  ultimately show ?thesis
    using D(1) c by (simp add: edges_ok_def)
qed

lemma edges_ok_add:
  assumes E: "edges_ok g ps" and i: "i < length ps" and p: "p < length ps"
  shows "edges_ok (g[p := g ! p @ [i]]) (ps[i := ps ! i @ [p]])"
proof -
  note D = edges_okD [OF E]
  have P: "ps[i := ps ! i @ [p]] ! j = ps ! j @ (if j = i then [p] else [])" if "j < length ps" for j
    using that by (cases "j = i") simp_all
  have G: "g[p := g ! p @ [i]] ! q = g ! q @ (if q = p then [i] else [])" if "q < length ps" for q
    using that D(1) by (cases "q = p") simp_all
  have "set (ps[i := ps ! i @ [p]] ! j) \<subseteq> {..<length ps}" if "j < length ps" for j
    using D(2) [OF that] p that by (auto simp: P)
  moreover have "set (g[p := g ! p @ [i]] ! q) \<subseteq> {..<length ps}" if "q < length ps" for q
    using D(3) [OF that] i that by (auto simp: G)
  moreover have "count_list (g[p := g ! p @ [i]] ! q) j = count_list (ps[i := ps ! i @ [p]] ! j) q"
    if "q < length ps" "j < length ps" for q j
    using D(4) [OF that] that by (simp add: P G)
  ultimately show ?thesis
    using D(1) by (simp add: edges_ok_def)
qed

lemma repo_okD:
  assumes "repo_ok r"
  shows "length (r_graph r) = length (r_commits r)"
    and "r_hash_index r h = Some i \<longleftrightarrow> i < length (r_commits r) \<and> c_hash (r_commits r ! i) = h"
    and "i < length (r_commits r) \<Longrightarrow> p \<in> set (c_parents (r_commits r ! i)) \<Longrightarrow> p < length (r_commits r)"
    and "p < length (r_commits r) \<Longrightarrow> i \<in> set (r_graph r ! p) \<Longrightarrow> i < length (r_commits r)"
    and "p < length (r_commits r) \<Longrightarrow> i < length (r_commits r)
      \<Longrightarrow> count_list (r_graph r ! p) i = count_list (c_parents (r_commits r ! i)) p"
    and "i \<in> set (r_roots r) \<Longrightarrow> i < length (r_commits r)"
    and "r_tag_commit r t = Some i \<Longrightarrow> i < length (r_commits r)"
    and "r_patch_commits r pid = Some is \<Longrightarrow> i \<in> set is \<Longrightarrow> i < length (r_commits r)"
proof -
  from assms have I: "index_ok (r_hash_index r) (map c_hash (r_commits r))"
    and E: "edges_ok (r_graph r) (map c_parents (r_commits r))"
    and R: "set (r_roots r) \<subseteq> {..<length (r_commits r)}"
      "ran (r_tag_commit r) \<subseteq> {..<length (r_commits r)}"
      "\<forall>is \<in> ran (r_patch_commits r). set is \<subseteq> {..<length (r_commits r)}"
    by (simp_all add: repo_ok_def)
  note D = edges_okD [OF E]
  show "length (r_graph r) = length (r_commits r)" using D(1) by simp
  show "r_hash_index r h = Some i \<longleftrightarrow> i < length (r_commits r) \<and> c_hash (r_commits r ! i) = h"
    using index_okD [OF I, of h i] by auto
  show "i < length (r_commits r) \<Longrightarrow> p \<in> set (c_parents (r_commits r ! i)) \<Longrightarrow> p < length (r_commits r)"
    using D(2) [of i p] by simp
  show "p < length (r_commits r) \<Longrightarrow> i \<in> set (r_graph r ! p) \<Longrightarrow> i < length (r_commits r)"
    using D(3) [of p i] by simp
  show "p < length (r_commits r) \<Longrightarrow> i < length (r_commits r)
      \<Longrightarrow> count_list (r_graph r ! p) i = count_list (c_parents (r_commits r ! i)) p"
    using D(4) [of p i] by simp
  show "i \<in> set (r_roots r) \<Longrightarrow> i < length (r_commits r)" using R(1) by blast
  show "r_tag_commit r t = Some i \<Longrightarrow> i < length (r_commits r)" using R(2) by (auto intro: ranI)
  show "r_patch_commits r pid = Some is \<Longrightarrow> i \<in> set is \<Longrightarrow> i < length (r_commits r)"
    using R(3) by (auto intro: ranI)
qed

lemma repo_ok_new: "repo_ok NewRepository"
  by (simp add: repo_ok_def NewRepository_def index_ok_def edges_ok_def)

lemma lessThan_weaken: "S \<subseteq> {..<n} \<Longrightarrow> S \<subseteq> {..<Suc n}" for S :: "nat set"
  by auto

lemma getOrCreateIndex_ok:
  assumes ok: "repo_ok r" and r: "getOrCreateIndex h r = (i, r')"
  shows "repo_ok r'" and "i < length (r_commits r')" and "c_hash (r_commits r' ! i) = h"
    and "length (r_commits r) \<le> length (r_commits r')" and "r_roots r' = r_roots r"
proof -
  have "repo_ok r' \<and> i < length (r_commits r') \<and> c_hash (r_commits r' ! i) = h
    \<and> length (r_commits r) \<le> length (r_commits r') \<and> r_roots r' = r_roots r"
  proof (cases "r_hash_index r h")
    case (Some j)
    with r ok repo_okD(2) [OF ok, of h j] show ?thesis by (simp add: getOrCreateIndex_def)
  next
    case None
    let ?c = "\<lparr>c_hash = h, c_patch_id = zero_sha1, c_parents = [], c_tags = []\<rparr>"
    from None r have i: "i = length (r_commits r)" and r': "r' = r\<lparr>r_commits := r_commits r @ [?c],
        r_hash_index := (r_hash_index r)(h \<mapsto> length (r_commits r)), r_graph := r_graph r @ [[]]\<rparr>"
      by (auto simp: getOrCreateIndex_def Let_def)
    from ok None have "index_ok ((r_hash_index r)(h \<mapsto> length (r_commits r))) (map c_hash (r_commits r) @ [h])"
      using index_ok_new [of "r_hash_index r" "map c_hash (r_commits r)" h] by (simp add: repo_ok_def)
    with ok have "repo_ok r'"
      unfolding r' repo_ok_def by (simp add: edges_ok_new lessThan_weaken)
    then show ?thesis by (simp add: i r')
  qed
  then show "repo_ok r'" and "i < length (r_commits r')" and "c_hash (r_commits r' ! i) = h"
    and "length (r_commits r) \<le> length (r_commits r')" and "r_roots r' = r_roots r" by simp_all
qed

lemma count_list_snoc [simp]: "count_list (xs @ [y]) x = count_list xs x + (if x = y then 1 else 0)"
  by simp

lemma addParent_ok:
  assumes ok: "repo_ok r" and i: "i < length (r_commits r)"
  shows "repo_ok (addParent i h r)"
    and "length (r_commits r) \<le> length (r_commits (addParent i h r))"
    and "r_roots (addParent i h r) = r_roots r"
proof -
  obtain p r1 where r1: "getOrCreateIndex h r = (p, r1)" by fastforce
  note G = getOrCreateIndex_ok [OF ok r1]
  have i': "i < length (r_commits r1)" using i G(4) by simp
  have r': "addParent i h r = r1\<lparr>r_commits := (r_commits r1)[i := (r_commits r1 ! i)
        \<lparr>c_parents := c_parents (r_commits r1 ! i) @ [p]\<rparr>],
      r_graph := (r_graph r1)[p := r_graph r1 ! p @ [i]]\<rparr>"
    by (simp add: addParent_def r1 Let_def)
  have "edges_ok ((r_graph r1)[p := r_graph r1 ! p @ [i]])
      ((map c_parents (r_commits r1))[i := map c_parents (r_commits r1) ! i @ [p]])"
    by (rule edges_ok_add) (use G(1,2) i' in \<open>simp_all add: repo_ok_def\<close>)
  moreover have "(map c_hash (r_commits r1))[i := c_hash (r_commits r1 ! i)] = map c_hash (r_commits r1)"
    using i' list_update_id [of "map c_hash (r_commits r1)" i] by simp
  ultimately show "repo_ok (addParent i h r)"
    using G(1) i' by (simp add: r' repo_ok_def map_update)
  show "length (r_commits r) \<le> length (r_commits (addParent i h r))"
    and "r_roots (addParent i h r) = r_roots r"
    using G(4,5) by (simp_all add: r')
qed

lemma addParents_ok:
  assumes "repo_ok r" and "i < length (r_commits r)"
  shows "repo_ok (fold (addParent i) hs r)"
    and "length (r_commits r) \<le> length (r_commits (fold (addParent i) hs r))"
    and "r_roots (fold (addParent i) hs r) = r_roots r"
proof -
  have "repo_ok (fold (addParent i) hs r) \<and> length (r_commits r) \<le> length (r_commits (fold (addParent i) hs r))
      \<and> r_roots (fold (addParent i) hs r) = r_roots r"
    using assms
  proof (induction hs arbitrary: r)
    case (Cons h hs)
    note A = addParent_ok [OF Cons.prems, of h]
    from Cons.IH [OF A(1)] Cons.prems(2) A(2,3) show ?case by simp
  qed simp
  then show "repo_ok (fold (addParent i) hs r)"
    and "length (r_commits r) \<le> length (r_commits (fold (addParent i) hs r))"
    and "r_roots (fold (addParent i) hs r) = r_roots r" by simp_all
qed

text \<open>Changes that leave hashes and parents alone keep the invariant.\<close>

lemma repo_ok_update_commit:
  assumes ok: "repo_ok r" and i: "i < length (r_commits r)"
    and "c_hash c = c_hash (r_commits r ! i)" and "c_parents c = c_parents (r_commits r ! i)"
  shows "repo_ok (r\<lparr>r_commits := (r_commits r)[i := c]\<rparr>)"
proof -
  have "(map c_hash (r_commits r))[i := c_hash (r_commits r ! i)] = map c_hash (r_commits r)"
    and "(map c_parents (r_commits r))[i := c_parents (r_commits r ! i)] = map c_parents (r_commits r)"
    using i list_update_id [of "map c_hash (r_commits r)" i] list_update_id [of "map c_parents (r_commits r)" i]
    by simp_all
  with ok assms(3,4) show ?thesis by (simp add: repo_ok_def map_update)
qed

lemma repo_ok_roots: "repo_ok r \<Longrightarrow> i < length (r_commits r) \<Longrightarrow> repo_ok (r\<lparr>r_roots := r_roots r @ [i]\<rparr>)"
  unfolding repo_ok_def by simp

lemma repo_ok_tag:
  "repo_ok r \<Longrightarrow> i < length (r_commits r) \<Longrightarrow> repo_ok (r\<lparr>r_tag_commit := (r_tag_commit r)(t \<mapsto> i)\<rparr>)"
  unfolding repo_ok_def by (auto simp: ran_def split: if_splits)

lemma repo_ok_patch:
  "repo_ok r \<Longrightarrow> \<forall>i \<in> set is. i < length (r_commits r)
     \<Longrightarrow> repo_ok (r\<lparr>r_patch_commits := (r_patch_commits r)(pid \<mapsto> is)\<rparr>)"
  unfolding repo_ok_def by (auto simp: ran_def split: if_splits)

lemma notePatchID_ok:
  assumes ok: "repo_ok r" and i: "i < length (r_commits r)"
  shows "repo_ok (notePatchID i pid r)"
proof -
  let ?r = "r\<lparr>r_commits := (r_commits r)[i := (r_commits r ! i)\<lparr>c_patch_id := pid\<rparr>]\<rparr>"
  have "repo_ok ?r"
    by (rule repo_ok_update_commit [OF ok i]) simp_all
  moreover have "\<forall>j \<in> set ((case r_patch_commits r pid of None \<Rightarrow> [] | Some is \<Rightarrow> is) @ [i]). j < length (r_commits ?r)"
    using i repo_okD(8) [OF ok, of pid] by (cases "r_patch_commits r pid") simp_all
  ultimately have "repo_ok (?r\<lparr>r_patch_commits := (r_patch_commits ?r)(pid \<mapsto>
      (case r_patch_commits r pid of None \<Rightarrow> [] | Some is \<Rightarrow> is) @ [i])\<rparr>)"
    by (rule repo_ok_patch)
  then show ?thesis by (simp add: notePatchID_def)
qed

lemma notePatchID_length [simp]: "length (r_commits (notePatchID i pid r)) = length (r_commits r)"
  by (simp add: notePatchID_def)

lemma tags_ok:
  assumes "repo_ok r" and "i < length (r_commits r)"
  shows "repo_ok (fold (\<lambda>tag r. r\<lparr>r_tag_commit := (r_tag_commit r)(tag \<mapsto> i)\<rparr>) tags r)"
  using assms
proof (induction tags arbitrary: r)
  case (Cons t tags)
  from Cons.prems have "repo_ok (r\<lparr>r_tag_commit := (r_tag_commit r)(t \<mapsto> i)\<rparr>)"
    by (rule repo_ok_tag)
  with Cons show ?case by (simp del: fun_upd_apply)
qed simp

lemma tags_length:
  "length (r_commits (fold (\<lambda>tag r. r\<lparr>r_tag_commit := (r_tag_commit r)(tag \<mapsto> i)\<rparr>) tags r)) = length (r_commits r)"
  by (induction tags arbitrary: r) simp_all

lemma addLogCommit_ok:
  assumes ok: "repo_ok r" and new: "\<forall>i \<in> set new. i < length (r_commits r)"
    and run: "addLogCommit cached info (r, new) = (r', new')"
  shows "repo_ok r'" and "\<forall>i \<in> set new'. i < length (r_commits r')"
proof -
  obtain h ps tags where info: "info = (h, ps, tags)" using prod_cases3 by blast
  obtain i r1 where r1: "getOrCreateIndex h r = (i, r1)" by fastforce
  note G = getOrCreateIndex_ok [OF ok r1]
  define r2 where "r2 = r1\<lparr>r_commits := (r_commits r1)[i := (r_commits r1 ! i)\<lparr>c_tags := tags\<rparr>]\<rparr>"
  have ok2: "repo_ok r2" unfolding r2_def by (rule repo_ok_update_commit [OF G(1,2)]) simp_all
  define r3 where "r3 = (if ps = [] then r2\<lparr>r_roots := r_roots r2 @ [i]\<rparr> else r2)"
  have len: "length (r_commits r3) = length (r_commits r1)" by (simp add: r3_def r2_def)
  have ok3: "repo_ok r3"
    using ok2 repo_ok_roots [OF ok2, of i] G(2) by (simp add: r3_def) (simp add: r2_def)
  have i3: "i < length (r_commits r3)" using G(2) len by simp
  define r4 where "r4 = fold (addParent i) ps r3"
  note P = addParents_ok [OF ok3 i3, of ps, folded r4_def]
  have i4: "i < length (r_commits r4)" using P(2) i3 by simp
  have new4: "\<forall>j \<in> set new. j < length (r_commits r4)" using new G(4) len P(2) by auto
  define r5 where "r5 = (case cached h of Some pid \<Rightarrow> notePatchID i pid r4 | None \<Rightarrow> r4)"
  have ok5: "repo_ok r5" and len5: "length (r_commits r5) = length (r_commits r4)"
    using P(1) notePatchID_ok [OF P(1) i4] by (simp_all add: r5_def split: option.splits)
  have r': "r' = fold (\<lambda>tag r. r\<lparr>r_tag_commit := (r_tag_commit r)(tag \<mapsto> i)\<rparr>) tags r5"
    and new': "set new' \<subseteq> insert i (set new)"
    using run
    by (auto simp: addLogCommit_def info r1 Let_def r5_def r4_def r3_def r2_def split: option.splits if_splits)
  have "length (r_commits r') = length (r_commits r4)" by (simp add: r' len5 tags_length)
  with new' new4 i4 show "\<forall>i \<in> set new'. i < length (r_commits r')" by auto
  show "repo_ok r'" unfolding r' by (rule tags_ok [OF ok5]) (simp add: len5 i4)
qed

lemma addLogLines_ok:
  assumes "addLogLines cancelled cached n lines (r, new) = Inr (r', new')"
    and "repo_ok r" and "\<forall>i \<in> set new. i < length (r_commits r)"
  shows "repo_ok r' \<and> (\<forall>i \<in> set new'. i < length (r_commits r'))"
  using assms
proof (induction lines arbitrary: n r new)
  case (Cons line lines)
  then show ?case
  proof (cases "parseLogLine line")
    case (Inr oi)
    show ?thesis
    proof (cases oi)
      case None
      with Inr Cons show ?thesis by (auto split: if_splits)
    next
      case (Some info)
      obtain r1 new1 where s: "addLogCommit cached info (r, new) = (r1, new1)" by fastforce
      from addLogCommit_ok [OF Cons.prems(2,3) s] Cons.IH [of "Suc n" r1 new1] Cons.prems(1) Inr Some s
      show ?thesis by (auto split: if_splits)
    qed
  qed (auto split: if_splits)
qed simp

section \<open>What the look-ups return\<close>

lemma parseHashes_range:
  "repo_ok r \<Longrightarrow> i \<in> set (parseHashes r hs) \<Longrightarrow> i < length (r_commits r)"
proof -
  have "repo_ok r \<Longrightarrow> i \<in> set (parseHashesFrom r b hs) \<Longrightarrow> i < length (r_commits r)" for b
  proof (induction r b hs rule: parseHashesFrom.induct)
    case (2 r b hash hs)
    have "r_hash_index r bs = Some i \<Longrightarrow> i < length (r_commits r)" for bs
      using repo_okD(2) [OF 2(3), of bs i] by simp
    with 2 show ?case by (force split: if_splits option.splits dest: repo_okD(6))
  qed simp
  then show "repo_ok r \<Longrightarrow> i \<in> set (parseHashes r hs) \<Longrightarrow> i < length (r_commits r)"
    by (simp add: parseHashes_def)
qed

definition sameP :: "repository \<Rightarrow> nat \<Rightarrow> nat list" where
  "sameP r i =
     (if c_patch_id (r_commits r ! i) = zero_sha1 then []
      else case r_patch_commits r (c_patch_id (r_commits r ! i)) of None \<Rightarrow> [] | Some is \<Rightarrow> is)"

lemma addCherrypicks_fold:
  "addCherrypicks r i st = fold (\<lambda>eqIdx (seen, found).
       if eqIdx \<in> seen then (seen, found) else (insert eqIdx seen, found @ [eqIdx])) (sameP r i) st"
  by (simp add: addCherrypicks_def sameP_def Let_def)

lemma collect_unseen:
  fixes seen :: "nat set"
  assumes "set found \<inter> S = {}" and "seen = S \<union> set found" and "distinct found"
    and st_def: "st = fold (\<lambda>j (seen, found). if j \<in> seen then (seen, found) else (insert j seen, found @ [j])) js (seen, found)"
  shows "fst st = S \<union> set (snd st)" and "set (snd st) = set found \<union> (set js - S)" and "distinct (snd st)"
proof -
  have "fst st = S \<union> set (snd st) \<and> set (snd st) = set found \<union> (set js - S) \<and> distinct (snd st)"
    unfolding st_def using assms(1-3)
  proof (induction js arbitrary: seen found)
    case (Cons j js)
    show ?case
    proof (cases "j \<in> seen")
      case True
      with Cons show ?thesis by (auto simp: insert_absorb)
    next
      case False
      with Cons.prems Cons.IH [of "found @ [j]" "insert j seen"] show ?thesis by auto
    qed
  qed auto
  then show "fst st = S \<union> set (snd st)" and "set (snd st) = set found \<union> (set js - S)" and "distinct (snd st)"
    by simp_all
qed

lemma expandByCherrypick_set:
  "set (expandByCherrypick r commits) = (\<Union>i \<in> set commits. set (sameP r i)) - set commits"
  "distinct (expandByCherrypick r commits)"
proof -
  have "fst st = S \<union> set (snd st) \<and> set (snd st) = set found \<union> ((\<Union>i \<in> set is. set (sameP r i)) - S) \<and> distinct (snd st)"
    if "set found \<inter> S = {}" "seen = S \<union> set found" "distinct found"
      and "st = fold (addCherrypicks r) is (seen, found)" for S "is" seen found st
    using that
  proof (induction "is" arbitrary: seen found)
    case (Cons i "is")
    obtain seen1 found1 where 1: "addCherrypicks r i (seen, found) = (seen1, found1)" by fastforce
    from collect_unseen [OF Cons.prems(1-3) refl, of "sameP r i"] 1
    have "seen1 = S \<union> set found1" "set found1 = set found \<union> (set (sameP r i) - S)" "distinct found1"
      by (simp_all add: addCherrypicks_fold)
    with Cons.prems(1) Cons.IH [of found1 seen1] Cons.prems(4) 1 show ?case by auto
  qed auto
  from this [of "[]" "set commits" "set commits" "fold (addCherrypicks r) commits (set commits, [])" commits]
  show "set (expandByCherrypick r commits) = (\<Union>i \<in> set commits. set (sameP r i)) - set commits"
    and "distinct (expandByCherrypick r commits)"
    by (auto simp: expandByCherrypick_def)
qed

lemma sameP_iff:
  "j \<in> set (sameP r i) \<longleftrightarrow> (\<exists>is. c_patch_id (r_commits r ! i) \<noteq> zero_sha1
     \<and> r_patch_commits r (c_patch_id (r_commits r ! i)) = Some is \<and> j \<in> set is)"
  by (cases "r_patch_commits r (c_patch_id (r_commits r ! i))") (auto simp: sameP_def)

lemma expandByCherrypick_range:
  "repo_ok r \<Longrightarrow> i \<in> set (expandByCherrypick r cs) \<Longrightarrow> i < length (r_commits r)"
  using repo_okD(8) [of r] by (auto simp: expandByCherrypick_set sameP_iff)

section \<open>Properties\<close>


abbreviation ex_sha :: "char \<Rightarrow> string" where
  "ex_sha c \<equiv> replicate 20 c"

text \<open>A log of one commit, tagged, whose parent is not in the log.\<close>

definition ex_log :: "string list" where
  "ex_log = [hex_encode (ex_sha (CHR ''b'')) @ [CHR 0x09] @ hex_encode (ex_sha (CHR ''a''))
       @ [CHR 0x09] @ ''tag: v1'']"

lemma ex_log_build:
  "case buildCommitGraph (\<lambda>_. False) [] ex_log NewRepository of
     Inl _ \<Rightarrow> False
   | Inr (r, new) \<Rightarrow> map c_parents (r_commits r) = [[1], []] \<and> r_graph r = [[], [0]] \<and> new = [0]"
  by code_simp


text \<open>
  The commits a cherry-pick expansion adds are exactly those that the repository knows
  under the patch ID, other than that of an empty change, of one of the given commits; none
  of the given commits is among them, and none comes twice.
\<close>

theorem expandByCherrypick_adds:
  "distinct (expandByCherrypick r commits)
    \<and> set (expandByCherrypick r commits)
      = {j. j \<notin> set commits \<and> (\<exists>i \<in> set commits. \<exists>is. c_patch_id (r_commits r ! i) \<noteq> zero_sha1
            \<and> r_patch_commits r (c_patch_id (r_commits r ! i)) = Some is \<and> j \<in> set is)}"
  by (auto simp: expandByCherrypick_set sameP_iff)

end
