(* ===== verification/RepoWalk.thy ===== *)
theory RepoWalk
  imports Repository Worklist
begin

text \<open>
  The walks over the commit graph (\<open>apps/cli/cmd/gitter/repository.go\<close>): the roots that are
  ancestors of a set of commits, the resolution of the events of a vulnerability into commits,
  the affected commits over all branches, and the walk along first parents.

  The arrays of truth values that the code indexes by commit are the sets of the positions
  they hold true at; \<open>Repository.repo_ok\<close> keeps every index in range.
\<close>

definition childrenOf :: "repository \<Rightarrow> nat \<Rightarrow> nat list" where
  "childrenOf r i = (if i < length (r_graph r) then r_graph r ! i else [])"

text \<open>An index out of range, which would panic, never comes up: it has no parents here.\<close>

definition parentsOf :: "repository \<Rightarrow> nat \<Rightarrow> nat list" where
  "parentsOf r i = (if i < length (r_commits r) then c_parents (r_commits r ! i) else [])"

section \<open>Roots that are ancestors\<close>

record root_search =
  rt_visited :: "nat set"
  rt_queue :: "nat list"
  rt_found :: "nat list"

text \<open>Marks an index and queues it, unless it is marked.\<close>

definition visitOnce :: "nat \<Rightarrow> root_search \<Rightarrow> root_search" where
  "visitOnce i s =
     (if i \<in> rt_visited s then s
      else s\<lparr>rt_visited := insert i (rt_visited s), rt_queue := rt_queue s @ [i]\<rparr>)"

definition rootsLive :: "repository \<Rightarrow> root_search \<Rightarrow> bool" where
  "rootsLive r s \<longleftrightarrow> rt_queue s \<noteq> [] \<and> length (rt_found s) \<noteq> length (r_roots r)"

definition rootsRound :: "repository \<Rightarrow> root_search \<Rightarrow> root_search" where
  "rootsRound r s =
     (case rt_queue s of
        [] \<Rightarrow> s
      | cur # q \<Rightarrow>
          let s1 = s\<lparr>rt_queue := q\<rparr>;
              s2 = (if parentsOf r cur = [] then s1\<lparr>rt_found := rt_found s1 @ [cur]\<rparr> else s1)
          in fold visitOnce (parentsOf r cur) s2)"

definition findAncestorRoots :: "repository \<Rightarrow> nat list \<Rightarrow> nat list" where
  "findAncestorRoots r from =
     rt_found (while (rootsLive r) (rootsRound r)
       (fold visitOnce from \<lparr>rt_visited = {}, rt_queue = [], rt_found = []\<rparr>))"

section \<open>Resolving the events\<close>

record separated_events =
  se_introduced :: "string list"
  se_fixed :: "string list"
  se_last_affected :: "string list"
  se_limit :: "string list"

record resolved_events =
  re_introduced :: "nat list"
  re_all_fixes :: "nat list"
  re_cherry_introduced :: "string list"
  re_cherry_fixed :: "string list"

definition resolveEvents ::
  "repository \<Rightarrow> separated_events \<Rightarrow> bool \<Rightarrow> bool \<Rightarrow> resolved_events" where
  "resolveEvents r se cherrypickIntro cherrypickFixed =
     (let fixed0 = parseHashes r (se_fixed se);
          lastAffected = parseHashes r (se_last_affected se);
          newFixed = (if cherrypickFixed then expandByCherrypick r fixed0 else []);
          fixed1 = fixed0 @ newFixed;
          allFixes = fixed1 @ concat (map (childrenOf r) lastAffected);
          hasIntroZero = (''0'' \<in> set (se_introduced se));
          filteredIntro = filter (\<lambda>s. s \<noteq> ''0'') (se_introduced se);
          introduced0 = parseHashes r filteredIntro
            @ (if hasIntroZero
               then if allFixes \<noteq> [] then findAncestorRoots r allFixes else r_roots r
               else []);
          newIntro = (if cherrypickIntro then expandByCherrypick r introduced0 else [])
      in \<lparr>re_introduced = introduced0 @ newIntro, re_all_fixes = allFixes,
          re_cherry_introduced = hexHashes r newIntro, re_cherry_fixed = hexHashes r newFixed\<rparr>)"

section \<open>The affected commits over all branches\<close>

text \<open>The inner walk: from a fixed commit, every descendant becomes unaffectable.\<close>

record block_state =
  bk_stack :: "nat list"
  bk_affected :: "nat set"
  bk_unaffectable :: "nat set"

definition pushChild :: "nat \<Rightarrow> block_state \<Rightarrow> block_state" where
  "pushChild c s =
     (if c \<in> bk_unaffectable s then s
      else s\<lparr>bk_unaffectable := insert c (bk_unaffectable s), bk_stack := bk_stack s @ [c]\<rparr>)"

definition blockRound :: "repository \<Rightarrow> block_state \<Rightarrow> block_state" where
  "blockRound r s =
     (if bk_stack s = [] then s
      else
        let u = last (bk_stack s);
            s1 = s\<lparr>bk_stack := butlast (bk_stack s), bk_affected := bk_affected s - {u}\<rparr>
        in fold pushChild (childrenOf r u) s1)"

definition blockLive :: "block_state \<Rightarrow> bool" where
  "blockLive s \<longleftrightarrow> bk_stack s \<noteq> []"

definition blockFrom :: "repository \<Rightarrow> nat \<Rightarrow> nat set \<Rightarrow> nat set \<Rightarrow> block_state" where
  "blockFrom r cur affected unaffectable =
     while blockLive (blockRound r)
       \<lparr>bk_stack = [cur], bk_affected = affected, bk_unaffectable = insert cur unaffectable\<rparr>"

text \<open>The walk from one introduced commit.\<close>

record walk_state =
  wk_queue :: "nat list"
  wk_visited :: "nat set"
  wk_unaffectable :: "nat set"
  wk_affected :: "nat set"
  wk_updated :: "nat list"

definition walkRound :: "repository \<Rightarrow> nat set \<Rightarrow> walk_state \<Rightarrow> walk_state" where
  "walkRound r fixedMap s =
     (case wk_queue s of
        [] \<Rightarrow> s
      | cur # q \<Rightarrow>
          let s1 = s\<lparr>wk_queue := q\<rparr> in
          if cur \<in> wk_visited s then s1
          else
            let s2 = s1\<lparr>wk_visited := insert cur (wk_visited s)\<rparr> in
            if cur \<in> wk_unaffectable s then s2
            else if cur \<in> fixedMap then
              let b = blockFrom r cur (wk_affected s) (wk_unaffectable s)
              in s2\<lparr>wk_affected := bk_affected b, wk_unaffectable := bk_unaffectable b\<rparr>
            else
              s2\<lparr>wk_affected := insert cur (wk_affected s),
                 wk_updated := wk_updated s @ [cur],
                 wk_queue := q @ childrenOf r cur\<rparr>)"

definition walkLive :: "walk_state \<Rightarrow> bool" where
  "walkLive s \<longleftrightarrow> wk_queue s \<noteq> []"

text \<open>
  \<open>clear\<close> on a slice sets its elements to zero and does not shorten it, so the list of
  updated indexes keeps growing from one introduced commit to the next, with zeros first.
\<close>

definition walkFromIntro ::
  "repository \<Rightarrow> nat set \<Rightarrow> nat \<Rightarrow> nat list \<times> nat set \<Rightarrow> nat list \<times> nat set" where
  "walkFromIntro r fixedMap introIdx st =
     (case st of (updatedIdx, affectedMap) \<Rightarrow>
        let s = while walkLive (walkRound r fixedMap)
              \<lparr>wk_queue = [introIdx], wk_visited = {}, wk_unaffectable = {}, wk_affected = {},
               wk_updated = map (\<lambda>_. 0) updatedIdx\<rparr>
        in (wk_updated s,
            affectedMap \<union> {c \<in> set (wk_updated s). c \<in> wk_affected s}))"

definition commitsAt :: "repository \<Rightarrow> nat set \<Rightarrow> commit list" where
  "commitsAt r S = map (\<lambda>i. r_commits r ! i) (filter (\<lambda>i. i \<in> S) [0..<length (r_commits r)])"

definition Affected ::
  "repository \<Rightarrow> separated_events \<Rightarrow> bool \<Rightarrow> bool \<Rightarrow> commit list \<times> resolved_events" where
  "Affected r se cherrypickIntro cherrypickFixed =
     (let res = resolveEvents r se cherrypickIntro cherrypickFixed;
          fixedMap = set (re_all_fixes res)
      in (commitsAt r (snd (fold (walkFromIntro r fixedMap) (re_introduced res) ([], {}))), res))"

section \<open>The walk along first parents\<close>

text \<open>
  The stack of the code never holds more than one index, the next one to look at
  (\<open>None\<close>: it is empty). The walk may not end if the first parents form a cycle, which git
  does not allow; \<open>while_option\<close> is \<open>None\<close> then.
\<close>

record line_state =
  ln_next :: "nat option"
  ln_path :: "nat list"
  ln_valid :: bool

definition lineLive :: "line_state \<Rightarrow> bool" where
  "lineLive s \<longleftrightarrow> ln_next s \<noteq> None \<and> \<not> ln_valid s"

definition lineRound :: "repository \<Rightarrow> nat set \<Rightarrow> nat set \<Rightarrow> line_state \<Rightarrow> line_state" where
  "lineRound r introMap affectedMap s =
     (case ln_next s of
        None \<Rightarrow> s
      | Some cur \<Rightarrow>
          let s1 = s\<lparr>ln_next := None, ln_path := ln_path s @ [cur]\<rparr> in
          if cur \<in> introMap \<or> cur \<in> affectedMap then s1\<lparr>ln_valid := True\<rparr>
          else case parentsOf r cur of
                 [] \<Rightarrow> s1
               | p # _ \<Rightarrow> s1\<lparr>ln_next := Some p\<rparr>)"

definition walkLine :: "repository \<Rightarrow> nat set \<Rightarrow> nat set \<Rightarrow> nat \<Rightarrow> nat set option" where
  "walkLine r introMap affectedMap fromIdx =
     (case while_option lineLive (lineRound r introMap affectedMap)
             \<lparr>ln_next = Some fromIdx, ln_path = [], ln_valid = False\<rparr> of
        None \<Rightarrow> None
      | Some s \<Rightarrow>
          Some (if ln_valid s then affectedMap \<union> set (ln_path s) else affectedMap))"

fun walkLines :: "repository \<Rightarrow> nat set \<Rightarrow> nat set \<Rightarrow> nat list \<Rightarrow> nat set option" where
  "walkLines r introMap affectedMap [] = Some affectedMap"
| "walkLines r introMap affectedMap (w # ws) =
     (case walkLine r introMap affectedMap w of
        None \<Rightarrow> None
      | Some a \<Rightarrow> walkLines r introMap a ws)"

definition walkRevFirstParent :: "repository \<Rightarrow> nat list \<Rightarrow> nat list \<Rightarrow> commit list option" where
  "walkRevFirstParent r introduced walkFrom =
     map_option (commitsAt r) (walkLines r (set introduced) {} walkFrom)"

definition firstParents :: "repository \<Rightarrow> nat list \<Rightarrow> nat list" where
  "firstParents r is = concat (map (\<lambda>i. take 1 (parentsOf r i)) is)"

definition Limit ::
  "repository \<Rightarrow> separated_events \<Rightarrow> bool \<Rightarrow> bool
     \<Rightarrow> (commit list \<times> string list \<times> string list) option" where
  "Limit r se cherrypickIntro cherrypickLimit =
     (let introduced0 = parseHashes r (se_introduced se);
          limit0 = parseHashes r (se_limit se);
          newIntro = (if cherrypickIntro then expandByCherrypick r introduced0 else []);
          newLimit = (if cherrypickLimit then expandByCherrypick r limit0 else []);
          walkFrom = firstParents r (limit0 @ newLimit)
      in map_option (\<lambda>cs. (cs, hexHashes r newIntro, hexHashes r newLimit))
           (walkRevFirstParent r (introduced0 @ newIntro) walkFrom))"

definition AffectedSingleBranch :: "repository \<Rightarrow> separated_events \<Rightarrow> commit list option" where
  "AffectedSingleBranch r se =
     walkRevFirstParent r (parseHashes r (se_introduced se))
       (firstParents r (parseHashes r (se_fixed se)) @ parseHashes r (se_last_affected se))"

section \<open>The inner walk\<close>

definition child_succ :: "repository \<Rightarrow> nat \<Rightarrow> nat set" where
  "child_succ r i = set (childrenOf r i)"

text \<open>Every index that is a child of another; finite, whatever the graph holds.\<close>

definition all_children :: "repository \<Rightarrow> nat set" where
  "all_children r = \<Union> (set ` set (r_graph r))"

lemma finite_all_children [simp]: "finite (all_children r)"
  by (simp add: all_children_def)

lemma child_in_all: "c \<in> child_succ r i \<Longrightarrow> c \<in> all_children r"
  by (auto simp: child_succ_def childrenOf_def all_children_def split: if_splits intro: nth_mem)

lemma pushChild_simps [simp]:
  "bk_affected (pushChild c s) = bk_affected s"
  "bk_unaffectable (pushChild c s) = insert c (bk_unaffectable s)"
  "set (bk_stack (pushChild c s)) = set (bk_stack s) \<union> ({c} - bk_unaffectable s)"
  "c \<in> bk_unaffectable s \<Longrightarrow> pushChild c s = s"
  by (auto simp: pushChild_def)

lemma pushChild_distinct:
  "distinct (bk_stack s) \<Longrightarrow> set (bk_stack s) \<subseteq> bk_unaffectable s \<Longrightarrow> distinct (bk_stack (pushChild c s))"
  by (auto simp: pushChild_def)

lemma fold_pushChild:
  "bk_affected (fold pushChild cs s) = bk_affected s"
  "bk_unaffectable (fold pushChild cs s) = bk_unaffectable s \<union> set cs"
  "set (bk_stack (fold pushChild cs s)) = set (bk_stack s) \<union> (set cs - bk_unaffectable s)"
  by (induction cs arbitrary: s) auto

lemma fold_pushChild_distinct:
  "distinct (bk_stack s) \<Longrightarrow> set (bk_stack s) \<subseteq> bk_unaffectable s \<Longrightarrow> distinct (bk_stack (fold pushChild cs s))"
proof (induction cs arbitrary: s)
  case (Cons c cs)
  then have "distinct (bk_stack (pushChild c s))" by (intro pushChild_distinct)
  with Cons.IH [of "pushChild c s"] Cons.prems(2) show ?case by auto
qed simp

lemma fold_pushChild_none:
  "set cs \<subseteq> bk_unaffectable s \<Longrightarrow> bk_stack (fold pushChild cs s) = bk_stack s"
  by (induction cs arbitrary: s) auto

text \<open>What was blocked before (\<open>E\<close>) and unaffected before (\<open>A\<close>) is remembered.\<close>

definition block_ok :: "nat set \<Rightarrow> nat set \<Rightarrow> block_state \<Rightarrow> bool" where
  "block_ok E A s \<longleftrightarrow>
     distinct (bk_stack s) \<and> set (bk_stack s) \<subseteq> bk_unaffectable s
     \<and> E \<subseteq> bk_unaffectable s - set (bk_stack s)
     \<and> bk_affected s = A - (bk_unaffectable s - set (bk_stack s) - E)"

interpretation block_walk: worklist_search "child_succ r" blockLive "block_ok E A"
  "\<lambda>s. bk_unaffectable s - set (bk_stack s)" "\<lambda>s. set (bk_stack s)" "blockRound r"
  "\<lambda>s. (card (all_children r - bk_unaffectable s), length (bk_stack s))" for r E A
proof
  fix s
  assume ok: "block_ok E A s" and "blockLive s"
  then obtain q u where q: "bk_stack s = q @ [u]"
    by (auto simp: blockLive_def) (metis rev_exhaust)
  let ?s1 = "s\<lparr>bk_stack := q, bk_affected := bk_affected s - {u}\<rparr>"
  have r: "blockRound r s = fold pushChild (childrenOf r u) ?s1"
    by (simp add: blockRound_def q Let_def)
  from ok have d: "u \<notin> set q" "distinct q" and sub: "u \<in> bk_unaffectable s" "set q \<subseteq> bk_unaffectable s"
    and E: "E \<subseteq> bk_unaffectable s" "u \<notin> E" "E \<inter> set q = {}"
    and A: "bk_affected s = A - (bk_unaffectable s - insert u (set q) - E)"
    by (auto simp: block_ok_def q)
  have un: "bk_unaffectable (blockRound r s) = bk_unaffectable s \<union> child_succ r u"
    and st: "set (bk_stack (blockRound r s)) = set q \<union> (child_succ r u - bk_unaffectable s)"
    and af: "bk_affected (blockRound r s) = bk_affected s - {u}"
    by (simp_all add: r fold_pushChild child_succ_def)
  have ex: "bk_unaffectable (blockRound r s) - set (bk_stack (blockRound r s))
      = insert u (bk_unaffectable s - set (bk_stack s))"
    using d sub by (auto simp: un st q)
  have "distinct (bk_stack (blockRound r s))"
    using d sub by (simp add: r fold_pushChild_distinct)
  then show "block_ok E A (blockRound r s)"
    unfolding block_ok_def ex using E sub d by (auto simp: un st af A q)
  show "\<exists>x\<in>set (bk_stack s).
        bk_unaffectable (blockRound r s) - set (bk_stack (blockRound r s))
          = insert x (bk_unaffectable s - set (bk_stack s)) \<and>
        set (bk_stack (blockRound r s)) \<subseteq> set (bk_stack s) \<union> child_succ r x \<and>
        set (bk_stack s) \<union> (if x \<in> bk_unaffectable s - set (bk_stack s) then {} else child_succ r x)
        \<subseteq> set (bk_stack (blockRound r s)) \<union> (bk_unaffectable (blockRound r s) - set (bk_stack (blockRound r s)))"
    by (rule bexI [of _ u]) (unfold ex, auto simp: st q)
  show "((card (all_children r - bk_unaffectable (blockRound r s)), length (bk_stack (blockRound r s))),
      card (all_children r - bk_unaffectable s), length (bk_stack s)) \<in> less_than <*lex*> less_than"
  proof (cases "child_succ r u \<subseteq> bk_unaffectable s")
    case True
    then have "bk_unaffectable (blockRound r s) = bk_unaffectable s" by (auto simp: un)
    moreover have "bk_stack (blockRound r s) = q"
      using True fold_pushChild_none [of "childrenOf r u" ?s1] by (simp add: r child_succ_def)
    ultimately show ?thesis by (simp add: q)
  next
    case False
    then have "all_children r - bk_unaffectable (blockRound r s) \<subset> all_children r - bk_unaffectable s"
      using child_in_all [of _ r u] by (auto simp: un)
    then show ?thesis by (auto intro!: psubset_card_mono)
  qed
qed

lemma blockFrom_result:
  assumes "cur \<notin> U" and closed: "\<And>x. x \<in> U \<Longrightarrow> child_succ r x \<subseteq> U" and "A \<inter> U = {}"
  shows "bk_unaffectable (blockFrom r cur A U) = U \<union> reach (child_succ r) {cur}"
    and "bk_affected (blockFrom r cur A U) = A - (U \<union> reach (child_succ r) {cur})"
proof -
  let ?init = "\<lparr>bk_stack = [cur], bk_affected = A, bk_unaffectable = insert cur U\<rparr>"
  let ?res = "blockFrom r cur A U"
  have ok: "block_ok U A ?init" using assms(1) by (auto simp: block_ok_def)
  have run: "while_option blockLive (blockRound r) ?init = Some ?res"
    unfolding blockFrom_def by (rule block_walk.search_while [OF ok])
  have "\<not> blockLive ?res" by (rule while_option_stop [OF run])
  then have st: "bk_stack ?res = []" by (simp add: blockLive_def)
  have e0: "bk_unaffectable ?init - set (bk_stack ?init) = U" using assms(1) by auto
  have "bk_unaffectable ?res - set (bk_stack ?res)
      = (bk_unaffectable ?init - set (bk_stack ?init)) \<union> reach (child_succ r) (set (bk_stack ?init))"
    by (rule block_walk.search_expands_reach [OF ok run]) (use st closed e0 in auto)
  then show u: "bk_unaffectable ?res = U \<union> reach (child_succ r) {cur}"
    using st e0 by simp
  have "block_ok U A ?res"
    using block_walk.search_result_inv(1) [OF ok run] unfolding block_walk.search_inv_def by blast
  then show "bk_affected ?res = A - (U \<union> reach (child_succ r) {cur})"
    using assms(3) by (auto simp: block_ok_def st u)
qed

section \<open>The walk from one introduced commit\<close>

text \<open>
  The commits that a path from \<open>i\<close> reaches through a fix, and those that it reaches
  otherwise.
\<close>

definition through_fix :: "repository \<Rightarrow> nat set \<Rightarrow> nat \<Rightarrow> nat set" where
  "through_fix r F i = reach (child_succ r) (reach (child_succ r) {i} \<inter> F)"

definition walk_inv :: "repository \<Rightarrow> nat set \<Rightarrow> nat \<Rightarrow> walk_state \<Rightarrow> bool" where
  "walk_inv r F i s \<longleftrightarrow>
     wk_visited s \<union> set (wk_queue s) \<subseteq> reach (child_succ r) {i}
     \<and> i \<in> wk_visited s \<union> set (wk_queue s)
     \<and> (\<forall>x \<in> wk_unaffectable s. child_succ r x \<subseteq> wk_unaffectable s)
     \<and> wk_unaffectable s \<subseteq> through_fix r F i
     \<and> wk_affected s \<inter> (wk_unaffectable s \<union> F) = {}
     \<and> wk_affected s \<subseteq> wk_visited s \<inter> set (wk_updated s)
     \<and> wk_visited s \<subseteq> wk_affected s \<union> wk_unaffectable s
     \<and> (\<forall>x \<in> wk_affected s. child_succ r x \<subseteq> wk_visited s \<union> set (wk_queue s))"

lemma walk_inv_round:
  assumes inv: "walk_inv r F i s" and "walkLive s"
  shows "walk_inv r F i (walkRound r F s)"
proof -
  from assms(2) obtain cur q where q: "wk_queue s = cur # q"
    by (auto simp: walkLive_def neq_Nil_conv)
  from inv have R: "wk_visited s \<union> set (cur # q) \<subseteq> reach (child_succ r) {i}"
    and I: "i \<in> wk_visited s \<union> set (cur # q)"
    and U: "\<And>x. x \<in> wk_unaffectable s \<Longrightarrow> child_succ r x \<subseteq> wk_unaffectable s"
      "wk_unaffectable s \<subseteq> through_fix r F i"
    and A: "wk_affected s \<inter> (wk_unaffectable s \<union> F) = {}" "wk_affected s \<subseteq> wk_visited s \<inter> set (wk_updated s)"
    and V: "wk_visited s \<subseteq> wk_affected s \<union> wk_unaffectable s"
    and C: "\<And>x. x \<in> wk_affected s \<Longrightarrow> child_succ r x \<subseteq> wk_visited s \<union> set (cur # q)"
    unfolding walk_inv_def q by blast+
  have cur: "cur \<in> reach (child_succ r) {i}" using R by simp
  consider (seen) "cur \<in> wk_visited s" | (blocked) "cur \<notin> wk_visited s" "cur \<in> wk_unaffectable s"
    | (hit) "cur \<notin> wk_visited s" "cur \<notin> wk_unaffectable s" "cur \<in> F"
    | (new) "cur \<notin> wk_visited s" "cur \<notin> wk_unaffectable s" "cur \<notin> F"
    by blast
  then show ?thesis
  proof cases
    case seen
    then have "walkRound r F s = s\<lparr>wk_queue := q\<rparr>" by (simp add: walkRound_def q)
    then show ?thesis
      using R I U A V C seen unfolding walk_inv_def by (auto; blast)
  next
    case blocked
    then have "walkRound r F s = s\<lparr>wk_queue := q, wk_visited := insert cur (wk_visited s)\<rparr>"
      by (simp add: walkRound_def q Let_def)
    then show ?thesis
      using R I U A V C blocked unfolding walk_inv_def by (auto; blast)
  next
    case hit
    let ?b = "blockFrom r cur (wk_affected s) (wk_unaffectable s)"
    let ?D = "reach (child_succ r) {cur}"
    have b: "bk_unaffectable ?b = wk_unaffectable s \<union> ?D"
      "bk_affected ?b = wk_affected s - (wk_unaffectable s \<union> ?D)"
      using blockFrom_result [OF hit(2) U(1), of "wk_affected s"] A(1) by auto
    have w: "walkRound r F s = s\<lparr>wk_queue := q, wk_visited := insert cur (wk_visited s),
        wk_affected := bk_affected ?b, wk_unaffectable := bk_unaffectable ?b\<rparr>"
      using hit by (simp add: walkRound_def q Let_def)
    have D: "?D \<subseteq> through_fix r F i"
      unfolding through_fix_def by (rule reach_mono) (use cur hit(3) in simp)
    have "child_succ r x \<subseteq> ?D" if "x \<in> ?D" for x using reach_step [OF that] by blast
    moreover have "cur \<in> ?D" by (simp add: reach_refl)
    ultimately show ?thesis
      using R I U A V C D unfolding walk_inv_def w by (auto simp: b; blast)
  next
    case new
    then have w: "walkRound r F s = s\<lparr>wk_queue := q @ childrenOf r cur, wk_visited := insert cur (wk_visited s),
        wk_affected := insert cur (wk_affected s), wk_updated := wk_updated s @ [cur]\<rparr>"
      by (simp add: walkRound_def q Let_def)
    have "child_succ r cur \<subseteq> reach (child_succ r) {i}" using reach_step [OF cur] by blast
    then show ?thesis
      using R I U A V C new unfolding walk_inv_def w by (auto simp: child_succ_def; blast)
  qed
qed

lemma walk_terminates:
  assumes "set (wk_queue s0) \<subseteq> insert i (all_children r)"
  shows "\<exists>s. while_option walkLive (walkRound r F) s0 = Some s"
proof (rule wf_rel_while_option_Some [where P = "\<lambda>s. set (wk_queue s) \<subseteq> insert i (all_children r)"
      and R = "inv_image (less_than <*lex*> less_than)
        (\<lambda>s. (card (insert i (all_children r) - wk_visited s), length (wk_queue s)))"])
  show "wf (inv_image (less_than <*lex*> less_than)
        (\<lambda>s. (card (insert i (all_children r) - wk_visited s), length (wk_queue s))))"
    by (simp add: wf_inv_image wf_lex_prod)
  fix s
  assume P: "set (wk_queue s) \<subseteq> insert i (all_children r) \<and> walkLive s"
  then obtain cur q where q: "wk_queue s = cur # q"
    by (auto simp: walkLive_def neq_Nil_conv)
  then show "set (wk_queue (walkRound r F s)) \<subseteq> insert i (all_children r)"
    using P child_in_all [of _ r cur]
    by (auto simp: walkRound_def Let_def child_succ_def)
  show "(walkRound r F s, s) \<in> inv_image (less_than <*lex*> less_than)
        (\<lambda>s. (card (insert i (all_children r) - wk_visited s), length (wk_queue s)))"
  proof (cases "cur \<in> wk_visited s")
    case True
    then show ?thesis by (simp add: walkRound_def q)
  next
    case False
    then have "wk_visited (walkRound r F s) = insert cur (wk_visited s)"
      by (simp add: walkRound_def q Let_def)
    with False P q have "insert i (all_children r) - wk_visited (walkRound r F s)
        \<subset> insert i (all_children r) - wk_visited s" by auto
    then show ?thesis by (auto intro!: psubset_card_mono)
  qed
qed (use assms in simp_all)

lemma walk_final:
  assumes "walk_inv r F i s" and "\<not> walkLive s"
  shows "wk_affected s = reach (child_succ r) {i} - through_fix r F i"
    and "wk_affected s \<subseteq> set (wk_updated s)"
proof -
  from assms(2) have q: "wk_queue s = []" by (simp add: walkLive_def)
  let ?R = "reach (child_succ r) {i}" and ?S = "wk_affected s \<union> wk_unaffectable s"
  from assms(1) have R: "wk_visited s \<subseteq> ?R" and I: "i \<in> wk_visited s"
    and U: "\<And>x. x \<in> wk_unaffectable s \<Longrightarrow> child_succ r x \<subseteq> wk_unaffectable s"
      "wk_unaffectable s \<subseteq> through_fix r F i"
    and A: "wk_affected s \<inter> (wk_unaffectable s \<union> F) = {}" "wk_affected s \<subseteq> wk_visited s \<inter> set (wk_updated s)"
    and V: "wk_visited s \<subseteq> ?S"
    and C: "\<And>x. x \<in> wk_affected s \<Longrightarrow> child_succ r x \<subseteq> wk_visited s"
    unfolding walk_inv_def q by auto
  have "?R \<subseteq> ?S"
    by (rule reach_closed_subset) (use I V C U(1) in blast)+
  moreover have "through_fix r F i \<subseteq> wk_unaffectable s"
    unfolding through_fix_def
    by (rule reach_closed_subset) (use \<open>?R \<subseteq> ?S\<close> A(1) U(1) in blast)+
  ultimately show "wk_affected s = ?R - through_fix r F i"
    using R U(2) A by blast
  show "wk_affected s \<subseteq> set (wk_updated s)" using A(2) by blast
qed

lemma walkFromIntro_result:
  "snd (walkFromIntro r F i (upd, M)) = M \<union> (reach (child_succ r) {i} - through_fix r F i)"
proof -
  let ?s0 = "\<lparr>wk_queue = [i], wk_visited = {}, wk_unaffectable = {}, wk_affected = {},
      wk_updated = map (\<lambda>_. 0) upd\<rparr>"
  obtain s where run: "while_option walkLive (walkRound r F) ?s0 = Some s"
    using walk_terminates [of ?s0 i r F] by auto
  have "walk_inv r F i ?s0" by (simp add: walk_inv_def reach_refl)
  then have "walk_inv r F i s"
    by (rule while_option_rule [OF _ run, rotated]) (rule walk_inv_round)
  note F = walk_final [OF this while_option_stop [OF run]]
  have "while walkLive (walkRound r F) ?s0 = s" using run by (simp add: while_def)
  then show ?thesis using F by (auto simp: walkFromIntro_def Let_def)
qed

lemma walkFromIntros_result:
  "snd (fold (walkFromIntro r F) is st)
    = snd st \<union> (\<Union>i \<in> set is. reach (child_succ r) {i} - through_fix r F i)"
proof (induction "is" arbitrary: st)
  case (Cons i "is")
  obtain upd M where st: "st = (upd, M)" by fastforce
  show ?case
    using Cons.IH [of "walkFromIntro r F i st"] walkFromIntro_result [of r F i upd M]
    by (simp add: st Un_assoc)
qed simp

text \<open>The edges of the history: from a commit to the commits that name it as a parent.\<close>

definition history :: "repository \<Rightarrow> (nat \<times> nat) set" where
  "history r = {(p, c). c \<in> set (childrenOf r p)}"

lemma reach_history: "w \<in> reach (child_succ r) S \<longleftrightarrow> (\<exists>v \<in> S. (v, w) \<in> (history r)\<^sup>*)"
proof -
  have "edge_rel (child_succ r) = history r"
    by (simp add: edge_rel_def child_succ_def history_def)
  then show ?thesis by (auto simp: reach_def)
qed

lemma history_parents:
  assumes "repo_ok r"
  shows "(p, c) \<in> history r \<longleftrightarrow> p < length (r_commits r) \<and> c < length (r_commits r) \<and> p \<in> set (parentsOf r c)"
proof -
  note D = repo_okD [OF assms]
  have "c \<in> set (r_graph r ! p) \<longleftrightarrow> p \<in> set (c_parents (r_commits r ! c))"
    if "p < length (r_commits r)" "c < length (r_commits r)"
    using D(5) [OF that] by (metis count_list_0_iff)
  with D(1) D(4) [of p c] show ?thesis
    by (auto simp: history_def childrenOf_def parentsOf_def)
qed

section \<open>Properties of the affected commits\<close>

text \<open>
  C2: The walk over all branches returns exactly the affected commits, in the order of the
  repository: the commits that some introduced commit reaches through the history without
  any path between the two passing through a fix. How the fixes are met, in which order, and
  what an earlier introduced commit left behind in the reused arrays, do not matter.
\<close>

theorem Affected_commits:
  "fst (Affected r se cherrypickIntro cherrypickFixed) =
    (let res = resolveEvents r se cherrypickIntro cherrypickFixed in
     map (\<lambda>c. r_commits r ! c)
       (filter (\<lambda>c. \<exists>i \<in> set (re_introduced res). (i, c) \<in> (history r)\<^sup>*
            \<and> \<not> (\<exists>f \<in> set (re_all_fixes res). (i, f) \<in> (history r)\<^sup>* \<and> (f, c) \<in> (history r)\<^sup>*))
         [0..<length (r_commits r)]))"
proof -
  define res where "res = resolveEvents r se cherrypickIntro cherrypickFixed"
  have "c \<in> snd (fold (walkFromIntro r (set (re_all_fixes res))) (re_introduced res) ([], {}))
    \<longleftrightarrow> (\<exists>i \<in> set (re_introduced res). (i, c) \<in> (history r)\<^sup>*
        \<and> \<not> (\<exists>f \<in> set (re_all_fixes res). (i, f) \<in> (history r)\<^sup>* \<and> (f, c) \<in> (history r)\<^sup>*))" for c
    by (auto simp: walkFromIntros_result through_fix_def reach_history)
  then show ?thesis by (simp add: Affected_def Let_def commitsAt_def flip: res_def)
qed

section \<open>The walk along first parents\<close>

text \<open>A step along the first parent, from a commit that is not introduced.\<close>

definition line_rel :: "repository \<Rightarrow> nat set \<Rightarrow> (nat \<times> nat) set" where
  "line_rel r I = {(c, p). c \<notin> I \<and> (\<exists>ps. parentsOf r c = p # ps)}"

definition line_closed :: "repository \<Rightarrow> nat set \<Rightarrow> nat set \<Rightarrow> bool" where
  "line_closed r I A \<longleftrightarrow>
     (\<forall>a \<in> A. (\<exists>i \<in> I. (a, i) \<in> (line_rel r I)\<^sup>*) \<and> (\<forall>b. (a, b) \<in> line_rel r I \<longrightarrow> b \<in> A))"

lemma line_closed_star:
  assumes "line_closed r I A" and "(a, b) \<in> (line_rel r I)\<^sup>*" and "a \<in> A"
  shows "b \<in> A"
  using assms(2,3) by (induction rule: rtrancl_induct) (use assms(1) in \<open>auto simp: line_closed_def\<close>)

lemma line_rel_end: "c \<in> I \<or> parentsOf r c = [] \<Longrightarrow> (c, d) \<in> (line_rel r I)\<^sup>* \<longleftrightarrow> d = c"
  by (auto simp: line_rel_def elim: converse_rtranclE)

lemma line_rel_next:
  "c \<notin> I \<Longrightarrow> parentsOf r c = p # ps
     \<Longrightarrow> (c, d) \<in> (line_rel r I)\<^sup>* \<longleftrightarrow> d = c \<or> (p, d) \<in> (line_rel r I)\<^sup>*"
  by (auto simp: line_rel_def elim: converse_rtranclE intro: converse_rtrancl_into_rtrancl)

lemma line_while:
  assumes wf: "wf {(p, c). \<exists>ps. parentsOf r c = p # ps}" and A: "line_closed r I A"
  shows "\<exists>s. while_option lineLive (lineRound r I A)
      \<lparr>ln_next = Some w, ln_path = path, ln_valid = False\<rparr> = Some s
    \<and> (ln_valid s \<longleftrightarrow> (\<exists>i \<in> I. (w, i) \<in> (line_rel r I)\<^sup>*))
    \<and> (ln_valid s \<longrightarrow> set (ln_path s) \<union> A = set path \<union> A \<union> {c. (w, c) \<in> (line_rel r I)\<^sup>*})"
  using wf
proof (induction w arbitrary: path rule: wf_induct_rule)
  case (less w)
  let ?s = "\<lparr>ln_next = Some w, ln_path = path, ln_valid = False\<rparr>"
  have step: "while_option lineLive (lineRound r I A) ?s
      = while_option lineLive (lineRound r I A) (lineRound r I A ?s)"
    by (subst while_option_unfold) (simp add: lineLive_def)
  have stop: "while_option lineLive (lineRound r I A) t = Some t" if "\<not> lineLive t" for t
    using that by (subst while_option_unfold) simp
  show ?case
  proof (cases "w \<in> I \<or> w \<in> A")
    case True
    then have "lineRound r I A ?s = \<lparr>ln_next = None, ln_path = path @ [w], ln_valid = True\<rparr>"
      by (simp add: lineRound_def Let_def)
    then have run: "while_option lineLive (lineRound r I A) ?s
        = Some \<lparr>ln_next = None, ln_path = path @ [w], ln_valid = True\<rparr>"
      by (simp add: step stop lineLive_def)
    have "\<exists>i \<in> I. (w, i) \<in> (line_rel r I)\<^sup>*"
      using True A by (auto simp: line_closed_def)
    moreover have "insert w A = A \<union> {c. (w, c) \<in> (line_rel r I)\<^sup>*}"
    proof (cases "w \<in> I")
      case True
      then show ?thesis by (auto simp: line_rel_end)
    next
      case False
      with True have "w \<in> A" by simp
      with line_closed_star [OF A] show ?thesis by auto
    qed
    ultimately show ?thesis by (auto simp: run)
  next
    case new: False
    show ?thesis
    proof (cases "parentsOf r w")
      case Nil
      then have "lineRound r I A ?s = \<lparr>ln_next = None, ln_path = path @ [w], ln_valid = False\<rparr>"
        using new by (simp add: lineRound_def Let_def)
      then have "while_option lineLive (lineRound r I A) ?s
          = Some \<lparr>ln_next = None, ln_path = path @ [w], ln_valid = False\<rparr>"
        by (simp add: step stop lineLive_def)
      then show ?thesis using new Nil by (auto simp: line_rel_end)
    next
      case (Cons p ps)
      then have "lineRound r I A ?s = \<lparr>ln_next = Some p, ln_path = path @ [w], ln_valid = False\<rparr>"
        using new by (simp add: lineRound_def Let_def)
      moreover have "(p, w) \<in> {(p, c). \<exists>ps. parentsOf r c = p # ps}" using Cons by auto
      from less.IH [OF this, of "path @ [w]"] obtain s where
        "while_option lineLive (lineRound r I A) \<lparr>ln_next = Some p, ln_path = path @ [w], ln_valid = False\<rparr> = Some s"
        "ln_valid s \<longleftrightarrow> (\<exists>i \<in> I. (p, i) \<in> (line_rel r I)\<^sup>*)"
        "ln_valid s \<longrightarrow> set (ln_path s) \<union> A = set (path @ [w]) \<union> A \<union> {c. (p, c) \<in> (line_rel r I)\<^sup>*}"
        by blast
      moreover have "(\<exists>i \<in> I. (w, i) \<in> (line_rel r I)\<^sup>*) \<longleftrightarrow> (\<exists>i \<in> I. (p, i) \<in> (line_rel r I)\<^sup>*)"
        using new Cons by (auto simp: line_rel_next)
      moreover have "{c. (w, c) \<in> (line_rel r I)\<^sup>*} = insert w {c. (p, c) \<in> (line_rel r I)\<^sup>*}"
        using new Cons by (auto simp: line_rel_next)
      ultimately show ?thesis by (auto simp: step)
    qed
  qed
qed

text \<open>The commits on the line of \<open>w\<close> up to an introduced one, if it meets one.\<close>

definition line_of :: "repository \<Rightarrow> nat set \<Rightarrow> nat \<Rightarrow> nat set" where
  "line_of r I w =
     {c. (w, c) \<in> (line_rel r I)\<^sup>* \<and> (\<exists>i \<in> I. (w, i) \<in> (line_rel r I)\<^sup>*)}"

lemma walkLine_result:
  assumes "wf {(p, c). \<exists>ps. parentsOf r c = p # ps}" and "line_closed r I A"
  shows "walkLine r I A w = Some (A \<union> line_of r I w)"
proof -
  from line_while [OF assms, of w "[]"] obtain s where
    s: "while_option lineLive (lineRound r I A) \<lparr>ln_next = Some w, ln_path = [], ln_valid = False\<rparr> = Some s"
      "ln_valid s \<longleftrightarrow> (\<exists>i \<in> I. (w, i) \<in> (line_rel r I)\<^sup>*)"
      "ln_valid s \<longrightarrow> set (ln_path s) \<union> A = A \<union> {c. (w, c) \<in> (line_rel r I)\<^sup>*}" by auto
  then show ?thesis by (auto simp: walkLine_def line_of_def)
qed

lemma line_rel_det:
  assumes "(w, c) \<in> (line_rel r I)\<^sup>*" and "(w, i) \<in> (line_rel r I)\<^sup>*" and "i \<in> I"
  shows "(c, i) \<in> (line_rel r I)\<^sup>*"
  using assms(1,2)
proof (induction rule: rtrancl_induct)
  case (step b c)
  then have "(b, i) \<in> (line_rel r I)\<^sup>*" by simp
  moreover have "b \<notin> I" using step.hyps(2) by (auto simp: line_rel_def)
  ultimately show ?case using step.hyps(2) assms(3)
    by (auto simp: line_rel_def elim: converse_rtranclE)
qed simp

lemma line_closed_union: "line_closed r I A \<Longrightarrow> line_closed r I (A \<union> line_of r I w)"
  unfolding line_closed_def line_of_def
  by (auto intro: line_rel_det rtrancl_into_rtrancl)

lemma walkLines_result:
  assumes wf: "wf {(p, c). \<exists>ps. parentsOf r c = p # ps}"
  shows "line_closed r I A \<Longrightarrow> walkLines r I A ws = Some (A \<union> (\<Union>w \<in> set ws. line_of r I w))"
  by (induction ws arbitrary: A) (auto simp: walkLine_result [OF wf] line_closed_union)

text \<open>
  Where the first parents form no cycle, the walk along them ends, and it returns, in the
  order of the repository, the commits that lie on the first-parent line of a starting
  commit between it and the first introduced commit on that line, both included; a line that
  meets no introduced commit contributes nothing, whether or not other lines cross it.
\<close>

theorem walkRevFirstParent_lines:
  assumes "wf {(p, c). \<exists>ps. parentsOf r c = p # ps}"
  shows "walkRevFirstParent r introduced walkFrom = Some (map (\<lambda>c. r_commits r ! c)
    (filter (\<lambda>c. \<exists>w \<in> set walkFrom. (w, c) \<in> (line_rel r (set introduced))\<^sup>*
        \<and> (\<exists>i \<in> set introduced. (w, i) \<in> (line_rel r (set introduced))\<^sup>*))
      [0..<length (r_commits r)]))"
proof -
  have "line_closed r (set introduced) {}" by (simp add: line_closed_def)
  from walkLines_result [OF assms this, of walkFrom]
  show ?thesis by (simp add: walkRevFirstParent_def commitsAt_def line_of_def Bex_def)
qed

text \<open>Commits in a row, the last one first, then the one before it, and so on.\<close>

definition ex_row :: "nat \<Rightarrow> repository" where
  "ex_row n = \<lparr>r_commits = map (\<lambda>i. \<lparr>c_hash = replicate 20 (char_of i), c_patch_id = zero_sha1,
       c_parents = (if Suc i < n then [Suc i] else []), c_tags = []\<rparr>) [0..<n],
     r_graph = map (\<lambda>i. if i = 0 then [] else [i - 1]) [0..<n],
     r_hash_index = Map.empty, r_tag_commit = Map.empty, r_patch_commits = Map.empty,
     r_roots = [n - 1]\<rparr>"

lemma ex_row_parents: "parentsOf (ex_row n) i = (if Suc i < n then [Suc i] else [])"
  by (auto simp: parentsOf_def ex_row_def)

lemma ex_row_wf: "wf {(p, c). \<exists>ps. parentsOf (ex_row n) c = p # ps}"
  by (rule wf_subset [OF wf_measure [of "\<lambda>i. n - i"]]) (auto simp: ex_row_parents split: if_splits)

theorem walkRevFirstParent_lines_witness:
  "map_option (map c_parents) (walkRevFirstParent (ex_row 4) [2] [1]) = Some [[2], [3]]"
proof -
  have "(1, 2) \<in> (line_rel (ex_row 4) {2})\<^sup>*"
    by (rule r_into_rtrancl) (simp add: line_rel_def ex_row_parents)
  then have l: "(1, c) \<in> (line_rel (ex_row 4) {2})\<^sup>* \<longleftrightarrow> c = 1 \<or> c = 2" for c
    using line_rel_next [of 1 "{2}" "ex_row 4" 2 "[]" c] line_rel_end [of 2 "{2}" "ex_row 4" c]
    by (simp add: ex_row_parents)
  have "[0..<length (r_commits (ex_row 4))] = [0, 1, 2, 3]" by (simp add: ex_row_def upt_rec)
  with walkRevFirstParent_lines [OF ex_row_wf, of 4 "[2]" "[1]"] l show ?thesis
    by (simp add: ex_row_def)
qed

section \<open>The roots found\<close>

definition parent_succ :: "repository \<Rightarrow> nat \<Rightarrow> nat set" where
  "parent_succ r i = set (parentsOf r i)"

definition all_parents :: "repository \<Rightarrow> nat set" where
  "all_parents r = \<Union> (set ` c_parents ` set (r_commits r))"

lemma finite_all_parents [simp]: "finite (all_parents r)"
  by (simp add: all_parents_def)

lemma parent_in_all: "p \<in> parent_succ r i \<Longrightarrow> p \<in> all_parents r"
  by (auto simp: parent_succ_def parentsOf_def all_parents_def split: if_splits intro: nth_mem)

lemma visitOnce_simps [simp]:
  "rt_found (visitOnce i s) = rt_found s"
  "rt_visited (visitOnce i s) = insert i (rt_visited s)"
  "set (rt_queue (visitOnce i s)) = set (rt_queue s) \<union> ({i} - rt_visited s)"
  "i \<in> rt_visited s \<Longrightarrow> visitOnce i s = s"
  by (auto simp: visitOnce_def)

lemma visitOnce_distinct:
  "distinct (rt_queue s) \<Longrightarrow> set (rt_queue s) \<subseteq> rt_visited s \<Longrightarrow> distinct (rt_queue (visitOnce i s))"
  by (auto simp: visitOnce_def)

lemma fold_visitOnce:
  "rt_found (fold visitOnce is s) = rt_found s"
  "rt_visited (fold visitOnce is s) = rt_visited s \<union> set is"
  "set (rt_queue (fold visitOnce is s)) = set (rt_queue s) \<union> (set is - rt_visited s)"
  by (induction "is" arbitrary: s) auto

lemma fold_visitOnce_distinct:
  "distinct (rt_queue s) \<Longrightarrow> set (rt_queue s) \<subseteq> rt_visited s
     \<Longrightarrow> distinct (rt_queue (fold visitOnce is s))"
proof (induction "is" arbitrary: s)
  case (Cons i "is")
  then have "distinct (rt_queue (visitOnce i s))" by (intro visitOnce_distinct)
  with Cons.IH [of "visitOnce i s"] Cons.prems(2) show ?case by auto
qed simp

lemma fold_visitOnce_none:
  "set is \<subseteq> rt_visited s \<Longrightarrow> rt_queue (fold visitOnce is s) = rt_queue s"
  by (induction "is" arbitrary: s) auto

definition roots_ok :: "repository \<Rightarrow> root_search \<Rightarrow> bool" where
  "roots_ok r s \<longleftrightarrow>
     distinct (rt_queue s) \<and> set (rt_queue s) \<subseteq> rt_visited s \<and> distinct (rt_found s)
     \<and> set (rt_found s) = {i \<in> rt_visited s - set (rt_queue s). parentsOf r i = []}"

interpretation root_walk: worklist_search "parent_succ r" "rootsLive r" "roots_ok r"
  "\<lambda>s. rt_visited s - set (rt_queue s)" "\<lambda>s. set (rt_queue s)" "rootsRound r"
  "\<lambda>s. (card (all_parents r - rt_visited s), length (rt_queue s))" for r
proof
  fix s
  assume ok: "roots_ok r s" and "rootsLive r s"
  then obtain u q where q: "rt_queue s = u # q"
    by (auto simp: rootsLive_def neq_Nil_conv)
  let ?s1 = "s\<lparr>rt_queue := q, rt_found := rt_found s @ (if parentsOf r u = [] then [u] else [])\<rparr>"
  have r: "rootsRound r s = fold visitOnce (parentsOf r u) ?s1"
    by (simp add: rootsRound_def q Let_def)
  from ok have d: "u \<notin> set q" "distinct q" and sub: "u \<in> rt_visited s" "set q \<subseteq> rt_visited s"
    and F: "distinct (rt_found s)" "set (rt_found s) = {i \<in> rt_visited s - insert u (set q). parentsOf r i = []}"
    by (auto simp: roots_ok_def q)
  have vi: "rt_visited (rootsRound r s) = rt_visited s \<union> parent_succ r u"
    and qu: "set (rt_queue (rootsRound r s)) = set q \<union> (parent_succ r u - rt_visited s)"
    and fo: "rt_found (rootsRound r s) = rt_found s @ (if parentsOf r u = [] then [u] else [])"
    by (simp_all add: r fold_visitOnce parent_succ_def)
  have ex: "rt_visited (rootsRound r s) - set (rt_queue (rootsRound r s))
      = insert u (rt_visited s - set (rt_queue s))"
    using d sub by (auto simp: vi qu q)
  have "distinct (rt_queue (rootsRound r s))"
    using d sub by (simp add: r fold_visitOnce_distinct)
  moreover have "distinct (rt_found (rootsRound r s))"
    using F by (auto simp: fo)
  moreover have "set (rt_found (rootsRound r s))
      = {i \<in> insert u (rt_visited s - set (rt_queue s)). parentsOf r i = []}"
    using F(2) by (auto simp: fo q)
  ultimately show "roots_ok r (rootsRound r s)"
    unfolding roots_ok_def ex using sub by (auto simp: vi qu)
  show "\<exists>x\<in>set (rt_queue s).
        rt_visited (rootsRound r s) - set (rt_queue (rootsRound r s))
          = insert x (rt_visited s - set (rt_queue s)) \<and>
        set (rt_queue (rootsRound r s)) \<subseteq> set (rt_queue s) \<union> parent_succ r x \<and>
        set (rt_queue s) \<union> (if x \<in> rt_visited s - set (rt_queue s) then {} else parent_succ r x)
        \<subseteq> set (rt_queue (rootsRound r s)) \<union> (rt_visited (rootsRound r s) - set (rt_queue (rootsRound r s)))"
    by (rule bexI [of _ u]) (unfold ex, auto simp: qu q)
  show "((card (all_parents r - rt_visited (rootsRound r s)), length (rt_queue (rootsRound r s))),
      card (all_parents r - rt_visited s), length (rt_queue s)) \<in> less_than <*lex*> less_than"
  proof (cases "parent_succ r u \<subseteq> rt_visited s")
    case True
    then have "rt_visited (rootsRound r s) = rt_visited s" by (auto simp: vi)
    moreover have "rt_queue (rootsRound r s) = q"
      using True fold_visitOnce_none [of "parentsOf r u" ?s1] by (simp add: r parent_succ_def)
    ultimately show ?thesis by (simp add: q)
  next
    case False
    then have "all_parents r - rt_visited (rootsRound r s) \<subset> all_parents r - rt_visited s"
      using parent_in_all [of _ r u] by (auto simp: vi)
    then show ?thesis by (auto intro!: psubset_card_mono)
  qed
qed

text \<open>The repository knows all its roots: what a complete log gives.\<close>

definition roots_complete :: "repository \<Rightarrow> bool" where
  "roots_complete r \<longleftrightarrow> distinct (r_roots r)
     \<and> set (r_roots r) = {i. i < length (r_commits r) \<and> parentsOf r i = []}"

lemma reach_parents_range:
  assumes "repo_ok r" and "\<forall>f \<in> set fs. f < length (r_commits r)"
  shows "reach (parent_succ r) (set fs) \<subseteq> {..<length (r_commits r)}"
  by (rule reach_closed_subset)
    (use assms repo_okD(3) [OF assms(1)] in \<open>auto simp: parent_succ_def parentsOf_def\<close>)

lemma findAncestorRoots_result:
  assumes ok: "repo_ok r" and complete: "roots_complete r" and fs: "\<forall>f \<in> set fs. f < length (r_commits r)"
  shows "distinct (findAncestorRoots r fs)"
    and "set (findAncestorRoots r fs) = {i \<in> set (r_roots r). i \<in> reach (parent_succ r) (set fs)}"
proof -
  let ?init = "fold visitOnce fs \<lparr>rt_visited = {}, rt_queue = [], rt_found = []\<rparr>"
  let ?R = "reach (parent_succ r) (set fs)"
  define s where "s = while (rootsLive r) (rootsRound r) ?init"
  have init: "rt_visited ?init = set fs" "set (rt_queue ?init) = set fs" "rt_found ?init = []"
    by (simp_all add: fold_visitOnce)
  have ok0: "roots_ok r ?init"
    unfolding roots_ok_def using fold_visitOnce_distinct [of "\<lparr>rt_visited = {}, rt_queue = [], rt_found = []\<rparr>" fs]
    by (simp add: init)
  have run: "while_option (rootsLive r) (rootsRound r) ?init = Some s"
    unfolding s_def by (rule root_walk.search_while [OF ok0])
  note inv = root_walk.search_result_inv(1) [OF ok0 run]
  from inv have oks: "roots_ok r s" unfolding root_walk.search_inv_def by blast
  from inv init have sub: "rt_visited s \<subseteq> ?R"
    unfolding root_walk.search_inv_def by (auto simp: roots_ok_def)
  from oks have F: "distinct (rt_found s)"
    "set (rt_found s) = {i \<in> rt_visited s - set (rt_queue s). parentsOf r i = []}"
    by (simp_all add: roots_ok_def)
  have roots: "i \<in> set (r_roots r) \<longleftrightarrow> i < length (r_commits r) \<and> parentsOf r i = []" for i
    using complete by (simp add: roots_complete_def)
  note range = reach_parents_range [OF ok fs]
  have found_sub: "set (rt_found s) \<subseteq> {i \<in> set (r_roots r). i \<in> ?R}"
    using F(2) sub range roots by auto
  have "\<not> rootsLive r s" by (rule while_option_stop [OF run])
  then consider (drained) "rt_queue s = []" | (all) "length (rt_found s) = length (r_roots r)"
    by (auto simp: rootsLive_def)
  then have "{i \<in> set (r_roots r). i \<in> ?R} \<subseteq> set (rt_found s)"
  proof cases
    case drained
    have "rt_visited s - set (rt_queue s) = (rt_visited ?init - set (rt_queue ?init))
        \<union> reach (parent_succ r) (set (rt_queue ?init))"
      by (rule root_walk.search_expands_reach [OF ok0 run]) (simp_all add: drained init)
    then have "rt_visited s = ?R" by (simp add: drained init)
    then show ?thesis using F(2) roots drained by auto
  next
    case all
    have "card (set (rt_found s)) = card (set (r_roots r))"
      using all distinct_card [OF F(1)] distinct_card [of "r_roots r"] complete
      unfolding roots_complete_def by metis
    moreover have "set (rt_found s) \<subseteq> set (r_roots r)" using found_sub by blast
    ultimately have "set (rt_found s) = set (r_roots r)" by (intro card_subset_eq) simp_all
    then show ?thesis by simp
  qed
  with found_sub F(1) show "distinct (findAncestorRoots r fs)"
    "set (findAncestorRoots r fs) = {i \<in> set (r_roots r). i \<in> ?R}"
    by (auto simp: findAncestorRoots_def simp flip: s_def)
qed

lemma reach_parents_history:
  assumes ok: "repo_ok r" and i: "i < length (r_commits r)"
  shows "i \<in> reach (parent_succ r) (set fs) \<longleftrightarrow> (\<exists>f \<in> set fs. (i, f) \<in> (history r)\<^sup>*)"
proof -
  have e: "edge_rel (parent_succ r) = (history r)\<inverse>"
    using history_parents [OF ok] repo_okD(3) [OF ok]
    by (auto simp: edge_rel_def parent_succ_def) (auto simp: parentsOf_def split: if_splits)
  show ?thesis by (auto simp: reach_def e rtrancl_converse)
qed

text \<open>
  Resolving "introduced from the beginning" for a repository whose roots are all known
  gives exactly the root commits that are ancestors of a fix, each once; the early exit, when
  as many roots are found as there are, loses none.
\<close>

theorem findAncestorRoots_ancestors:
  assumes "repo_ok r" and "roots_complete r" and "\<forall>f \<in> set fs. f < length (r_commits r)"
  shows "distinct (findAncestorRoots r fs)
    \<and> set (findAncestorRoots r fs) = {i \<in> set (r_roots r). \<exists>f \<in> set fs. (i, f) \<in> (history r)\<^sup>*}"
proof -
  have "i < length (r_commits r)" if "i \<in> set (r_roots r)" for i
    using repo_okD(6) [OF assms(1) that] .
  with findAncestorRoots_result [OF assms] reach_parents_history [OF assms(1), of _ fs]
  show ?thesis by blast
qed

text \<open>The commits of two roots, and one merged from both.\<close>

definition ex_fork :: repository where
  "ex_fork = \<lparr>r_commits = [\<lparr>c_hash = ''m'', c_patch_id = zero_sha1, c_parents = [1], c_tags = []\<rparr>,
       \<lparr>c_hash = ''a'', c_patch_id = zero_sha1, c_parents = [], c_tags = []\<rparr>,
       \<lparr>c_hash = ''b'', c_patch_id = zero_sha1, c_parents = [], c_tags = []\<rparr>],
     r_graph = [[], [0], []], r_hash_index = [''m'' \<mapsto> 0, ''a'' \<mapsto> 1, ''b'' \<mapsto> 2],
     r_tag_commit = Map.empty, r_patch_commits = Map.empty, r_roots = [1, 2]\<rparr>"

lemma ex_fork_ok: "repo_ok ex_fork"
proof -
  have "index_ok (r_hash_index ex_fork) (map c_hash (r_commits ex_fork))"
    by (auto simp: index_ok_def ex_fork_def nth_Cons less_Suc_eq split: nat.splits if_splits)
  moreover have "edges_ok (r_graph ex_fork) (map c_parents (r_commits ex_fork))"
    by (auto simp: edges_ok_def ex_fork_def less_Suc_eq numeral_3_eq_3 nth_Cons split: nat.splits)
  ultimately show ?thesis by (simp add: repo_ok_def) (simp add: ex_fork_def)
qed

theorem findAncestorRoots_ancestors_witness:
  "set (findAncestorRoots ex_fork [0]) = {i \<in> {1, 2}. \<exists>f \<in> {0}. (i, f) \<in> (history ex_fork)\<^sup>*}
    \<and> findAncestorRoots ex_fork [0] = [1]"
proof -
  have "roots_complete ex_fork"
    by (auto simp: roots_complete_def ex_fork_def parentsOf_def nth_Cons less_Suc_eq numeral_3_eq_3 split: nat.splits)
  from findAncestorRoots_ancestors [OF ex_fork_ok this, of "[0]"]
  have "set (findAncestorRoots ex_fork [0]) = {i \<in> {1, 2}. \<exists>f \<in> {0}. (i, f) \<in> (history ex_fork)\<^sup>*}"
    by (simp add: ex_fork_def)
  moreover have "findAncestorRoots ex_fork [0] = [1]" by code_simp
  ultimately show ?thesis by simp
qed

lemma findAncestorRoots_range:
  assumes ok: "repo_ok r" and fs: "\<forall>f \<in> set fs. f < length (r_commits r)"
    and i: "i \<in> set (findAncestorRoots r fs)"
  shows "i < length (r_commits r)"
proof -
  let ?init = "fold visitOnce fs \<lparr>rt_visited = {}, rt_queue = [], rt_found = []\<rparr>"
  define s where "s = while (rootsLive r) (rootsRound r) ?init"
  have init: "rt_visited ?init = set fs" "set (rt_queue ?init) = set fs" "rt_found ?init = []"
    by (simp_all add: fold_visitOnce)
  have ok0: "roots_ok r ?init"
    unfolding roots_ok_def using fold_visitOnce_distinct [of "\<lparr>rt_visited = {}, rt_queue = [], rt_found = []\<rparr>" fs]
    by (simp add: init)
  have run: "while_option (rootsLive r) (rootsRound r) ?init = Some s"
    unfolding s_def by (rule root_walk.search_while [OF ok0])
  from root_walk.search_result_inv(1) [OF ok0 run] init
  have "rt_visited s \<subseteq> reach (parent_succ r) (set fs)" "set (rt_found s) \<subseteq> rt_visited s"
    unfolding root_walk.search_inv_def by (auto simp: roots_ok_def)
  with i reach_parents_range [OF ok fs] show ?thesis
    by (auto simp: findAncestorRoots_def simp flip: s_def)
qed

text \<open>
  Whatever hashes the events name, every commit they resolve to, cherry-picked ones,
  roots and children of last-affected commits included, is an index of the repository, so
  that the walks never index out of range.
\<close>

theorem resolveEvents_in_range:
  assumes "repo_ok r"
  shows "set (re_introduced (resolveEvents r se ci cf)) \<union> set (re_all_fixes (resolveEvents r se ci cf))
    \<subseteq> {..<length (r_commits r)}"
proof -
  note D = repo_okD [OF assms]
  let ?fixed = "parseHashes r (se_fixed se)"
  define fxs where "fxs = (?fixed @ (if cf then expandByCherrypick r ?fixed else []))
    @ concat (map (childrenOf r) (parseHashes r (se_last_affected se)))"
  have P: "i < length (r_commits r)" if "i \<in> set (parseHashes r hs)" for i hs
    using parseHashes_range [OF assms that] .
  have C: "j < length (r_commits r)" if "j \<in> set (childrenOf r i)" for i j
    using that D(1) D(4) [of i j] by (auto simp: childrenOf_def split: if_splits)
  have F: "\<forall>f \<in> set fxs. f < length (r_commits r)"
    using P C expandByCherrypick_range [OF assms] by (auto simp: fxs_def)
  define intro0 where "intro0 = parseHashes r (filter (\<lambda>s. s \<noteq> ''0'') (se_introduced se))
    @ (if ''0'' \<in> set (se_introduced se)
       then if fxs \<noteq> [] then findAncestorRoots r fxs else r_roots r else [])"
  have I: "\<forall>i \<in> set intro0. i < length (r_commits r)"
    using P findAncestorRoots_range [OF assms F] D(6) by (auto simp: intro0_def)
  have "re_all_fixes (resolveEvents r se ci cf) = fxs"
    "re_introduced (resolveEvents r se ci cf) = intro0 @ (if ci then expandByCherrypick r intro0 else [])"
    by (simp_all add: resolveEvents_def Let_def fxs_def intro0_def)
  with F I expandByCherrypick_range [OF assms] show ?thesis by auto
qed

lemma ex_fork_size: "length (r_commits ex_fork) = 3"
  by (simp add: ex_fork_def)

theorem resolveEvents_in_range_witness:
  "set (re_all_fixes (resolveEvents ex_fork
      \<lparr>se_introduced = [''0''], se_fixed = [], se_last_affected = [], se_limit = []\<rparr> True True)) \<subseteq> {..<3}"
  using resolveEvents_in_range [OF ex_fork_ok, unfolded ex_fork_size] by (rule subset_trans [OF Un_upper2])

end
