(* ===== verification/FindingState.thy ===== *)
theory FindingState
  imports Strings
begin

text \<open>
  The finding of the finding service and its state machine
  (\<open>services/finding-service/internal/domain/finding\<close>: \<open>entity.go\<close>, \<open>state_machine.go\<close>,
  \<open>helpers.go\<close>, \<open>errors.go\<close>).

  A UUID is its canonical text; \<open>uuid.Parse\<close>, of a third-party package, and the SHA-256 digest are
  parameters. Times are nanoseconds, and each operation takes the reading of the clock it uses.
\<close>

section \<open>The entity\<close>

type_synonym uuid = string

definition uuid_nil :: uuid where
  "uuid_nil = ''00000000-0000-0000-0000-000000000000''"

definition Numerical :: "string \<Rightarrow> nat" where
  "Numerical s =
     (if s = ''Critical'' then 4 else if s = ''High'' then 3
      else if s = ''Medium'' then 2 else if s = ''Low'' then 1 else 0)"

record finding =
  fi_id :: uuid
  fi_title :: string
  fi_severity :: string
  fi_numerical :: nat
  fi_cve :: string
  fi_component :: string
  fi_component_version :: string
  fi_active :: bool
  fi_false_positive :: bool
  fi_duplicate :: bool
  fi_out_of_scope :: bool
  fi_mitigated :: bool
  fi_risk_accepted :: bool
  fi_date :: timestamp
  fi_mitigated_at :: "timestamp option"
  fi_mitigated_by :: "uuid option"
  fi_last_status_update :: "timestamp option"
  fi_sla_expiration :: "timestamp option"
  fi_test :: uuid
  fi_engagement :: uuid
  fi_product :: uuid
  fi_duplicate_of :: "uuid option"
  fi_hash :: string
  fi_created :: timestamp
  fi_updated :: timestamp

datatype finding_error =
    ErrTitleRequired | ErrInvalidSeverity | ErrTestIDRequired | ErrEngagementIDRequired
  | ErrProductIDRequired | ErrInvalidTransition

definition hashInput :: "finding \<Rightarrow> string" where
  "hashInput f =
     trim_space (fi_title f) @ ''|'' @ trim_space (fi_component f) @ ''|''
       @ trim_space (fi_component_version f) @ ''|'' @ to_upper (trim_space (fi_cve f))"

definition ComputeHash :: "(string \<Rightarrow> string) \<Rightarrow> finding \<Rightarrow> string" where
  "ComputeHash sha256 f = hex_encode (sha256 (hashInput f))"

definition NewFinding ::
  "(string \<Rightarrow> string) \<Rightarrow> uuid \<Rightarrow> timestamp \<Rightarrow> string \<Rightarrow> string \<Rightarrow> uuid \<Rightarrow> uuid \<Rightarrow> uuid
     \<Rightarrow> string \<Rightarrow> string \<Rightarrow> string \<Rightarrow> finding_error + finding" where
  "NewFinding sha256 newID now title severity testID engagementID productID
      componentName componentVersion cve =
     (if trim_space title = [] then Inl ErrTitleRequired
      else if severity \<noteq> ''Critical'' \<and> severity \<noteq> ''High'' \<and> severity \<noteq> ''Medium''
           \<and> severity \<noteq> ''Low'' \<and> severity \<noteq> ''Info'' then Inl ErrInvalidSeverity
      else if testID = uuid_nil then Inl ErrTestIDRequired
      else if engagementID = uuid_nil then Inl ErrEngagementIDRequired
      else if productID = uuid_nil then Inl ErrProductIDRequired
      else
        let f = \<lparr>fi_id = newID, fi_title = trim_space title, fi_severity = severity,
               fi_numerical = Numerical severity, fi_cve = to_upper (trim_space cve),
               fi_component = componentName, fi_component_version = componentVersion,
               fi_active = True, fi_false_positive = False, fi_duplicate = False,
               fi_out_of_scope = False, fi_mitigated = False, fi_risk_accepted = False,
               fi_date = now, fi_mitigated_at = None, fi_mitigated_by = None,
               fi_last_status_update = None, fi_sla_expiration = None, fi_test = testID,
               fi_engagement = engagementID, fi_product = productID, fi_duplicate_of = None,
               fi_hash = [], fi_created = now, fi_updated = now\<rparr>
        in Inr (f\<lparr>fi_hash := ComputeHash sha256 f\<rparr>))"

definition IsSLABreached :: "timestamp \<Rightarrow> finding \<Rightarrow> bool" where
  "IsSLABreached now f =
     (if \<not> fi_active f then False
      else case fi_sla_expiration f of None \<Rightarrow> False | Some t \<Rightarrow> now > t)"

text \<open>
  Whole days of a duration, towards zero as Go converts a float to an integer (the float
  itself is taken to be exact).
\<close>

definition day :: int where
  "day = 86400000000000"

definition whole_days :: "int \<Rightarrow> int" where
  "whole_days d = sgn d * (\<bar>d\<bar> div day)"

definition DaysUntilSLA :: "timestamp \<Rightarrow> finding \<Rightarrow> int option" where
  "DaysUntilSLA now f = map_option (\<lambda>t. whole_days (t - now)) (fi_sla_expiration f)"

section \<open>The state machine\<close>

datatype finding_state =
    StateActive | StateMitigated | StateFalsePositive | StateRiskAccepted
  | StateOutOfScope | StateDuplicate

definition CurrentState :: "finding \<Rightarrow> finding_state" where
  "CurrentState f =
     (if fi_duplicate f then StateDuplicate
      else if fi_false_positive f then StateFalsePositive
      else if fi_out_of_scope f then StateOutOfScope
      else if fi_risk_accepted f then StateRiskAccepted
      else if fi_mitigated f then StateMitigated
      else StateActive)"

fun ValidTransitions :: "finding_state \<Rightarrow> finding_state \<Rightarrow> bool" where
  "ValidTransitions StateActive next =
     (next \<in> {StateMitigated, StateFalsePositive, StateRiskAccepted, StateOutOfScope})"
| "ValidTransitions StateMitigated next = (next = StateActive)"
| "ValidTransitions StateFalsePositive next = (next = StateActive)"
| "ValidTransitions StateRiskAccepted next = (next = StateActive)"
| "ValidTransitions StateOutOfScope next = (next = StateActive)"
| "ValidTransitions StateDuplicate next = False"

definition CanTransitionTo :: "finding \<Rightarrow> finding_state \<Rightarrow> bool" where
  "CanTransitionTo f next = ValidTransitions (CurrentState f) next"

definition mustParseUUID :: "(string \<Rightarrow> uuid option) \<Rightarrow> string \<Rightarrow> uuid" where
  "mustParseUUID parse s = (case parse s of None \<Rightarrow> uuid_nil | Some u \<Rightarrow> u)"

definition Close ::
  "(string \<Rightarrow> uuid option) \<Rightarrow> timestamp \<Rightarrow> string option \<Rightarrow> finding \<Rightarrow> finding_error + finding" where
  "Close parse now mitigatedByID f =
     (if \<not> CanTransitionTo f StateMitigated then Inl ErrInvalidTransition
      else
        let f1 = f\<lparr>fi_active := False, fi_mitigated := True, fi_mitigated_at := Some now\<rparr>;
            f2 = (case mitigatedByID of None \<Rightarrow> f1
                  | Some s \<Rightarrow> f1\<lparr>fi_mitigated_by := Some (mustParseUUID parse s)\<rparr>)
        in Inr (f2\<lparr>fi_last_status_update := Some now, fi_updated := now\<rparr>))"

definition Reopen :: "timestamp \<Rightarrow> finding \<Rightarrow> finding_error + finding" where
  "Reopen now f =
     (if \<not> CanTransitionTo f StateActive then Inl ErrInvalidTransition
      else Inr (f\<lparr>fi_active := True, fi_mitigated := False, fi_false_positive := False,
                  fi_risk_accepted := False, fi_out_of_scope := False,
                  fi_mitigated_at := None, fi_mitigated_by := None,
                  fi_last_status_update := Some now, fi_updated := now\<rparr>))"

definition MarkFalsePositive :: "timestamp \<Rightarrow> finding \<Rightarrow> finding_error + finding" where
  "MarkFalsePositive now f =
     (if \<not> CanTransitionTo f StateFalsePositive then Inl ErrInvalidTransition
      else Inr (f\<lparr>fi_false_positive := True, fi_active := False,
                  fi_last_status_update := Some now, fi_updated := now\<rparr>))"

definition AcceptRisk :: "timestamp \<Rightarrow> finding \<Rightarrow> finding_error + finding" where
  "AcceptRisk now f =
     (if \<not> CanTransitionTo f StateRiskAccepted then Inl ErrInvalidTransition
      else Inr (f\<lparr>fi_risk_accepted := True, fi_active := False,
                  fi_last_status_update := Some now, fi_updated := now\<rparr>))"

definition MarkOutOfScope :: "timestamp \<Rightarrow> finding \<Rightarrow> finding_error + finding" where
  "MarkOutOfScope now f =
     (if \<not> CanTransitionTo f StateOutOfScope then Inl ErrInvalidTransition
      else Inr (f\<lparr>fi_out_of_scope := True, fi_active := False,
                  fi_last_status_update := Some now, fi_updated := now\<rparr>))"

definition MarkDuplicate ::
  "(string \<Rightarrow> uuid option) \<Rightarrow> timestamp \<Rightarrow> string option \<Rightarrow> finding \<Rightarrow> finding" where
  "MarkDuplicate parse now originalID f =
     (let f1 = f\<lparr>fi_duplicate := True, fi_active := False\<rparr>;
          f2 = (case originalID of None \<Rightarrow> f1
                | Some s \<Rightarrow> f1\<lparr>fi_duplicate_of := Some (mustParseUUID parse s)\<rparr>)
      in f2\<lparr>fi_last_status_update := Some now, fi_updated := now\<rparr>)"

definition ApplyTransition :: "timestamp \<Rightarrow> finding_state \<Rightarrow> finding \<Rightarrow> finding_error + finding" where
  "ApplyTransition now target f =
     (case target of
        StateMitigated \<Rightarrow>
          if \<not> CanTransitionTo f StateMitigated then Inl ErrInvalidTransition
          else Inr (f\<lparr>fi_mitigated := True, fi_active := False, fi_mitigated_at := Some now,
                      fi_last_status_update := Some now, fi_updated := now\<rparr>)
      | StateActive \<Rightarrow> Reopen now f
      | StateFalsePositive \<Rightarrow> MarkFalsePositive now f
      | StateOutOfScope \<Rightarrow> MarkOutOfScope now f
      | StateRiskAccepted \<Rightarrow> AcceptRisk now f
      | StateDuplicate \<Rightarrow> Inl ErrInvalidTransition)"

section \<open>The contract of a guarded transition\<close>

text \<open>
  What a caller relies on: the operation fails exactly when its target is not allowed from
  the present state, fails with that error only, and otherwise leads to its target.
\<close>

locale guarded_transition =
  fixes state :: "'x \<Rightarrow> 's"
    and allowed :: "'s \<Rightarrow> 's \<Rightarrow> bool"
    and invalid :: "'e"
    and op :: "'x \<Rightarrow> 'e + 'x"
    and target :: "'s"
  assumes op_refused: "\<not> allowed (state x) target \<Longrightarrow> op x = Inl invalid"
    and op_allowed: "allowed (state x) target \<Longrightarrow> \<exists>y. op x = Inr y \<and> state y = target"
begin

lemma op_succeeds: "(\<exists>y. op x = Inr y) \<longleftrightarrow> allowed (state x) target"
  using op_refused op_allowed by fastforce

lemma op_target: "op x = Inr y \<Longrightarrow> state y = target"
  using op_refused op_allowed by (metis Inl_Inr_False Inr_inject)

lemma op_error: "op x = Inl e \<Longrightarrow> e = invalid"
  using op_refused op_allowed by (metis Inl_Inr_False Inl_inject)

text \<open>Where the target does not lead to itself, repeating the operation fails.\<close>

lemma op_twice: "\<not> allowed target target \<Longrightarrow> op x = Inr y \<Longrightarrow> op y = Inl invalid"
  using op_target op_refused by metis

end

lemma CurrentState_active:
  "CurrentState f = StateActive \<longleftrightarrow> \<not> fi_duplicate f \<and> \<not> fi_false_positive f
     \<and> \<not> fi_out_of_scope f \<and> \<not> fi_risk_accepted f \<and> \<not> fi_mitigated f"
  by (simp add: CurrentState_def)

lemma ValidTransitions_iff:
  "ValidTransitions s t \<longleftrightarrow>
     s = StateActive \<and> t \<in> {StateMitigated, StateFalsePositive, StateRiskAccepted, StateOutOfScope}
     \<or> s \<in> {StateMitigated, StateFalsePositive, StateRiskAccepted, StateOutOfScope} \<and> t = StateActive"
  by (cases s) auto

lemmas transition_defs = Close_def Reopen_def MarkFalsePositive_def AcceptRisk_def
  MarkOutOfScope_def ApplyTransition_def CanTransitionTo_def Let_def

interpretation close: guarded_transition CurrentState ValidTransitions ErrInvalidTransition
  "Close parse now by_id" StateMitigated for parse now by_id
  by unfold_locales
    (auto simp: transition_defs ValidTransitions_iff CurrentState_active split: option.splits,
      auto simp: CurrentState_def)

interpretation reopen: guarded_transition CurrentState ValidTransitions ErrInvalidTransition
  "Reopen now" StateActive for now
  by unfold_locales
    (auto simp: transition_defs ValidTransitions_iff, auto simp: CurrentState_def split: if_splits)

interpretation mark_fp: guarded_transition CurrentState ValidTransitions ErrInvalidTransition
  "MarkFalsePositive now" StateFalsePositive for now
  by unfold_locales
    (auto simp: transition_defs ValidTransitions_iff CurrentState_active, auto simp: CurrentState_def)

interpretation accept_risk: guarded_transition CurrentState ValidTransitions ErrInvalidTransition
  "AcceptRisk now" StateRiskAccepted for now
  by unfold_locales
    (auto simp: transition_defs ValidTransitions_iff CurrentState_active, auto simp: CurrentState_def)

interpretation mark_oos: guarded_transition CurrentState ValidTransitions ErrInvalidTransition
  "MarkOutOfScope now" StateOutOfScope for now
  by unfold_locales
    (auto simp: transition_defs ValidTransitions_iff CurrentState_active, auto simp: CurrentState_def)

interpretation apply_transition: guarded_transition CurrentState ValidTransitions
  ErrInvalidTransition "ApplyTransition now target" target for now target
proof
  fix f
  show "ApplyTransition now target f = Inl ErrInvalidTransition"
    if "\<not> ValidTransitions (CurrentState f) target"
    using that by (cases target) (simp_all add: transition_defs)
  show "\<exists>y. ApplyTransition now target f = Inr y \<and> CurrentState y = target"
    if "ValidTransitions (CurrentState f) target"
  proof (cases target)
    case StateMitigated
    with that show ?thesis
      by (auto simp: transition_defs ValidTransitions_iff CurrentState_active) (simp add: CurrentState_def)
  next
    case StateDuplicate
    with that show ?thesis by (simp add: ValidTransitions_iff)
  qed (use that reopen.op_allowed mark_fp.op_allowed accept_risk.op_allowed mark_oos.op_allowed
      in \<open>auto simp: ApplyTransition_def\<close>)
qed

section \<open>Life of a finding\<close>

inductive finding_step :: "(string \<Rightarrow> uuid option) \<Rightarrow> finding \<Rightarrow> finding \<Rightarrow> bool" for parse where
  step_close: "Close parse now by_id f = Inr g \<Longrightarrow> finding_step parse f g"
| step_reopen: "Reopen now f = Inr g \<Longrightarrow> finding_step parse f g"
| step_fp: "MarkFalsePositive now f = Inr g \<Longrightarrow> finding_step parse f g"
| step_risk: "AcceptRisk now f = Inr g \<Longrightarrow> finding_step parse f g"
| step_oos: "MarkOutOfScope now f = Inr g \<Longrightarrow> finding_step parse f g"
| step_apply: "ApplyTransition now t f = Inr g \<Longrightarrow> finding_step parse f g"
| step_duplicate: "finding_step parse f (MarkDuplicate parse now (Some orig) f)"

inductive_cases finding_stepE: "finding_step parse f g"

text \<open>
  The flags of a finding that came from \<open>NewFinding\<close>: it is active exactly when no other flag is
  set, it has at most one flag besides that of a duplicate, and a time of mitigation exactly
  when it is mitigated.
\<close>

definition finding_ok :: "finding \<Rightarrow> bool" where
  "finding_ok f \<longleftrightarrow>
     (fi_active f \<longleftrightarrow> CurrentState f = StateActive)
     \<and> length (filter id [fi_false_positive f, fi_out_of_scope f, fi_risk_accepted f, fi_mitigated f]) \<le> 1
     \<and> (fi_mitigated_at f \<noteq> None \<longleftrightarrow> fi_mitigated f)
     \<and> (fi_mitigated_by f \<noteq> None \<longrightarrow> fi_mitigated f)
     \<and> (fi_duplicate f \<longleftrightarrow> fi_duplicate_of f \<noteq> None)"

lemma NewFinding_flags:
  "case NewFinding h i now ti sev t e p c cv cve of
     Inl _ \<Rightarrow> True | Inr f \<Rightarrow> finding_ok f \<and> CurrentState f = StateActive"
  by (simp add: NewFinding_def Let_def finding_ok_def CurrentState_def)

lemma finding_ok_new:
  "NewFinding h i now ti sev t e p c cv cve = Inr f \<Longrightarrow> finding_ok f"
  using NewFinding_flags [of h i now ti sev t e p c cv cve] by simp

lemma new_finding_active:
  "NewFinding h i now ti sev t e p c cv cve = Inr f \<Longrightarrow> CurrentState f = StateActive"
  using NewFinding_flags [of h i now ti sev t e p c cv cve] by simp

text \<open>A finding that agrees, by its state.\<close>

lemma finding_ok_state:
  assumes "finding_ok f"
  shows "CurrentState f = StateActive \<Longrightarrow> fi_active f \<and> \<not> fi_duplicate f \<and> \<not> fi_false_positive f
      \<and> \<not> fi_out_of_scope f \<and> \<not> fi_risk_accepted f \<and> \<not> fi_mitigated f
      \<and> fi_mitigated_at f = None \<and> fi_mitigated_by f = None \<and> fi_duplicate_of f = None"
    and "CurrentState f \<noteq> StateDuplicate \<Longrightarrow> \<not> fi_duplicate f \<and> fi_duplicate_of f = None"
  using assms by (auto simp: finding_ok_def CurrentState_def split: if_splits)

lemma finding_ok_transition:
  assumes ok: "finding_ok f"
  shows "Close parse now b f = Inr g \<Longrightarrow> finding_ok g"
    and "Reopen now f = Inr g \<Longrightarrow> finding_ok g"
    and "MarkFalsePositive now f = Inr g \<Longrightarrow> finding_ok g"
    and "AcceptRisk now f = Inr g \<Longrightarrow> finding_ok g"
    and "MarkOutOfScope now f = Inr g \<Longrightarrow> finding_ok g"
proof -
  note A = finding_ok_state(1) [OF ok] and D = finding_ok_state(2) [OF ok]
  have "case Close parse now b f of Inl _ \<Rightarrow> True | Inr g \<Rightarrow> finding_ok g"
    using A by (cases b; cases "CurrentState f = StateActive")
      (simp_all add: transition_defs ValidTransitions_iff finding_ok_def, simp_all add: CurrentState_def)
  then show "Close parse now b f = Inr g \<Longrightarrow> finding_ok g" by simp
  have "case Reopen now f of Inl _ \<Rightarrow> True | Inr g \<Rightarrow> finding_ok g"
    using D by (cases "CurrentState f = StateDuplicate")
      (simp_all add: transition_defs ValidTransitions_iff finding_ok_def, simp_all add: CurrentState_def)
  then show "Reopen now f = Inr g \<Longrightarrow> finding_ok g" by simp
  have "case MarkFalsePositive now f of Inl _ \<Rightarrow> True | Inr g \<Rightarrow> finding_ok g"
    using A by (cases "CurrentState f = StateActive")
      (simp_all add: transition_defs ValidTransitions_iff finding_ok_def, simp_all add: CurrentState_def)
  then show "MarkFalsePositive now f = Inr g \<Longrightarrow> finding_ok g" by simp
  have "case AcceptRisk now f of Inl _ \<Rightarrow> True | Inr g \<Rightarrow> finding_ok g"
    using A by (cases "CurrentState f = StateActive")
      (simp_all add: transition_defs ValidTransitions_iff finding_ok_def, simp_all add: CurrentState_def)
  then show "AcceptRisk now f = Inr g \<Longrightarrow> finding_ok g" by simp
  have "case MarkOutOfScope now f of Inl _ \<Rightarrow> True | Inr g \<Rightarrow> finding_ok g"
    using A by (cases "CurrentState f = StateActive")
      (simp_all add: transition_defs ValidTransitions_iff finding_ok_def, simp_all add: CurrentState_def)
  then show "MarkOutOfScope now f = Inr g \<Longrightarrow> finding_ok g" by simp
qed

lemma finding_ok_apply:
  assumes ok: "finding_ok f" and run: "ApplyTransition now t f = Inr g"
  shows "finding_ok g"
proof (cases t)
  case StateMitigated
  with run have "Close (\<lambda>_. None) now None f = Inr g"
    by (auto simp: ApplyTransition_def Close_def Let_def split: if_splits)
  then show ?thesis by (rule finding_ok_transition(1) [OF ok])
next
  case StateActive
  with run show ?thesis by (intro finding_ok_transition(2) [OF ok]) (simp add: ApplyTransition_def)
next
  case StateFalsePositive
  with run show ?thesis by (intro finding_ok_transition(3) [OF ok]) (simp add: ApplyTransition_def)
next
  case StateRiskAccepted
  with run show ?thesis by (intro finding_ok_transition(4) [OF ok]) (simp add: ApplyTransition_def)
next
  case StateOutOfScope
  with run show ?thesis by (intro finding_ok_transition(5) [OF ok]) (simp add: ApplyTransition_def)
qed (use run in \<open>simp add: ApplyTransition_def\<close>)

lemma finding_ok_duplicate: "finding_ok f \<Longrightarrow> finding_ok (MarkDuplicate parse now (Some orig) f)"
  by (auto simp: finding_ok_def MarkDuplicate_def Let_def CurrentState_def split: if_splits)

lemma finding_ok_step: "finding_step parse f g \<Longrightarrow> finding_ok f \<Longrightarrow> finding_ok g"
  by (erule finding_stepE) (auto intro: finding_ok_transition finding_ok_apply finding_ok_duplicate)

lemma duplicate_refused:
  assumes "CurrentState f = StateDuplicate"
  shows "Close parse now b f = Inl ErrInvalidTransition" and "Reopen now f = Inl ErrInvalidTransition"
    and "MarkFalsePositive now f = Inl ErrInvalidTransition" and "AcceptRisk now f = Inl ErrInvalidTransition"
    and "MarkOutOfScope now f = Inl ErrInvalidTransition" and "ApplyTransition now t f = Inl ErrInvalidTransition"
  using assms by (simp_all add: close.op_refused reopen.op_refused mark_fp.op_refused
      accept_risk.op_refused mark_oos.op_refused apply_transition.op_refused)

lemma duplicate_step:
  assumes "finding_step parse f g" and "CurrentState f = StateDuplicate"
  shows "CurrentState g = StateDuplicate"
  using assms(1)
  by (rule finding_stepE)
    (simp_all add: duplicate_refused [OF assms(2)] MarkDuplicate_def Let_def CurrentState_def)

section \<open>Properties\<close>

text \<open>
  C6: From the creation of a finding on, through any sequence of closing, reopening, marking and
  generic transitions and of duplicate marks by the deduplication, its flags agree: it is
  active exactly when none of the other states holds, at most one state flag besides that of
  a duplicate is set, it has a mitigation time exactly when it is mitigated, and it names an
  original exactly when it is a duplicate.
\<close>

theorem finding_flags_agree:
  assumes "NewFinding sha i now title sev t e p c cv cve = Inr f"
    and "(finding_step parse)\<^sup>*\<^sup>* f g"
  shows "finding_ok g"
  using assms(2)
  by (induction rule: rtranclp_induct) (use finding_ok_new [OF assms(1)] finding_ok_step in auto)

text \<open>
  A duplicate stays a duplicate: no sequence of operations takes it out of that state, and
  each of the guarded operations refuses it.
\<close>

theorem duplicate_is_final:
  assumes "CurrentState f = StateDuplicate" and "(finding_step parse)\<^sup>*\<^sup>* f g"
  shows "CurrentState g = StateDuplicate \<and> ApplyTransition now t g = Inl ErrInvalidTransition
    \<and> Close parse now by_id g = Inl ErrInvalidTransition \<and> Reopen now g = Inl ErrInvalidTransition"
proof -
  have "CurrentState g = StateDuplicate"
    using assms(2) by (induction rule: rtranclp_induct) (use assms(1) duplicate_step in auto)
  then show ?thesis by (simp add: duplicate_refused)
qed

text \<open>
  The generic dispatcher does what the state machine promises: it succeeds exactly for the
  transitions of the table, leads to the state asked for, and otherwise returns the error
  for an invalid transition and nothing else; asking twice for the same state fails.
\<close>

theorem ApplyTransition_follows_table:
  "case ApplyTransition now target f of
     Inl err \<Rightarrow> err = ErrInvalidTransition \<and> \<not> ValidTransitions (CurrentState f) target
   | Inr g \<Rightarrow> ValidTransitions (CurrentState f) target \<and> CurrentState g = target
       \<and> ApplyTransition now' target g = Inl ErrInvalidTransition"
proof -
  have "\<not> ValidTransitions target target" by (cases target) simp_all
  then show ?thesis
    using apply_transition.op_succeeds [of now target f] apply_transition.op_target [of now target f]
      apply_transition.op_error [of now target f] apply_transition.op_refused
    by (auto split: sum.splits)
qed


definition ex_finding :: finding where
  "ex_finding = (case NewFinding id ''f1'' 5 ''title'' ''High'' ''t'' ''e'' ''p'' ''lib'' ''1.0'' ''cve-1'' of
     Inr f \<Rightarrow> f | Inl _ \<Rightarrow> undefined)"

lemma ex_finding_new:
  "NewFinding id ''f1'' 5 ''title'' ''High'' ''t'' ''e'' ''p'' ''lib'' ''1.0'' ''cve-1'' = Inr ex_finding"
  by (simp add: ex_finding_def NewFinding_def trim_space_def uuid_nil_def Let_def is_space_def)

theorem finding_flags_agree_witness:
  "\<exists>g. Close Some 9 (Some ''u'') ex_finding = Inr g \<and> finding_ok g \<and> \<not> fi_active g"
proof -
  have "CurrentState ex_finding = StateActive"
    by (rule new_finding_active [OF ex_finding_new])
  then obtain g where g: "Close Some 9 (Some ''u'') ex_finding = Inr g"
    using close.op_allowed [of ex_finding Some 9 "Some ''u''"] by auto
  then have "(finding_step Some)\<^sup>*\<^sup>* ex_finding g" by (intro r_into_rtranclp step_close)
  from finding_flags_agree [OF ex_finding_new this] have "finding_ok g" .
  moreover have "\<not> fi_active g" using g by (auto simp: Close_def Let_def split: if_splits)
  ultimately show ?thesis using g by blast
qed

theorem duplicate_is_final_witness:
  "Reopen 3 (MarkDuplicate Some 2 (Some ''o'') ex_finding) = Inl ErrInvalidTransition"
proof -
  let ?d = "MarkDuplicate Some 2 (Some ''o'') ex_finding"
  have "CurrentState ?d = StateDuplicate" by (simp add: MarkDuplicate_def Let_def CurrentState_def)
  from duplicate_is_final [OF this rtranclp.rtrancl_refl, where now = 3 and parse = Some]
  show ?thesis by (simp add: duplicate_refused)
qed

end
