(* ===== verification/Dedup.thy ===== *)
theory Dedup
  imports FindingState
begin

text \<open>
  The deduplication of findings (\<open>services/finding-service/internal/usecase/dedup/service.go\<close>):
  one finding checked against the stored ones, and a batch of findings checked against the
  stored ones and each other. The look-ups in the store are parameters.
\<close>

section \<open>One finding\<close>

datatype dedup_scope = ScopeProduct | ScopeEngagement | ScopeGlobal | ScopeOther string

record dedup_repo =
  dr_product :: "string \<Rightarrow> uuid \<Rightarrow> string + finding option"
  dr_engagement :: "string \<Rightarrow> uuid \<Rightarrow> string + finding option"
  dr_global :: "string \<Rightarrow> string + finding option"

definition lookup_finding :: "dedup_repo \<Rightarrow> finding \<Rightarrow> dedup_scope \<Rightarrow> string + finding option" where
  "lookup_finding repo f scope =
     (case scope of
        ScopeEngagement \<Rightarrow> dr_engagement repo (fi_hash f) (fi_engagement f)
      | ScopeGlobal \<Rightarrow> dr_global repo (fi_hash f)
      | _ \<Rightarrow> dr_product repo (fi_hash f) (fi_product f))"

definition DedupScopeFor :: "bool \<Rightarrow> dedup_scope" where
  "DedupScopeFor onEngagement = (if onEngagement then ScopeEngagement else ScopeProduct)"

definition trueOriginal :: "finding \<Rightarrow> uuid" where
  "trueOriginal existing =
     (case fi_duplicate_of existing of None \<Rightarrow> fi_id existing | Some u \<Rightarrow> u)"

text \<open>The result \<open>Inr None\<close> is "not a duplicate"; the finding is returned as it is then.\<close>

definition CheckAndMark ::
  "(string \<Rightarrow> uuid option) \<Rightarrow> dedup_repo \<Rightarrow> dedup_scope \<Rightarrow> timestamp \<Rightarrow> finding
     \<Rightarrow> (string + uuid option) \<times> finding" where
  "CheckAndMark parse repo scope now f =
     (case lookup_finding repo f scope of
        Inl e \<Rightarrow> (Inl (''dedup lookup: '' @ e), f)
      | Inr None \<Rightarrow> (Inr None, f)
      | Inr (Some existing) \<Rightarrow>
          (Inr (Some (trueOriginal existing)),
           MarkDuplicate parse now (Some (trueOriginal existing)) f))"

section \<open>A batch\<close>

record dedup_stats =
  ds_total :: nat
  ds_new :: nat
  ds_duplicates :: nat

record dedup_state =
  dd_batch :: "string \<rightharpoonup> uuid"
  dd_stats :: dedup_stats
  dd_done :: "finding list"
  dd_tick :: nat

definition dedupOne ::
  "(string \<Rightarrow> uuid option) \<Rightarrow> dedup_repo \<Rightarrow> dedup_scope \<Rightarrow> (nat \<Rightarrow> timestamp) \<Rightarrow> finding
     \<Rightarrow> dedup_state \<Rightarrow> dedup_state" where
  "dedupOne parse repo scope clock f s =
     (let now = clock (dd_tick s);
          new = (\<lambda>s. s\<lparr>dd_stats := (dd_stats s)\<lparr>ds_new := Suc (ds_new (dd_stats s))\<rparr>\<rparr>);
          dup = (\<lambda>s. s\<lparr>dd_stats := (dd_stats s)\<lparr>ds_duplicates := Suc (ds_duplicates (dd_stats s))\<rparr>\<rparr>);
          done_with = (\<lambda>g s. s\<lparr>dd_done := dd_done s @ [g], dd_tick := Suc (dd_tick s)\<rparr>)
      in case dd_batch s (fi_hash f) of
           Some existingID \<Rightarrow> dup (done_with (MarkDuplicate parse now (Some existingID) f) s)
         | None \<Rightarrow>
             (case CheckAndMark parse repo scope now f of
                (Inl e, g) \<Rightarrow> new (done_with g s)
              | (Inr (Some orig), g) \<Rightarrow> dup (done_with g s)
              | (Inr None, g) \<Rightarrow>
                  new (done_with g (s\<lparr>dd_batch := (dd_batch s)(fi_hash f \<mapsto> fi_id f)\<rparr>))))"

definition ProcessBatch ::
  "(string \<Rightarrow> uuid option) \<Rightarrow> dedup_repo \<Rightarrow> dedup_scope \<Rightarrow> (nat \<Rightarrow> timestamp) \<Rightarrow> finding list
     \<Rightarrow> finding list \<times> dedup_stats" where
  "ProcessBatch parse repo scope clock findings =
     (let s = fold (dedupOne parse repo scope clock) findings
            \<lparr>dd_batch = Map.empty,
             dd_stats = \<lparr>ds_total = length findings, ds_new = 0, ds_duplicates = 0\<rparr>,
             dd_done = [], dd_tick = 0\<rparr>
      in (dd_done s, dd_stats s))"

section \<open>What the batch decides\<close>

text \<open>
  The original of a finding, given the findings before it in the batch: the first of them
  with its hash that the store did not know, or else what the store knows.
\<close>

definition batch_original ::
  "dedup_repo \<Rightarrow> dedup_scope \<Rightarrow> finding list \<Rightarrow> finding \<Rightarrow> uuid option" where
  "batch_original repo scope before f =
     (case find (\<lambda>g. fi_hash g = fi_hash f \<and> lookup_finding repo g scope = Inr None) before of
        Some g \<Rightarrow> Some (fi_id g)
      | None \<Rightarrow>
          (case lookup_finding repo f scope of
             Inr (Some e) \<Rightarrow> Some (trueOriginal e)
           | _ \<Rightarrow> None))"

definition batch_result ::
  "(string \<Rightarrow> uuid option) \<Rightarrow> dedup_repo \<Rightarrow> dedup_scope \<Rightarrow> (nat \<Rightarrow> timestamp) \<Rightarrow> finding list \<Rightarrow> nat \<Rightarrow> finding" where
  "batch_result parse repo scope clock fs i =
     (case batch_original repo scope (take i fs) (fs ! i) of
        None \<Rightarrow> fs ! i
      | Some orig \<Rightarrow> MarkDuplicate parse (clock i) (Some orig) (fs ! i))"

definition batch_dups :: "dedup_repo \<Rightarrow> dedup_scope \<Rightarrow> finding list \<Rightarrow> nat set" where
  "batch_dups repo scope fs = {i. i < length fs \<and> batch_original repo scope (take i fs) (fs ! i) \<noteq> None}"

lemma find_append: "find P (xs @ ys) = (case find P xs of Some x \<Rightarrow> Some x | None \<Rightarrow> find P ys)"
  by (induction xs) auto

lemma batch_dups_snoc:
  "batch_dups repo scope (fs @ [f]) = batch_dups repo scope fs
     \<union> (if batch_original repo scope fs f = None then {} else {length fs})"
  by (auto simp: batch_dups_def nth_append less_Suc_eq)

lemma batch_dups_finite [simp]: "finite (batch_dups repo scope fs)"
  by (simp add: batch_dups_def)

lemma dedup_fold:
  fixes n :: nat
  shows "fold (dedupOne parse repo scope clock) fs
      \<lparr>dd_batch = Map.empty, dd_stats = \<lparr>ds_total = n, ds_new = 0, ds_duplicates = 0\<rparr>,
       dd_done = [], dd_tick = 0\<rparr>
    = \<lparr>dd_batch = (\<lambda>h. map_option fi_id
         (find (\<lambda>g. fi_hash g = h \<and> lookup_finding repo g scope = Inr None) fs)),
       dd_stats = \<lparr>ds_total = n, ds_new = length fs - card (batch_dups repo scope fs),
         ds_duplicates = card (batch_dups repo scope fs)\<rparr>,
       dd_done = map (batch_result parse repo scope clock fs) [0..<length fs],
       dd_tick = length fs\<rparr>"
proof (induction fs rule: rev_induct)
  case Nil
  then show ?case by (simp add: batch_dups_def)
next
  case (snoc f fs)
  have results: "map (batch_result parse repo scope clock (fs @ [f])) [0..<length (fs @ [f])]
      = map (batch_result parse repo scope clock fs) [0..<length fs]
        @ [case batch_original repo scope fs f of None \<Rightarrow> f
           | Some orig \<Rightarrow> MarkDuplicate parse (clock (length fs)) (Some orig) f]"
    by (auto simp: batch_result_def nth_append split: option.splits)
  have "batch_dups repo scope fs \<subseteq> {..<length fs}" by (auto simp: batch_dups_def)
  then have card: "card (batch_dups repo scope fs) \<le> length fs"
    using card_mono [of "{..<length fs}" "batch_dups repo scope fs"] by simp
  have new: "length fs \<notin> batch_dups repo scope fs" by (simp add: batch_dups_def)
  let ?found = "find (\<lambda>g. fi_hash g = fi_hash f \<and> lookup_finding repo g scope = Inr None) fs"
  show ?case
  proof (cases ?found)
    case (Some g)
    then have "batch_original repo scope fs f = Some (fi_id g)" by (simp add: batch_original_def)
    with Some show ?thesis
      using new card unfolding fold_append comp_apply snoc.IH results
      by (auto simp: dedupOne_def Let_def batch_dups_snoc find_append fun_eq_iff split: option.splits)
  next
    case None
    show ?thesis
    proof (cases "lookup_finding repo f scope")
      case (Inl e)
      with None have "batch_original repo scope fs f = None" by (simp add: batch_original_def)
      with None Inl show ?thesis
        using card unfolding fold_append comp_apply snoc.IH results
        by (auto simp: dedupOne_def Let_def CheckAndMark_def batch_dups_snoc find_append fun_eq_iff
            Suc_diff_le split: option.splits)
    next
      case (Inr e)
      with None have o: "batch_original repo scope fs f = map_option trueOriginal e"
        by (simp add: batch_original_def split: option.splits)
      show ?thesis
        using None Inr new card unfolding fold_append comp_apply snoc.IH results
        by (cases e) (auto simp: o dedupOne_def Let_def CheckAndMark_def batch_dups_snoc find_append
            fun_eq_iff Suc_diff_le split: option.splits)
    qed
  qed
qed

section \<open>Properties\<close>

text \<open>
  A batch marks a finding as a duplicate exactly when an earlier finding of the batch that
  the store did not know has its hash, and then of the first such finding, or when the store
  knows its hash, and then of the original of the one stored; every other finding is left as
  it is, and the counts say how many of each there are.
\<close>

theorem ProcessBatch_marks:
  "ProcessBatch parse repo scope clock fs
    = (map (\<lambda>i. case batch_original repo scope (take i fs) (fs ! i) of
             None \<Rightarrow> fs ! i
           | Some orig \<Rightarrow> MarkDuplicate parse (clock i) (Some orig) (fs ! i)) [0..<length fs],
       \<lparr>ds_total = length fs,
        ds_new = length fs - card {i. i < length fs \<and> batch_original repo scope (take i fs) (fs ! i) \<noteq> None},
        ds_duplicates = card {i. i < length fs \<and> batch_original repo scope (take i fs) (fs ! i) \<noteq> None}\<rparr>)"
  using dedup_fold [of parse repo scope clock fs "length fs"]
  by (simp add: ProcessBatch_def Let_def batch_dups_def batch_result_def)

text \<open>
  Two findings of a batch with the same hash are both left unmarked only where the look-up
  of the earlier one failed.
\<close>

theorem ProcessBatch_one_per_hash:
  assumes "i < j" and "j < length fs" and "fi_hash (fs ! i) = fi_hash (fs ! j)"
    and "\<not> fi_duplicate (fst (ProcessBatch parse repo scope clock fs) ! i)"
    and "\<not> fi_duplicate (fst (ProcessBatch parse repo scope clock fs) ! j)"
  shows "\<exists>e. lookup_finding repo (fs ! i) scope = Inl e"
proof -
  have res: "fst (ProcessBatch parse repo scope clock fs) ! k = batch_result parse repo scope clock fs k"
    if "k < length fs" for k
    using that dedup_fold [of parse repo scope clock fs "length fs"] by (simp add: ProcessBatch_def Let_def)
  have none: "batch_original repo scope (take k fs) (fs ! k) = None"
    if "k < length fs" "\<not> fi_duplicate (batch_result parse repo scope clock fs k)" for k
    using that by (auto simp: batch_result_def MarkDuplicate_def Let_def split: option.splits)
  from assms none [of i] none [of j] res
  have i: "batch_original repo scope (take i fs) (fs ! i) = None"
    and j: "batch_original repo scope (take j fs) (fs ! j) = None" by simp_all
  have "fs ! i \<in> set (take j fs)" using assms(1,2) by (auto simp: in_set_conv_nth)
  moreover from j have "find (\<lambda>g. fi_hash g = fi_hash (fs ! j) \<and> lookup_finding repo g scope = Inr None) (take j fs) = None"
    by (simp add: batch_original_def split: option.splits)
  ultimately have "lookup_finding repo (fs ! i) scope \<noteq> Inr None"
    using assms(3) by (auto simp: find_None_iff)
  with i show ?thesis
    by (cases "lookup_finding repo (fs ! i) scope") (auto simp: batch_original_def split: option.splits)
qed

definition ex_dedup_finding :: "uuid \<Rightarrow> uuid \<Rightarrow> finding" where
  "ex_dedup_finding i p = \<lparr>fi_id = i, fi_title = ''t'', fi_severity = ''High'', fi_numerical = 3,
     fi_cve = [], fi_component = [], fi_component_version = [], fi_active = True,
     fi_false_positive = False, fi_duplicate = False, fi_out_of_scope = False,
     fi_mitigated = False, fi_risk_accepted = False, fi_date = 0, fi_mitigated_at = None,
     fi_mitigated_by = None, fi_last_status_update = None, fi_sla_expiration = None,
     fi_test = [], fi_engagement = [], fi_product = p, fi_duplicate_of = None, fi_hash = ''h'',
     fi_created = 0, fi_updated = 0\<rparr>"

definition ex_dedup_repo :: "string + finding option \<Rightarrow> dedup_repo" where
  "ex_dedup_repo r = \<lparr>dr_product = (\<lambda>_ _. r), dr_engagement = (\<lambda>_ _. r), dr_global = (\<lambda>_. r)\<rparr>"

theorem ProcessBatch_one_per_hash_witness:
  "\<exists>e. lookup_finding (ex_dedup_repo (Inl ''timeout'')) (ex_dedup_finding ''1'' ''p'') ScopeGlobal = Inl e"
proof -
  have "\<exists>e. lookup_finding (ex_dedup_repo (Inl ''timeout''))
      ([ex_dedup_finding ''1'' ''p'', ex_dedup_finding ''2'' ''p''] ! 0) ScopeGlobal = Inl e"
    by (rule ProcessBatch_one_per_hash [of 0 1 _ Some _ _ int])
      (simp_all add: ProcessBatch_def Let_def dedupOne_def CheckAndMark_def lookup_finding_def
        ex_dedup_repo_def ex_dedup_finding_def)
  then show ?thesis by simp
qed

text \<open>
  The check within a batch looks at the hash alone, not at the scope: in a batch for the
  scope of a product, a finding of another product with the same hash is marked a duplicate
  of the first one, although the store has neither.
\<close>

theorem ProcessBatch_ignores_scope:
  "map (\<lambda>f. (fi_product f, fi_duplicate_of f))
     (fst (ProcessBatch Some (ex_dedup_repo (Inr None)) ScopeProduct int
        [ex_dedup_finding ''1'' ''p'', ex_dedup_finding ''2'' ''q'']))
   = [(''p'', None), (''q'', Some ''1'')]"
  by (simp add: ProcessBatch_def Let_def dedupOne_def CheckAndMark_def lookup_finding_def
      ex_dedup_repo_def ex_dedup_finding_def MarkDuplicate_def mustParseUUID_def)

end
