(* ===== verification/Sla.thy ===== *)
theory Sla
  imports FindingState
begin

text \<open>
  The deadlines of findings: the configuration and the service of
  \<open>services/finding-service/internal/domain/sla\<close> and the use cases of
  \<open>services/finding-service/internal/usecase/sla/sla_use_cases.go\<close>. Dates are in UTC, where a
  calendar day is 24 hours.
\<close>

section \<open>Configuration\<close>

record sla_config =
  sc_critical :: int
  sc_high :: int
  sc_medium :: int
  sc_low :: int

definition DefaultSLADays :: "string \<rightharpoonup> int" where
  "DefaultSLADays = map_of [(''Critical'', 7), (''High'', 30), (''Medium'', 90), (''Low'', 180), (''Info'', 0)]"

definition daysForSeverity :: "sla_config \<Rightarrow> string \<Rightarrow> int" where
  "daysForSeverity c severity =
     (if severity = ''Critical'' then sc_critical c
      else if severity = ''High'' then sc_high c
      else if severity = ''Medium'' then sc_medium c
      else if severity = ''Low'' then sc_low c else 0)"

definition ComputeExpirationDate :: "sla_config \<Rightarrow> string \<Rightarrow> timestamp \<Rightarrow> timestamp option" where
  "ComputeExpirationDate c severity findingDate =
     (let days = daysForSeverity c severity in
      if days = 0 then None else Some (findingDate + days * day))"

definition go_lookup :: "(string \<rightharpoonup> int) \<Rightarrow> string \<Rightarrow> int" where
  "go_lookup m k = (case m k of None \<Rightarrow> 0 | Some v \<Rightarrow> v)"

definition NewDefault :: sla_config where
  "NewDefault = \<lparr>sc_critical = go_lookup DefaultSLADays ''Critical'', sc_high = go_lookup DefaultSLADays ''High'',
     sc_medium = go_lookup DefaultSLADays ''Medium'', sc_low = go_lookup DefaultSLADays ''Low''\<rparr>"

section \<open>The service\<close>

text \<open>\<open>None\<close>: nothing is stored; otherwise the finding with its deadline, and what the store says.\<close>

definition SetDeadline ::
  "(finding \<Rightarrow> string option) \<Rightarrow> timestamp \<Rightarrow> finding \<Rightarrow> finding \<times> string option" where
  "SetDeadline store now f =
     (case DefaultSLADays (fi_severity f) of
        None \<Rightarrow> (f, None)
      | Some days \<Rightarrow>
          let f' = f\<lparr>fi_sla_expiration := Some (fi_date f + days * day), fi_updated := now\<rparr>
          in (f', store f'))"

datatype sla_event =
    Breached uuid int
  | ExpiringSoon uuid int

fun breachLoop :: "timestamp \<Rightarrow> finding list \<Rightarrow> sla_event list" where
  "breachLoop now [] = []"
| "breachLoop now (f # fs) =
     (case fi_sla_expiration f of
        None \<Rightarrow> breachLoop now fs
      | Some t \<Rightarrow>
          if now < t then breachLoop now fs
          else Breached (fi_id f) (whole_days (now - t)) # breachLoop now fs)"

definition CheckBreaches :: "timestamp \<Rightarrow> string + finding list \<Rightarrow> (string + nat) \<times> sla_event list" where
  "CheckBreaches now overdue =
     (case overdue of
        Inl e \<Rightarrow> (Inl (''find overdue findings: '' @ e), [])
      | Inr fs \<Rightarrow> (Inr (length (breachLoop now fs)), breachLoop now fs))"

record sla_summary =
  ss_total :: nat
  ss_breached :: nat
  ss_due7 :: nat
  ss_due30 :: nat
  ss_none :: nat

definition summarizeOne :: "timestamp \<Rightarrow> finding \<Rightarrow> sla_summary \<Rightarrow> sla_summary" where
  "summarizeOne now f s =
     (case fi_sla_expiration f of
        None \<Rightarrow> s\<lparr>ss_none := Suc (ss_none s)\<rparr>
      | Some t \<Rightarrow>
          let days = whole_days (t - now) in
          if days < 0 then s\<lparr>ss_breached := Suc (ss_breached s)\<rparr>
          else if days \<le> 7 then s\<lparr>ss_due7 := Suc (ss_due7 s)\<rparr>
          else if days \<le> 30 then s\<lparr>ss_due30 := Suc (ss_due30 s)\<rparr>
          else s)"

definition Summarize :: "timestamp \<Rightarrow> finding list \<Rightarrow> sla_summary" where
  "Summarize now fs =
     fold (summarizeOne now) fs
       \<lparr>ss_total = length fs, ss_breached = 0, ss_due7 = 0, ss_due30 = 0, ss_none = 0\<rparr>"

section \<open>The use cases\<close>

text \<open>The configuration of the product, else the global one, else the default.\<close>

definition slaConfigFor :: "(uuid \<Rightarrow> string + sla_config) \<Rightarrow> string + sla_config \<Rightarrow> uuid \<Rightarrow> sla_config" where
  "slaConfigFor findByProduct findGlobal productID =
     (case findByProduct productID of
        Inr c \<Rightarrow> c
      | Inl _ \<Rightarrow> (case findGlobal of Inr c \<Rightarrow> c | Inl _ \<Rightarrow> NewDefault))"

record listed_finding =
  lf_id :: uuid
  lf_product :: uuid
  lf_severity :: string
  lf_date :: timestamp
  lf_sla_expiration :: "timestamp option"

definition slaUpdates :: "sla_config \<Rightarrow> listed_finding list \<Rightarrow> (uuid \<times> timestamp) list" where
  "slaUpdates cfg fs =
     concat (map (\<lambda>f. case ComputeExpirationDate cfg (lf_severity f) (lf_date f) of
                        None \<Rightarrow> [] | Some t \<Rightarrow> [(lf_id f, t)]) fs)"

text \<open>The result pairs the updates pushed, if any were, with the error.\<close>

definition ComputeSLA ::
  "(string \<Rightarrow> uuid option) \<Rightarrow> (uuid \<Rightarrow> string + sla_config) \<Rightarrow> string + sla_config
     \<Rightarrow> (string list \<Rightarrow> string + listed_finding list) \<Rightarrow> ((uuid \<times> timestamp) list \<Rightarrow> string option)
     \<Rightarrow> string \<Rightarrow> string list \<Rightarrow> (uuid \<times> timestamp) list \<times> string option" where
  "ComputeSLA parse findByProduct findGlobal listFindings push payloadProduct findingIDs =
     (case parse payloadProduct of
        None \<Rightarrow> ([], Some ''invalid product_id'')
      | Some productID \<Rightarrow>
          let cfg = slaConfigFor findByProduct findGlobal productID in
          (case listFindings findingIDs of
             Inl e \<Rightarrow> ([], Some (''list_findings_for_sla_check: '' @ e))
           | Inr fs \<Rightarrow>
               let updates = slaUpdates cfg fs
               in if updates = [] then ([], None) else (updates, push updates)))"

fun hourlyLoop :: "timestamp \<Rightarrow> listed_finding list \<Rightarrow> sla_event list" where
  "hourlyLoop now [] = []"
| "hourlyLoop now (f # fs) =
     (case lf_sla_expiration f of
        None \<Rightarrow> hourlyLoop now fs
      | Some t \<Rightarrow>
          if t < now then Breached (lf_id f) (whole_days (now - t)) # hourlyLoop now fs
          else if t < now + 7 * day then ExpiringSoon (lf_id f) (whole_days (t - now)) # hourlyLoop now fs
          else hourlyLoop now fs)"

definition CheckBreachesHourly :: "timestamp \<Rightarrow> string + listed_finding list \<Rightarrow> string option \<times> sla_event list" where
  "CheckBreachesHourly now listed =
     (case listed of
        Inl e \<Rightarrow> (Some (''check_breaches: list findings: '' @ e), [])
      | Inr fs \<Rightarrow> (None, hourlyLoop now fs))"

section \<open>Whole days\<close>

lemma day_pos [simp]: "0 < day"
  by (simp add: day_def)

lemma whole_days_nonneg: "0 \<le> d \<Longrightarrow> whole_days d = d div day"
  by (cases "d = 0") (simp_all add: whole_days_def sgn_if)

lemma whole_days_neg: "d < 0 \<Longrightarrow> whole_days d = - (- d div day)"
  by (simp add: whole_days_def)

lemma div_day_le: "d div day \<le> n \<longleftrightarrow> d < (n + 1) * day"
proof -
  have d: "d = d div day * day + d mod day" by simp
  have m: "0 \<le> d mod day" "d mod day < day" by simp_all
  show ?thesis
  proof
    assume "d div day \<le> n"
    then have "d div day * day \<le> n * day" by (intro mult_right_mono) (simp_all add: less_imp_le)
    moreover have "(n + 1) * day = n * day + day" by (simp add: distrib_right)
    ultimately show "d < (n + 1) * day" using d m by linarith
  next
    assume lt: "d < (n + 1) * day"
    show "d div day \<le> n"
    proof (rule ccontr)
      assume "\<not> d div day \<le> n"
      then have "(n + 1) * day \<le> d div day * day" by (intro mult_right_mono) (simp_all add: less_imp_le)
      with d m lt show False by linarith
    qed
  qed
qed

lemma whole_days_lt_0: "whole_days d < 0 \<longleftrightarrow> d \<le> - day"
proof (cases "0 \<le> d")
  case True
  then show ?thesis
    using day_pos pos_imp_zdiv_nonneg_iff [OF day_pos, of d] unfolding whole_days_nonneg [OF True] by linarith
next
  case False
  then have "whole_days d < 0 \<longleftrightarrow> 0 < - d div day" by (simp add: whole_days_neg)
  also have "\<dots> \<longleftrightarrow> day \<le> - d" using pos_imp_zdiv_pos_iff [OF day_pos] by blast
  finally show ?thesis by auto
qed

lemma whole_days_le: "0 \<le> n \<Longrightarrow> whole_days d \<le> n \<longleftrightarrow> d < (n + 1) * day"
proof (cases "0 \<le> d")
  case True
  then show ?thesis
    by (simp add: whole_days_nonneg div_day_le)
next
  case False
  assume "0 \<le> n"
  moreover from this have "0 < (n + 1) * day" by (intro mult_pos_pos) simp_all
  moreover have "whole_days d \<le> 0"
    using False pos_imp_zdiv_nonneg_iff [OF day_pos, of "- d"] by (simp add: whole_days_neg)
  ultimately show ?thesis using False by linarith
qed

lemma hourlyLoop_concat:
  "hourlyLoop now fs = concat (map (\<lambda>f. hourlyLoop now [f]) fs)"
  by (induction fs) (auto split: option.splits)

lemma breachLoop_filter:
  "length (breachLoop now fs) = length (filter (\<lambda>f. \<exists>t. fi_sla_expiration f = Some t \<and> t \<le> now) fs)"
  by (induction fs) (auto split: option.splits)

lemma summarize_fold:
  "fold (summarizeOne now) fs s =
     \<lparr>ss_total = ss_total s,
      ss_breached = ss_breached s + length (filter (\<lambda>f. \<exists>t. fi_sla_expiration f = Some t \<and> t \<le> now - day) fs),
      ss_due7 = ss_due7 s + length (filter (\<lambda>f. \<exists>t. fi_sla_expiration f = Some t
        \<and> now - day < t \<and> t < now + 8 * day) fs),
      ss_due30 = ss_due30 s + length (filter (\<lambda>f. \<exists>t. fi_sla_expiration f = Some t
        \<and> now + 8 * day \<le> t \<and> t < now + 31 * day) fs),
      ss_none = ss_none s + length (filter (\<lambda>f. fi_sla_expiration f = None) fs)\<rparr>"
proof (induction fs arbitrary: s)
  case (Cons f fs)
  have "0 < 8 * day" "8 * day < 31 * day" by (simp_all add: day_def)
  with Cons show ?case
    using whole_days_le [of 7] whole_days_le [of 30]
    by (auto simp: summarizeOne_def Let_def whole_days_lt_0 split: option.splits)
qed simp

section \<open>Properties\<close>

text \<open>
  The deadlines computed for a batch come from the configuration of the product, or else
  the global one, or else the default: each finding whose severity has a number of days gets
  its date plus that many days, and the others no deadline at all.
\<close>

theorem ComputeSLA_deadlines:
  assumes "parse payload = Some p" and "listFindings ids = Inr fs"
  shows "fst (ComputeSLA parse byProduct findGlobal listFindings push payload ids)
    = map (\<lambda>f. (lf_id f, lf_date f + daysForSeverity (slaConfigFor byProduct findGlobal p) (lf_severity f) * day))
        (filter (\<lambda>f. daysForSeverity (slaConfigFor byProduct findGlobal p) (lf_severity f) \<noteq> 0) fs)"
proof -
  have "slaUpdates cfg fs = map (\<lambda>f. (lf_id f, lf_date f + daysForSeverity cfg (lf_severity f) * day))
        (filter (\<lambda>f. daysForSeverity cfg (lf_severity f) \<noteq> 0) fs)" for cfg
    unfolding slaUpdates_def by (induction fs) (auto simp: ComputeExpirationDate_def Let_def)
  with assms show ?thesis by (auto simp: ComputeSLA_def Let_def)
qed

theorem ComputeSLA_deadlines_witness:
  "fst (ComputeSLA Some (\<lambda>_. Inl ''none'') (Inl ''none'')
      (\<lambda>_. Inr [\<lparr>lf_id = ''f'', lf_product = ''p'', lf_severity = ''Critical'', lf_date = 1, lf_sla_expiration = None\<rparr>,
        \<lparr>lf_id = ''g'', lf_product = ''p'', lf_severity = ''Info'', lf_date = 1, lf_sla_expiration = None\<rparr>])
      (\<lambda>_. None) ''p'' [''f'', ''g''])
    = [(''f'', 1 + 7 * day)]"
  using ComputeSLA_deadlines [of Some "''p''" "''p''"
      "\<lambda>_. Inr [\<lparr>lf_id = ''f'', lf_product = ''p'', lf_severity = ''Critical'', lf_date = 1, lf_sla_expiration = None\<rparr>,
        \<lparr>lf_id = ''g'', lf_product = ''p'', lf_severity = ''Info'', lf_date = 1, lf_sla_expiration = None\<rparr>]"
      "[''f'', ''g'']" _ "\<lambda>_. Inl ''none''" "Inl ''none''" "\<lambda>_. None"]
  by (simp add: slaConfigFor_def NewDefault_def daysForSeverity_def go_lookup_def DefaultSLADays_def)

text \<open>
  The summary counts by whole days, which are rounded towards zero: a finding counts as
  breached only when it is overdue by a full day, one overdue by less counts as due within
  seven days, and "within seven days" reaches to the end of the eighth day.
\<close>

theorem Summarize_counts:
  "Summarize now fs =
     \<lparr>ss_total = length fs,
      ss_breached = length (filter (\<lambda>f. \<exists>t. fi_sla_expiration f = Some t \<and> t \<le> now - day) fs),
      ss_due7 = length (filter (\<lambda>f. \<exists>t. fi_sla_expiration f = Some t \<and> now - day < t \<and> t < now + 8 * day) fs),
      ss_due30 = length (filter (\<lambda>f. \<exists>t. fi_sla_expiration f = Some t
        \<and> now + 8 * day \<le> t \<and> t < now + 31 * day) fs),
      ss_none = length (filter (\<lambda>f. fi_sla_expiration f = None) fs)\<rparr>"
  by (simp add: Summarize_def summarize_fold)

text \<open>
  The service gives a finding of severity Info a deadline at its own date, so that it is
  breached as soon as it exists, where the configuration gives such a finding no deadline.
\<close>

theorem SetDeadline_info_breached:
  assumes "fi_severity f = ''Info''" and "fi_active f" and "fi_date f < now"
  shows "IsSLABreached now (fst (SetDeadline store t f))
    \<and> ComputeExpirationDate cfg (fi_severity f) (fi_date f) = None"
  using assms
  by (simp add: SetDeadline_def DefaultSLADays_def Let_def IsSLABreached_def
      ComputeExpirationDate_def daysForSeverity_def)

theorem SetDeadline_info_breached_witness:
  "IsSLABreached 1 (fst (SetDeadline (\<lambda>_. None) 0 (ex_finding\<lparr>fi_severity := ''Info'', fi_active := True, fi_date := 0\<rparr>)))"
  using SetDeadline_info_breached [of "ex_finding\<lparr>fi_severity := ''Info'', fi_active := True, fi_date := 0\<rparr>" 1] by simp

text \<open>
  The hourly check reports each finding at most once: as breached when its deadline has
  passed, as expiring soon when it passes within seven days, and not otherwise.
\<close>

theorem CheckBreachesHourly_events:
  "CheckBreachesHourly now (Inr fs) = (None, concat (map (\<lambda>f.
     case lf_sla_expiration f of
       None \<Rightarrow> []
     | Some t \<Rightarrow> if t < now then [Breached (lf_id f) ((now - t) div day)]
         else if t < now + 7 * day then [ExpiringSoon (lf_id f) ((t - now) div day)] else []) fs))"
proof -
  have "hourlyLoop now [f] = (case lf_sla_expiration f of
       None \<Rightarrow> []
     | Some t \<Rightarrow> if t < now then [Breached (lf_id f) ((now - t) div day)]
         else if t < now + 7 * day then [ExpiringSoon (lf_id f) ((t - now) div day)] else [])" for f
    by (auto simp: whole_days_nonneg split: option.splits)
  then show ?thesis
    by (simp add: CheckBreachesHourly_def hourlyLoop_concat [of now fs])
qed

end
