(* ===== verification/Members.thy ===== *)
theory Members
  imports FindingState
begin

text \<open>
  Who may do what in a product: roles and their permissions
  (\<open>services/finding-service/internal/domain/member/entity.go\<close>, \<open>usecase/member/member_usecase.go\<close>)
  over the tables of the Postgres repositories (\<open>infra/postgres/member_repo.go\<close>). The database
  is a state; every statement sent to it has a number, and a parameter \<open>down\<close> tells which
  statements fail. The clock is read at the number of the statement that follows.
\<close>

section \<open>Roles\<close>

datatype role = RoleOwner | RoleMaintainer | RoleWriter | RoleAPIImporter | RoleReader | RoleOther string

definition RoleOrder :: "role \<Rightarrow> nat" where
  "RoleOrder r =
     (case r of RoleOwner \<Rightarrow> 5 | RoleMaintainer \<Rightarrow> 4 | RoleWriter \<Rightarrow> 3 | RoleAPIImporter \<Rightarrow> 2
      | RoleReader \<Rightarrow> 1 | RoleOther _ \<Rightarrow> 0)"

definition CanManageFindings :: "role \<Rightarrow> bool" where
  "CanManageFindings r \<longleftrightarrow> RoleOrder r \<ge> RoleOrder RoleAPIImporter"

definition CanManageProduct :: "role \<Rightarrow> bool" where
  "CanManageProduct r \<longleftrightarrow> RoleOrder r \<ge> RoleOrder RoleMaintainer"

definition role_IsValid :: "role \<Rightarrow> bool" where
  "role_IsValid r = (case r of RoleOther _ \<Rightarrow> False | _ \<Rightarrow> True)"

record product_member =
  pm_id :: uuid
  pm_product :: uuid
  pm_user :: uuid
  pm_role :: role
  pm_created :: timestamp

definition newMember :: "uuid \<Rightarrow> timestamp \<Rightarrow> uuid \<Rightarrow> uuid \<Rightarrow> role \<Rightarrow> product_member" where
  "newMember fresh now productID userID r =
     \<lparr>pm_id = fresh, pm_product = productID, pm_user = userID, pm_role = r, pm_created = now\<rparr>"

definition rolePermissions :: "role \<Rightarrow> string list" where
  "rolePermissions r =
     (case r of
        RoleOwner \<Rightarrow>
          [''product:view'', ''product:add'', ''product:change'', ''product:delete'',
           ''finding:view'', ''finding:add'', ''finding:change'', ''finding:delete'',
           ''scan:import'', ''member:add'', ''member:remove'', ''audit:view'']
      | RoleMaintainer \<Rightarrow>
          [''product:view'', ''product:change'',
           ''finding:view'', ''finding:add'', ''finding:change'', ''finding:delete'',
           ''scan:import'', ''member:add'', ''audit:view'']
      | RoleWriter \<Rightarrow>
          [''product:view'', ''finding:view'', ''finding:add'', ''finding:change'', ''scan:import'']
      | RoleAPIImporter \<Rightarrow> [''product:view'', ''finding:add'', ''scan:import'']
      | RoleReader \<Rightarrow> [''product:view'', ''finding:view'']
      | RoleOther _ \<Rightarrow> [])"

section \<open>The database\<close>

record risk_acceptance =
  ra_id :: uuid
  ra_name :: string
  ra_product :: uuid
  ra_accepted_by :: uuid
  ra_expiration :: "timestamp option"
  ra_notes :: string
  ra_proof_file :: string
  ra_reactivate :: bool
  ra_reactivate_note :: string
  ra_restart_sla :: bool
  ra_expired :: bool
  ra_findings :: "uuid list"
  ra_created :: timestamp
  ra_updated :: timestamp

datatype ra_event =
    RaCreated uuid uuid nat "timestamp option"
  | RaExpired uuid uuid "uuid list" bool

record pg =
  finding_rows :: "uuid \<rightharpoonup> finding"
  acceptance_rows :: "(uuid \<times> risk_acceptance) list"
  acceptance_links :: "(uuid \<times> uuid) list"
  member_rows :: "uuid \<times> uuid \<rightharpoonup> product_member"
  published :: "ra_event list"
  statements :: nat

datatype pg_error = StatementFailed | NoRows

type_synonym outage = "nat \<Rightarrow> bool"

definition pg_query :: "outage \<Rightarrow> (pg \<Rightarrow> 'a option) \<Rightarrow> pg \<Rightarrow> pg \<times> (pg_error + 'a)" where
  "pg_query down q s =
     (s\<lparr>statements := Suc (statements s)\<rparr>,
      if down (statements s) then Inl StatementFailed
      else (case q s of None \<Rightarrow> Inl NoRows | Some x \<Rightarrow> Inr x))"

definition pg_exec :: "outage \<Rightarrow> (pg \<Rightarrow> pg) \<Rightarrow> pg \<Rightarrow> pg \<times> pg_error option" where
  "pg_exec down upd s =
     (if down (statements s) then (s\<lparr>statements := Suc (statements s)\<rparr>, Some StatementFailed)
      else ((upd s)\<lparr>statements := Suc (statements s)\<rparr>, None))"

section \<open>Members\<close>

definition MemberSave :: "outage \<Rightarrow> product_member \<Rightarrow> pg \<Rightarrow> pg \<times> pg_error option" where
  "MemberSave down m =
     pg_exec down (\<lambda>s.
       let k = (pm_product m, pm_user m) in
       s\<lparr>member_rows := (member_rows s)(k \<mapsto>
           (case member_rows s k of None \<Rightarrow> m | Some old \<Rightarrow> old\<lparr>pm_role := pm_role m\<rparr>))\<rparr>)"

definition FindByProductAndUser :: "outage \<Rightarrow> uuid \<Rightarrow> uuid \<Rightarrow> pg \<Rightarrow> pg \<times> (pg_error + product_member)" where
  "FindByProductAndUser down productID userID = pg_query down (\<lambda>s. member_rows s (productID, userID))"

definition MemberDelete :: "outage \<Rightarrow> uuid \<Rightarrow> uuid \<Rightarrow> pg \<Rightarrow> pg \<times> pg_error option" where
  "MemberDelete down productID userID =
     pg_exec down (\<lambda>s. s\<lparr>member_rows := (member_rows s)((productID, userID) := None)\<rparr>)"

text \<open>\<open>GetRole\<close> answers nil for every failure: its error is always nil.\<close>

definition GetRole :: "outage \<Rightarrow> uuid \<Rightarrow> uuid \<Rightarrow> pg \<Rightarrow> pg \<times> role option" where
  "GetRole down productID userID s =
     (case pg_query down (\<lambda>s. map_option pm_role (member_rows s (productID, userID))) s of
        (s', Inl _) \<Rightarrow> (s', None)
      | (s', Inr r) \<Rightarrow> (s', Some r))"

datatype member_error = ErrNotOwner | ErrMemberExists | ErrInvalidRole | MemberStore pg_error

definition AddProductMember ::
  "outage \<Rightarrow> (nat \<Rightarrow> timestamp) \<Rightarrow> uuid \<Rightarrow> uuid \<Rightarrow> uuid \<Rightarrow> uuid \<Rightarrow> role \<Rightarrow> pg
     \<Rightarrow> pg \<times> (member_error + product_member)" where
  "AddProductMember down clock fresh requester productID userID r s =
     (if \<not> role_IsValid r then (s, Inl ErrInvalidRole)
      else
        (case GetRole down productID requester s of
           (s1, None) \<Rightarrow> (s1, Inl ErrNotOwner)
         | (s1, Some requesterRole) \<Rightarrow>
             if requesterRole \<noteq> RoleOwner \<and> requesterRole \<noteq> RoleMaintainer
             then (s1, Inl ErrNotOwner)
             else
               (case FindByProductAndUser down productID userID s1 of
                  (s2, Inr existing) \<Rightarrow> (s2, Inl ErrMemberExists)
                | (s2, Inl _) \<Rightarrow>
                    let m = newMember fresh (clock (statements s2)) productID userID r in
                    (case MemberSave down m s2 of
                       (s3, Some err) \<Rightarrow> (s3, Inl (MemberStore err))
                     | (s3, None) \<Rightarrow> (s3, Inr m)))))"

definition RemoveProductMember ::
  "outage \<Rightarrow> uuid \<Rightarrow> uuid \<Rightarrow> uuid \<Rightarrow> pg \<Rightarrow> pg \<times> member_error option" where
  "RemoveProductMember down requester productID userID s =
     (case GetRole down productID requester s of
        (s1, None) \<Rightarrow> (s1, Some ErrNotOwner)
      | (s1, Some r) \<Rightarrow>
          if r \<noteq> RoleOwner then (s1, Some ErrNotOwner)
          else
            (case MemberDelete down productID userID s1 of
               (s2, Some err) \<Rightarrow> (s2, Some (MemberStore err))
             | (s2, None) \<Rightarrow> (s2, None)))"

definition CheckProductPermission :: "outage \<Rightarrow> uuid \<Rightarrow> uuid \<Rightarrow> string \<Rightarrow> pg \<Rightarrow> pg \<times> bool" where
  "CheckProductPermission down userID productID permission s =
     (case GetRole down productID userID s of
        (s1, None) \<Rightarrow> (s1, False)
      | (s1, Some r) \<Rightarrow> (s1, permission \<in> set (rolePermissions r)))"

section \<open>Who changes the members of a product\<close>

definition manages :: "pg \<Rightarrow> uuid \<Rightarrow> uuid \<Rightarrow> bool" where
  "manages s p u \<longleftrightarrow>
     (\<exists>m. member_rows s (p, u) = Some m \<and> pm_role m \<in> {RoleOwner, RoleMaintainer})"

lemma pg_query_rows [simp]:
  "member_rows (fst (pg_query down q s)) = member_rows s"
  "finding_rows (fst (pg_query down q s)) = finding_rows s"
  "acceptance_rows (fst (pg_query down q s)) = acceptance_rows s"
  "acceptance_links (fst (pg_query down q s)) = acceptance_links s"
  "published (fst (pg_query down q s)) = published s"
  by (simp_all add: pg_query_def)

lemma pg_query_eq:
  "pg_query down q s = (t, r) \<Longrightarrow> member_rows t = member_rows s"
  by (auto simp: pg_query_def)

lemma GetRole_rows [simp]: "member_rows (fst (GetRole down p u s)) = member_rows s"
  by (auto simp: GetRole_def pg_query_def split: prod.splits sum.splits)

lemma GetRole_eq: "GetRole down p u s = (t, r) \<Longrightarrow> member_rows t = member_rows s"
  using GetRole_rows [of down p u s] by simp

lemma GetRole_role:
  "snd (GetRole down p u s) = Some r \<Longrightarrow> \<exists>m. member_rows s (p, u) = Some m \<and> pm_role m = r"
  by (auto simp: GetRole_def pg_query_def split: prod.splits sum.splits option.splits if_splits)

lemma MemberSave_other:
  "k \<noteq> (pm_product m, pm_user m) \<Longrightarrow> member_rows (fst (MemberSave down m s)) k = member_rows s k"
  by (auto simp: MemberSave_def pg_exec_def Let_def split: option.splits)

lemma MemberDelete_other:
  "k \<noteq> (p, u) \<Longrightarrow> member_rows (fst (MemberDelete down p u s)) k = member_rows s k"
  by (auto simp: MemberDelete_def pg_exec_def)

text \<open>The membership of one user after the two operations, and the permission check.\<close>

lemma AddProductMember_rows:
  "member_rows (fst (AddProductMember down clock i req p u r s)) k = member_rows s k"
  if "k \<noteq> (p, u) \<or> \<not> manages s p req"
proof (cases "GetRole down p req s")
  case G: (Pair s1 ro)
  have m1: "member_rows s1 = member_rows s" using GetRole_rows [of down p req s] G by simp
  show ?thesis
  proof (cases "\<exists>x. ro = Some x \<and> (x = RoleOwner \<or> x = RoleMaintainer) \<and> role_IsValid r")
    case False
    then show ?thesis using G m1 by (auto simp: AddProductMember_def split: option.splits)
  next
    case True
    then obtain x where x: "ro = Some x" "x = RoleOwner \<or> x = RoleMaintainer" "role_IsValid r" by auto
    have "manages s p req" using GetRole_role [of down p req s x] G x by (auto simp: manages_def)
    with that have k: "k \<noteq> (p, u)" by simp
    obtain s2 e where F: "FindByProductAndUser down p u s1 = (s2, e)" by force
    have m2: "member_rows s2 = member_rows s"
      using F pg_query_eq [of down _ s1 s2 e] m1 by (metis FindByProductAndUser_def)
    let ?m = "newMember i (clock (statements s2)) p u r"
    have "member_rows (fst (MemberSave down ?m s2)) k = member_rows s k"
      using MemberSave_other [of k ?m down s2] k m2 by (simp add: newMember_def)
    then show ?thesis using G x F m2
      by (cases e) (auto simp: AddProductMember_def Let_def split: prod.splits option.splits)
  qed
qed

lemma RemoveProductMember_rows:
  "member_rows (fst (RemoveProductMember down req p u s)) k = member_rows s k"
  if "k \<noteq> (p, u) \<or> \<not> manages s p req"
proof (cases "GetRole down p req s")
  case G: (Pair s1 ro)
  have m1: "member_rows s1 = member_rows s" using GetRole_rows [of down p req s] G by simp
  show ?thesis
  proof (cases "ro = Some RoleOwner")
    case False
    then show ?thesis using G m1 by (auto simp: RemoveProductMember_def split: option.splits)
  next
    case True
    then have "manages s p req" using GetRole_role [of down p req s RoleOwner] G by (auto simp: manages_def)
    with that have "member_rows (fst (MemberDelete down p u s1)) k = member_rows s k"
      using MemberDelete_other [of k p u down s1] m1 by simp
    then show ?thesis using G True
      by (auto simp: RemoveProductMember_def split: prod.splits option.splits)
  qed
qed

lemma CheckProductPermission_rows:
  "member_rows (fst (CheckProductPermission down u p perm s)) = member_rows s"
  by (auto simp: CheckProductPermission_def GetRole_eq split: prod.splits option.splits)

text \<open>The requests that reach the members of products, in any order.\<close>

inductive member_step :: "pg \<Rightarrow> pg \<Rightarrow> bool" where
  step_add: "member_step s (fst (AddProductMember down clock i req p u r s))"
| step_remove: "member_step s (fst (RemoveProductMember down req p u s))"
| step_check: "member_step s (fst (CheckProductPermission down u p perm s))"

lemma member_step_unmanaged:
  assumes "member_step s t" and "\<forall>u. \<not> manages s p u"
  shows "member_rows t (p, v) = member_rows s (p, v)"
  using assms(1)
proof cases
  case (step_add down clock i req q u r)
  then show ?thesis using AddProductMember_rows [of "(p, v)" q u s req down clock i r] assms(2) by auto
next
  case (step_remove down req q u)
  then show ?thesis using RemoveProductMember_rows [of "(p, v)" q u s req down] assms(2) by auto
qed (simp add: CheckProductPermission_rows)

text \<open>
  Once a product has neither an owner nor a maintainer (a lone owner can remove himself),
  no sequence of membership requests, by anyone and whatever statements fail on the way,
  changes its members again: every change needs a requester that manages that very product.
\<close>

theorem members_locked:
  assumes "member_step\<^sup>*\<^sup>* s t" and "\<forall>u. \<not> manages s p u"
  shows "\<forall>v. member_rows t (p, v) = member_rows s (p, v)"
  using assms(1)
proof (induction rule: rtranclp_induct)
  case base
  then show ?case by simp
next
  case (step t1 t2)
  have "\<forall>u. \<not> manages t1 p u" using step.IH assms(2) by (simp add: manages_def)
  then show ?case using member_step_unmanaged [OF step.hyps(2)] step.IH by simp
qed

definition ex_pg :: pg where
  "ex_pg = \<lparr>finding_rows = (\<lambda>_. None), acceptance_rows = [], acceptance_links = [],
     member_rows = [(''p'', ''o'') \<mapsto> newMember ''1'' 0 ''p'' ''o'' RoleOwner,
                    (''p'', ''m'') \<mapsto> newMember ''2'' 0 ''p'' ''m'' RoleMaintainer,
                    (''q'', ''r'') \<mapsto> newMember ''3'' 0 ''q'' ''r'' RoleReader],
     published = [], statements = 0\<rparr>"

theorem members_locked_witness:
  "\<forall>v. member_rows (fst (AddProductMember (\<lambda>_. False) (\<lambda>_. 0) ''4'' ''o'' ''q'' ''o'' RoleReader ex_pg))
      (''q'', v) = member_rows ex_pg (''q'', v)"
  by (rule members_locked)
    (auto intro: r_into_rtranclp step_add simp: manages_def ex_pg_def newMember_def split: if_splits)

text \<open>
  A maintainer who adds a user that already is a member is refused, unless the lookup of that
  membership fails for another reason (its error is ignored): then the insertion, which updates on
  conflict, gives the existing member, the owner too, the role the maintainer chose.
\<close>

theorem AddProductMember_overwrites:
  assumes "member_rows s (p, req) = Some m" and "pm_role m = RoleMaintainer"
    and "member_rows s (p, u) = Some old" and "role_IsValid r"
    and "\<not> down (statements s)" and "\<not> down (statements s + 2)"
  shows "case AddProductMember down clock i req p u r s of
      (t, Inl e) \<Rightarrow> e = ErrMemberExists \<and> \<not> down (statements s + 1) \<and> member_rows t = member_rows s
    | (t, Inr new) \<Rightarrow> down (statements s + 1)
        \<and> member_rows t = (member_rows s)((p, u) \<mapsto> old\<lparr>pm_role := r\<rparr>)"
  using assms
  by (simp add: AddProductMember_def GetRole_def FindByProductAndUser_def MemberSave_def
      pg_query_def pg_exec_def newMember_def Let_def)

theorem AddProductMember_overwrites_witness:
  "member_rows (fst (AddProductMember (\<lambda>n. n = 1) (\<lambda>_. 0) ''4'' ''m'' ''p'' ''o'' RoleReader ex_pg))
      (''p'', ''o'') = Some (newMember ''1'' 0 ''p'' ''o'' RoleReader)"
  using AddProductMember_overwrites [of ex_pg "''p''" "''m''" "newMember ''2'' 0 ''p'' ''m'' RoleMaintainer"
      "''o''" "newMember ''1'' 0 ''p'' ''o'' RoleOwner" RoleReader "\<lambda>n. n = 1" "\<lambda>_. 0" "''4''"]
  by (auto simp: ex_pg_def newMember_def role_IsValid_def split: sum.splits)

text \<open>The order of the roles is not the order of what they may do.\<close>

lemma permissions_by_order:
  "RoleOrder a \<le> RoleOrder b \<Longrightarrow>
     set (rolePermissions a) \<subseteq> set (rolePermissions b) \<or> a = RoleReader \<and> b = RoleAPIImporter"
  by (cases a; cases b) (simp_all add: RoleOrder_def rolePermissions_def)

end
