(* ===== verification/RiskAcceptance.thy ===== *)
theory RiskAcceptance
  imports Members "HOL-Library.AList"
begin

text \<open>
  Risk acceptances: the record, the Postgres repositories of acceptances and of findings
  (\<open>infra/postgres/risk_acceptance_repo.go\<close>, \<open>FindByID\<close> and \<open>Save\<close> of
  \<open>infra/postgres/finding_repo.go\<close>) and the use cases that create, expire and shrink an
  acceptance (\<open>usecase/riskacceptance/risk_acceptance.go\<close>), over the state machine of a finding.
  The tables are those of \<open>Members\<close>; the row of a finding holds the fields of the record
  \<open>finding\<close>.
\<close>

section \<open>The repository of findings\<close>

text \<open>\<open>FindByID\<close> does not select the time of the last change of status nor the original of a duplicate.\<close>

definition loadedFinding :: "uuid \<Rightarrow> finding \<Rightarrow> finding" where
  "loadedFinding fid row = row\<lparr>fi_id := fid, fi_last_status_update := None, fi_duplicate_of := None\<rparr>"

definition FindingFindByID :: "outage \<Rightarrow> uuid \<Rightarrow> pg \<Rightarrow> pg \<times> (pg_error + finding)" where
  "FindingFindByID down fid = pg_query down (\<lambda>s. map_option (loadedFinding fid) (finding_rows s fid))"

definition updatedRow :: "timestamp \<Rightarrow> finding \<Rightarrow> finding \<Rightarrow> finding" where
  "updatedRow now f row =
     row\<lparr>fi_active := fi_active f, fi_false_positive := fi_false_positive f,
         fi_duplicate := fi_duplicate f, fi_out_of_scope := fi_out_of_scope f,
         fi_mitigated := fi_mitigated f, fi_risk_accepted := fi_risk_accepted f,
         fi_mitigated_at := fi_mitigated_at f, fi_mitigated_by := fi_mitigated_by f,
         fi_last_status_update := Some now, fi_sla_expiration := fi_sla_expiration f,
         fi_updated := now\<rparr>"

definition FindingSave :: "outage \<Rightarrow> (nat \<Rightarrow> timestamp) \<Rightarrow> finding \<Rightarrow> pg \<Rightarrow> pg \<times> pg_error option" where
  "FindingSave down clock f s =
     pg_exec down (\<lambda>s. s\<lparr>finding_rows := (finding_rows s)(fi_id f :=
        map_option (updatedRow (clock (statements s)) f) (finding_rows s (fi_id f)))\<rparr>) s"

section \<open>The repository of acceptances\<close>

definition newAcceptance :: "uuid \<Rightarrow> timestamp \<Rightarrow> uuid \<Rightarrow> uuid \<Rightarrow> string \<Rightarrow> risk_acceptance" where
  "newAcceptance fresh now productID acceptedByID name =
     \<lparr>ra_id = fresh, ra_name = name, ra_product = productID, ra_accepted_by = acceptedByID,
      ra_expiration = None, ra_notes = [], ra_proof_file = [], ra_reactivate = False,
      ra_reactivate_note = [], ra_restart_sla = False, ra_expired = False, ra_findings = [],
      ra_created = now, ra_updated = now\<rparr>"

definition ra_IsActive :: "timestamp \<Rightarrow> risk_acceptance \<Rightarrow> bool" where
  "ra_IsActive now ra \<longleftrightarrow>
     \<not> ra_expired ra \<and> (case ra_expiration ra of None \<Rightarrow> True | Some t \<Rightarrow> now < t)"

text \<open>An insertion of a row that exists updates the columns the statement lists.\<close>

definition upsertAcceptance :: "risk_acceptance \<Rightarrow> pg \<Rightarrow> pg" where
  "upsertAcceptance ra s =
     (let row = (case map_of (acceptance_rows s) (ra_id ra) of
          None \<Rightarrow> ra\<lparr>ra_findings := []\<rparr>
        | Some old \<Rightarrow> ra\<lparr>ra_findings := [], ra_product := ra_product old,
            ra_accepted_by := ra_accepted_by old, ra_created := ra_created old\<rparr>)
      in s\<lparr>acceptance_rows := AList.update (ra_id ra) row (acceptance_rows s)\<rparr>)"

definition linkFinding :: "uuid \<Rightarrow> uuid \<Rightarrow> pg \<Rightarrow> pg" where
  "linkFinding raID fid s =
     (if (raID, fid) \<in> set (acceptance_links s) then s
      else s\<lparr>acceptance_links := acceptance_links s @ [(raID, fid)]\<rparr>)"

definition AddFinding :: "outage \<Rightarrow> uuid \<Rightarrow> uuid \<Rightarrow> pg \<Rightarrow> pg \<times> pg_error option" where
  "AddFinding down raID fid = pg_exec down (linkFinding raID fid)"

definition RemoveFinding :: "outage \<Rightarrow> uuid \<Rightarrow> uuid \<Rightarrow> pg \<Rightarrow> pg \<times> pg_error option" where
  "RemoveFinding down raID fid =
     pg_exec down (\<lambda>s. s\<lparr>acceptance_links := filter (\<lambda>l. l \<noteq> (raID, fid)) (acceptance_links s)\<rparr>)"

definition AcceptanceSave ::
  "outage \<Rightarrow> (nat \<Rightarrow> timestamp) \<Rightarrow> uuid \<Rightarrow> risk_acceptance \<Rightarrow> pg \<Rightarrow> pg \<times> (pg_error + risk_acceptance)" where
  "AcceptanceSave down clock fresh ra s =
     (let ra1 = (if ra_id ra = uuid_nil then ra\<lparr>ra_id := fresh\<rparr> else ra);
          ra2 = ra1\<lparr>ra_updated := clock (statements s)\<rparr>
      in (case pg_exec down (upsertAcceptance ra2) s of
            (s1, Some err) \<Rightarrow> (s1, Inl err)
          | (s1, None) \<Rightarrow>
              (fold (\<lambda>fid s. fst (AddFinding down (ra_id ra2) fid s)) (ra_findings ra2) s1, Inr ra2)))"

definition loadFindingIDs :: "outage \<Rightarrow> uuid \<Rightarrow> pg \<Rightarrow> pg \<times> uuid list" where
  "loadFindingIDs down raID s =
     (case pg_query down (\<lambda>s. Some (map snd (filter (\<lambda>l. fst l = raID) (acceptance_links s)))) s of
        (s', Inl _) \<Rightarrow> (s', [])
      | (s', Inr ids) \<Rightarrow> (s', ids))"

definition AcceptanceFindByID :: "outage \<Rightarrow> uuid \<Rightarrow> pg \<Rightarrow> pg \<times> (pg_error + risk_acceptance)" where
  "AcceptanceFindByID down raID s =
     (case pg_query down (\<lambda>s. map_of (acceptance_rows s) raID) s of
        (s1, Inl err) \<Rightarrow> (s1, Inl err)
      | (s1, Inr ra) \<Rightarrow>
          (case loadFindingIDs down raID s1 of (s2, ids) \<Rightarrow> (s2, Inr (ra\<lparr>ra_findings := ids\<rparr>))))"

text \<open>What \<open>scanRA\<close> fills: everything but the findings, which are no column.\<close>

definition scanRA :: "risk_acceptance \<Rightarrow> risk_acceptance" where
  "scanRA row = row\<lparr>ra_findings := []\<rparr>"

definition ListExpiring :: "outage \<Rightarrow> timestamp \<Rightarrow> pg \<Rightarrow> pg \<times> (pg_error + risk_acceptance list)" where
  "ListExpiring down before =
     pg_query down (\<lambda>s. Some (map scanRA (filter (\<lambda>ra.
        (case ra_expiration ra of None \<Rightarrow> False | Some t \<Rightarrow> t \<le> before) \<and> \<not> ra_expired ra)
        (map snd (acceptance_rows s)))))"

definition MarkExpired :: "outage \<Rightarrow> (nat \<Rightarrow> timestamp) \<Rightarrow> uuid \<Rightarrow> pg \<Rightarrow> pg \<times> pg_error option" where
  "MarkExpired down clock raID =
     pg_exec down (\<lambda>s. s\<lparr>acceptance_rows := map (\<lambda>(k, ra).
        (k, if k = raID then ra\<lparr>ra_expired := True, ra_updated := clock (statements s)\<rparr> else ra))
        (acceptance_rows s)\<rparr>)"

section \<open>The use cases\<close>

datatype ra_error = RaNotOwner | RaNotFound | RaStore pg_error

record ra_input =
  in_name :: string
  in_product :: uuid
  in_requester :: uuid
  in_findings :: "uuid list"
  in_expiration :: "timestamp option"
  in_notes :: string
  in_proof_file :: string
  in_reactivate :: bool
  in_reactivate_note :: string
  in_restart_sla :: bool

definition publish :: "ra_event \<Rightarrow> pg \<Rightarrow> pg" where
  "publish e s = s\<lparr>published := published s @ [e]\<rparr>"

definition acceptOne :: "outage \<Rightarrow> (nat \<Rightarrow> timestamp) \<Rightarrow> uuid \<Rightarrow> uuid \<Rightarrow> pg \<Rightarrow> pg" where
  "acceptOne down clock raID fid s =
     (case FindingFindByID down fid s of
        (s1, Inl _) \<Rightarrow> s1
      | (s1, Inr f) \<Rightarrow>
          (case AcceptRisk (clock (statements s1)) f of
             Inl _ \<Rightarrow> s1
           | Inr g \<Rightarrow> fst (AddFinding down raID fid (fst (FindingSave down clock g s1)))))"

text \<open>\<open>pub\<close> tells whether there is a publisher: without one the creation skips the event.\<close>

definition CreateRiskAcceptance ::
  "outage \<Rightarrow> (nat \<Rightarrow> timestamp) \<Rightarrow> bool \<Rightarrow> uuid \<Rightarrow> uuid \<Rightarrow> ra_input \<Rightarrow> pg \<Rightarrow> pg \<times> (ra_error + risk_acceptance)" where
  "CreateRiskAcceptance down clock pub fresh fresh' req s =
     (case GetRole down (in_product req) (in_requester req) s of
        (s1, None) \<Rightarrow> (s1, Inl RaNotOwner)
      | (s1, Some r) \<Rightarrow>
          if r \<noteq> RoleOwner \<and> r \<noteq> RoleMaintainer then (s1, Inl RaNotOwner)
          else
            let ra = (newAcceptance fresh (clock (statements s1)) (in_product req) (in_requester req) (in_name req))
                  \<lparr>ra_expiration := in_expiration req, ra_notes := in_notes req,
                   ra_proof_file := in_proof_file req, ra_reactivate := in_reactivate req,
                   ra_reactivate_note := in_reactivate_note req,
                   ra_restart_sla := in_restart_sla req, ra_findings := in_findings req\<rparr>
            in (case AcceptanceSave down clock fresh' ra s1 of
                  (s2, Inl err) \<Rightarrow> (s2, Inl (RaStore err))
                | (s2, Inr ra') \<Rightarrow>
                    let s3 = fold (acceptOne down clock (ra_id ra')) (in_findings req) s2
                    in ((if pub then publish (RaCreated (ra_id ra') (in_product req)
                           (length (in_findings req)) (in_expiration req)) s3 else s3), Inr ra')))"

definition reopenOne :: "outage \<Rightarrow> (nat \<Rightarrow> timestamp) \<Rightarrow> uuid \<Rightarrow> pg \<Rightarrow> pg" where
  "reopenOne down clock fid s =
     (case FindingFindByID down fid s of
        (s1, Inl _) \<Rightarrow> s1
      | (s1, Inr f) \<Rightarrow>
          (case Reopen (clock (statements s1)) f of
             Inl _ \<Rightarrow> s1
           | Inr g \<Rightarrow> fst (FindingSave down clock g s1)))"

text \<open>The event of an expiry is sent without a check that there is a publisher.\<close>

definition expireOne ::
  "outage \<Rightarrow> (nat \<Rightarrow> timestamp) \<Rightarrow> bool \<Rightarrow> risk_acceptance \<Rightarrow> pg \<Rightarrow> pg \<times> go_error option" where
  "expireOne down clock pub ra s =
     (case MarkExpired down clock (ra_id ra) s of
        (s1, Some _) \<Rightarrow> (s1, None)
      | (s1, None) \<Rightarrow>
          if \<not> pub then (s1, Some (GoPanic ''nil pointer dereference''))
          else
            let s2 = publish (RaExpired (ra_id ra) (ra_product ra) (ra_findings ra) (ra_reactivate ra)) s1
            in if \<not> ra_reactivate ra then (s2, None)
               else (fold (reopenOne down clock) (ra_findings ra) s2, None))"

definition ExpireRiskAcceptances ::
  "outage \<Rightarrow> (nat \<Rightarrow> timestamp) \<Rightarrow> bool \<Rightarrow> pg \<Rightarrow> pg \<times> go_error option" where
  "ExpireRiskAcceptances down clock pub s =
     (let today = clock (statements s) div day * day in
      (case ListExpiring down today s of
         (s1, Inl _) \<Rightarrow> (s1, Some (GoErr ''risk_acceptance_repo: list_expiring''))
       | (s1, Inr expiring) \<Rightarrow> for_each (expireOne down clock pub) expiring s1))"

text \<open>
  The error of \<open>Reopen\<close> is ignored, and the finding saved as it was loaded, or reopened.
\<close>

definition RemoveFindingFromRA ::
  "outage \<Rightarrow> (nat \<Rightarrow> timestamp) \<Rightarrow> uuid \<Rightarrow> uuid \<Rightarrow> uuid \<Rightarrow> pg \<Rightarrow> pg \<times> ra_error option" where
  "RemoveFindingFromRA down clock raID fid requester s =
     (case AcceptanceFindByID down raID s of
        (s1, Inl _) \<Rightarrow> (s1, Some RaNotFound)
      | (s1, Inr ra) \<Rightarrow>
          (case GetRole down (ra_product ra) requester s1 of
             (s2, None) \<Rightarrow> (s2, Some RaNotOwner)
           | (s2, Some r) \<Rightarrow>
               if r \<noteq> RoleOwner \<and> r \<noteq> RoleMaintainer then (s2, Some RaNotOwner)
               else
                 (case RemoveFinding down raID fid s2 of
                    (s3, Some err) \<Rightarrow> (s3, Some (RaStore err))
                  | (s3, None) \<Rightarrow>
                      (case FindingFindByID down fid s3 of
                         (s4, Inl _) \<Rightarrow> (s4, None)
                       | (s4, Inr f) \<Rightarrow>
                           let g = (case Reopen (clock (statements s4)) f of Inl _ \<Rightarrow> f | Inr g \<Rightarrow> g)
                           in (fst (FindingSave down clock g s4), None)))))"

section \<open>A store of records under a guarded transition\<close>

text \<open>
  What the use cases rely on: a record that is found is the one the store shows under its
  identity, a record that is saved shows the same state afterwards or the store shows what it
  showed before, and while the store is up both succeed.
\<close>

locale record_store =
  fixes view :: "'db \<Rightarrow> 'i \<Rightarrow> 'x option"
    and ident :: "'x \<Rightarrow> 'i"
    and state :: "'x \<Rightarrow> 's"
    and up :: "'db \<Rightarrow> bool"
    and find :: "'i \<Rightarrow> 'db \<Rightarrow> 'db \<times> ('f + 'x)"
    and save :: "'x \<Rightarrow> 'db \<Rightarrow> 'db \<times> 'f option"
  assumes find_view: "view (fst (find i db)) = view db"
    and find_reads: "snd (find i db) = Inr x \<Longrightarrow> view db i = Some x \<and> ident x = i"
    and find_up: "up db \<Longrightarrow> view db i = Some x \<Longrightarrow> snd (find i db) = Inr x"
    and save_other: "j \<noteq> ident x \<Longrightarrow> view (fst (save x db)) j = view db j"
    and save_writes: "view (fst (save x db)) (ident x) = view db (ident x)
       \<or> (\<exists>y. view (fst (save x db)) (ident x) = Some y \<and> state y = state x)"
    and save_up: "up db \<Longrightarrow> view db (ident x) = Some x0 \<Longrightarrow>
       \<exists>y. view (fst (save x db)) (ident x) = Some y \<and> state y = state x"

locale stored_transition =
  record_store view ident state up find save
  + guarded_transition state allowed invalid op target
  for view :: "'db \<Rightarrow> 'i \<Rightarrow> 'x option" and ident :: "'x \<Rightarrow> 'i" and state :: "'x \<Rightarrow> 's"
    and up :: "'db \<Rightarrow> bool" and find :: "'i \<Rightarrow> 'db \<Rightarrow> 'db \<times> ('f + 'x)"
    and save :: "'x \<Rightarrow> 'db \<Rightarrow> 'db \<times> 'f option"
    and allowed :: "'s \<Rightarrow> 's \<Rightarrow> bool" and invalid :: 'e and op :: "'x \<Rightarrow> 'e + 'x" and target :: 's
  + assumes op_ident: "op x = Inr y \<Longrightarrow> ident y = ident x"
    and target_stays: "\<not> allowed target target"
begin

text \<open>What one visit may do to the record it visits, and what a loop over identities may.\<close>

definition moved :: "'i set \<Rightarrow> 'db \<Rightarrow> 'db \<Rightarrow> bool" where
  "moved I db db' \<longleftrightarrow> (\<forall>j. view db' j = view db j
     \<or> j \<in> I \<and> (\<exists>x y. view db j = Some x \<and> allowed (state x) target
                   \<and> view db' j = Some y \<and> state y = target))"

lemma moved_same: "view db' = view db \<Longrightarrow> moved I db db'"
  by (simp add: moved_def)

lemma moved_saved:
  assumes "snd (find i db) = Inr x" and "view db' = view db" and "op x = Inr y"
  shows "moved {i} db (fst (save y db'))"
proof -
  have x: "view db i = Some x" "ident y = i" using find_reads [OF assms(1)] op_ident [OF assms(3)] by auto
  have a: "allowed (state x) target" "state y = target"
    using op_succeeds [of x] op_target [OF assms(3)] assms(3) by auto
  show ?thesis
    unfolding moved_def
  proof
    fix j
    show "view (fst (save y db')) j = view db j \<or> j \<in> {i} \<and> (\<exists>x z. view db j = Some x
        \<and> allowed (state x) target \<and> view (fst (save y db')) j = Some z \<and> state z = target)"
      using x a save_other [of j y db'] save_writes [of y db'] assms(2) by (cases "j = i") auto
  qed
qed

lemma moved_trans: "moved I db1 db2 \<Longrightarrow> moved J db2 db3 \<Longrightarrow> moved (I \<union> J) db1 db3"
  using target_stays unfolding moved_def by (smt (verit) UnI1 UnI2 option.inject)

lemma moved_fold:
  assumes "\<And>i db. moved {i} db (step i db)"
  shows "moved (set xs) db (fold step xs db)"
proof (induction xs arbitrary: db)
  case Nil
  then show ?case by (simp add: moved_def)
next
  case (Cons i xs)
  from moved_trans [OF assms [of i db] Cons.IH [of "step i db"]] show ?case by simp
qed

text \<open>While the store stays up, every record that is visited and may move does.\<close>

definition arrived :: "'i \<Rightarrow> 'db \<Rightarrow> 'db \<Rightarrow> bool" where
  "arrived i db db' \<longleftrightarrow> (\<forall>x. view db i = Some x \<longrightarrow> allowed (state x) target \<longrightarrow>
     (\<exists>y. view db' i = Some y \<and> state y = target))"

lemma arrived_saved:
  assumes "snd (find i db) = Inr x" and "view db' = view db" and "op x = Inr y" and "up db'"
  shows "arrived i db (fst (save y db'))"
  using find_reads [OF assms(1)] op_ident [OF assms(3)] op_target [OF assms(3)]
    save_up [OF assms(4), of y x] assms(2) by (auto simp: arrived_def)

lemma arrived_refused:
  "snd (find i db) = Inr x \<Longrightarrow> op x = Inl e \<Longrightarrow> arrived i db db'"
  using find_reads [of i db x] op_succeeds [of x] by (auto simp: arrived_def)

lemma arrived_not_found: "up db \<Longrightarrow> snd (find i db) = Inl e \<Longrightarrow> arrived i db db'"
  using find_up [of db i] by (fastforce simp: arrived_def)

lemma arrived_fold:
  assumes m: "\<And>i db. moved {i} db (step i db)" and u: "\<And>db. ready db \<Longrightarrow> up db"
    and k: "\<And>i db. ready db \<Longrightarrow> ready (step i db)"
    and a: "\<And>i db. ready db \<Longrightarrow> arrived i db (step i db)"
    and s: "ready db" and i: "i \<in> set xs"
  shows "arrived i db (fold step xs db)"
  using s i
proof (induction xs arbitrary: db)
  case (Cons j xs)
  let ?d = "step j db"
  have later: "moved (set xs) ?d (fold step xs ?d)" by (rule moved_fold [OF m])
  show ?case
  proof (cases "i = j")
    case True
    then show ?thesis using a [OF Cons.prems(1), of j] later target_stays
      unfolding arrived_def moved_def by (metis fold_simps(2) option.inject)
  next
    case False
    then have "arrived i ?d (fold step xs ?d)" using Cons k by auto
    moreover have "view ?d i = view db i" using m [of j db] False by (auto simp: moved_def)
    ultimately show ?thesis by (simp add: arrived_def)
  qed
qed simp

text \<open>Both together: the state of every record after the loop.\<close>

lemma moved_arrived:
  assumes "moved I db db'" and "i \<in> I \<Longrightarrow> arrived i db db'"
  shows "map_option state (view db' i)
    = (if i \<in> I \<and> (\<exists>x. view db i = Some x \<and> allowed (state x) target) then Some target
       else map_option state (view db i))"
proof -
  from assms(1) have "view db' i = view db i \<or> i \<in> I \<and> (\<exists>x y. view db i = Some x
      \<and> allowed (state x) target \<and> view db' i = Some y \<and> state y = target)"
    by (simp add: moved_def)
  moreover have "\<exists>y. view db' i = Some y \<and> state y = target"
    if "i \<in> I" "view db i = Some x" "allowed (state x) target" for x
    using assms(2) that by (simp add: arrived_def)
  ultimately show ?thesis by auto
qed

end

section \<open>The repository of findings as such a store\<close>

definition shown :: "pg \<Rightarrow> uuid \<Rightarrow> finding option" where
  "shown s i = map_option (loadedFinding i) (finding_rows s i)"

lemma shown_cong: "finding_rows s = finding_rows t \<Longrightarrow> shown s = shown t"
  by (simp add: shown_def fun_eq_iff)

lemma updatedRow_shown:
  "CurrentState (loadedFinding i (updatedRow now f row)) = CurrentState f"
  by (simp add: loadedFinding_def updatedRow_def CurrentState_def)

lemma FindingSave_down: "down (statements s) \<Longrightarrow> shown (fst (FindingSave down clock f s)) = shown s"
  by (simp add: FindingSave_def pg_exec_def shown_def fun_eq_iff)

lemma FindingSave_up:
  "\<not> down (statements s) \<Longrightarrow> shown (fst (FindingSave down clock f s))
    = (shown s)(fi_id f := map_option (\<lambda>row. loadedFinding (fi_id f) (updatedRow (clock (statements s)) f row))
        (finding_rows s (fi_id f)))"
  by (auto simp: FindingSave_def pg_exec_def shown_def fun_eq_iff option.map_comp comp_def)

lemma findings_laws:
  "shown (fst (FindingFindByID down i s)) = shown s"
  "snd (FindingFindByID down i s) = Inr f \<Longrightarrow> shown s i = Some f \<and> fi_id f = i"
  "\<not> down (statements s) \<Longrightarrow> shown s i = Some f \<Longrightarrow> snd (FindingFindByID down i s) = Inr f"
  "j \<noteq> fi_id f \<Longrightarrow> shown (fst (FindingSave down clock f s)) j = shown s j"
  "shown (fst (FindingSave down clock f s)) (fi_id f) = shown s (fi_id f)
    \<or> (\<exists>g. shown (fst (FindingSave down clock f s)) (fi_id f) = Some g \<and> CurrentState g = CurrentState f)"
  "\<not> down (statements s) \<Longrightarrow> shown s (fi_id f) = Some f0 \<Longrightarrow>
    \<exists>g. shown (fst (FindingSave down clock f s)) (fi_id f) = Some g \<and> CurrentState g = CurrentState f"
proof -
  show "shown (fst (FindingFindByID down i s)) = shown s"
    by (rule shown_cong) (simp add: FindingFindByID_def)
  show "shown s i = Some f \<and> fi_id f = i" if "snd (FindingFindByID down i s) = Inr f"
    using that by (auto simp: FindingFindByID_def pg_query_def shown_def loadedFinding_def
        split: if_splits option.splits)
  show "snd (FindingFindByID down i s) = Inr f" if "\<not> down (statements s)" "shown s i = Some f"
    using that by (auto simp: FindingFindByID_def pg_query_def shown_def)
  show "shown (fst (FindingSave down clock f s)) j = shown s j" if "j \<noteq> fi_id f"
    using that by (cases "down (statements s)") (simp_all add: FindingSave_down FindingSave_up)
  show *: "\<exists>g. shown (fst (FindingSave down clock f s)) (fi_id f) = Some g \<and> CurrentState g = CurrentState f"
    if "\<not> down (statements s)" "shown s (fi_id f) = Some f0" for f0
    using that by (auto simp: FindingSave_up updatedRow_shown) (auto simp: shown_def updatedRow_shown)
  show "shown (fst (FindingSave down clock f s)) (fi_id f) = shown s (fi_id f)
    \<or> (\<exists>g. shown (fst (FindingSave down clock f s)) (fi_id f) = Some g \<and> CurrentState g = CurrentState f)"
  proof (cases "down (statements s)")
    case False
    then show ?thesis using *
      by (cases "shown s (fi_id f)") (auto simp: FindingSave_up shown_def)
  qed (simp add: FindingSave_down)
qed

interpretation finding_store: record_store shown fi_id CurrentState "\<lambda>s. \<not> down (statements s)"
  "FindingFindByID down" "FindingSave down clock" for down clock
  by (unfold_locales; (fact findings_laws | rule findings_laws; assumption | simp add: findings_laws))

interpretation accepting: stored_transition shown fi_id CurrentState "\<lambda>s. \<not> down (statements s)"
  "FindingFindByID down" "FindingSave down clock" ValidTransitions ErrInvalidTransition
  "AcceptRisk now" StateRiskAccepted for down clock now
  by unfold_locales (auto simp: AcceptRisk_def split: if_splits)

interpretation reopening: stored_transition shown fi_id CurrentState "\<lambda>s. \<not> down (statements s)"
  "FindingFindByID down" "FindingSave down clock" ValidTransitions ErrInvalidTransition
  "Reopen now" StateActive for down clock now
  by unfold_locales (auto simp: Reopen_def split: if_splits)

lemma AddFinding_shown [simp]: "shown (fst (AddFinding down r f s)) = shown s"
  by (rule shown_cong) (simp add: AddFinding_def linkFinding_def pg_exec_def)

text \<open>One round of the two loops, in terms of the store.\<close>

lemma acceptOne_cases:
  obtains (missing) s1 e where "FindingFindByID down fid s = (s1, Inl e)"
      "acceptOne down clock raID fid s = s1"
  | (refused) s1 f e where "FindingFindByID down fid s = (s1, Inr f)"
      "AcceptRisk (clock (statements s1)) f = Inl e" "acceptOne down clock raID fid s = s1"
  | (saved) s1 f g where "FindingFindByID down fid s = (s1, Inr f)"
      "AcceptRisk (clock (statements s1)) f = Inr g"
      "acceptOne down clock raID fid s = fst (AddFinding down raID fid (fst (FindingSave down clock g s1)))"
proof -
  obtain s1 r where F: "FindingFindByID down fid s = (s1, r)" by force
  show thesis
  proof (cases r)
    case (Inl e)
    with F show thesis by (intro missing) (simp_all add: acceptOne_def)
  next
    case (Inr f)
    with F refused saved show thesis
      by (cases "AcceptRisk (clock (statements s1)) f") (simp_all add: acceptOne_def)
  qed
qed

lemma find_shown: "FindingFindByID down fid s = (s1, r) \<Longrightarrow> shown s1 = shown s"
  using findings_laws(1) [of down fid s] by simp

lemma acceptOne_moved: "accepting.moved {fid} s (acceptOne down clock raID fid s)"
proof (cases rule: acceptOne_cases [of down fid s clock raID])
  case (saved s1 f g)
  have "accepting.moved {fid} s (fst (FindingSave down clock g s1))"
    using accepting.moved_saved [OF _ find_shown [OF saved(1)] saved(2)] saved(1) by (metis snd_conv)
  then show ?thesis using saved(3) by (simp add: accepting.moved_def)
qed (auto intro!: accepting.moved_same dest: find_shown)

lemma acceptOne_arrived:
  assumes "\<forall>n. \<not> down n"
  shows "accepting.arrived fid s (acceptOne down clock raID fid s)"
proof (cases rule: acceptOne_cases [of down fid s clock raID])
  case (missing s1 e)
  then show ?thesis using accepting.arrived_not_found [where down = down] assms by (metis snd_conv)
next
  case (refused s1 f e)
  then show ?thesis using accepting.arrived_refused [where down = down] by (metis snd_conv)
next
  case (saved s1 f g)
  have "accepting.arrived fid s (fst (FindingSave down clock g s1))"
    using accepting.arrived_saved [OF _ find_shown [OF saved(1)] saved(2)] saved(1) assms by (metis snd_conv)
  then show ?thesis using saved(3) by (simp add: accepting.arrived_def)
qed

section \<open>The use cases, whole\<close>

text \<open>The status the store shows for a finding.\<close>

definition status_of :: "pg \<Rightarrow> uuid \<Rightarrow> finding_state option" where
  "status_of s i = map_option CurrentState (shown s i)"

lemma GetRole_other [simp]:
  "finding_rows (fst (GetRole down p u s)) = finding_rows s"
  "acceptance_rows (fst (GetRole down p u s)) = acceptance_rows s"
  "acceptance_links (fst (GetRole down p u s)) = acceptance_links s"
  by (auto simp: GetRole_def pg_query_def split: prod.splits sum.splits)

lemma GetRole_up:
  "\<forall>n. \<not> down n \<Longrightarrow> snd (GetRole down p u s) = map_option pm_role (member_rows s (p, u))"
  by (auto simp: GetRole_def pg_query_def split: option.splits)

lemma pg_exec_up: "\<forall>n. \<not> down n \<Longrightarrow> pg_exec down upd s = ((upd s)\<lparr>statements := Suc (statements s)\<rparr>, None)"
  by (simp add: pg_exec_def)

lemma link_all:
  assumes "\<forall>n. \<not> down n"
  shows "set (acceptance_links (fold (\<lambda>fid s. fst (AddFinding down r fid s)) fids s))
    = set (acceptance_links s) \<union> {r} \<times> set fids"
proof (induction fids arbitrary: s)
  case (Cons fid fids)
  have "set (acceptance_links (fst (AddFinding down r fid s))) = insert (r, fid) (set (acceptance_links s))"
    using assms by (auto simp: AddFinding_def pg_exec_up linkFinding_def)
  then show ?case by (auto simp: Cons.IH)
qed simp

lemma link_all_shown:
  "shown (fold (\<lambda>fid s. fst (AddFinding down r fid s)) fids s) = shown s"
  by (induction fids arbitrary: s) simp_all

lemma AcceptanceSave_up:
  assumes "\<forall>n. \<not> down n" and "AcceptanceSave down clock fresh ra s = (t, res)"
  shows "\<exists>ra'. res = Inr ra' \<and> shown t = shown s
    \<and> set (acceptance_links t) = set (acceptance_links s) \<union> {ra_id ra'} \<times> set (ra_findings ra)"
proof -
  have u: "shown ((upsertAcceptance x s)\<lparr>statements := n\<rparr>) = shown s"
    "acceptance_links (upsertAcceptance x s) = acceptance_links s" for x n
    by (simp_all add: upsertAcceptance_def Let_def shown_def fun_eq_iff)
  show ?thesis
    using assms(2) u by (auto simp: AcceptanceSave_def Let_def pg_exec_up [OF assms(1)]
        link_all [OF assms(1)] link_all_shown)
qed

lemma acceptOne_links:
  "set (acceptance_links s) \<subseteq> set (acceptance_links (acceptOne down clock r fid s))"
proof -
  have a: "acceptance_links (fst (FindingFindByID down fid s)) = acceptance_links s" for s
    by (simp add: FindingFindByID_def)
  have b: "acceptance_links (fst (FindingSave down clock f s)) = acceptance_links s" for f s
    by (simp add: FindingSave_def pg_exec_def)
  have c: "set (acceptance_links s) \<subseteq> set (acceptance_links (fst (AddFinding down r fid s)))" for s
    by (auto simp: AddFinding_def pg_exec_def linkFinding_def)
  show ?thesis
    using a [of s] b c by (cases rule: acceptOne_cases [of down fid s clock r]) (auto, metis subsetD)
qed

lemma acceptLoop_links:
  "set (acceptance_links s) \<subseteq> set (acceptance_links (fold (acceptOne down clock r) fids s))"
  using acceptOne_links by (induction fids arbitrary: s) (simp, simp, blast)

text \<open>The loop of the creation: what changes, and that nothing listed is left out.\<close>

lemma acceptLoop_moved:
  "accepting.moved (set fids) s (fold (acceptOne down clock r) fids s)"
  by (rule accepting.moved_fold) (rule acceptOne_moved)

lemma acceptLoop_status:
  assumes "\<forall>n. \<not> down n"
  shows "status_of (fold (acceptOne down clock r) fids s) i
    = (if i \<in> set fids \<and> status_of s i = Some StateActive then Some StateRiskAccepted else status_of s i)"
proof -
  have m: "accepting.moved (set fids) s (fold (acceptOne down clock r) fids s)" by (rule acceptLoop_moved)
  have a: "accepting.arrived i s (fold (acceptOne down clock r) fids s)" if "i \<in> set fids"
    by (rule accepting.arrived_fold [where ready = "\<lambda>_. True" and down = down])
      (simp_all add: that assms acceptOne_moved acceptOne_arrived [OF assms])
  show ?thesis
    using accepting.moved_arrived [OF m a]
    by (auto simp: status_of_def ValidTransitions_iff split: if_splits)
qed

text \<open>
  C19: While no statement fails, the creation of a risk acceptance is for managers of its product
  only, and then accepts the risk of exactly the listed findings that are active, of whatever
  product they are (nothing compares their product with that of the acceptance); every listed
  finding is linked to the acceptance, also those whose risk was not accepted.
\<close>

theorem CreateRiskAcceptance_accepts:
  assumes "\<forall>n. \<not> down n"
  shows "case CreateRiskAcceptance down clock pub fresh fresh' req s of
      (t, Inl e) \<Rightarrow> e = RaNotOwner \<and> \<not> manages s (in_product req) (in_requester req)
        \<and> status_of t = status_of s \<and> acceptance_rows t = acceptance_rows s
    | (t, Inr ra) \<Rightarrow> manages s (in_product req) (in_requester req)
        \<and> (\<forall>i. status_of t i = (if i \<in> set (in_findings req) \<and> status_of s i = Some StateActive
              then Some StateRiskAccepted else status_of s i))
        \<and> {ra_id ra} \<times> set (in_findings req) \<subseteq> set (acceptance_links t)"
proof -
  obtain s1 ro where G: "GetRole down (in_product req) (in_requester req) s = (s1, ro)" by force
  have s1: "shown s1 = shown s" "acceptance_rows s1 = acceptance_rows s" "acceptance_links s1 = acceptance_links s"
    using GetRole_other [of down "in_product req" "in_requester req" s] G by (auto intro: shown_cong)
  have st1: "status_of s1 = status_of s" by (simp add: status_of_def s1 fun_eq_iff)
  have mg: "manages s (in_product req) (in_requester req) \<longleftrightarrow> ro = Some RoleOwner \<or> ro = Some RoleMaintainer"
    using GetRole_up [OF assms, of "in_product req" "in_requester req" s] G
    by (auto simp: manages_def)
  show ?thesis
  proof (cases "manages s (in_product req) (in_requester req)")
    case False
    then show ?thesis using G s1 st1 mg
      by (cases ro) (auto simp: CreateRiskAcceptance_def)
  next
    case True
    then obtain r where r: "ro = Some r" "r = RoleOwner \<or> r = RoleMaintainer" using mg by auto
    define ra where "ra = (newAcceptance fresh (clock (statements s1)) (in_product req) (in_requester req) (in_name req))
                  \<lparr>ra_expiration := in_expiration req, ra_notes := in_notes req,
                   ra_proof_file := in_proof_file req, ra_reactivate := in_reactivate req,
                   ra_reactivate_note := in_reactivate_note req,
                   ra_restart_sla := in_restart_sla req, ra_findings := in_findings req\<rparr>"
    obtain s2 res where A: "AcceptanceSave down clock fresh' ra s1 = (s2, res)" by force
    from AcceptanceSave_up [OF assms A] obtain ra' where ra': "res = Inr ra'" "shown s2 = shown s"
      "set (acceptance_links s2) = set (acceptance_links s) \<union> {ra_id ra'} \<times> set (in_findings req)"
      using s1 by (auto simp: ra_def)
    define s3 where "s3 = fold (acceptOne down clock (ra_id ra')) (in_findings req) s2"
    have st3: "status_of s3 i = (if i \<in> set (in_findings req) \<and> status_of s i = Some StateActive
        then Some StateRiskAccepted else status_of s i)" for i
    proof -
      have "status_of s2 = status_of s" by (simp add: status_of_def ra'(2) fun_eq_iff)
      then show ?thesis unfolding s3_def acceptLoop_status [OF assms] by simp
    qed
    have l3: "{ra_id ra'} \<times> set (in_findings req) \<subseteq> set (acceptance_links s3)"
      using acceptLoop_links [of s2 down clock "ra_id ra'" "in_findings req"] ra'(3) by (auto simp: s3_def)
    have pb: "status_of (publish ev x) = status_of x" "acceptance_links (publish ev x) = acceptance_links x" for ev x
      by (simp_all add: publish_def status_of_def shown_def fun_eq_iff)
    have "CreateRiskAcceptance down clock pub fresh fresh' req s
      = ((if pub then publish (RaCreated (ra_id ra') (in_product req)
                           (length (in_findings req)) (in_expiration req)) s3 else s3), Inr ra')"
      using G r A ra'(1) unfolding CreateRiskAcceptance_def ra_def s3_def by auto
    then show ?thesis using True st3 l3 pb by simp
  qed
qed

text \<open>Expiry: what is due, and what a round does to it.\<close>

definition ra_due :: "timestamp \<Rightarrow> risk_acceptance \<Rightarrow> bool" where
  "ra_due now ra \<longleftrightarrow> \<not> ra_expired ra
     \<and> (\<exists>t. ra_expiration ra = Some t \<and> t \<le> now div day * day)"

definition expiry_flags :: "pg \<Rightarrow> (uuid \<times> bool) list" where
  "expiry_flags s = map (\<lambda>(k, ra). (k, ra_expired ra)) (acceptance_rows s)"

lemma expireOne_up:
  assumes "\<forall>n. \<not> down n" and "ra_findings ra = []"
  shows "\<exists>t. expireOne down clock True ra s = (t, None) \<and> finding_rows t = finding_rows s
    \<and> expiry_flags t = map (\<lambda>(k, b). (k, b \<or> k = ra_id ra)) (expiry_flags s)
    \<and> published t = published s @ [RaExpired (ra_id ra) (ra_product ra) [] (ra_reactivate ra)]"
  using assms(2)
  by (auto simp: expireOne_def MarkExpired_def pg_exec_up [OF assms(1)] publish_def expiry_flags_def
      Let_def case_prod_beta comp_def)

lemma expireLoop_up:
  assumes "\<forall>n. \<not> down n" and "\<forall>ra \<in> set ras. ra_findings ra = []"
  shows "\<exists>t. for_each (expireOne down clock True) ras s = (t, None) \<and> finding_rows t = finding_rows s
    \<and> expiry_flags t = map (\<lambda>(k, b). (k, b \<or> k \<in> ra_id ` set ras)) (expiry_flags s)
    \<and> published t = published s
        @ map (\<lambda>ra. RaExpired (ra_id ra) (ra_product ra) [] (ra_reactivate ra)) ras"
  using assms(2)
proof (induction ras arbitrary: s)
  case Nil
  then show ?case by (simp add: case_prod_beta)
next
  case (Cons ra ras)
  then obtain u where u: "expireOne down clock True ra s = (u, None)" "finding_rows u = finding_rows s"
    "expiry_flags u = map (\<lambda>(k, b). (k, b \<or> k = ra_id ra)) (expiry_flags s)"
    "published u = published s @ [RaExpired (ra_id ra) (ra_product ra) [] (ra_reactivate ra)]"
    using expireOne_up [OF assms(1), of ra] by force
  from Cons.IH [of u] Cons.prems obtain t where
    t: "for_each (expireOne down clock True) ras u = (t, None)" "finding_rows t = finding_rows u"
    "expiry_flags t = map (\<lambda>(k, b). (k, b \<or> k \<in> ra_id ` set ras)) (expiry_flags u)"
    "published t = published u
        @ map (\<lambda>ra. RaExpired (ra_id ra) (ra_product ra) [] (ra_reactivate ra)) ras" by auto
  show ?case using u t by (intro exI [of _ t]) (auto simp: case_prod_beta)
qed

definition due_rows :: "timestamp \<Rightarrow> pg \<Rightarrow> risk_acceptance list" where
  "due_rows now s = filter (ra_due now) (map snd (acceptance_rows s))"

lemma ListExpiring_up:
  "\<forall>n. \<not> down n \<Longrightarrow> \<exists>s1. ListExpiring down (now div day * day) s = (s1, Inr (map scanRA (due_rows now s)))
     \<and> finding_rows s1 = finding_rows s \<and> acceptance_rows s1 = acceptance_rows s \<and> published s1 = published s"
proof -
  have "(\<lambda>ra. (case ra_expiration ra of None \<Rightarrow> False | Some t \<Rightarrow> t \<le> now div day * day) \<and> \<not> ra_expired ra)
      = ra_due now"
    by (auto simp: fun_eq_iff ra_due_def split: option.splits)
  then show "\<forall>n. \<not> down n \<Longrightarrow> ?thesis" by (simp add: ListExpiring_def pg_query_def due_rows_def)
qed

text \<open>
  While no statement fails, the daily job marks exactly the acceptances that are due and
  announces each of them, but always with no findings: the query that lists them does not load
  their findings. So no finding is reactivated, whatever the acceptances ask for.
\<close>

theorem ExpireRiskAcceptances_reactivates_none:
  assumes "\<forall>n. \<not> down n" and "distinct (map fst (acceptance_rows s))"
    and "\<forall>(k, ra) \<in> set (acceptance_rows s). k = ra_id ra"
  shows "case ExpireRiskAcceptances down clock True s of (t, err) \<Rightarrow>
      err = None \<and> finding_rows t = finding_rows s
      \<and> map (\<lambda>(k, ra). ra_expired ra) (acceptance_rows t)
        = map (\<lambda>(k, ra). ra_expired ra \<or> ra_due (clock (statements s)) ra) (acceptance_rows s)
      \<and> published t = published s @ map (\<lambda>ra. RaExpired (ra_id ra) (ra_product ra) [] (ra_reactivate ra))
          (due_rows (clock (statements s)) s)"
proof -
  let ?now = "clock (statements s)"
  let ?due = "map scanRA (due_rows ?now s)"
  obtain s1 where s1: "ListExpiring down (?now div day * day) s = (s1, Inr ?due)"
    "finding_rows s1 = finding_rows s" "acceptance_rows s1 = acceptance_rows s" "published s1 = published s"
    using ListExpiring_up [OF assms(1), of ?now s] by auto
  have sc: "ra_findings (scanRA x) = []" "ra_id (scanRA x) = ra_id x" "ra_product (scanRA x) = ra_product x"
    "ra_reactivate (scanRA x) = ra_reactivate x" for x by (simp_all add: scanRA_def)
  from expireLoop_up [OF assms(1), of ?due clock s1] obtain t where
    t: "for_each (expireOne down clock True) ?due s1 = (t, None)" "finding_rows t = finding_rows s1"
    "expiry_flags t = map (\<lambda>(k, b). (k, b \<or> k \<in> ra_id ` set ?due)) (expiry_flags s1)"
    "published t = published s1
        @ map (\<lambda>ra. RaExpired (ra_id ra) (ra_product ra) [] (ra_reactivate ra)) ?due"
    by (auto simp: sc)
  have due: "k \<in> ra_id ` set ?due \<longleftrightarrow> ra_due ?now ra" if k: "(k, ra) \<in> set (acceptance_rows s)" for k ra
  proof -
    have ka: "k = ra_id ra" using assms(3) k by auto
    have "ra = ra'" if "(k', ra') \<in> set (acceptance_rows s)" "ra_id ra' = k" for k' ra'
    proof -
      have "k' = k" using assms(3) that by auto
      then show ?thesis using k that(1) eq_key_imp_eq_value [OF assms(2)] by metis
    qed
    then have "k \<in> ra_id ` set ?due \<Longrightarrow> ra_due ?now ra" by (auto simp: due_rows_def sc)
    moreover have "ra_due ?now ra \<Longrightarrow> k \<in> ra_id ` set ?due"
      using k ka by (force simp: due_rows_def sc image_iff)
    ultimately show ?thesis by blast
  qed
  have "map snd (expiry_flags t)
    = map (\<lambda>(k, ra). ra_expired ra \<or> ra_due ?now ra) (acceptance_rows s)"
  proof -
    have "map snd (expiry_flags t)
      = map (\<lambda>(k, ra). ra_expired ra \<or> k \<in> ra_id ` set ?due) (acceptance_rows s)"
      unfolding t(3) unfolding expiry_flags_def s1(3) by (simp add: comp_def case_prod_beta)
    also have "\<dots> = map (\<lambda>(k, ra). ra_expired ra \<or> ra_due ?now ra) (acceptance_rows s)"
    proof (rule map_cong [OF refl])
      fix x assume "x \<in> set (acceptance_rows s)"
      with due [of "fst x" "snd x"] show "(case x of (k, ra) \<Rightarrow> ra_expired ra \<or> k \<in> ra_id ` set ?due)
          = (case x of (k, ra) \<Rightarrow> ra_expired ra \<or> ra_due ?now ra)" by (simp add: case_prod_beta)
    qed
    finally show ?thesis .
  qed
  then have "map (\<lambda>(k, ra). ra_expired ra) (acceptance_rows t)
    = map (\<lambda>(k, ra). ra_expired ra \<or> ra_due ?now ra) (acceptance_rows s)"
    by (simp add: expiry_flags_def split_def comp_def)
  then show ?thesis
    using s1 t by (simp add: ExpireRiskAcceptances_def Let_def sc comp_def)
qed

text \<open>
  A manager of the product of an acceptance reopens any finding of any product by asking to
  remove it from that acceptance, whether or not it is linked to it: the removal of a link that
  does not exist succeeds, and nothing checks the product of the finding.
\<close>

theorem RemoveFinding_reopens_any:
  assumes "\<forall>n. \<not> down n" and "map_of (acceptance_rows s) raID = Some ra"
    and "manages s (ra_product ra) requester"
  shows "case RemoveFindingFromRA down clock raID fid requester s of (t, err) \<Rightarrow>
      err = None \<and> (raID, fid) \<notin> set (acceptance_links t)
      \<and> (\<forall>i. status_of t i = (if i = fid \<and> status_of s i \<notin> {None, Some StateDuplicate}
            then Some StateActive else status_of s i))"
proof -
  obtain m where m: "member_rows s (ra_product ra, requester) = Some m"
    "pm_role m = RoleOwner \<or> pm_role m = RoleMaintainer" using assms(3) by (auto simp: manages_def)
  have up: "\<not> down n" for n using assms(1) by simp
  define s3 where "s3 = s\<lparr>acceptance_links := filter (\<lambda>l. l \<noteq> (raID, fid)) (acceptance_links s),
    statements := Suc (Suc (Suc (Suc (statements s))))\<rparr>"
  have eq: "RemoveFindingFromRA down clock raID fid requester s
    = (case FindingFindByID down fid s3 of
         (s4, Inl _) \<Rightarrow> (s4, None)
       | (s4, Inr f) \<Rightarrow>
           let g = (case Reopen (clock (statements s4)) f of Inl _ \<Rightarrow> f | Inr g \<Rightarrow> g)
           in (fst (FindingSave down clock g s4), None))"
    using m(2) by (auto simp: RemoveFindingFromRA_def AcceptanceFindByID_def loadFindingIDs_def GetRole_def
        RemoveFinding_def pg_query_def pg_exec_up [OF assms(1)] up assms(2) m(1) s3_def)
  have sh: "shown s3 = shown s" by (rule shown_cong) (simp add: s3_def)
  have l: "(raID, fid) \<notin> set (acceptance_links s3)" by (simp add: s3_def)
  obtain s4 r where F: "FindingFindByID down fid s3 = (s4, r)" by force
  have sh4: "shown s4 = shown s" using find_shown [OF F] sh by simp
  have l4: "acceptance_links s4 = acceptance_links s3"
    using F pg_query_rows(4) [of down _ s3] unfolding FindingFindByID_def by (metis fst_conv)
  have st4: "status_of s4 = status_of s" by (simp add: status_of_def sh4 fun_eq_iff)
  show ?thesis
  proof (cases r)
    case (Inl e)
    then have "shown s fid = None"
      using finding_store.find_up [where down = down and db = s3 and i = fid] F sh up by (cases "shown s fid") auto
    then have "status_of s fid = None" by (simp add: status_of_def)
    then show ?thesis using Inl F l l4 st4 by (simp add: eq)
  next
    case (Inr f)
    have f: "shown s fid = Some f" "fi_id f = fid"
      using finding_store.find_reads [of down fid s3 f] F Inr sh by auto
    define g where "g = (case Reopen (clock (statements s4)) f of Inl _ \<Rightarrow> f | Inr g \<Rightarrow> g)"
    have g: "fi_id g = fid" "CurrentState g = (if CurrentState f = StateDuplicate then StateDuplicate else StateActive)"
    proof -
      show "fi_id g = fid" using f(2) reopening.op_ident [of "clock (statements s4)" f]
        by (auto simp: g_def split: sum.splits)
      show "CurrentState g = (if CurrentState f = StateDuplicate then StateDuplicate else StateActive)"
        using reopen.op_target [of "clock (statements s4)" f] reopen.op_succeeds [of "clock (statements s4)" f]
        by (cases "CurrentState f") (auto simp: g_def ValidTransitions_iff split: sum.splits)
    qed
    obtain y where y: "shown (fst (FindingSave down clock g s4)) fid = Some y" "CurrentState y = CurrentState g"
      using finding_store.save_up [where down = down and db = s4 and x = g and clock = clock] up f g(1) sh4 by auto
    have o: "shown (fst (FindingSave down clock g s4)) j = shown s j" if "j \<noteq> fid" for j
      using finding_store.save_other [where x = g and db = s4 and down = down and clock = clock] that g(1) sh4 by simp
    have l5: "acceptance_links (fst (FindingSave down clock g s4)) = acceptance_links s4"
      by (simp add: FindingSave_def pg_exec_def)
    have "RemoveFindingFromRA down clock raID fid requester s = (fst (FindingSave down clock g s4), None)"
      using F Inr by (simp add: eq g_def)
    moreover have "status_of (fst (FindingSave down clock g s4)) i
        = (if i = fid \<and> status_of s i \<notin> {None, Some StateDuplicate} then Some StateActive else status_of s i)" for i
      using y o [of i] f g by (cases "i = fid") (auto simp: status_of_def)
    ultimately show ?thesis using l l4 l5 by simp
  qed
qed


section \<open>Examples\<close>

definition ex_status :: "uuid \<Rightarrow> uuid \<Rightarrow> bool \<Rightarrow> bool \<Rightarrow> bool \<Rightarrow> finding" where
  "ex_status i p active mitigated accepted = ex_finding\<lparr>fi_id := i, fi_product := p,
     fi_active := active, fi_mitigated := mitigated, fi_risk_accepted := accepted,
     fi_duplicate := False, fi_false_positive := False, fi_out_of_scope := False\<rparr>"

definition ex_ra_db :: pg where
  "ex_ra_db = ex_pg\<lparr>
     finding_rows := [''f'' \<mapsto> ex_status ''f'' ''p'' False False True,
                      ''g'' \<mapsto> ex_status ''g'' ''q'' False True False,
                      ''h'' \<mapsto> ex_status ''h'' ''q'' True False False],
     acceptance_rows := [(''a'', (newAcceptance ''a'' 0 ''p'' ''o'' ''risk'')
        \<lparr>ra_expiration := Some 0, ra_reactivate := True\<rparr>)],
     acceptance_links := [(''a'', ''f'')]\<rparr>"

text \<open>An acceptance of product p takes in an active finding of product q, and not one that is mitigated.\<close>

theorem CreateRiskAcceptance_accepts_witness:
  "let t = fst (CreateRiskAcceptance (\<lambda>_. False) (\<lambda>_. 0) True ''b'' ''c''
      \<lparr>in_name = ''n'', in_product = ''p'', in_requester = ''o'', in_findings = [''g'', ''h''],
       in_expiration = None, in_notes = [], in_proof_file = [], in_reactivate = False,
       in_reactivate_note = [], in_restart_sla = False\<rparr> ex_ra_db)
   in status_of t ''h'' = Some StateRiskAccepted \<and> status_of t ''g'' = Some StateMitigated"
proof -
  let ?req = "\<lparr>in_name = ''n'', in_product = ''p'', in_requester = ''o'', in_findings = [''g'', ''h''],
       in_expiration = None, in_notes = [], in_proof_file = [], in_reactivate = False,
       in_reactivate_note = [], in_restart_sla = False\<rparr>"
  have "manages ex_ra_db ''p'' ''o''" by (simp add: manages_def ex_ra_db_def ex_pg_def newMember_def)
  moreover have "status_of ex_ra_db ''h'' = Some StateActive" "status_of ex_ra_db ''g'' = Some StateMitigated"
    by (simp_all add: status_of_def shown_def ex_ra_db_def ex_status_def loadedFinding_def CurrentState_def)
  ultimately show ?thesis
    using CreateRiskAcceptance_accepts [where down = "\<lambda>_. False" and clock = "\<lambda>_. 0" and pub = True
        and fresh = "''b''" and fresh' = "''c''" and req = ?req and s = ex_ra_db]
    by (auto simp: Let_def split: prod.splits sum.splits)
qed

theorem ExpireRiskAcceptances_reactivates_none_witness:
  "let t = fst (ExpireRiskAcceptances (\<lambda>_. False) (\<lambda>_. 0) True ex_ra_db)
   in published t = [RaExpired ''a'' ''p'' [] True] \<and> finding_rows t = finding_rows ex_ra_db"
  using ExpireRiskAcceptances_reactivates_none
    [where down = "\<lambda>_. False" and s = ex_ra_db and clock = "\<lambda>_. 0"]
  by (simp add: ex_ra_db_def ex_pg_def newAcceptance_def due_rows_def ra_due_def Let_def split_def)

theorem RemoveFinding_reopens_any_witness:
  "status_of ex_ra_db ''g'' = Some StateMitigated
   \<and> status_of (fst (RemoveFindingFromRA (\<lambda>_. False) (\<lambda>_. 0) ''a'' ''g'' ''o'' ex_ra_db)) ''g'' = Some StateActive"
proof -
  have g: "status_of ex_ra_db ''g'' = Some StateMitigated"
    by (simp add: status_of_def shown_def ex_ra_db_def ex_status_def loadedFinding_def CurrentState_def)
  have m: "manages ex_ra_db ''p'' ''o''" by (simp add: manages_def ex_ra_db_def ex_pg_def newMember_def)
  have r: "map_of (acceptance_rows ex_ra_db) ''a'' = Some ((newAcceptance ''a'' 0 ''p'' ''o'' ''risk'')
        \<lparr>ra_expiration := Some 0, ra_reactivate := True\<rparr>)"
    by (simp add: ex_ra_db_def)
  show ?thesis
    using RemoveFinding_reopens_any [OF _ r, where down = "\<lambda>_. False" and requester = "''o''"
      and clock = "\<lambda>_. 0" and fid = "''g''"] g m
    by (simp add: newAcceptance_def split_def)
qed

end
