(* ===== verification/Grading.thy ===== *)
theory Grading
  imports Complex_Main Members
begin

text \<open>
  Grades of a product: the report grade and its risk score
  (\<open>services/finding-service/internal/usecase/grading/report_grading.go\<close>) and the grade of the
  dashboards with its thresholds (\<open>domain/scoring/grading.go\<close>). The letters are ordered, the
  best one greatest. The floating point score is a rational: all its terms are multiples of a
  half and exact.
\<close>

section \<open>Letters, from worst to best\<close>

datatype grade = GradeF | GradeD | GradeC | GradeB | GradeA

instantiation grade :: linorder
begin

definition grade_rank :: "grade \<Rightarrow> nat" where
  "grade_rank g = (case g of GradeF \<Rightarrow> 0 | GradeD \<Rightarrow> 1 | GradeC \<Rightarrow> 2 | GradeB \<Rightarrow> 3 | GradeA \<Rightarrow> 4)"

definition less_eq_grade :: "grade \<Rightarrow> grade \<Rightarrow> bool" where
  "g \<le> h \<longleftrightarrow> grade_rank g \<le> grade_rank h"

definition less_grade :: "grade \<Rightarrow> grade \<Rightarrow> bool" where
  "g < h \<longleftrightarrow> grade_rank g < grade_rank h"

instance
proof
  fix g h k :: grade
  show "g < h \<longleftrightarrow> g \<le> h \<and> \<not> h \<le> g" by (auto simp: less_eq_grade_def less_grade_def)
  show "g \<le> g" by (simp add: less_eq_grade_def)
  show "g \<le> h \<Longrightarrow> h \<le> k \<Longrightarrow> g \<le> k" by (simp add: less_eq_grade_def)
  show "g \<le> h \<Longrightarrow> h \<le> g \<Longrightarrow> g = h"
    by (cases g; cases h) (simp_all add: less_eq_grade_def grade_rank_def)
  show "g \<le> h \<or> h \<le> g" by (auto simp: less_eq_grade_def)
qed

end

section \<open>The report\<close>

record severity_count =
  gc_critical :: int
  gc_high :: int
  gc_medium :: int
  gc_low :: int
  gc_info :: int

definition Total :: "severity_count \<Rightarrow> int" where
  "Total c = gc_critical c + gc_high c + gc_medium c + gc_low c + gc_info c"

definition ComputeGrade :: "severity_count \<Rightarrow> grade" where
  "ComputeGrade c =
     (if gc_critical c \<ge> 3 \<or> gc_high c \<ge> 20 then GradeF
      else if gc_critical c \<ge> 1 \<or> gc_high c \<ge> 10 then GradeD
      else if gc_high c \<ge> 5 \<or> gc_medium c \<ge> 10 then GradeC
      else if gc_high c \<ge> 1 \<or> gc_medium c \<ge> 5 then GradeB
      else GradeA)"

text \<open>\<open>math.Round\<close> of a number that is not negative.\<close>

definition math_Round :: "rat \<Rightarrow> rat" where
  "math_Round x = of_int \<lfloor>x + 1 / 2\<rfloor>"

definition ComputeRiskScore :: "severity_count \<Rightarrow> rat" where
  "ComputeRiskScore c =
     (let raw = of_int (gc_critical c) * 10 + of_int (gc_high c) * 5 + of_int (gc_medium c) * 2
              + of_int (gc_low c) * (1 / 2);
          normalized = max 0 (100 - raw)
      in math_Round (normalized * 10) / 10)"

record product_grade =
  pg_product :: uuid
  pg_grade :: grade
  pg_risk_score :: rat
  pg_counts :: severity_count
  pg_computed :: timestamp

text \<open>
  The use case: the counts come from a provider, the result is saved and then announced. The
  outcome has the grades that were saved and those that were announced, in order.
\<close>

record grade_run =
  gr_saved :: "product_grade list"
  gr_announced :: "product_grade list"

definition GradeProduct ::
  "(uuid \<Rightarrow> string + severity_count) \<Rightarrow> (product_grade \<Rightarrow> string option) \<Rightarrow> timestamp \<Rightarrow> uuid
     \<Rightarrow> grade_run \<times> (string + product_grade)" where
  "GradeProduct counts save now productID =
     (case counts productID of
        Inl err \<Rightarrow> (\<lparr>gr_saved = [], gr_announced = []\<rparr>, Inl err)
      | Inr c \<Rightarrow>
          let g = \<lparr>pg_product = productID, pg_grade = ComputeGrade c, pg_risk_score = ComputeRiskScore c,
                   pg_counts = c, pg_computed = now\<rparr>
          in (case save g of
                Some err \<Rightarrow> (\<lparr>gr_saved = [], gr_announced = []\<rparr>, Inl err)
              | None \<Rightarrow> (\<lparr>gr_saved = [g], gr_announced = [g]\<rparr>, Inr g)))"

section \<open>The dashboards\<close>

record grade_thresholds =
  CriticalForF :: int
  HighForD :: int
  MediumForC :: int

definition DefaultGradeThresholds :: grade_thresholds where
  "DefaultGradeThresholds = \<lparr>CriticalForF = 1, HighForD = 5, MediumForC = 10\<rparr>"

definition scoring_ComputeGrade :: "int \<Rightarrow> int \<Rightarrow> int \<Rightarrow> grade_thresholds \<Rightarrow> string" where
  "scoring_ComputeGrade critical high medium t =
     (if critical \<ge> CriticalForF t then ''F''
      else if high > HighForD t then ''D''
      else if high > 0 \<or> medium \<ge> MediumForC t then ''C''
      else if medium > 0 then ''B''
      else ''A'')"

definition gradeScores :: "string \<rightharpoonup> int" where
  "gradeScores = [''A'' \<mapsto> 100, ''B'' \<mapsto> 80, ''C'' \<mapsto> 65, ''D'' \<mapsto> 50, ''F'' \<mapsto> 30]"

definition GradeToScore :: "string \<Rightarrow> int" where
  "GradeToScore g = (case gradeScores g of None \<Rightarrow> 0 | Some score \<Rightarrow> score)"

definition zero_counts :: severity_count where
  "zero_counts = \<lparr>gc_critical = 0, gc_high = 0, gc_medium = 0, gc_low = 0, gc_info = 0\<rparr>"

section \<open>More findings never improve a grade\<close>

definition counts_le :: "severity_count \<Rightarrow> severity_count \<Rightarrow> bool" where
  "counts_le c d \<longleftrightarrow> gc_critical c \<le> gc_critical d \<and> gc_high c \<le> gc_high d
     \<and> gc_medium c \<le> gc_medium d \<and> gc_low c \<le> gc_low d"

lemma ComputeGrade_antimono: "counts_le c d \<Longrightarrow> ComputeGrade d \<le> ComputeGrade c"
  by (auto simp: counts_le_def ComputeGrade_def less_eq_grade_def grade_rank_def)

lemma math_Round_int: "math_Round (of_int m) = of_int m"
proof -
  have "\<lfloor>of_int m + 1 / 2 :: rat\<rfloor> = m" by (rule floor_unique) simp_all
  then show ?thesis by (simp add: math_Round_def)
qed

text \<open>The rounding does nothing: ten times the score is a whole number already.\<close>

definition penalty10 :: "severity_count \<Rightarrow> int" where
  "penalty10 c = gc_critical c * 100 + gc_high c * 50 + gc_medium c * 20 + gc_low c * 5"

lemma ComputeRiskScore_exact: "ComputeRiskScore c = of_int (max 0 (1000 - penalty10 c)) / 10"
proof -
  let ?raw = "of_int (gc_critical c) * 10 + of_int (gc_high c) * 5 + of_int (gc_medium c) * 2
              + of_int (gc_low c) * (1 / 2) :: rat"
  have raw: "?raw = of_int (penalty10 c) / 10" by (simp add: penalty10_def field_simps)
  have "max 0 (100 - ?raw) * 10 = of_int (max 0 (1000 - penalty10 c))"
    unfolding raw by (cases "penalty10 c \<le> 1000") (simp_all add: max_def field_simps)
  then show ?thesis by (simp add: ComputeRiskScore_def Let_def math_Round_int)
qed

lemma ComputeRiskScore_antimono: "counts_le c d \<Longrightarrow> ComputeRiskScore d \<le> ComputeRiskScore c"
proof -
  assume "counts_le c d"
  then have "penalty10 c \<le> penalty10 d" by (simp add: counts_le_def penalty10_def)
  then show ?thesis by (simp add: ComputeRiskScore_exact)
qed

lemma ComputeRiskScore_best: "ComputeRiskScore c = 100 \<longleftrightarrow> penalty10 c = 0"
proof -
  have "ComputeRiskScore c = 100 \<longleftrightarrow> (of_int (max 0 (1000 - penalty10 c)) :: rat) = of_int 1000"
    by (simp add: ComputeRiskScore_exact)
  also have "\<dots> \<longleftrightarrow> max 0 (1000 - penalty10 c) = 1000" by (rule of_int_eq_iff)
  also have "\<dots> \<longleftrightarrow> penalty10 c = 0" by (simp add: max_def)
  finally show ?thesis .
qed



text \<open>The two letters need not agree: neither algorithm is stricter than the other.\<close>

lemma letters_disagree:
  "ComputeGrade (zero_counts\<lparr>gc_critical := 1\<rparr>) = GradeD
   \<and> scoring_ComputeGrade 1 0 0 DefaultGradeThresholds = ''F''
   \<and> ComputeGrade (zero_counts\<lparr>gc_high := 20\<rparr>) = GradeF
   \<and> scoring_ComputeGrade 0 20 0 DefaultGradeThresholds = ''D''"
  by (simp add: ComputeGrade_def zero_counts_def scoring_ComputeGrade_def DefaultGradeThresholds_def)

end
