(* ===== verification/Resilience.thy ===== *)
theory Resilience
  imports Complex_Main Strings
begin

text \<open>
  Calls to other services: the circuit breaker
  (\<open>services/shared/pkg/resilience/circuit_breaker.go\<close>) and the retry loop with its backoff
  (\<open>services/shared/pkg/resilience/retry.go\<close>). What a protected function does is an outcome,
  given from outside; the times at which the clock is read are arguments; floating point numbers
  of the backoff are reals.
\<close>

section \<open>The circuit breaker\<close>

datatype cb_state = StateClosed | StateOpen | StateHalfOpen

record cb_config =
  MaxFailures :: int
  Timeout :: int
  HalfOpenMaxRequests :: int

definition DefaultCircuitBreakerConfig :: cb_config where
  "DefaultCircuitBreakerConfig = \<lparr>MaxFailures = 5, Timeout = 30 * 1000000000, HalfOpenMaxRequests = 2\<rparr>"

record breaker =
  cb_state :: cb_state
  cb_failures :: int
  cb_last_failure :: timestamp
  cb_half_open :: int

definition NewCircuitBreaker :: "timestamp \<Rightarrow> breaker" where
  "NewCircuitBreaker zero = \<lparr>cb_state = StateClosed, cb_failures = 0, cb_last_failure = zero, cb_half_open = 0\<rparr>"

text \<open>\<open>None\<close> admits the call, \<open>Some\<close> is \<open>ErrCircuitOpen\<close> with its text.\<close>

definition allow :: "cb_config \<Rightarrow> timestamp \<Rightarrow> breaker \<Rightarrow> breaker \<times> string option" where
  "allow cfg now b =
     (case cb_state b of
        StateOpen \<Rightarrow>
          if now - cb_last_failure b > Timeout cfg
          then (b\<lparr>cb_state := StateHalfOpen, cb_half_open := HalfOpenMaxRequests cfg\<rparr>, None)
          else (b, Some ''circuit open'')
      | StateHalfOpen \<Rightarrow>
          if cb_half_open b \<le> 0 then (b, Some ''half-open limit reached'')
          else (b\<lparr>cb_half_open := cb_half_open b - 1\<rparr>, None)
      | StateClosed \<Rightarrow> (b, None))"

definition record_result :: "cb_config \<Rightarrow> timestamp \<Rightarrow> string option \<Rightarrow> breaker \<Rightarrow> breaker" where
  "record_result cfg now err b =
     (case err of
        Some _ \<Rightarrow>
          let b1 = b\<lparr>cb_failures := cb_failures b + 1, cb_last_failure := now\<rparr> in
          if cb_state b1 = StateHalfOpen then b1\<lparr>cb_state := StateOpen\<rparr>
          else if cb_failures b1 \<ge> MaxFailures cfg then b1\<lparr>cb_state := StateOpen\<rparr>
          else b1
      | None \<Rightarrow>
          let b1 = (if cb_state b = StateHalfOpen then b\<lparr>cb_state := StateClosed\<rparr> else b)
          in b1\<lparr>cb_failures := 0\<rparr>)"

text \<open>What the protected function does, and what the caller gets.\<close>

datatype 'a outcome = Returns 'a "string option" | Panics string
datatype 'a cb_result = Refused string | Gave 'a "string option" | Panicked string

text \<open>
  A call: the breaker is asked at one time and told at another; a panic of the function leaves
  without telling it. \<open>Execute\<close> is the case of a function that returns no value.
\<close>

definition ExecuteWithResult ::
  "cb_config \<Rightarrow> timestamp \<Rightarrow> timestamp \<Rightarrow> 'a outcome \<Rightarrow> breaker \<Rightarrow> breaker \<times> 'a cb_result" where
  "ExecuteWithResult cfg asked told fn b =
     (case allow cfg asked b of
        (b1, Some err) \<Rightarrow> (b1, Refused err)
      | (b1, None) \<Rightarrow>
          (case fn of
             Panics p \<Rightarrow> (b1, Panicked p)
           | Returns x err \<Rightarrow> (record_result cfg told err b1, Gave x err)))"

definition Execute ::
  "cb_config \<Rightarrow> timestamp \<Rightarrow> timestamp \<Rightarrow> unit outcome \<Rightarrow> breaker \<Rightarrow> breaker \<times> unit cb_result" where
  "Execute cfg asked told fn b =
     (case allow cfg asked b of
        (b1, Some err) \<Rightarrow> (b1, Refused err)
      | (b1, None) \<Rightarrow>
          (case fn of
             Panics p \<Rightarrow> (b1, Panicked p)
           | Returns x err \<Rightarrow> (record_result cfg told err b1, Gave x err)))"

text \<open>Calls one after another.\<close>

fun executeAll ::
  "cb_config \<Rightarrow> (timestamp \<times> timestamp \<times> 'a outcome) list \<Rightarrow> breaker \<Rightarrow> breaker \<times> 'a cb_result list" where
  "executeAll cfg [] b = (b, [])"
| "executeAll cfg ((asked, told, fn) # cs) b =
     (case ExecuteWithResult cfg asked told fn b of
        (b1, r) \<Rightarrow> (case executeAll cfg cs b1 of (b2, rs) \<Rightarrow> (b2, r # rs)))"

section \<open>Retries\<close>

record retry_config =
  MaxAttempts :: int
  InitialInterval :: int
  MaxInterval :: int
  Multiplier :: real
  JitterFraction :: real
  IsRetryable :: "(string \<Rightarrow> bool) option"

definition DefaultRetryConfig :: retry_config where
  "DefaultRetryConfig = \<lparr>MaxAttempts = 3, InitialInterval = 100 * 1000000,
     MaxInterval = 5 * 1000000000, Multiplier = 2, JitterFraction = 3 / 10, IsRetryable = None\<rparr>"

datatype retry_error = CtxErr string | Permanent string | RetryError int "string option"

text \<open>
  The context is asked before the attempt \<open>i\<close> (\<open>ctxErr i\<close>) and during the wait after it
  (\<open>waitErr i\<close>); \<open>fn i\<close> is the error and the result of the attempt. The answer has the number
  of attempts made. \<open>n\<close> counts the attempts that are left.
\<close>

fun retryFrom ::
  "retry_config \<Rightarrow> (nat \<Rightarrow> string option) \<Rightarrow> (nat \<Rightarrow> string option) \<Rightarrow> (nat \<Rightarrow> 'a \<times> string option)
     \<Rightarrow> nat \<Rightarrow> nat \<Rightarrow> string option \<Rightarrow> nat \<times> (retry_error + 'a)" where
  "retryFrom cfg ctxErr waitErr fn attempt 0 lastErr = (attempt, Inl (RetryError (MaxAttempts cfg) lastErr))"
| "retryFrom cfg ctxErr waitErr fn attempt (Suc n) lastErr =
     (case ctxErr attempt of
        Some err \<Rightarrow> (attempt, Inl (CtxErr err))
      | None \<Rightarrow>
          (case fn attempt of
             (x, None) \<Rightarrow> (Suc attempt, Inr x)
           | (x, Some err) \<Rightarrow>
               if (case IsRetryable cfg of None \<Rightarrow> False | Some retryable \<Rightarrow> \<not> retryable err)
               then (Suc attempt, Inl (Permanent err))
               else if n = 0 then (Suc attempt, Inl (RetryError (MaxAttempts cfg) (Some err)))
               else
                 (case waitErr attempt of
                    Some err \<Rightarrow> (Suc attempt, Inl (CtxErr err))
                  | None \<Rightarrow> retryFrom cfg ctxErr waitErr fn (Suc attempt) n (Some err))))"

definition DoWithResult ::
  "retry_config \<Rightarrow> (nat \<Rightarrow> string option) \<Rightarrow> (nat \<Rightarrow> string option) \<Rightarrow> (nat \<Rightarrow> 'a \<times> string option)
     \<Rightarrow> nat \<times> (retry_error + 'a)" where
  "DoWithResult cfg ctxErr waitErr fn = retryFrom cfg ctxErr waitErr fn 0 (nat (MaxAttempts cfg)) None"

definition Do ::
  "retry_config \<Rightarrow> (nat \<Rightarrow> string option) \<Rightarrow> (nat \<Rightarrow> string option) \<Rightarrow> (nat \<Rightarrow> string option)
     \<Rightarrow> nat \<times> retry_error option" where
  "Do cfg ctxErr waitErr fn =
     (case DoWithResult cfg ctxErr waitErr (\<lambda>i. ((), fn i)) of
        (n, Inl err) \<Rightarrow> (n, Some err)
      | (n, Inr _) \<Rightarrow> (n, None))"

text \<open>The text of a number: a number that is not positive, but zero, has no digits.\<close>

definition digit_char :: "nat \<Rightarrow> char" where
  "digit_char d = char_of (d + 48)"

fun itoaDigits :: "nat \<Rightarrow> string \<Rightarrow> string" where
  "itoaDigits n buf = (if n = 0 then buf else itoaDigits (n div 10) (digit_char (n mod 10) # buf))"

declare itoaDigits.simps [simp del]

definition itoa :: "int \<Rightarrow> string" where
  "itoa n = (if n = 0 then ''0'' else if n > 0 then itoaDigits (nat n) [] else [])"

text \<open>The text of a \<open>RetryError\<close>: with no last error it panics.\<close>

definition RetryError_Error :: "int \<Rightarrow> string option \<Rightarrow> go_error + string" where
  "RetryError_Error attempts err =
     (case err of
        None \<Rightarrow> Inl (GoPanic ''nil pointer dereference'')
      | Some e \<Rightarrow> Inr (''after '' @ itoa attempts @ '' attempts: '' @ e))"

text \<open>
  \<open>deadline\<close> and \<open>circuitOpen\<close> tell whether the error wraps the one of an expired context, or of
  an open circuit.
\<close>

definition contains_at :: "string \<Rightarrow> string \<Rightarrow> nat \<Rightarrow> bool" where
  "contains_at msg keyword i \<longleftrightarrow> take (length keyword) (drop i msg) = keyword"

definition IsRetryableNetworkError :: "bool \<Rightarrow> bool \<Rightarrow> string \<Rightarrow> bool" where
  "IsRetryableNetworkError deadline circuitOpen msg =
     (if deadline then True
      else if circuitOpen then False
      else (\<exists>keyword \<in> set [''connection refused'', ''timeout'', ''EOF'', ''reset'', ''unavailable'', ''429'', ''503''].
             \<exists>i \<in> set [0..<length msg + 1 - length keyword]. contains_at msg keyword i))"

text \<open>\<open>rand\<close> is the random number, from 0 to below 1.\<close>

definition computeBackoff :: "retry_config \<Rightarrow> real \<Rightarrow> nat \<Rightarrow> int" where
  "computeBackoff cfg rand attempt =
     (let base = real_of_int (InitialInterval cfg) * Multiplier cfg ^ attempt;
          base1 = (if base > real_of_int (MaxInterval cfg) then real_of_int (MaxInterval cfg) else base);
          base2 = (if JitterFraction cfg > 0
             then let jittered = base1 + base1 * JitterFraction cfg * (rand * 2 - 1)
                  in if jittered < real_of_int (InitialInterval cfg) then real_of_int (InitialInterval cfg) else jittered
             else base1)
      in \<lfloor>base2\<rfloor>)"

section \<open>The breaker under calls one after another\<close>

text \<open>
  The promise to a caller that calls one at a time: the breaker is up, with a number of failures
  in a row, or down since some time. While it is down calls are refused until the timeout has
  passed, then the next one decides.
\<close>

datatype circuit = Up int | Down timestamp

definition promised ::
  "cb_config \<Rightarrow> timestamp \<Rightarrow> timestamp \<Rightarrow> 'a outcome \<Rightarrow> circuit \<Rightarrow> circuit \<times> 'a cb_result" where
  "promised cfg asked told fn c =
     (let after = (\<lambda>n. case fn of
          Panics p \<Rightarrow> (c, Panicked p)
        | Returns x None \<Rightarrow> (Up 0, Gave x None)
        | Returns x (Some e) \<Rightarrow> (if n + 1 \<ge> MaxFailures cfg then Down told else Up (n + 1), Gave x (Some e)))
      in (case c of
            Up n \<Rightarrow> after n
          | Down t \<Rightarrow> if asked - t > Timeout cfg then after (MaxFailures cfg) else (c, Refused ''circuit open'')))"

fun promisedAll ::
  "cb_config \<Rightarrow> (timestamp \<times> timestamp \<times> 'a outcome) list \<Rightarrow> circuit \<Rightarrow> circuit \<times> 'a cb_result list" where
  "promisedAll cfg [] c = (c, [])"
| "promisedAll cfg ((asked, told, fn) # cs) c =
     (case promised cfg asked told fn c of
        (c1, r) \<Rightarrow> (case promisedAll cfg cs c1 of (c2, rs) \<Rightarrow> (c2, r # rs)))"

definition circuit_of :: "breaker \<Rightarrow> circuit" where
  "circuit_of b = (if cb_state b = StateClosed then Up (cb_failures b) else Down (cb_last_failure b))"

definition returns :: "'a outcome \<Rightarrow> bool" where
  "returns fn = (case fn of Returns _ _ \<Rightarrow> True | Panics _ \<Rightarrow> False)"

lemma ExecuteWithResult_promised:
  assumes "cb_state b \<noteq> StateHalfOpen" and "returns fn"
  shows "case ExecuteWithResult cfg asked told fn b of (b1, r) \<Rightarrow>
      promised cfg asked told fn (circuit_of b) = (circuit_of b1, r) \<and> cb_state b1 \<noteq> StateHalfOpen"
  using assms
  by (auto simp: ExecuteWithResult_def promised_def allow_def record_result_def circuit_of_def
      returns_def Let_def split: cb_state.splits outcome.splits option.splits)

text \<open>
  C16: For a caller that makes one call at a time, with functions that return, the circuit breaker
  is the simple machine that is up with a count of failures in a row or down since the last of
  them: all its answers are those of that machine. The half-open state is never seen between
  calls, and how many probes it allows does not matter.
\<close>

theorem executeAll_refines:
  assumes "cb_state b \<noteq> StateHalfOpen" and "\<forall>(asked, told, fn) \<in> set cs. returns fn"
  shows "snd (executeAll cfg cs b) = snd (promisedAll cfg cs (circuit_of b))
    \<and> circuit_of (fst (executeAll cfg cs b)) = fst (promisedAll cfg cs (circuit_of b))"
  using assms
proof (induction cs arbitrary: b)
  case Nil
  then show ?case by simp
next
  case (Cons call cs)
  obtain asked told fn where c: "call = (asked, told, fn)" by (cases call)
  obtain b1 r where E: "ExecuteWithResult cfg asked told fn b = (b1, r)" by force
  have p: "promised cfg asked told fn (circuit_of b) = (circuit_of b1, r)" "cb_state b1 \<noteq> StateHalfOpen"
    using ExecuteWithResult_promised [of b fn cfg asked told] Cons.prems E by (auto simp: c)
  show ?case using Cons.IH [OF p(2)] Cons.prems(2) by (simp add: c E p(1) case_prod_beta)
qed

theorem executeAll_refines_witness:
  "snd (executeAll (DefaultCircuitBreakerConfig\<lparr>MaxFailures := 2\<rparr>)
     [(1, 2, Returns () (Some ''e'')), (3, 4, Returns () (Some ''e'')), (5, 6, Returns () None)] (NewCircuitBreaker 0))
   = [Gave () (Some ''e''), Gave () (Some ''e''), Refused ''circuit open'']"
  using executeAll_refines [of "NewCircuitBreaker 0"
      "[(1, 2, Returns () (Some ''e'')), (3, 4, Returns () (Some ''e'')), (5, 6, Returns () None)]"
      "DefaultCircuitBreakerConfig\<lparr>MaxFailures := 2\<rparr>"]
  by (simp add: NewCircuitBreaker_def returns_def circuit_of_def promised_def DefaultCircuitBreakerConfig_def)

section \<open>The breaker under interleaved calls\<close>

text \<open>
  Besides the breaker, a state of the interleaving has the number of calls that run and the number
  of probes admitted since the breaker is half open.
\<close>

inductive cb_step :: "cb_config \<Rightarrow> breaker \<times> nat \<times> nat \<Rightarrow> breaker \<times> nat \<times> nat \<Rightarrow> bool" for cfg where
  step_admit: "allow cfg now b = (b', None) \<Longrightarrow>
     cb_step cfg (b, n, p) (b', Suc n,
       if cb_state b' = StateHalfOpen then (if cb_state b = StateHalfOpen then Suc p else 1) else 0)"
| step_refuse: "allow cfg now b = (b', Some err) \<Longrightarrow> cb_step cfg (b, n, p) (b', n, p)"
| step_finish: "cb_step cfg (b, Suc n, p) (record_result cfg now err b, n, 0)"
| step_panic: "cb_step cfg (b, Suc n, p) (b, n, p)"

definition breaker_ok :: "cb_config \<Rightarrow> breaker \<times> nat \<times> nat \<Rightarrow> bool" where
  "breaker_ok cfg s = (case s of (b, n, p) \<Rightarrow> 0 \<le> cb_failures b \<and>
     (case cb_state b of
        StateClosed \<Rightarrow> cb_failures b < MaxFailures cfg
      | StateOpen \<Rightarrow> True
      | StateHalfOpen \<Rightarrow> 0 \<le> cb_half_open b \<and> int p + cb_half_open b = HalfOpenMaxRequests cfg + 1))"

lemma allow_ok:
  "breaker_ok cfg (b, n, p) \<Longrightarrow> 0 \<le> HalfOpenMaxRequests cfg \<Longrightarrow> allow cfg now b = (b', None) \<Longrightarrow>
     breaker_ok cfg (b', m, if cb_state b' = StateHalfOpen then (if cb_state b = StateHalfOpen then Suc p else 1) else 0)"
  by (auto simp: allow_def breaker_ok_def split: cb_state.splits if_splits)

lemma refused_same: "allow cfg now b = (b', Some err) \<Longrightarrow> b' = b"
  by (auto simp: allow_def split: cb_state.splits if_splits)

lemma record_ok:
  "breaker_ok cfg (b, n, p) \<Longrightarrow> 0 < MaxFailures cfg \<Longrightarrow> breaker_ok cfg (record_result cfg now err b, m, 0)"
  by (auto simp: record_result_def breaker_ok_def Let_def split: option.splits cb_state.splits)

lemma cb_step_ok:
  assumes "cb_step cfg s t" and "breaker_ok cfg s" and "0 < MaxFailures cfg" and "0 \<le> HalfOpenMaxRequests cfg"
  shows "breaker_ok cfg t"
  using assms(1)
proof cases
  case (step_admit now b b' n p)
  with allow_ok [of cfg b n p now b'] assms(2,4) show ?thesis by simp
next
  case (step_refuse now b b' err n p)
  with refused_same [of cfg now b b' err] assms(2) show ?thesis by simp
next
  case (step_finish b n p now err)
  with record_ok [of cfg b _ p] assms(2,3) show ?thesis by blast
next
  case (step_panic b n p)
  with assms(2) show ?thesis by (simp add: breaker_ok_def)
qed


text \<open>Three probes run at once although two are allowed.\<close>

definition ex_cb :: cb_config where
  "ex_cb = \<lparr>MaxFailures = 1, Timeout = 10, HalfOpenMaxRequests = 2\<rparr>"


section \<open>Probes that are lost\<close>

lemma panics_half_open:
  "cb_state b = StateHalfOpen \<Longrightarrow> cb_half_open b = int (length ps) \<Longrightarrow>
     executeAll cfg (map (\<lambda>(asked, told, p). (asked, told, Panics p)) ps) b
       = (b\<lparr>cb_half_open := 0\<rparr>, map (\<lambda>(asked, told, p). Panicked p) ps)"
  by (induction ps arbitrary: b) (auto simp: ExecuteWithResult_def allow_def)

lemma used_up_refuses:
  "cb_state b = StateHalfOpen \<Longrightarrow> cb_half_open b \<le> 0 \<Longrightarrow>
     executeAll cfg cs b = (b, replicate (length cs) (Refused ''half-open limit reached''))"
  by (induction cs) (auto simp: ExecuteWithResult_def allow_def)

text \<open>
  C24: When every probe of a half-open breaker panics, the breaker is never told, and from then on
  it refuses every call, whenever it is made: no time-out leads out of the half-open state.
\<close>

theorem lost_probes_jam:
  fixes probes cs :: "(timestamp \<times> timestamp \<times> 'a outcome) list"
  assumes "cb_state b = StateOpen" and "asked - cb_last_failure b > Timeout cfg"
    and "HalfOpenMaxRequests cfg = int (length ps)"
    and "probes = (asked, told, Panics p) # map (\<lambda>(asked, told, p). (asked, told, Panics p)) ps"
  shows "snd (executeAll cfg probes b) = Panicked p # map (\<lambda>(asked, told, p). Panicked p) ps
    \<and> snd (executeAll cfg cs (fst (executeAll cfg probes b)))
        = replicate (length cs) (Refused ''half-open limit reached'')"
proof -
  let ?h = "b\<lparr>cb_state := StateHalfOpen, cb_half_open := int (length ps)\<rparr>"
  have "executeAll cfg probes b = (?h\<lparr>cb_half_open := 0\<rparr>, Panicked p # map (\<lambda>(asked, told, p). Panicked p) ps)"
    using assms by (simp add: ExecuteWithResult_def allow_def panics_half_open)
  then show ?thesis by (simp add: used_up_refuses)
qed

theorem lost_probes_jam_witness:
  "snd (executeAll ex_cb [(1000000, 1000001, Returns () None)] (fst (executeAll ex_cb
      [(20, 21, Panics ''p'' :: unit outcome), (22, 23, Panics ''q''), (24, 25, Panics ''r'')]
      \<lparr>cb_state = StateOpen, cb_failures = 1, cb_last_failure = 1, cb_half_open = 0\<rparr>)))
    = [Refused ''half-open limit reached'']"
  using lost_probes_jam [OF _ _ _ refl, where
      b = "\<lparr>cb_state = StateOpen, cb_failures = 1, cb_last_failure = 1, cb_half_open = 0\<rparr>"
      and asked = 20 and told = 21 and p = "''p''" and cfg = ex_cb
      and ps = "[(22, 23, ''q''), (24, 25, ''r'')]" and cs = "[(1000000, 1000001, Returns () None)]"]
  by (simp add: ex_cb_def)

section \<open>The retry loop\<close>

text \<open>An attempt ends the loop when it succeeds or fails for good.\<close>

definition final :: "retry_config \<Rightarrow> 'a \<times> string option \<Rightarrow> bool" where
  "final cfg r = (case snd r of None \<Rightarrow> True
     | Some e \<Rightarrow> (case IsRetryable cfg of None \<Rightarrow> False | Some retryable \<Rightarrow> \<not> retryable e))"

definition answer_of :: "'a \<times> string option \<Rightarrow> retry_error + 'a" where
  "answer_of r = (case snd r of None \<Rightarrow> Inr (fst r) | Some e \<Rightarrow> Inl (Permanent e))"

lemma retryFrom_final:
  assumes "final cfg (fn (a + k))" and "\<forall>j < k. \<not> final cfg (fn (a + j))" and "k < n"
  shows "retryFrom cfg (\<lambda>_. None) (\<lambda>_. None) fn a n l = (Suc (a + k), answer_of (fn (a + k)))"
  using assms
proof (induction k arbitrary: a n l)
  case 0
  then obtain m where "n = Suc m" by (cases n) auto
  with 0 show ?case
    by (cases "fn a") (auto simp: final_def answer_of_def split: option.splits)
next
  case (Suc k)
  obtain m where m: "n = Suc m" "k < m" using Suc.prems(3) by (cases n) auto
  have 0: "\<not> final cfg (fn a)" using Suc.prems(2) by force
  have "\<forall>j<k. \<not> final cfg (fn (Suc a + j))" using Suc.prems(2) by (metis Suc_less_eq add_Suc_shift)
  then have "retryFrom cfg (\<lambda>_. None) (\<lambda>_. None) fn (Suc a) m l' = (Suc (Suc a + k), answer_of (fn (Suc a + k)))" for l'
    using Suc.IH [of "Suc a" m] Suc.prems(1) m(2) by simp
  then show ?case using 0 m
    by (cases "fn a") (auto simp: final_def split: option.splits)
qed

lemma retryFrom_exhausted:
  assumes "\<forall>j < n. \<not> final cfg (fn (a + j))"
  shows "retryFrom cfg (\<lambda>_. None) (\<lambda>_. None) fn a n l
    = (a + n, Inl (RetryError (MaxAttempts cfg) (if n = 0 then l else snd (fn (a + n - 1)))))"
  using assms
proof (induction n arbitrary: a l)
  case 0
  then show ?case by simp
next
  case (Suc n)
  have 0: "\<not> final cfg (fn a)" using Suc.prems by force
  have "\<forall>j<n. \<not> final cfg (fn (Suc a + j))" using Suc.prems by (metis Suc_less_eq add_Suc_shift)
  from Suc.IH [OF this] show ?case using 0
    by (cases "fn a"; cases n) (auto simp: final_def split: option.splits)
qed

text \<open>
  C18: While the context lives, the retry loop makes attempts up to the first one that succeeds or
  fails with an error that is not to be retried, and gives that one's result or error; when there
  is none among the attempts allowed it makes all of them and gives the error of the last. With no
  attempt allowed it gives an error without a cause, whose text panics.
\<close>

theorem DoWithResult_attempts:
  assumes "\<forall>i. ctxErr i = None" and "\<forall>i. waitErr i = None" and "n = nat (MaxAttempts cfg)"
  shows "(if \<exists>k < n. final cfg (fn k)
      then (\<exists>k < n. final cfg (fn k) \<and> (\<forall>j < k. \<not> final cfg (fn j))
            \<and> DoWithResult cfg ctxErr waitErr fn = (Suc k, answer_of (fn k)))
      else DoWithResult cfg ctxErr waitErr fn
             = (n, Inl (RetryError (MaxAttempts cfg) (if n = 0 then None else snd (fn (n - 1))))))
    \<and> (if n = 0 then RetryError_Error (MaxAttempts cfg) None = Inl (GoPanic ''nil pointer dereference'') else True)"
proof -
  have e: "ctxErr = (\<lambda>_. None)" "waitErr = (\<lambda>_. None)" using assms(1,2) by auto
  show ?thesis
proof (cases "\<exists>k < n. final cfg (fn k)")
  case True
  obtain k where "k < n \<and> final cfg (fn k)" "\<forall>j < k. \<not> (j < n \<and> final cfg (fn j))"
    using True exists_least_iff [of "\<lambda>k. k < n \<and> final cfg (fn k)"] by blast
  then have k: "final cfg (fn k)" "\<forall>j < k. \<not> final cfg (fn j)" "k < n"
    using less_trans by blast+
  have "DoWithResult cfg ctxErr waitErr fn = (Suc k, answer_of (fn k))"
    using retryFrom_final [of cfg fn 0 k n None] assms(3) k e by (simp add: DoWithResult_def)
  with k have "\<exists>k < n. final cfg (fn k) \<and> (\<forall>j < k. \<not> final cfg (fn j))
            \<and> DoWithResult cfg ctxErr waitErr fn = (Suc k, answer_of (fn k))" by blast
  then show ?thesis unfolding if_P [OF True] by (simp add: RetryError_Error_def)
next
  case False
  then have "DoWithResult cfg ctxErr waitErr fn
             = (n, Inl (RetryError (MaxAttempts cfg) (if n = 0 then None else snd (fn (n - 1)))))"
    using retryFrom_exhausted [of n cfg fn 0 None] assms(3) e by (simp add: DoWithResult_def)
  then show ?thesis unfolding if_not_P [OF False] by (simp add: RetryError_Error_def)
qed
qed

theorem DoWithResult_attempts_witness:
  "DoWithResult DefaultRetryConfig (\<lambda>_. None) (\<lambda>_. None)
     (\<lambda>i. (i, if i = 1 then None else Some ''EOF'')) = (2, Inr 1)"
proof -
  let ?fn = "\<lambda>i :: nat. (i, if i = 1 then None else Some ''EOF'')"
  have f: "final DefaultRetryConfig (?fn k) \<longleftrightarrow> k = 1" for k
    by (simp add: final_def DefaultRetryConfig_def)
  show ?thesis
    using DoWithResult_attempts [of "\<lambda>_. None" "\<lambda>_. None" 3 DefaultRetryConfig ?fn] unfolding f
    by (simp add: DefaultRetryConfig_def answer_of_def)
qed

text \<open>
  A wait is never shorter than the initial interval, where that is at most the greatest one,
  and it exceeds the greatest interval by no more than the jitter.
\<close>

theorem computeBackoff_bounds:
  assumes "0 < InitialInterval cfg" and "InitialInterval cfg \<le> MaxInterval cfg"
    and "1 \<le> Multiplier cfg" and "0 < JitterFraction cfg" and "0 \<le> rand" and "rand < 1"
  shows "InitialInterval cfg \<le> computeBackoff cfg rand attempt
    \<and> real_of_int (computeBackoff cfg rand attempt) \<le> real_of_int (MaxInterval cfg) * (1 + JitterFraction cfg)"
proof -
  define base where "base = real_of_int (InitialInterval cfg) * Multiplier cfg ^ attempt"
  define m where "m = min base (real_of_int (MaxInterval cfg))"
  have p: "1 \<le> Multiplier cfg ^ attempt" using assms(3) by simp
  have b: "real_of_int (InitialInterval cfg) \<le> base"
    using mult_left_mono [OF p, of "real_of_int (InitialInterval cfg)"] assms(1) by (simp add: base_def)
  then have m: "0 \<le> m" "m \<le> real_of_int (MaxInterval cfg)" "real_of_int (InitialInterval cfg) \<le> m"
    using assms(1,2) by (auto simp: m_def)
  let ?j = "m + m * JitterFraction cfg * (rand * 2 - 1)"
  have eq: "computeBackoff cfg rand attempt = \<lfloor>max ?j (real_of_int (InitialInterval cfg))\<rfloor>"
    using assms(4) by (auto simp: computeBackoff_def Let_def base_def [symmetric] m_def min_def max_def)
  have "m * JitterFraction cfg * (rand * 2 - 1) \<le> m * JitterFraction cfg * 1"
    using m(1) assms(4,6) by (intro mult_left_mono) auto
  then have "?j \<le> m * (1 + JitterFraction cfg)" by (simp add: algebra_simps)
  also have "\<dots> \<le> real_of_int (MaxInterval cfg) * (1 + JitterFraction cfg)"
    using m(2) assms(4) by (intro mult_right_mono) auto
  finally have j: "?j \<le> real_of_int (MaxInterval cfg) * (1 + JitterFraction cfg)" .
  have "real_of_int (InitialInterval cfg) * 1 \<le> real_of_int (MaxInterval cfg) * (1 + JitterFraction cfg)"
    using assms(1,2,4) by (intro mult_mono) auto
  with j have u: "max ?j (real_of_int (InitialInterval cfg)) \<le> real_of_int (MaxInterval cfg) * (1 + JitterFraction cfg)"
    by simp
  show ?thesis
    unfolding eq using order_trans [OF of_int_floor_le u] by (simp add: le_floor_iff)
qed

theorem computeBackoff_bounds_witness:
  "real_of_int (computeBackoff DefaultRetryConfig (9 / 10) 7) \<le> 5000000000 * (13 / 10)
   \<and> computeBackoff DefaultRetryConfig (9 / 10) 7 > MaxInterval DefaultRetryConfig"
proof -
  have "real_of_int (computeBackoff DefaultRetryConfig (9 / 10) 7) \<le> 5000000000 * (13 / 10)"
    using computeBackoff_bounds [of DefaultRetryConfig "9 / 10" 7] by (simp add: DefaultRetryConfig_def)
  moreover have "computeBackoff DefaultRetryConfig (9 / 10) 7 > MaxInterval DefaultRetryConfig"
    by (simp add: computeBackoff_def DefaultRetryConfig_def Let_def)
  ultimately show ?thesis by blast
qed

end
