(* ===== verification/VersionCompare.thy ===== *)
theory VersionCompare
  imports Strings "HOL-Library.List_Lexorder"
begin

text \<open>
  The comparison of versions for ranges of affected versions
  (\<open>services/shared/pkg/version/version.go\<close>): parsing, comparing, and the membership in a range.
  Strings are ASCII; a letter or digit beyond it would be a separator to the expression that
  splits a version, as it is here.
\<close>

section \<open>Parsing\<close>

datatype part = Alpha string | Numeric nat

record version =
  v_parts :: "part list"
  v_raw :: string

definition is_letter :: "char \<Rightarrow> bool" where
  "is_letter c \<longleftrightarrow> is_upper c \<or> is_lower c"

fun normalizeFrom :: "char option \<Rightarrow> string \<Rightarrow> string" where
  "normalizeFrom prev [] = []"
| "normalizeFrom prev (c # cs) =
     (if (c = CHR ''-'' \<or> c = CHR ''_'')
           \<and> (case prev of None \<Rightarrow> False | Some p \<Rightarrow> is_digit p \<or> is_letter p)
      then CHR ''.'' else c) # normalizeFrom (Some c) cs"

definition normalizeVersion :: "string \<Rightarrow> string" where
  "normalizeVersion s = normalizeFrom None s"

text \<open>
  All matches of the expression \<open>(\d+|[a-zA-Z]+)\<close>: the longest runs of digits and of letters, from
  left to right.
\<close>

function findParts :: "string \<Rightarrow> string list" where
  "findParts [] = []"
| "findParts (c # cs) =
     (if is_digit c then (c # takeWhile is_digit cs) # findParts (dropWhile is_digit cs)
      else if is_letter c then (c # takeWhile is_letter cs) # findParts (dropWhile is_letter cs)
      else findParts cs)"
  by pat_completeness auto
termination
  by (relation "measure length") (simp_all add: le_imp_less_Suc length_dropWhile_le)

definition isNumeric :: "string \<Rightarrow> bool" where
  "isNumeric s \<longleftrightarrow> (\<forall>c \<in> set s. is_digit c)"

text \<open>\<open>strconv.Atoi\<close> of digits gives the greatest integer, and an error that is dropped, out of range.\<close>

definition decimal :: "string \<Rightarrow> nat" where
  "decimal s = foldl (\<lambda>n c. 10 * n + digit_val c) 0 s"

definition atoi :: "string \<Rightarrow> nat" where
  "atoi s = min (decimal s) (2 ^ 63 - 1)"

definition parsePart :: "string \<Rightarrow> part" where
  "parsePart p = (if isNumeric p then Numeric (atoi p) else Alpha (to_lower p))"

definition Parse :: "string \<Rightarrow> version" where
  "Parse s =
     (if s = [] \<or> s = ''*'' \<or> s = ''N/A'' \<or> s = ''n/a'' then \<lparr>v_parts = [], v_raw = s\<rparr>
      else \<lparr>v_parts = map parsePart (filter (\<lambda>p. p \<noteq> []) (findParts (normalizeVersion s))), v_raw = s\<rparr>)"

section \<open>Comparing\<close>

text \<open>One round of the loop: the parts at a position, of which one may be missing.\<close>

definition compareParts :: "part option \<Rightarrow> part option \<Rightarrow> int" where
  "compareParts vp op =
     (case (vp, op) of
        (Some (Alpha a), Some (Alpha b)) \<Rightarrow> if a < b then -1 else if a > b then 1 else 0
      | (Some (Alpha a), None) \<Rightarrow> 1
      | (None, Some (Alpha b)) \<Rightarrow> -1
      | (Some (Alpha a), Some (Numeric n)) \<Rightarrow> -1
      | (Some (Numeric n), Some (Alpha b)) \<Rightarrow> 1
      | _ \<Rightarrow>
          let vn = (case vp of Some (Numeric n) \<Rightarrow> n | _ \<Rightarrow> 0);
              on = (case op of Some (Numeric n) \<Rightarrow> n | _ \<Rightarrow> 0)
          in if vn < on then -1 else if vn > on then 1 else 0)"

fun compareFrom :: "part list \<Rightarrow> part list \<Rightarrow> int" where
  "compareFrom [] [] = 0"
| "compareFrom (v # vs) [] =
     (let c = compareParts (Some v) None in if c \<noteq> 0 then c else compareFrom vs [])"
| "compareFrom [] (w # ws) =
     (let c = compareParts None (Some w) in if c \<noteq> 0 then c else compareFrom [] ws)"
| "compareFrom (v # vs) (w # ws) =
     (let c = compareParts (Some v) (Some w) in if c \<noteq> 0 then c else compareFrom vs ws)"

definition version_compare :: "version \<Rightarrow> version \<Rightarrow> int" where
  "version_compare v w = compareFrom (v_parts v) (v_parts w)"

definition LessThan :: "version \<Rightarrow> version \<Rightarrow> bool" where
  "LessThan v w \<longleftrightarrow> version_compare v w < 0"

definition Equal :: "version \<Rightarrow> version \<Rightarrow> bool" where
  "Equal v w \<longleftrightarrow> version_compare v w = 0"

definition GreaterThan :: "version \<Rightarrow> version \<Rightarrow> bool" where
  "GreaterThan v w \<longleftrightarrow> version_compare v w > 0"

definition LessOrEqual :: "version \<Rightarrow> version \<Rightarrow> bool" where
  "LessOrEqual v w \<longleftrightarrow> version_compare v w \<le> 0"

definition GreaterOrEqual :: "version \<Rightarrow> version \<Rightarrow> bool" where
  "GreaterOrEqual v w \<longleftrightarrow> version_compare v w \<ge> 0"

definition IsWildcard :: "version \<Rightarrow> bool" where
  "IsWildcard v \<longleftrightarrow> v_raw v = ''*''"

definition IsZero :: "version \<Rightarrow> bool" where
  "IsZero v \<longleftrightarrow> v_raw v = [] \<and> v_parts v = []"

definition InRange :: "string \<Rightarrow> string \<Rightarrow> string \<Rightarrow> string \<Rightarrow> string \<Rightarrow> bool" where
  "InRange productVersion startIncluding startExcluding endIncluding endExcluding =
     (let v = Parse productVersion;
          passesStart =
            (if startIncluding \<noteq> [] then GreaterOrEqual v (Parse startIncluding)
             else if startExcluding \<noteq> [] then GreaterThan v (Parse startExcluding)
             else True)
      in if \<not> passesStart then False
         else if endIncluding \<noteq> [] then LessOrEqual v (Parse endIncluding)
         else if endExcluding \<noteq> [] then LessThan v (Parse endExcluding)
         else True)"

definition ExactMatch :: "string \<Rightarrow> string \<Rightarrow> bool" where
  "ExactMatch productVersion targetVersion \<longleftrightarrow>
     targetVersion = ''*'' \<or> Equal (Parse productVersion) (Parse targetVersion)"

section \<open>Parts in order\<close>

text \<open>Letters come before numbers, as a pre-release comes before its release.\<close>

instantiation part :: linorder
begin

fun less_part :: "part \<Rightarrow> part \<Rightarrow> bool" where
  "less_part (Alpha a) (Alpha b) = (a < b)"
| "less_part (Alpha a) (Numeric n) = True"
| "less_part (Numeric m) (Alpha b) = False"
| "less_part (Numeric m) (Numeric n) = (m < n)"

definition less_eq_part :: "part \<Rightarrow> part \<Rightarrow> bool" where
  "p \<le> q \<longleftrightarrow> p < q \<or> p = (q :: part)"

instance
proof
  fix p q r :: part
  show "p < q \<longleftrightarrow> p \<le> q \<and> \<not> q \<le> p"
    by (cases p; cases q) (auto simp: less_eq_part_def)
  show "p \<le> p" by (simp add: less_eq_part_def)
  show "p \<le> q \<Longrightarrow> q \<le> r \<Longrightarrow> p \<le> r"
    by (cases p; cases q; cases r) (auto simp: less_eq_part_def)
  show "p \<le> q \<Longrightarrow> q \<le> p \<Longrightarrow> p = q"
    by (cases p; cases q) (auto simp: less_eq_part_def)
  show "p \<le> q \<or> q \<le> p"
    by (cases p; cases q) (auto simp: less_eq_part_def)
qed

end

text \<open>The sign of a comparison in a linear order.\<close>

definition order_sign :: "'a::linorder \<Rightarrow> 'a \<Rightarrow> int" where
  "order_sign x y = (if x < y then -1 else if x > y then 1 else 0)"

lemma order_sign_simps:
  "order_sign x x = 0"
  "order_sign x y = 0 \<longleftrightarrow> x = y" "order_sign x y \<le> 0 \<longleftrightarrow> x \<le> y" "order_sign x y < 0 \<longleftrightarrow> x < y"
  by (auto simp: order_sign_def)

lemma order_sign_sym: "order_sign y x = - order_sign x y"
  by (auto simp: order_sign_def)

lemma order_sign_Cons:
  "order_sign (x # xs) (y # ys) = (if x = y then order_sign xs ys else order_sign x y)"
  by (auto simp: order_sign_def)

lemma compareParts_both: "compareParts (Some p) (Some q) = order_sign p q"
  by (cases p; cases q) (auto simp: compareParts_def order_sign_def Let_def)

lemma compareFrom_same_length:
  "length vs = length os \<Longrightarrow> compareFrom vs os = order_sign vs os"
  by (induction vs os rule: compareFrom.induct)
    (simp_all add: compareParts_both order_sign_simps order_sign_Cons Let_def)

lemma compareParts_sym: "compareParts q p = - compareParts p q"
  by (auto simp: compareParts_def Let_def split: option.splits part.splits)

lemma compareFrom_sym: "compareFrom ws vs = - compareFrom vs ws"
proof (induction vs ws rule: compareFrom.induct)
  case (2 v vs)
  then show ?case using compareParts_sym [of None "Some v"] by (auto simp: Let_def)
next
  case (3 w ws)
  then show ?case using compareParts_sym [of None "Some w"] by (auto simp: Let_def)
next
  case (4 v vs w ws)
  then show ?case using compareParts_sym [of "Some w" "Some v"] by (auto simp: Let_def)
qed simp

text \<open>Versions of numbers alone: what is missing counts as zero.\<close>

definition pad :: "nat \<Rightarrow> nat list \<Rightarrow> part list" where
  "pad n xs = map Numeric (xs @ replicate (n - length xs) 0)"

lemma pad_simps [simp]:
  "pad (Suc m) (x # xs) = Numeric x # pad m xs" "pad (Suc m) [] = Numeric 0 # pad m []" "pad 0 [] = []"
  by (simp_all add: pad_def)

lemma compareFrom_pad_nil:
  "length xs \<le> n \<Longrightarrow> compareFrom (map Numeric xs) [] = order_sign (pad n xs) (pad n [])"
proof (induction xs arbitrary: n)
  case Nil
  then show ?case by (simp add: order_sign_simps)
next
  case (Cons x xs)
  then obtain m where m: "n = Suc m" "length xs \<le> m" by (cases n) auto
  have "compareParts (Some (Numeric x)) None = order_sign (Numeric x) (Numeric 0)"
    by (simp add: compareParts_def order_sign_def Let_def)
  then show ?case using Cons.IH [OF m(2)] m(1) by (simp add: order_sign_simps order_sign_Cons Let_def)
qed

lemma compareFrom_pad:
  "length xs \<le> n \<Longrightarrow> length ys \<le> n \<Longrightarrow>
     compareFrom (map Numeric xs) (map Numeric ys) = order_sign (pad n xs) (pad n ys)"
proof (induction xs ys arbitrary: n rule: list_induct2')
  case (2 x xs)
  then show ?case using compareFrom_pad_nil [of "x # xs" n] by simp
next
  case (3 y ys)
  then show ?case using compareFrom_pad_nil [of "y # ys" n] compareFrom_sym [of "[]" "map Numeric (y # ys)"]
      order_sign_sym [of "pad n []" "pad n (y # ys)"] by simp
next
  case (4 x xs y ys)
  then obtain m where m: "n = Suc m" by (cases n) auto
  have "compareFrom (map Numeric xs) (map Numeric ys) = order_sign (pad m xs) (pad m ys)"
    using 4 m by simp
  then show ?case by (simp add: m compareParts_both order_sign_simps order_sign_Cons Let_def)
qed (simp add: order_sign_simps)

section \<open>The contract of a comparison\<close>

text \<open>
  What a range needs of the comparison of its bounds, for the values of a carrier: it is
  antisymmetric, and not being greater is transitive. Then membership in a range is convex.
\<close>

locale comparison =
  fixes carrier :: "'v \<Rightarrow> bool" and cmp :: "'v \<Rightarrow> 'v \<Rightarrow> int"
  assumes cmp_sym: "cmp w v = - cmp v w"
    and cmp_trans: "carrier u \<Longrightarrow> carrier v \<Longrightarrow> carrier w \<Longrightarrow> cmp u v \<le> 0 \<Longrightarrow> cmp v w \<le> 0 \<Longrightarrow> cmp u w \<le> 0"
begin

lemma cmp_refl: "cmp v v = 0"
  using cmp_sym [of v v] by simp

lemma cmp_less_trans:
  assumes "carrier u" "carrier v" "carrier w" and "cmp u v < 0" and "cmp v w \<le> 0"
  shows "cmp u w < 0"
proof (rule ccontr)
  assume "\<not> cmp u w < 0"
  then have "cmp w u \<le> 0" using cmp_sym [of w u] by simp
  then have "cmp v u \<le> 0" using cmp_trans [of v w u] assms by simp
  then show False using cmp_sym [of u v] assms(4) by simp
qed

lemma cmp_trans_less:
  assumes "carrier u" "carrier v" "carrier w" and "cmp u v \<le> 0" and "cmp v w < 0"
  shows "cmp u w < 0"
proof (rule ccontr)
  assume "\<not> cmp u w < 0"
  then have "cmp w u \<le> 0" using cmp_sym [of w u] by simp
  then have "cmp w v \<le> 0" using cmp_trans [of w u v] assms by simp
  then show False using cmp_sym [of v w] assms(5) by simp
qed

text \<open>Between two values a bound from below lets pass what lies above the first.\<close>

lemma above_mono:
  "carrier u \<Longrightarrow> carrier v \<Longrightarrow> carrier b \<Longrightarrow> cmp u v \<le> 0 \<Longrightarrow>
     (cmp u b \<ge> 0 \<longrightarrow> cmp v b \<ge> 0) \<and> (cmp u b > 0 \<longrightarrow> cmp v b > 0)"
  using cmp_trans [of b u v] cmp_less_trans [of b u v] cmp_sym [of b u] cmp_sym [of b v] by auto

lemma below_mono:
  "carrier u \<Longrightarrow> carrier v \<Longrightarrow> carrier b \<Longrightarrow> cmp u v \<le> 0 \<Longrightarrow>
     (cmp v b \<le> 0 \<longrightarrow> cmp u b \<le> 0) \<and> (cmp v b < 0 \<longrightarrow> cmp u b < 0)"
  using cmp_trans [of u v b] cmp_trans_less [of u v b] by blast

end

definition numeric :: "version \<Rightarrow> bool" where
  "numeric v \<longleftrightarrow> (\<forall>p \<in> set (v_parts v). \<exists>n. p = Numeric n)"

lemma numeric_parts: "numeric v \<Longrightarrow> \<exists>xs. v_parts v = map Numeric xs"
  unfolding numeric_def by (metis ex_map_conv)

lemma version_compare_sym: "version_compare w v = - version_compare v w"
  unfolding version_compare_def by (rule compareFrom_sym)

interpretation numeric_order: comparison numeric version_compare
proof
  show "version_compare w v = - version_compare v w" for w v by (rule version_compare_sym)
  show "version_compare u w \<le> 0" if "numeric u" "numeric v" "numeric w"
    and "version_compare u v \<le> 0" "version_compare v w \<le> 0" for u v w
  proof -
    note asm = that
    obtain xs ys zs where e: "v_parts u = map Numeric xs" "v_parts v = map Numeric ys" "v_parts w = map Numeric zs"
      using asm(1-3) numeric_parts by metis
    define n where "n = length xs + length ys + length zs"
    have l: "length xs \<le> n" "length ys \<le> n" "length zs \<le> n" by (simp_all add: n_def)
    have "pad n xs \<le> pad n ys" "pad n ys \<le> pad n zs"
      using asm(4,5) by (simp_all add: version_compare_def e compareFrom_pad [OF l(1) l(2)]
          compareFrom_pad [OF l(2) l(3)] order_sign_simps)
    then show ?thesis
      by (simp add: version_compare_def e compareFrom_pad [OF l(1) l(3)] order_sign_simps)
  qed
qed

interpretation same_shape: comparison "\<lambda>v. length (v_parts v) = n" version_compare for n
proof
  show "version_compare w v = - version_compare v w" for w v by (rule version_compare_sym)
  show "version_compare u w \<le> 0" if "length (v_parts u) = n" "length (v_parts v) = n" "length (v_parts w) = n"
    and "version_compare u v \<le> 0" "version_compare v w \<le> 0" for u v w
    using that by (auto simp: version_compare_def compareFrom_same_length order_sign_simps intro: order_trans)
qed

section \<open>Ranges\<close>

lemmas parse_eval = Parse_def normalizeVersion_def parsePart_def isNumeric_def atoi_def decimal_def
  is_digit_def is_letter_def is_upper_def is_lower_def digit_val_def to_lower_def char_lower_def

lemma InRange_between:
  assumes a: "version_compare (Parse a) (Parse b) \<le> 0" and c: "version_compare (Parse b) (Parse c) \<le> 0"
    and n: "numeric (Parse a)" "numeric (Parse b)" "numeric (Parse c)"
    and bounds: "numeric (Parse si)" "numeric (Parse se)" "numeric (Parse ei)" "numeric (Parse ee)"
    and "InRange a si se ei ee" and "InRange c si se ei ee"
  shows "InRange b si se ei ee"
  using assms(10,11) numeric_order.above_mono [OF n(1,2) bounds(1) a] numeric_order.above_mono [OF n(1,2) bounds(2) a]
    numeric_order.below_mono [OF n(2,3) bounds(3) c] numeric_order.below_mono [OF n(2,3) bounds(4) c]
  by (auto simp: InRange_def Let_def GreaterOrEqual_def GreaterThan_def LessOrEqual_def LessThan_def split: if_splits)

text \<open>
  Ranges of numeric versions have no holes: a version between two that a range holds is in the
  range, whichever of the four bounds are given.
\<close>

theorem InRange_convex:
  assumes "\<forall>s \<in> {a, b, c, si, se, ei, ee}. numeric (Parse s)"
    and "LessOrEqual (Parse a) (Parse b)" and "LessOrEqual (Parse b) (Parse c)"
    and "InRange a si se ei ee" and "InRange c si se ei ee"
  shows "InRange b si se ei ee"
  using InRange_between [of a b c si se ei ee] assms by (simp add: LessOrEqual_def)

theorem InRange_convex_witness: "InRange ''1.5'' ''1'' [] [] ''2.0''"
  by (rule InRange_convex [of "''1.0''" "''1.5''" "''1.10''"])
    (simp_all add: parse_eval numeric_def LessOrEqual_def GreaterOrEqual_def LessThan_def InRange_def
      version_compare_def compareParts_def Let_def)

text \<open>
  C15: Between versions with the same number of parts the comparison is the lexicographic order of
  their parts, letters before numbers; between versions of numbers it is that order after filling
  up with zeros to a common length; and always the two directions agree.
\<close>

theorem version_compare_lexicographic:
  "(length (v_parts v) = length (v_parts w) \<longrightarrow> version_compare v w = order_sign (v_parts v) (v_parts w))
   \<and> (v_parts v = map Numeric xs \<and> v_parts w = map Numeric ys \<and> length xs \<le> n \<and> length ys \<le> n
       \<longrightarrow> version_compare v w = order_sign (pad n xs) (pad n ys))
   \<and> version_compare w v = - version_compare v w"
  using compareFrom_pad [of xs n ys] version_compare_sym [of w v]
  by (simp add: version_compare_def compareFrom_same_length)

theorem version_compare_lexicographic_witness:
  "version_compare (Parse ''1.2'') (Parse ''1.10'') = -1"
  using version_compare_lexicographic [of "Parse ''1.2''" "Parse ''1.10''" "[1, 2]" "[1, 10]" 2]
  by (simp add: parse_eval order_sign_def)

text \<open>
  Mixed versions are in no order: 1 is less than 1.a, and 1.a is less than 1.0, which equals 1.
  The range from 1.a to below 1.1 holds 1.0 and not 1, which equals it.
\<close>

theorem version_compare_cycle:
  "LessThan (Parse ''1'') (Parse ''1.a'') \<and> LessThan (Parse ''1.a'') (Parse ''1.0'')
   \<and> Equal (Parse ''1.0'') (Parse ''1'')
   \<and> InRange ''1.0'' ''1.a'' [] [] ''1.1'' \<and> \<not> InRange ''1'' ''1.a'' [] [] ''1.1''"
  by (simp add: parse_eval LessThan_def Equal_def InRange_def GreaterOrEqual_def Let_def
      version_compare_def compareParts_def)

text \<open>
  An upper bound that is a wildcard admits nothing but versions of zeros, although "*" is
  documented to stand for all versions: it is parsed to a version without parts.
\<close>

theorem InRange_wildcard_end:
  assumes "v_parts (Parse s) = map Numeric ns"
  shows "InRange s lo [] ''*'' hi \<longleftrightarrow> (\<forall>n \<in> set ns. n = 0) \<and> InRange s lo [] [] []"
proof -
  have star: "v_parts (Parse ''*'') = []" by (simp add: Parse_def)
  have "compareFrom (map Numeric ms) [] \<le> 0 \<longleftrightarrow> (\<forall>n \<in> set ms. n = 0)" for ms
    by (induction ms) (auto simp: compareParts_def Let_def)
  then have "LessOrEqual (Parse s) (Parse ''*'') \<longleftrightarrow> (\<forall>n \<in> set ns. n = 0)"
    by (simp add: LessOrEqual_def version_compare_def star assms)
  then show ?thesis by (auto simp: InRange_def Let_def)
qed

theorem InRange_wildcard_end_witness: "\<not> InRange ''1.2'' [] [] ''*'' []"
  using InRange_wildcard_end [of "''1.2''" "[1, 2]" "[]" "[]"] by (simp add: parse_eval)

end
