(* ===== verification/Coarse.thy ===== *)
theory Coarse
  imports Strings "HOL-Library.List_Lexorder" "HOL-Library.Char_ord"
begin

text \<open>
  Coarse versions (\<open>services/shared/pkg/ecosystem/impl\<close>): strings of a fixed shape that a database
  can compare, made from the epoch and the first three numbers of a version. Every ecosystem
  promises that they do not decrease along its own order of versions (\<open>ecosystem.go\<close>).
  A regular expression that matches one character is the predicate it states.
\<close>

section \<open>Numbers as text\<close>

text \<open>\<open>%02d\<close> and \<open>%08d\<close>, for numbers with no more digits than that.\<close>

fun padded :: "nat \<Rightarrow> nat \<Rightarrow> string" where
  "padded 0 n = []"
| "padded (Suc w) n = char_of (48 + n div 10 ^ w) # padded w (n mod 10 ^ w)"

definition isDecimal :: "string \<Rightarrow> bool" where
  "isDecimal s \<longleftrightarrow> s \<noteq> [] \<and> (\<forall>c \<in> set s. is_digit c)"

definition decimal_value :: "string \<Rightarrow> int" where
  "decimal_value s = foldl (\<lambda>n c. 10 * n + int (digit_val c)) 0 s"

text \<open>\<open>big.Int.SetString(s, 10)\<close>: digits after an optional sign.\<close>

definition SetString :: "string \<Rightarrow> int option" where
  "SetString s =
     (case s of
        [] \<Rightarrow> None
      | c # ds \<Rightarrow>
          if c = CHR ''+'' then if isDecimal ds then Some (decimal_value ds) else None
          else if c = CHR ''-'' then if isDecimal ds then Some (- decimal_value ds) else None
          else if isDecimal s then Some (decimal_value s) else None)"

section \<open>The common shape\<close>

definition maxCoarseEpoch :: int where
  "maxCoarseEpoch = 99"

definition maxCoarsePart :: int where
  "maxCoarsePart = 99999999"

definition minCoarseVersion :: string where
  "minCoarseVersion = ''00:00000000.00000000.00000000''"

definition maxCoarseVersion :: string where
  "maxCoarseVersion = ''99:99999999.99999999.99999999''"

text \<open>The loop over the parts: \<open>n\<close> are still to be filled.\<close>

fun coarseParts :: "nat \<Rightarrow> int list \<Rightarrow> string list" where
  "coarseParts 0 parts = []"
| "coarseParts (Suc n) [] = replicate (Suc n) ''00000000''"
| "coarseParts (Suc n) (part # parts) =
     (if part < 0 then replicate (Suc n) ''00000000''
      else if part > maxCoarsePart then replicate (Suc n) ''99999999''
      else padded 8 (nat part) # coarseParts n parts)"

definition coarseFromInts :: "int \<Rightarrow> int list \<Rightarrow> string" where
  "coarseFromInts epoch parts =
     (if epoch < 0 then ''00:00000000.00000000.00000000''
      else if epoch > maxCoarseEpoch then ''99:99999999.99999999.99999999''
      else padded 2 (nat epoch) @ '':'' @ join ''.'' (coarseParts 3 parts))"

section \<open>From a version to its numbers\<close>

fun splitAt :: "(char \<Rightarrow> bool) \<Rightarrow> string \<Rightarrow> string \<Rightarrow> string list" where
  "splitAt sep [] cur = [rev cur]"
| "splitAt sep (c # cs) cur = (if sep c then rev cur # splitAt sep cs [] else splitAt sep cs (c # cur))"

text \<open>The runs of digits and of other characters, in turn.\<close>

function implicitSplit :: "string \<Rightarrow> string list" where
  "implicitSplit [] = []"
| "implicitSplit (c # cs) =
     (let same = (\<lambda>d. is_digit d = is_digit c)
      in (c # takeWhile same cs) # implicitSplit (dropWhile same cs))"
  by pat_completeness auto
termination
  by (relation "measure length") (simp_all add: le_imp_less_Suc length_dropWhile_le)

record coarse_versioner =
  cv_separators :: "char \<Rightarrow> bool"
  cv_truncate :: "(char \<Rightarrow> bool) option"
  cv_implicit_split :: bool
  cv_empty_as :: "string option"

text \<open>The leading numbers among the parts, at most three.\<close>

fun leadingNumbers :: "nat \<Rightarrow> string list \<Rightarrow> int list" where
  "leadingNumbers 0 ps = []"
| "leadingNumbers (Suc n) [] = []"
| "leadingNumbers (Suc n) (p # ps) =
     (if \<not> isDecimal p then [] else decimal_value p # leadingNumbers n ps)"

definition versionParts :: "coarse_versioner \<Rightarrow> string \<Rightarrow> string list" where
  "versionParts v version =
     (let main = (case cv_truncate v of None \<Rightarrow> version | Some stop \<Rightarrow> takeWhile (\<lambda>c. \<not> stop c) version);
          parts = splitAt (cv_separators v) main [];
          parts1 = (if cv_implicit_split v
             then concat (map (\<lambda>p. if p = [] then [[]] else implicitSplit p) parts) else parts)
      in (case cv_empty_as v of
            Some e \<Rightarrow> map (\<lambda>p. if p = [] then e else p) parts1
          | None \<Rightarrow> filter (\<lambda>p. p \<noteq> []) parts1))"

definition Format :: "coarse_versioner \<Rightarrow> int \<Rightarrow> string \<Rightarrow> string" where
  "Format v epoch version =
     (if version = ''0'' then coarseFromInts epoch [0, 0, 0]
      else coarseFromInts epoch (leadingNumbers 3 (versionParts v version)))"

section \<open>The ecosystems\<close>

definition semverCoarseVersioner :: coarse_versioner where
  "semverCoarseVersioner = \<lparr>cv_separators = (\<lambda>c. c = CHR ''.''),
     cv_truncate = Some (\<lambda>c. c = CHR ''-'' \<or> c = CHR ''+''), cv_implicit_split = True, cv_empty_as = None\<rparr>"

definition semver_Coarse :: "string \<Rightarrow> string + string" where
  "semver_Coarse version = Inr (Format semverCoarseVersioner 0 (trim_prefix version ''v''))"

definition nuget_Coarse :: "string \<Rightarrow> string + string" where
  "nuget_Coarse version = Inr (Format semverCoarseVersioner 0 (trim_prefix version ''v''))"

definition pub_Coarse :: "string \<Rightarrow> string + string" where
  "pub_Coarse version = Inr (Format semverCoarseVersioner 0 (trim_prefix version ''v''))"

definition hackage_Coarse :: "string \<Rightarrow> string + string" where
  "hackage_Coarse version0 =
     (let version = trim_prefix version0 ''v'' in
      if \<exists>c \<in> set version. \<not> is_digit c \<and> c \<noteq> CHR ''.'' then Inl ''version contains invalid characters''
      else Inr (Format semverCoarseVersioner 0 version))"

definition mavenCoarseVersioner :: coarse_versioner where
  "mavenCoarseVersioner = \<lparr>cv_separators = (\<lambda>c. c = CHR ''.''),
     cv_truncate = Some (\<lambda>c. c = CHR ''-''), cv_implicit_split = True, cv_empty_as = Some ''0''\<rparr>"

definition maven_Coarse :: "string \<Rightarrow> string + string" where
  "maven_Coarse version = Inr (Format mavenCoarseVersioner 0 version)"

definition rubyGemsCoarseVersioner :: coarse_versioner where
  "rubyGemsCoarseVersioner = \<lparr>cv_separators = (\<lambda>c. c = CHR ''.''),
     cv_truncate = Some (\<lambda>c. c = CHR ''-''), cv_implicit_split = True, cv_empty_as = Some []\<rparr>"

definition rubyGems_Coarse :: "string \<Rightarrow> string + string" where
  "rubyGems_Coarse version = Inr (Format rubyGemsCoarseVersioner 0 version)"

definition is_alnum :: "char \<Rightarrow> bool" where
  "is_alnum c \<longleftrightarrow> is_digit c \<or> is_upper c \<or> is_lower c"

definition rpmCoarseVersioner :: coarse_versioner where
  "rpmCoarseVersioner = \<lparr>
     cv_separators = (\<lambda>c. \<not> is_alnum c \<and> c \<notin> {CHR ''~'', CHR ''^'', CHR ''-''}),
     cv_truncate = Some (\<lambda>c. c \<in> {CHR ''~'', CHR ''^'', CHR ''-''}),
     cv_implicit_split = True, cv_empty_as = None\<rparr>"

text \<open>\<open>strings.Cut\<close> at a character.\<close>

definition strings_cut :: "string \<Rightarrow> char \<Rightarrow> string \<times> string \<times> bool" where
  "strings_cut s sep =
     (if sep \<in> set s
      then (takeWhile (\<lambda>c. c \<noteq> sep) s, tl (dropWhile (\<lambda>c. c \<noteq> sep) s), True)
      else (s, [], False))"

lemma strings_cut_append:
  "c \<notin> set s \<Longrightarrow> strings_cut (s @ c # r) c = (s, r, True)"
  "c \<notin> set s \<Longrightarrow> strings_cut s c = (s, [], False)"
  by (induction s) (auto simp: strings_cut_def)

definition rpm_Coarse :: "string \<Rightarrow> string + string" where
  "rpm_Coarse version =
     (case strings_cut version (CHR '':'') of
        (epochStr, rest, hasColon) \<Rightarrow>
          if \<not> hasColon then Inr (Format rpmCoarseVersioner 0 version)
          else if \<not> isDecimal epochStr then Inr (Format rpmCoarseVersioner 0 version)
          else
            let trimmed = dropWhile (\<lambda>c. c = CHR ''0'') epochStr;
                epochStr1 = (if trimmed = [] then ''0'' else trimmed)
            in if length epochStr1 > 2 then Inr ''99:99999999.99999999.99999999''
               else Inr (Format rpmCoarseVersioner (decimal_value epochStr1) rest))"

definition cran_Coarse :: "string \<Rightarrow> string + string" where
  "cran_Coarse version0 =
     (let version = (if version0 = [] then ''0'' else version0);
          parts = splitAt (\<lambda>c. c = CHR ''.'') (map (\<lambda>c. if c = CHR ''-'' then CHR ''.'' else c) version) [];
          comps = map SetString parts
      in if None \<in> set comps then Inl ''invalid version''
         else Inr (coarseFromInts 0 (map the comps)))"

text \<open>
  A Debian version: alternating numbers and other strings. A separator other than a dot ends the
  loop; one that sorts after a dot makes the next number overflow.
\<close>

definition dpkgOverflows :: "string \<Rightarrow> bool" where
  "dpkgOverflows sep =
     (let firstChar = hd sep in
      \<not> (is_upper firstChar \<or> is_lower firstChar \<or> of_char firstChar < (46 :: nat) \<or> firstChar = CHR ''~'')
      \<and> \<not> has_prefix sep ''.~'')"

fun dpkgNumbers :: "string list \<Rightarrow> int list" where
  "dpkgNumbers [] = []"
| "dpkgNumbers [p] = (if \<not> isDecimal p then [] else [decimal_value p])"
| "dpkgNumbers (p # sep # ps) =
     (if \<not> isDecimal p then []
      else decimal_value p #
        (if sep = ''.'' then dpkgNumbers ps
         else if dpkgOverflows sep then [100000000] else []))"

definition dpkg_Coarse :: "string \<Rightarrow> string + string" where
  "dpkg_Coarse version0 =
     (let version = trim_space version0 in
      case strings_cut version (CHR '':'') of
        (epochStr, rest, hasColon) \<Rightarrow>
          (case (if hasColon then SetString epochStr else Some 0) of
             None \<Rightarrow> Inl (''invalid epoch: '' @ epochStr)
           | Some epoch \<Rightarrow>
               let version1 = (if hasColon then rest else version);
                   version2 = (if CHR ''-'' \<in> set version1
                      then rev (tl (dropWhile (\<lambda>c. c \<noteq> CHR ''-'') (rev version1))) else version1);
                   parts = implicitSplit version2;
                   comps = (if parts \<noteq> [] \<and> \<not> isDecimal (hd parts)
                      then if has_prefix (hd parts) ''~'' then [] else [100000000]
                      else dpkgNumbers parts)
               in Inr (coarseFromInts epoch comps)))"

fun packagistNumbers :: "nat \<Rightarrow> string list \<Rightarrow> int list" where
  "packagistNumbers 0 ps = []"
| "packagistNumbers (Suc n) [] = []"
| "packagistNumbers (Suc n) (p # ps) =
     (if has_prefix p ''p'' then 100000000 # packagistNumbers n ps
      else if \<not> isDecimal p then []
      else decimal_value p # packagistNumbers n ps)"

definition packagist_Coarse :: "string \<Rightarrow> string + string" where
  "packagist_Coarse version0 =
     (if CHR ''#'' \<in> set version0 then Inl ''packagist version may not contain #''
      else
        let version = trim_prefix (trim_prefix version0 ''v'') ''V'';
            sepParts = splitAt (\<lambda>c. c \<in> {CHR ''-'', CHR ''_'', CHR ''+'', CHR ''.''}) version [];
            parts = concat (map (\<lambda>sp. if sp = [] then [[]] else implicitSplit sp) sepParts)
        in Inr (coarseFromInts 0 (packagistNumbers 3 parts)))"

section \<open>Text in the order of numbers\<close>

lemma append_less_iff:
  "length xs = length ys \<Longrightarrow> xs @ us < ys @ (vs :: 'a::linorder list) \<longleftrightarrow> xs < ys \<or> xs = ys \<and> us < vs"
  by (induction xs ys rule: list_induct2) auto

lemma append_le_iff:
  "length xs = length ys \<Longrightarrow> xs @ us \<le> ys @ (vs :: 'a::linorder list) \<longleftrightarrow> xs < ys \<or> xs = ys \<and> us \<le> vs"
  by (induction xs ys rule: list_induct2) auto

lemma length_padded [simp]: "length (padded w n) = w"
  by (induction w arbitrary: n) simp_all

lemma digit_less:
  assumes "a < 10" and "b < 10"
  shows "char_of (48 + a :: nat) < char_of (48 + b) \<longleftrightarrow> a < b" "char_of (48 + a :: nat) = char_of (48 + b) \<longleftrightarrow> a = b"
proof -
  have e: "of_char (char_of (48 + a :: nat)) = 48 + a" "of_char (char_of (48 + b :: nat)) = 48 + b"
    using assms by simp_all
  show "char_of (48 + a :: nat) < char_of (48 + b) \<longleftrightarrow> a < b"
    by (simp only: less_char_def e add_less_cancel_left)
  show "char_of (48 + a :: nat) = char_of (48 + b) \<longleftrightarrow> a = b"
    using e by (metis (no_types) add_left_cancel)
qed

lemma div_mod_less:
  fixes m n k :: nat
  assumes "0 < k"
  shows "m < n \<longleftrightarrow> m div k < n div k \<or> m div k = n div k \<and> m mod k < n mod k"
proof (cases "m div k = n div k")
  case True
  then have "m = k * (n div k) + m mod k" "n = k * (n div k) + n mod k" by (metis mult_div_mod_eq)+
  then have "m < n \<longleftrightarrow> m mod k < n mod k" by linarith
  then show ?thesis using True by simp
next
  case False
  have "m < n \<longleftrightarrow> m div k < n div k"
  proof
    assume "m < n"
    then have "m div k \<le> n div k" by (intro div_le_mono) simp
    with False show "m div k < n div k" by simp
  next
    assume "m div k < n div k"
    then show "m < n" using div_le_mono [of n m k] by (meson leD leI)
  qed
  with False show ?thesis by simp
qed

lemma padded_order:
  "m < 10 ^ w \<Longrightarrow> n < 10 ^ w \<Longrightarrow> (padded w m < padded w n \<longleftrightarrow> m < n) \<and> (padded w m = padded w n \<longleftrightarrow> m = n)"
proof (induction w arbitrary: m n)
  case 0
  then show ?case by simp
next
  case (Suc w)
  have d: "m div 10 ^ w < 10" "n div 10 ^ w < 10"
    using Suc.prems by (simp_all add: less_mult_imp_div_less mult.commute)
  have r: "m mod 10 ^ w < 10 ^ w" "n mod 10 ^ w < 10 ^ w" by simp_all
  have less: "m < n \<longleftrightarrow> m div 10 ^ w < n div 10 ^ w
      \<or> m div 10 ^ w = n div 10 ^ w \<and> m mod 10 ^ w < n mod 10 ^ w"
    by (rule div_mod_less) simp
  have eq: "m = n \<longleftrightarrow> m div 10 ^ w = n div 10 ^ w \<and> m mod 10 ^ w = n mod 10 ^ w"
    by (metis mult_div_mod_eq)
  note IH = Suc.IH [OF r]
  have "padded (Suc w) m < padded (Suc w) n \<longleftrightarrow> m < n"
    unfolding padded.simps Cons_less_Cons digit_less [OF d] conjunct1 [OF IH] using less by blast
  moreover have "padded (Suc w) m = padded (Suc w) n \<longleftrightarrow> m = n"
    unfolding padded.simps list.inject digit_less [OF d] conjunct2 [OF IH] using eq by blast
  ultimately show ?case by blast
qed

lemmas padded_less = padded_order [THEN conjunct1]
lemmas padded_eq = padded_order [THEN conjunct2]

section \<open>The numbers a coarse version shows\<close>

fun clamp :: "nat \<Rightarrow> int list \<Rightarrow> nat list" where
  "clamp 0 parts = []"
| "clamp (Suc n) [] = replicate (Suc n) 0"
| "clamp (Suc n) (p # parts) =
     (if p < 0 then replicate (Suc n) 0
      else if p > maxCoarsePart then replicate (Suc n) (nat maxCoarsePart)
      else nat p # clamp n parts)"

lemma char_of_digit: "char_of (48 :: nat) = CHR ''0''" "char_of (57 :: nat) = CHR ''9''"
  by code_simp+

lemma padded_zeros: "padded w 0 = replicate w (CHR ''0'')"
  by (induction w) (simp_all add: char_of_digit)

lemma padded_nines: "padded w (10 ^ w - 1) = replicate w (CHR ''9'')"
proof (induction w)
  case (Suc w)
  have e: "10 ^ Suc w - 1 = (10 ^ w - 1) + 9 * (10 ^ w :: nat)" by (simp add: algebra_simps)
  have b: "10 ^ w - 1 < (10 ^ w :: nat)" by simp
  have "(10 ^ Suc w - 1) div 10 ^ w = (9 :: nat)" "(10 ^ Suc w - 1) mod 10 ^ w = (10 ^ w - 1 :: nat)"
    unfolding e using b by (simp_all only: div_mult_self1 mod_mult_self1 div_less mod_less)
  then show ?case
    using Suc by (simp only: padded.simps replicate_Suc) (simp add: char_of_digit)
qed simp

lemma replicate_literals: "replicate 8 x = [x, x, x, x, x, x, x, x]" "replicate 3 x = [x, x, x]" "replicate 2 x = [x, x]"
  by (simp_all add: numeral_eq_Suc)

lemma padded_bounds: "padded 8 0 = ''00000000''" "padded 8 (nat maxCoarsePart) = ''99999999''"
  "padded 2 0 = ''00''" "padded 2 99 = ''99''"
  using padded_zeros [of 8] padded_zeros [of 2] padded_nines [of 8] padded_nines [of 2]
  by (simp_all add: maxCoarsePart_def replicate_literals)

lemma coarseParts_clamp: "coarseParts n ps = map (padded 8) (clamp n ps)"
  by (induction n ps rule: coarseParts.induct) (simp_all add: padded_bounds map_replicate_const)

lemma length_clamp [simp]: "length (clamp n ps) = n"
  by (induction n ps rule: clamp.induct) simp_all

lemma clamp_small: "k \<in> set (clamp n ps) \<Longrightarrow> k < 10 ^ 8"
  by (induction n ps rule: clamp.induct) (auto simp: maxCoarsePart_def split: if_splits)

definition coarse_key :: "int \<Rightarrow> int list \<Rightarrow> nat list" where
  "coarse_key epoch parts =
     (if epoch < 0 then [0, 0, 0, 0]
      else if epoch > maxCoarseEpoch then 99 # replicate 3 (nat maxCoarsePart)
      else nat epoch # clamp 3 parts)"

definition render :: "nat list \<Rightarrow> string" where
  "render k = padded 2 (hd k) @ '':'' @ join ''.'' (map (padded 8) (tl k))"

lemma coarseFromInts_render: "coarseFromInts e ps = render (coarse_key e ps)"
  by (simp add: coarseFromInts_def coarse_key_def render_def coarseParts_clamp padded_bounds replicate_literals)

lemma three: "length xs = 3 \<Longrightarrow> \<exists>a b c. xs = [a, b, c]"
  by (cases xs; cases "tl xs"; cases "tl (tl xs)") auto

lemma coarse_key_shape:
  obtains e a b c where "coarse_key epoch parts = [e, a, b, c]" "e < 10 ^ 2" "a < 10 ^ 8" "b < 10 ^ 8" "c < 10 ^ 8"
proof -
  obtain a b c where abc: "clamp 3 parts = [a, b, c]" using three [of "clamp 3 parts"] by auto
  have small: "a < 10 ^ 8" "b < 10 ^ 8" "c < 10 ^ 8" using clamp_small [of _ 3 parts] abc by auto
  consider "epoch < 0" | "maxCoarseEpoch < epoch" "\<not> epoch < 0" | "\<not> epoch < 0" "\<not> maxCoarseEpoch < epoch"
    by linarith
  then show thesis
  proof cases
    case 1
    then have "coarse_key epoch parts = [0, 0, 0, 0]" by (simp add: coarse_key_def)
    then show thesis by (rule that) simp_all
  next
    case 2
    then have "coarse_key epoch parts = [99, 99999999, 99999999, 99999999]"
      by (simp add: coarse_key_def maxCoarsePart_def replicate_literals)
    then show thesis by (rule that) simp_all
  next
    case 3
    then have "coarse_key epoch parts = [nat epoch, a, b, c]" by (simp add: coarse_key_def abc)
    then show thesis
      by (rule that) (use 3 small in \<open>simp_all add: maxCoarseEpoch_def\<close>)
  qed
qed

text \<open>The text is in the order of the numbers it shows.\<close>

lemma coarse_order: "coarseFromInts e ps \<le> coarseFromInts e' ps' \<longleftrightarrow> coarse_key e ps \<le> coarse_key e' ps'"
proof -
  obtain f a b c where k: "coarse_key e ps = [f, a, b, c]" "f < 10 ^ 2" "a < 10 ^ 8" "b < 10 ^ 8" "c < 10 ^ 8"
    by (rule coarse_key_shape)
  obtain f' a' b' c' where k': "coarse_key e' ps' = [f', a', b', c']" "f' < 10 ^ 2" "a' < 10 ^ 8" "b' < 10 ^ 8" "c' < 10 ^ 8"
    by (rule coarse_key_shape)
  have "padded 8 c \<le> padded 8 c' \<longleftrightarrow> c \<le> c'"
    using padded_less [OF k'(5) k(5)] by (simp add: not_less [symmetric])
  then show ?thesis
    unfolding coarseFromInts_render k(1) k'(1) render_def
    by (simp add: append_le_iff
        padded_less [OF k(2) k'(2)] padded_eq [OF k(2) k'(2)] padded_less [OF k(3) k'(3)] padded_eq [OF k(3) k'(3)]
        padded_less [OF k(4) k'(4)] padded_eq [OF k(4) k'(4)] padded_eq [OF k(5) k'(5)]
        del: padded.simps) (auto simp: le_less)
qed

section \<open>The contract\<close>

text \<open>
  What a database that stores the coarse versions of the ends of a range relies on: along the
  order of the ecosystem the coarse version does not decrease.
\<close>

locale coarse_contract =
  fixes le :: "'v \<Rightarrow> 'v \<Rightarrow> bool" and coarse :: "'v \<Rightarrow> string + string"
  assumes coarse_mono: "le v w \<Longrightarrow> coarse v = Inr s \<Longrightarrow> coarse w = Inr t \<Longrightarrow> s \<le> t"
begin

lemma coarse_between:
  "le a v \<Longrightarrow> le v b \<Longrightarrow> coarse a = Inr r \<Longrightarrow> coarse v = Inr s \<Longrightarrow> coarse b = Inr t \<Longrightarrow> r \<le> s \<and> s \<le> t"
  using coarse_mono by blast

lemma coarse_apart: "coarse v = Inr s \<Longrightarrow> coarse w = Inr t \<Longrightarrow> s < t \<Longrightarrow> \<not> le w v"
  using coarse_mono by fastforce

end

text \<open>The first three numbers after the epoch, zero where there are fewer.\<close>

definition numbers :: "int \<Rightarrow> int list \<Rightarrow> int list" where
  "numbers e ps = e # take 3 (ps @ replicate 3 0)"

lemma clamp_fill: "clamp n (take n (ps @ replicate n 0)) = clamp n ps"
proof (induction n ps rule: clamp.induct)
  case (2 n)
  have "clamp m (replicate m 0) = replicate m 0" for m
    by (induction m) (simp_all add: maxCoarsePart_def)
  from this [of "Suc n"] show ?case by simp
next
  case (3 n p ps)
  have "take n (ps @ replicate (Suc n) 0) = take n (ps @ replicate n 0)"
    by (simp add: replicate_append_same [symmetric])
  then show ?case using 3 by simp
qed simp

lemma clamp_le_max: "clamp n ps \<le> replicate n (nat maxCoarsePart)"
proof (induction n ps rule: clamp.induct)
  case (2 n)
  have "replicate m (0 :: nat) \<le> replicate m (nat maxCoarsePart)" for m by (induction m) auto
  from this [of "Suc n"] show ?case by simp
next
  case (3 n p ps)
  have "replicate m (0 :: nat) \<le> replicate m (nat maxCoarsePart)" for m by (induction m) auto
  from this [of "Suc n"] show ?case using 3 by (auto simp: nat_less_eq_zless)
qed simp

lemma zeros_le: "length k = n \<Longrightarrow> replicate n (0 :: nat) \<le> k"
  by (induction k arbitrary: n) auto

lemma clamp_mono:
  "length ps = n \<Longrightarrow> length qs = n \<Longrightarrow> ps \<le> qs \<Longrightarrow> clamp n ps \<le> clamp n qs"
proof (induction n arbitrary: ps qs)
  case 0
  then show ?case by simp
next
  case (Suc n)
  then obtain p ps' q qs' where e: "ps = p # ps'" "qs = q # qs'" by (meson length_Suc_conv)
  show ?case
  proof (cases "p = q")
    case True
    then show ?thesis using Suc e by auto
  next
    case False
    then have "p < q" using Suc.prems(3) e by auto
    then show ?thesis
      using zeros_le [of "clamp (Suc n) (q # qs')" "Suc n"] clamp_le_max [of "Suc n" "p # ps'"]
      by (auto simp: e nat_less_eq_zless)
  qed
qed

lemma coarse_key_mono: "numbers e ps \<le> numbers e' ps' \<Longrightarrow> coarse_key e ps \<le> coarse_key e' ps'"
proof -
  assume le: "numbers e ps \<le> numbers e' ps'"
  have m: "clamp 3 ps \<le> clamp 3 ps'" if "e = e'"
    using clamp_mono [of "take 3 (ps @ replicate 3 0)" 3 "take 3 (ps' @ replicate 3 0)"] le that
    unfolding numbers_def clamp_fill by simp
  have z: "[0, 0, 0] \<le> clamp 3 qs" for qs using zeros_le [of "clamp 3 qs" 3] by (simp add: replicate_literals)
  have t: "clamp 3 qs \<le> replicate 3 (nat maxCoarsePart)" for qs by (rule clamp_le_max)
  have "e < e' \<or> e = e'" using le by (auto simp: numbers_def)
  then show ?thesis
    using m z t by (auto simp: coarse_key_def maxCoarseEpoch_def nat_less_eq_zless)
qed

interpretation numbers_coarse: coarse_contract
  "\<lambda>v w. numbers (fst v) (snd v) \<le> numbers (fst w) (snd w)" "\<lambda>v. Inr (coarseFromInts (fst v) (snd v))"
  by unfold_locales (auto simp: coarse_order coarse_key_mono)

section \<open>Dotted versions\<close>

lemma splitAt_append:
  "\<forall>c \<in> set p. \<not> sep c \<Longrightarrow> splitAt sep (p @ s) cur = splitAt sep s (rev p @ cur)"
  by (induction p arbitrary: cur) simp_all

lemma splitAt_join:
  "ps \<noteq> [] \<Longrightarrow> \<forall>p \<in> set ps. \<forall>c \<in> set p. \<not> sep c \<Longrightarrow> sep (CHR ''.'') \<Longrightarrow> splitAt sep (join ''.'' ps) [] = ps"
proof (induction "''.''" ps rule: join.induct)
  case (2 s)
  then show ?case using splitAt_append [of s sep "[]" "[]"] by simp
next
  case (3 s t ss)
  then show ?case using splitAt_append [of s sep "''.'' @ join ''.'' (t # ss)" "[]"] by simp
qed simp

lemma set_join: "set (join ''.'' ps) \<subseteq> insert (CHR ''.'') (\<Union>p \<in> set ps. set p)"
  by (induction "''.''" ps rule: join.induct) auto

lemma isDecimal_digit: "isDecimal p \<Longrightarrow> c \<in> set p \<Longrightarrow> is_digit c"
  by (simp add: isDecimal_def)

text \<open>Digits are none of the characters that the ecosystems treat specially.\<close>

lemma digit_ordinary:
  "is_digit c \<Longrightarrow> c \<notin> {CHR ''.'', CHR ''-'', CHR ''+'', CHR '':'', CHR ''#'', CHR ''_'', CHR ''~'', CHR ''^'',
     CHR ''v'', CHR ''V'', CHR ''p''}"
  by (auto simp: is_digit_def)

lemma digit_not_space: "is_digit c \<Longrightarrow> \<not> is_space c"
  by (auto simp: is_digit_def is_space_def Let_def)

lemma implicitSplit_digits: "isDecimal p \<Longrightarrow> implicitSplit p = [p]"
  by (cases p) (auto simp: isDecimal_def takeWhile_eq_all_conv [THEN iffD2] dropWhile_eq_Nil_conv [THEN iffD2])

lemma implicitSplit_dot:
  assumes "isDecimal p" "is_digit d"
  shows "implicitSplit (p @ CHR ''.'' # d # s) = p # ''.'' # implicitSplit (d # s)"
proof -
  obtain c cs where p: "p = c # cs" using assms(1) by (cases p) (auto simp: isDecimal_def)
  have nd: "\<not> is_digit (CHR ''.'')" using digit_ordinary by blast
  have cs: "\<forall>x \<in> set cs. is_digit x" "is_digit c" using assms(1) p by (auto simp: isDecimal_def)
  have "takeWhile (\<lambda>d. is_digit d) (cs @ CHR ''.'' # d # s) = cs"
    "dropWhile (\<lambda>d. is_digit d) (cs @ CHR ''.'' # d # s) = CHR ''.'' # d # s"
    using cs nd by (simp_all add: takeWhile_append dropWhile_append)
  then show ?thesis using cs nd assms(2) by (simp add: p Let_def)
qed

lemma join_head_digit:
  assumes "ps \<noteq> []" "\<forall>p \<in> set ps. isDecimal p"
  obtains d s where "join ''.'' ps = d # s" "is_digit d"
proof (cases ps)
  case (Cons p qs)
  then obtain d p' where "p = d # p'" "is_digit d" using assms by (cases p) (auto simp: isDecimal_def)
  then show thesis using that Cons by (cases qs) auto
qed (use assms in simp)

lemma dpkgNumbers_join:
  "ps \<noteq> [] \<Longrightarrow> \<forall>p \<in> set ps. isDecimal p \<Longrightarrow>
    dpkgNumbers (implicitSplit (join ''.'' ps)) = map decimal_value ps"
proof (induction "''.''" ps rule: join.induct)
  case (2 s)
  then show ?case by (simp add: implicitSplit_digits)
next
  case (3 s t ss)
  obtain d r where r: "join ''.'' (t # ss) = d # r" "is_digit d"
    by (rule join_head_digit [of "t # ss"]) (use 3 in auto)
  then show ?case using 3 by (simp add: implicitSplit_dot)
qed simp

lemma implicitSplit_head:
  assumes "ps \<noteq> []" "\<forall>p \<in> set ps. isDecimal p"
  shows "isDecimal (hd (implicitSplit (join ''.'' ps)))"
proof -
  obtain d s where "join ''.'' ps = d # s" "is_digit d" by (rule join_head_digit [OF assms])
  then show ?thesis by (auto simp: isDecimal_def Let_def dest: set_takeWhileD)
qed

lemma implicitSplit_each:
  "\<forall>p \<in> set ps. isDecimal p \<Longrightarrow> concat (map (\<lambda>p. if p = [] then [[]] else implicitSplit p) ps) = ps"
  by (induction ps) (auto simp: implicitSplit_digits)

lemma coarseParts_take: "coarseParts n (take n ps) = coarseParts n ps"
  by (induction n ps rule: coarseParts.induct) simp_all

lemma leadingNumbers_decimal:
  "\<forall>p \<in> set ps. isDecimal p \<Longrightarrow> leadingNumbers n ps = take n (map decimal_value ps)"
  by (induction n ps rule: leadingNumbers.induct) simp_all

lemma packagistNumbers_decimal:
  "\<forall>p \<in> set ps. isDecimal p \<Longrightarrow> packagistNumbers n ps = take n (map decimal_value ps)"
proof (induction n ps rule: packagistNumbers.induct)
  case (3 n p ps)
  have "\<not> has_prefix p ''p''"
    using 3 digit_ordinary by (cases p) (auto simp: isDecimal_def)
  then show ?case using 3 by simp
qed simp_all

lemma coarse_take: "coarseFromInts e (take 3 ps) = coarseFromInts e ps"
  by (simp add: coarseFromInts_def coarseParts_take)

lemma coarse_zero: "coarseFromInts e [0, 0, 0] = coarseFromInts e [0]"
  by (simp add: coarseFromInts_def numeral_3_eq_3 maxCoarsePart_def)
    (simp add: padded_zeros replicate_literals del: padded.simps)

text \<open>What the ecosystems find in a dotted version.\<close>

lemma dotted_chars:
  assumes "\<forall>p \<in> set ps. isDecimal p" "c \<in> set (join ''.'' ps)"
  shows "is_digit c \<or> c = CHR ''.''"
  using assms set_join [of ps] isDecimal_digit by blast

lemma dotted_plain:
  assumes "\<forall>p \<in> set ps. isDecimal p" "c \<in> set (join ''.'' ps)"
  shows "c \<notin> {CHR ''-'', CHR ''+'', CHR '':'', CHR ''#'', CHR ''_'', CHR ''~'', CHR ''^''}"
  using dotted_chars [OF assms] digit_ordinary [of c] by auto

lemma Format_dotted:
  assumes "ps \<noteq> []" "\<forall>p \<in> set ps. isDecimal p"
    and sep: "cv_separators v (CHR ''.'')" "\<And>c. is_digit c \<Longrightarrow> \<not> cv_separators v c"
    and stop: "\<And>f c. cv_truncate v = Some f \<Longrightarrow> is_digit c \<or> c = CHR ''.'' \<Longrightarrow> \<not> f c"
  shows "Format v e (join ''.'' ps) = coarseFromInts e (map decimal_value ps)"
proof -
  have main: "(case cv_truncate v of None \<Rightarrow> join ''.'' ps
      | Some f \<Rightarrow> takeWhile (\<lambda>c. \<not> f c) (join ''.'' ps)) = join ''.'' ps"
  proof (cases "cv_truncate v")
    case (Some f)
    then have "\<forall>c \<in> set (join ''.'' ps). \<not> f c" using stop dotted_chars [OF assms(2)] by blast
    then show ?thesis by (simp add: Some takeWhile_eq_all_conv)
  qed simp
  have split: "splitAt (cv_separators v) (join ''.'' ps) [] = ps"
    by (rule splitAt_join) (use assms isDecimal_digit in auto)
  have "\<forall>p \<in> set ps. p \<noteq> []" using assms(2) by (auto simp: isDecimal_def)
  then have nonempty_filter: "filter (\<lambda>p. p \<noteq> []) ps = ps"
    and nonempty_map: "map (\<lambda>p. if p = [] then e else p) ps = ps" for e
    by (induction ps) auto
  have "concat (map (\<lambda>p. if p = [] then [[]] else implicitSplit p) ps) = ps"
    by (rule implicitSplit_each [OF assms(2)])
  then have "versionParts v (join ''.'' ps) = ps"
    unfolding versionParts_def Let_def main split
    by (cases "cv_empty_as v") (simp_all add: nonempty_filter nonempty_map)
  moreover have "ps = [''0'']" if "join ''.'' ps = ''0''"
  proof -
    have "\<forall>p \<in> set ps. \<forall>c \<in> set p. \<not> c = CHR ''.''"
      using assms(2) isDecimal_digit digit_ordinary by blast
    from splitAt_join [OF assms(1) this] that show ?thesis by simp
  qed
  ultimately show ?thesis
    by (auto simp: Format_def leadingNumbers_decimal assms(2) coarse_take coarse_zero decimal_value_def digit_val_def)
qed

lemma trim_letter:
  assumes "ps \<noteq> []" "\<forall>p \<in> set ps. isDecimal p" "\<not> is_digit l"
  shows "trim_prefix (join ''.'' ps) [l] = join ''.'' ps"
  by (rule join_head_digit [OF assms(1,2)]) (use assms(3) in \<open>auto simp: trim_prefix_def\<close>)

lemma trim_space_dotted:
  assumes "\<forall>p \<in> set ps. isDecimal p"
  shows "trim_space (join ''.'' ps) = join ''.'' ps"
proof -
  have "\<not> is_space c" if "c \<in> set (join ''.'' ps)" for c
    using dotted_chars [OF assms that] digit_not_space by (auto simp: is_space_def)
  then have "dropWhile is_space s = s" if "set s \<subseteq> set (join ''.'' ps)" for s
    using that by (cases s) auto
  then show ?thesis by (simp add: trim_space_def)
qed

lemma SetString_decimal:
  assumes "isDecimal p"
  shows "SetString p = Some (decimal_value p)"
proof -
  obtain c cs where p: "p = c # cs" using assms by (cases p) (auto simp: isDecimal_def)
  then have "is_digit c" using assms by (simp add: isDecimal_def)
  then have "c \<noteq> CHR ''+''" "c \<noteq> CHR ''-''" using digit_ordinary by blast+
  then show ?thesis using assms by (simp add: p SetString_def)
qed

lemma not_digit: "\<not> is_digit (CHR ''v'')" "\<not> is_digit (CHR ''V'')" "\<not> is_digit (CHR ''.'')"
  by (simp_all add: is_digit_def)

lemma ecosystem_dotted:
  assumes "ps \<noteq> []" "\<forall>p \<in> set ps. isDecimal p"
    and "Coarse \<in> {semver_Coarse, nuget_Coarse, pub_Coarse, hackage_Coarse, maven_Coarse,
           rubyGems_Coarse, rpm_Coarse, cran_Coarse, dpkg_Coarse, packagist_Coarse}"
  shows "Coarse (join ''.'' ps) = Inr (coarseFromInts 0 (map decimal_value ps))"
proof -
  note plain = dotted_plain [OF assms(2)]
  have semver: "Format semverCoarseVersioner 0 (join ''.'' ps) = coarseFromInts 0 (map decimal_value ps)"
    by (rule Format_dotted [OF assms(1,2)]) (use digit_ordinary in \<open>auto simp: semverCoarseVersioner_def\<close>)
  have maven: "Format mavenCoarseVersioner 0 (join ''.'' ps) = coarseFromInts 0 (map decimal_value ps)"
    by (rule Format_dotted [OF assms(1,2)]) (use digit_ordinary in \<open>auto simp: mavenCoarseVersioner_def\<close>)
  have ruby: "Format rubyGemsCoarseVersioner 0 (join ''.'' ps) = coarseFromInts 0 (map decimal_value ps)"
    by (rule Format_dotted [OF assms(1,2)]) (use digit_ordinary in \<open>auto simp: rubyGemsCoarseVersioner_def\<close>)
  have rpm: "Format rpmCoarseVersioner 0 (join ''.'' ps) = coarseFromInts 0 (map decimal_value ps)"
    by (rule Format_dotted [OF assms(1,2)])
      (use digit_ordinary not_digit in \<open>auto simp: rpmCoarseVersioner_def is_alnum_def is_upper_def is_lower_def Let_def\<close>)
  have cut: "strings_cut (join ''.'' ps) (CHR '':'') = (join ''.'' ps, [], False)"
    using plain by (auto simp: strings_cut_def)
  have trim: "trim_prefix (join ''.'' ps) ''v'' = join ''.'' ps" "trim_prefix (join ''.'' ps) ''V'' = join ''.'' ps"
    using trim_letter [OF assms(1,2)] not_digit by simp_all
  let ?v = "join ''.'' ps" and ?r = "Inr (coarseFromInts 0 (map decimal_value ps)) :: string + string"
  have "semver_Coarse ?v = ?r" "nuget_Coarse ?v = ?r" "pub_Coarse ?v = ?r"
    by (simp_all only: semver_Coarse_def nuget_Coarse_def pub_Coarse_def trim semver)
  moreover have "hackage_Coarse ?v = ?r"
    using dotted_chars [OF assms(2)] by (auto simp: hackage_Coarse_def trim semver Let_def)
  moreover have "maven_Coarse ?v = ?r" "rubyGems_Coarse ?v = ?r" "rpm_Coarse ?v = ?r"
    by (simp_all add: maven_Coarse_def rubyGems_Coarse_def rpm_Coarse_def maven ruby rpm cut)
  moreover have "cran_Coarse ?v = ?r"
  proof -
    have "?v \<noteq> []" by (rule join_head_digit [OF assms(1,2)]) simp
    moreover have "map (\<lambda>c. if c = CHR ''-'' then CHR ''.'' else c) ?v = ?v"
      using plain by (intro map_idI) auto
    moreover have "splitAt (\<lambda>c. c = CHR ''.'') ?v [] = ps"
      by (rule splitAt_join [OF assms(1)]) (use assms(2) isDecimal_digit not_digit in auto)
    moreover have some: "map SetString ps = map (\<lambda>p. Some (decimal_value p)) ps"
      using assms(2) by (simp add: SetString_decimal)
    ultimately show ?thesis
      unfolding cran_Coarse_def Let_def by (simp add: some comp_def image_iff del: map_eq_conv)
  qed
  moreover have "dpkg_Coarse ?v = ?r"
  proof -
    have "CHR ''-'' \<notin> set ?v" using plain by blast
    moreover have "isDecimal (hd (implicitSplit ?v))"
      by (rule implicitSplit_head [OF assms(1,2)])
    ultimately show ?thesis
      by (simp add: dpkg_Coarse_def trim_space_dotted [OF assms(2)] cut dpkgNumbers_join [OF assms(1,2)])
  qed
  moreover have "packagist_Coarse ?v = ?r"
  proof -
    have "CHR ''#'' \<notin> set ?v" using plain by blast
    moreover have "splitAt (\<lambda>c. c \<in> {CHR ''-'', CHR ''_'', CHR ''+'', CHR ''.''}) ?v [] = ps"
      by (rule splitAt_join [OF assms(1)]) (use assms(2) isDecimal_digit digit_ordinary in blast, use assms(2) in simp)
    moreover have "concat (map (\<lambda>p. if p = [] then [[]] else implicitSplit p) ps) = ps"
      by (rule implicitSplit_each [OF assms(2)])
    ultimately show ?thesis
      by (simp add: packagist_Coarse_def trim packagistNumbers_decimal [OF assms(2)] coarse_take)
  qed
  ultimately show ?thesis using assms(3) by blast
qed

text \<open>
  All the ecosystems read a version of numbers and dots alike, as the numbers it shows: the
  ten implementations of Coarse, the general one with its separators, the Debian walk over
  alternating parts and those of CRAN and Packagist, give the same coarse version of it.
\<close>

lemma Coarse_dotted:
  assumes "ps \<noteq> []" "\<forall>p \<in> set ps. isDecimal p"
    and "Coarse \<in> {semver_Coarse, nuget_Coarse, pub_Coarse, hackage_Coarse, maven_Coarse,
           rubyGems_Coarse, rpm_Coarse, cran_Coarse, dpkg_Coarse, packagist_Coarse}"
  shows "Coarse (join ''.'' ps) = Inr (coarseFromInts 0 (map decimal_value ps))"
  using ecosystem_dotted [OF assms] .

lemma Coarse_dotted_witness:
  "rpm_Coarse ''1.20.300'' = Inr (coarseFromInts 0 [1, 20, 300])
   \<and> dpkg_Coarse ''1.20.300'' = Inr (coarseFromInts 0 [1, 20, 300])"
  using Coarse_dotted [of "[''1'', ''20'', ''300'']" rpm_Coarse]
    Coarse_dotted [of "[''1'', ''20'', ''300'']" dpkg_Coarse]
  by (simp add: isDecimal_def is_digit_def decimal_value_def digit_val_def)

section \<open>Between the least and the greatest\<close>

lemma min_coarse: "minCoarseVersion = coarseFromInts (- 1) []"
  by (simp add: minCoarseVersion_def coarseFromInts_def)

lemma max_coarse: "maxCoarseVersion = coarseFromInts 100 []"
  by (simp add: maxCoarseVersion_def coarseFromInts_def maxCoarseEpoch_def)

lemma coarse_key_bounds: "[0, 0, 0, 0] \<le> coarse_key e ps" "coarse_key e ps \<le> 99 # replicate 3 (nat maxCoarsePart)"
proof -
  have "[0, 0, 0] \<le> clamp 3 ps" "[0, 0, 0] \<le> replicate 3 (nat maxCoarsePart)"
    using zeros_le [of "clamp 3 ps" 3] zeros_le [of "replicate 3 (nat maxCoarsePart)" 3]
    by (simp_all add: replicate_literals)
  then show "[0, 0, 0, 0] \<le> coarse_key e ps" "coarse_key e ps \<le> 99 # replicate 3 (nat maxCoarsePart)"
    using clamp_le_max [of 3 ps] by (auto simp: coarse_key_def maxCoarseEpoch_def)
qed

definition bounded :: "string \<Rightarrow> bool" where
  "bounded s \<longleftrightarrow> minCoarseVersion \<le> s \<and> s \<le> maxCoarseVersion"

lemma coarseFromInts_bounded: "bounded (coarseFromInts e ps)"
proof -
  have "coarse_key (- 1) [] = [0, 0, 0, 0]" "coarse_key 100 [] = 99 # replicate 3 (nat maxCoarsePart)"
    by (simp_all add: coarse_key_def maxCoarseEpoch_def)
  then show ?thesis
    using coarse_key_bounds [of e ps] by (simp add: bounded_def min_coarse max_coarse coarse_order)
qed

lemma Format_bounded: "bounded (Format v e s)"
  by (simp add: Format_def coarseFromInts_bounded)

lemma overflow_bounded: "bounded ''99:99999999.99999999.99999999''"
  using coarseFromInts_bounded [of 100 "[]"] by (simp add: coarseFromInts_def maxCoarseEpoch_def)

abbreviation ecosystem_Coarses :: "(string \<Rightarrow> string + string) set" where
  "ecosystem_Coarses \<equiv> {semver_Coarse, nuget_Coarse, pub_Coarse, hackage_Coarse, maven_Coarse,
     rubyGems_Coarse, rpm_Coarse, cran_Coarse, dpkg_Coarse, packagist_Coarse}"

lemma ecosystem_bounded: "Coarse \<in> ecosystem_Coarses \<Longrightarrow> Coarse v = Inr s \<Longrightarrow> bounded s"
  by (auto simp: semver_Coarse_def nuget_Coarse_def pub_Coarse_def hackage_Coarse_def maven_Coarse_def
      rubyGems_Coarse_def rpm_Coarse_def cran_Coarse_def dpkg_Coarse_def packagist_Coarse_def Let_def
      Format_bounded overflow_bounded coarseFromInts_bounded
      split: if_splits option.splits prod.splits)

text \<open>
  The coarse version of a version, in every ecosystem that gives one, is not below the least
  nor above the greatest coarse version, which stand for an open end of a range.
\<close>

lemma Coarse_bounded:
  assumes "Coarse \<in> {semver_Coarse, nuget_Coarse, pub_Coarse, hackage_Coarse, maven_Coarse,
           rubyGems_Coarse, rpm_Coarse, cran_Coarse, dpkg_Coarse, packagist_Coarse}"
    and "Coarse v = Inr s"
  shows "minCoarseVersion \<le> s \<and> s \<le> maxCoarseVersion"
  using ecosystem_bounded [OF assms] by (simp add: bounded_def)

lemma Coarse_bounded_witness:
  "\<exists>s. semver_Coarse ''v1.2-rc1'' = Inr s \<and> minCoarseVersion \<le> s \<and> s \<le> maxCoarseVersion"
  using Coarse_bounded [of semver_Coarse "''v1.2-rc1''"] by (simp add: semver_Coarse_def)

text \<open>
  Coarse versions do not decrease along the numbers they are made from: if an epoch and the
  first three numbers after it, zero where there are fewer, are not above another's in their order,
  its coarse version is not above the other's as a text; and two coarse versions are in the order
  of text exactly as the numbers, clamped at the limits of each field, are in theirs.
\<close>

lemma coarseFromInts_monotone:
  "(coarseFromInts e ps \<le> coarseFromInts e' ps' \<longleftrightarrow> coarse_key e ps \<le> coarse_key e' ps')
   \<and> (e # take 3 (ps @ [0, 0, 0]) \<le> e' # take 3 (ps' @ [0, 0, 0])
       \<longrightarrow> coarseFromInts e ps \<le> coarseFromInts e' ps')"
  using numbers_coarse.coarse_mono [of "(e, ps)" "(e', ps')", OF _ refl refl]
  by (simp add: coarse_order numbers_def replicate_literals)

lemma coarseFromInts_monotone_witness:
  "coarseFromInts 0 [1, 2] \<le> coarseFromInts 0 [1, 10, 3]"
  using coarseFromInts_monotone [where e = 0 and ps = "[1, 2]" and e' = 0 and ps' = "[1, 10, 3]",
      THEN conjunct2, THEN mp] by simp

section \<open>The contract on dotted versions\<close>

text \<open>The numbers of a version made of numbers and dots.\<close>

definition dotted_numbers :: "string \<Rightarrow> int list option" where
  "dotted_numbers s =
     (let ps = splitAt (\<lambda>c. c = CHR ''.'') s []
      in if list_all isDecimal ps then Some (map decimal_value ps) else None)"

lemma splitAt_ne: "splitAt sep s cur \<noteq> []"
  by (induction sep s cur rule: splitAt.induct) simp_all

lemma join_cons: "ps \<noteq> [] \<Longrightarrow> join sep (p # ps) = p @ sep @ join sep ps"
  by (cases ps) simp_all

lemma join_splitAt: "join ''.'' (splitAt (\<lambda>c. c = CHR ''.'') s cur) = rev cur @ s"
  by (induction "\<lambda>c. c = CHR ''.''" s cur rule: splitAt.induct) (simp_all add: join_cons splitAt_ne)

lemma dotted_Coarse:
  assumes "Coarse \<in> ecosystem_Coarses" "dotted_numbers v = Some ns"
  shows "Coarse v = Inr (coarseFromInts 0 ns)"
proof -
  let ?ps = "splitAt (\<lambda>c. c = CHR ''.'') v []"
  have "join ''.'' ?ps = v" using join_splitAt [of v "[]"] by simp
  moreover have "\<forall>p \<in> set ?ps. isDecimal p" "ns = map decimal_value ?ps"
    using assms(2) by (auto simp: dotted_numbers_def Let_def list_all_iff split: if_splits)
  ultimately show ?thesis using ecosystem_dotted [OF splitAt_ne _ assms(1)] by metis
qed

definition dotted_le :: "string \<Rightarrow> string \<Rightarrow> bool" where
  "dotted_le v w =
     (case (dotted_numbers v, dotted_numbers w) of
        (Some m, Some n) \<Rightarrow> numbers 0 m \<le> numbers 0 n
      | _ \<Rightarrow> False)"

lemma dotted_contract:
  assumes "Coarse \<in> ecosystem_Coarses"
  shows "coarse_contract dotted_le Coarse"
proof
  fix v w s t
  assume le: "dotted_le v w" and s: "Coarse v = Inr s" and t: "Coarse w = Inr t"
  from le obtain m n where "dotted_numbers v = Some m" "dotted_numbers w = Some n" "numbers 0 m \<le> numbers 0 n"
    by (auto simp: dotted_le_def split: option.splits)
  then show "s \<le> t"
    using dotted_Coarse [OF assms] s t numbers_coarse.coarse_mono [of "(0, m)" "(0, n)", OF _ refl refl] by auto
qed

interpretation semver_coarse: coarse_contract dotted_le semver_Coarse
  by (rule dotted_contract) simp

interpretation dpkg_coarse: coarse_contract dotted_le dpkg_Coarse
  by (rule dotted_contract) simp

interpretation rpm_coarse: coarse_contract dotted_le rpm_Coarse
  by (rule dotted_contract) simp

end
