(* ===== verification/AffectedVersions.thy ===== *)
theory AffectedVersions
  imports Coarse Datastore "HOL-Library.Product_Lexorder"
begin

text \<open>
  The entities that answer the queries by version: the events of a range in the order of their
  versions (\<open>services/shared/pkg/osvutil/event.go\<close>), the wrapper every ecosystem gets for the
  version \<open>0\<close> (\<open>ecosystem/impl/wrapper.go\<close>), and \<open>computeAffectedVersions\<close> with the coarse bounds
  (\<open>database/datastore/affected_versions.go\<close>). The parsers of versions are in a library, so an
  ecosystem is a record of functions; \<open>url.Parse\<close> and the order \<open>slices.SortFunc\<close> leaves are
  parameters too.
\<close>

section \<open>Ecosystems\<close>

record 'v ecosystem =
  eco_Parse :: "string \<Rightarrow> string + 'v"
  eco_Compare :: "'v \<Rightarrow> 'v \<Rightarrow> string + int"
  eco_Coarse :: "string \<Rightarrow> string + string"

datatype 'v wrapped = ZeroVersion | InnerVersion 'v

fun wrapped_Compare :: "('v \<Rightarrow> 'v \<Rightarrow> string + int) \<Rightarrow> 'v wrapped \<Rightarrow> 'v wrapped \<Rightarrow> string + int" where
  "wrapped_Compare cmp ZeroVersion ZeroVersion = Inr 0"
| "wrapped_Compare cmp ZeroVersion (InnerVersion w) = Inr (- 1)"
| "wrapped_Compare cmp (InnerVersion v) ZeroVersion = Inr 1"
| "wrapped_Compare cmp (InnerVersion v) (InnerVersion w) = cmp v w"

definition parseWrapped :: "(string \<Rightarrow> string + 'v) \<Rightarrow> string \<Rightarrow> string + 'v wrapped" where
  "parseWrapped parse version =
     (if version = ''0'' then Inr ZeroVersion
      else (case parse version of Inl err \<Rightarrow> Inl err | Inr v \<Rightarrow> Inr (InnerVersion v)))"

definition wrapEcosystem :: "'v ecosystem \<Rightarrow> 'v wrapped ecosystem" where
  "wrapEcosystem e = \<lparr>eco_Parse = parseWrapped (eco_Parse e),
     eco_Compare = wrapped_Compare (eco_Compare e), eco_Coarse = eco_Coarse e\<rparr>"

text \<open>
  \<open>Provider.Get\<close>: the table of factories by name; a factory that rejects the suffix returns nil.
\<close>

definition provider_Get ::
  "(string \<rightharpoonup> (string \<Rightarrow> 'v ecosystem option)) \<Rightarrow> string \<Rightarrow> 'v wrapped ecosystem option" where
  "provider_Get ecosystems name =
     (case strings_cut name (CHR '':'') of
        (base, suffix, _) \<Rightarrow>
          (case ecosystems base of
             None \<Rightarrow> None
           | Some factory \<Rightarrow>
               (case factory suffix of None \<Rightarrow> None | Some e \<Rightarrow> Some (wrapEcosystem e))))"

section \<open>Events\<close>

datatype event_type = Introduced | LastAffected | Fixed | Limit

fun event_type_int :: "event_type \<Rightarrow> int" where
  "event_type_int Introduced = 0"
| "event_type_int LastAffected = 1"
| "event_type_int Fixed = 2"
| "event_type_int Limit = 3"

fun event_type_String :: "event_type \<Rightarrow> string" where
  "event_type_String Introduced = ''introduced''"
| "event_type_String LastAffected = ''last_affected''"
| "event_type_String Fixed = ''fixed''"
| "event_type_String Limit = ''limit''"

record event =
  ev_type :: event_type
  ev_version :: string

record schema_event =
  se_introduced :: string
  se_last_affected :: string
  se_fixed :: string
  se_limit :: string

definition FromSchemaEvent :: "schema_event \<Rightarrow> event" where
  "FromSchemaEvent e =
     (if se_introduced e \<noteq> [] then \<lparr>ev_type = Introduced, ev_version = se_introduced e\<rparr>
      else if se_last_affected e \<noteq> [] then \<lparr>ev_type = LastAffected, ev_version = se_last_affected e\<rparr>
      else if se_fixed e \<noteq> [] then \<lparr>ev_type = Fixed, ev_version = se_fixed e\<rparr>
      else if se_limit e \<noteq> [] then \<lparr>ev_type = Limit, ev_version = se_limit e\<rparr>
      else \<lparr>ev_type = Introduced, ev_version = []\<rparr>)"

definition strings_Compare :: "string \<Rightarrow> string \<Rightarrow> int" where
  "strings_Compare a b = (if a = b then 0 else if a < b then -1 else 1)"

text \<open>
  The comparison of \<open>SortEvents\<close>; the error it leaves behind is dropped by
  \<open>computeAffectedVersions\<close>.
\<close>

definition compareEvents :: "'v ecosystem \<Rightarrow> event \<Rightarrow> event \<Rightarrow> int" where
  "compareEvents e a b =
     (let byText = (if ev_version a \<noteq> ev_version b then strings_Compare (ev_version a) (ev_version b)
                    else event_type_int (ev_type a) - event_type_int (ev_type b))
      in (case (eco_Parse e (ev_version a), eco_Parse e (ev_version b)) of
            (Inr pa, Inr pb) \<Rightarrow>
              (case eco_Compare e pa pb of
                 Inl _ \<Rightarrow> byText
               | Inr res \<Rightarrow>
                   if res \<noteq> 0 then res
                   else event_type_int (ev_type a) - event_type_int (ev_type b))
          | _ \<Rightarrow> byText))"

text \<open>\<open>slices.SortFunc\<close>, which is not stable: any arrangement it may leave is a \<open>sorter\<close>.\<close>

type_synonym 'a sorter = "('a \<Rightarrow> 'a \<Rightarrow> int) \<Rightarrow> 'a list \<Rightarrow> 'a list"

definition SortEvents :: "event sorter \<Rightarrow> 'v ecosystem \<Rightarrow> event list \<Rightarrow> event list" where
  "SortEvents sorter e events = sorter (compareEvents e) events"

section \<open>The entities\<close>

record affected_event =
  ae_type :: string
  ae_value :: string

record affected_versions =
  av_vuln_id :: vuln_id
  av_ecosystem :: string
  av_name :: string
  av_versions :: "string list"
  av_events :: "affected_event list"
  av_coarse_min :: string
  av_coarse_max :: string

definition sortKey :: "affected_versions \<Rightarrow> string" where
  "sortKey av =
     av_vuln_id av @ [char_of (31 :: nat)] @ av_ecosystem av @ [char_of (31 :: nat)] @ av_name av
     @ [char_of (31 :: nat)] @ join '','' (slices_sort (av_versions av)) @ [char_of (31 :: nat)]
     @ concat (map (\<lambda>e. ae_type e @ '':'' @ ae_value e @ '','') (av_events av))"

section \<open>The schema, as far as it is read\<close>

datatype range_type = RangeUnspecified | RangeGit | RangeSemver | RangeEcosystem

record schema_range =
  sr_type :: range_type
  sr_repo :: string
  sr_events :: "schema_event list"

record schema_affected =
  sa_ecosystem :: string
  sa_name :: string
  sa_ranges :: "schema_range list"
  sa_versions :: "string list"
  sa_severity :: "(string \<times> string) list"

text \<open>\<open>strings.NewReplacer(":Pro", "", ":LTS", "")\<close>, applied once from left to right.\<close>

fun ubuntuReplace :: "nat \<Rightarrow> string \<Rightarrow> string" where
  "ubuntuReplace skip [] = []"
| "ubuntuReplace (Suc skip) (c # s) = ubuntuReplace skip s"
| "ubuntuReplace 0 (c # s) =
     (if has_prefix (c # s) '':Pro'' then ubuntuReplace 3 s
      else if has_prefix (c # s) '':LTS'' then ubuntuReplace 3 s
      else c # ubuntuReplace 0 s)"

definition removeVariants :: "string \<Rightarrow> string" where
  "removeVariants ecosystem = (if has_prefix ecosystem ''Ubuntu'' then ubuntuReplace 0 ecosystem else [])"

definition trim_suffix :: "string \<Rightarrow> string \<Rightarrow> string" where
  "trim_suffix s p = (if has_suffix s p then take (length s - length p) s else s)"

text \<open>\<open>urlParse\<close> gives the host and the path of a URL, or an error.\<close>

definition normalizeRepo :: "(string \<Rightarrow> (string \<times> string) option) \<Rightarrow> string \<Rightarrow> string" where
  "normalizeRepo urlParse repoURL =
     (if repoURL = [] then []
      else
        (case urlParse repoURL of
           None \<Rightarrow> repoURL
         | Some (host, path) \<Rightarrow>
             let normalized = rev (dropWhile (\<lambda>c. c = CHR ''/'') (rev (host @ path)))
             in trim_suffix normalized ''.git''))"

definition allPkgEcosystems :: "string \<Rightarrow> string list" where
  "allPkgEcosystems pkgEcosystem =
     (if pkgEcosystem = [] then []
      else
        (let normalized = fst (strings_cut pkgEcosystem (CHR '':''));
             all0 = [pkgEcosystem];
             all1 = (if normalized \<noteq> pkgEcosystem then all0 @ [normalized] else all0);
             v = removeVariants pkgEcosystem;
             all2 = (if v \<noteq> [] then all1 @ [v] else all1)
         in slices_compact (slices_sort all2)))"

section \<open>Coarse bounds\<close>

text \<open>The loop stops at the first introduced event.\<close>

definition coarseOr :: "'v ecosystem \<Rightarrow> string \<Rightarrow> string \<Rightarrow> string" where
  "coarseOr e version other = (case eco_Coarse e version of Inr cm \<Rightarrow> cm | Inl _ \<Rightarrow> other)"

definition coarseOfEvents :: "'v ecosystem \<Rightarrow> affected_event list \<Rightarrow> string \<times> string" where
  "coarseOfEvents e rangeEvents =
     (case find (\<lambda>ev. ae_type ev = ''introduced'') rangeEvents of
        None \<Rightarrow> (minCoarseVersion, maxCoarseVersion)
      | Some ev \<Rightarrow>
          let coarseMin = coarseOr e (ae_value ev) minCoarseVersion;
              lst = last rangeEvents
          in (coarseMin,
              if ae_type lst \<noteq> ''introduced'' then coarseOr e (ae_value lst) maxCoarseVersion
              else maxCoarseVersion))"

definition rangeEventsOf :: "event sorter \<Rightarrow> 'v ecosystem option \<Rightarrow> schema_range \<Rightarrow> affected_event list" where
  "rangeEventsOf sorter helper r =
     (let events = filter (\<lambda>evt. ev_version evt \<noteq> []) (map FromSchemaEvent (sr_events r));
          sorted = (case helper of None \<Rightarrow> events | Some e \<Rightarrow> SortEvents sorter e events)
      in map (\<lambda>e. \<lparr>ae_type = event_type_String (ev_type e), ae_value = ev_version e\<rparr>) sorted)"

definition rangeEntries ::
  "event sorter \<Rightarrow> 'v ecosystem option \<Rightarrow> vuln_id \<Rightarrow> string list \<Rightarrow> string \<Rightarrow> schema_range \<Rightarrow> affected_versions list" where
  "rangeEntries sorter helper vid ecos name r =
     (let rangeEvents = rangeEventsOf sorter helper r;
          bounds = (case helper of
             None \<Rightarrow> (minCoarseVersion, maxCoarseVersion)
           | Some e \<Rightarrow> coarseOfEvents e rangeEvents)
      in map (\<lambda>eco. \<lparr>av_vuln_id = vid, av_ecosystem = eco, av_name = name, av_versions = [],
                av_events = rangeEvents, av_coarse_min = fst bounds, av_coarse_max = snd bounds\<rparr>) ecos)"

text \<open>A range that is listed: of a version type and not empty.\<close>

definition versionRange :: "schema_range \<Rightarrow> bool" where
  "versionRange r \<longleftrightarrow> (sr_type r = RangeEcosystem \<or> sr_type r = RangeSemver) \<and> sr_events r \<noteq> []"

definition repoOf :: "schema_range list \<Rightarrow> string" where
  "repoOf ranges = foldl (\<lambda>repoURL r. if sr_type r = RangeGit \<and> repoURL = [] then sr_repo r else repoURL) [] ranges"

definition coarseOfVersions :: "'v ecosystem option \<Rightarrow> string list \<Rightarrow> string \<times> string" where
  "coarseOfVersions helper versions =
     (case helper of
        None \<Rightarrow> (minCoarseVersion, maxCoarseVersion)
      | Some e \<Rightarrow>
          let allCoarse = slices_sort (List.map_filter
                (\<lambda>v. case eco_Coarse e v of Inr cm \<Rightarrow> Some cm | Inl _ \<Rightarrow> None) versions)
          in if allCoarse = [] then (minCoarseVersion, maxCoarseVersion)
             else (hd allCoarse, last allCoarse))"

definition affectedEntries ::
  "event sorter \<Rightarrow> (string \<Rightarrow> (string \<times> string) option) \<Rightarrow> (string \<Rightarrow> 'v ecosystem option)
    \<Rightarrow> vuln_id \<Rightarrow> schema_affected \<Rightarrow> affected_versions list" where
  "affectedEntries sorter urlParse get vid a =
     (let ecos = allPkgEcosystems (sa_ecosystem a);
          name = sa_name a;
          helper = get (sa_ecosystem a);
          ranges = filter versionRange (sa_ranges a);
          repoURL = repoOf (sa_ranges a);
          fromRanges = concat (map (rangeEntries sorter helper vid ecos name) ranges);
          listed = (name \<noteq> [] \<and> sa_versions a \<noteq> []);
          vbounds = coarseOfVersions helper (sa_versions a);
          fromVersions = (if listed
             then map (\<lambda>eco. \<lparr>av_vuln_id = vid, av_ecosystem = eco, av_name = name,
                av_versions = sa_versions a, av_events = [],
                av_coarse_min = fst vbounds, av_coarse_max = snd vbounds\<rparr>) ecos
             else []);
          hasAffected = (ranges \<noteq> [] \<or> listed);
          empties = (if name \<noteq> [] \<and> \<not> hasAffected
             then map (\<lambda>eco. \<lparr>av_vuln_id = vid, av_ecosystem = eco, av_name = name, av_versions = [],
                av_events = [], av_coarse_min = minCoarseVersion, av_coarse_max = maxCoarseVersion\<rparr>) ecos
             else []);
          git = (if repoURL \<noteq> []
             then [\<lparr>av_vuln_id = vid, av_ecosystem = ''GIT'', av_name = normalizeRepo urlParse repoURL,
                av_versions = sa_versions a, av_events = [], av_coarse_min = [], av_coarse_max = []\<rparr>]
             else [])
      in fromRanges @ fromVersions @ empties @ git)"

definition computeAffectedVersions ::
  "event sorter \<Rightarrow> (string \<Rightarrow> (string \<times> string) option) \<Rightarrow> (string \<Rightarrow> 'v ecosystem option)
    \<Rightarrow> vuln_id \<Rightarrow> schema_affected list \<Rightarrow> affected_versions list" where
  "computeAffectedVersions sorter urlParse get vid affected =
     concat (map (affectedEntries sorter urlParse get vid) affected)"

section \<open>The order of an ecosystem\<close>

definition vle :: "'v ecosystem \<Rightarrow> string \<Rightarrow> string \<Rightarrow> bool" where
  "vle e v w =
     (case (eco_Parse e v, eco_Parse e w) of
        (Inr a, Inr b) \<Rightarrow> (case eco_Compare e a b of Inr c \<Rightarrow> c \<le> 0 | Inl _ \<Rightarrow> False)
      | _ \<Rightarrow> False)"

definition vlt :: "'v ecosystem \<Rightarrow> string \<Rightarrow> string \<Rightarrow> bool" where
  "vlt e v w \<longleftrightarrow> vle e v w \<and> \<not> vle e w v"

definition parses :: "'v ecosystem \<Rightarrow> string \<Rightarrow> bool" where
  "parses e v = (case eco_Parse e v of Inr _ \<Rightarrow> True | Inl _ \<Rightarrow> False)"

text \<open>
  What \<open>ecosystem.go\<close> asks of an ecosystem: its versions can be compared, in a total order, and
  the coarse version, of the documented shape, does not decrease along it.
\<close>

locale version_laws =
  fixes e :: "'v ecosystem"
  assumes compare_ok: "eco_Parse e v = Inr a \<Longrightarrow> eco_Parse e w = Inr b \<Longrightarrow> \<exists>c. eco_Compare e a b = Inr c"
    and compare_sym: "eco_Parse e v = Inr a \<Longrightarrow> eco_Parse e w = Inr b \<Longrightarrow>
      eco_Compare e a b = Inr c \<Longrightarrow> eco_Compare e b a = Inr d \<Longrightarrow>
      (c \<le> 0 \<longleftrightarrow> 0 \<le> d) \<and> (d \<le> 0 \<longleftrightarrow> 0 \<le> c)"
    and vle_trans: "vle e u v \<Longrightarrow> vle e v w \<Longrightarrow> vle e u w"
    and vle_coarse: "vle e v w \<Longrightarrow> eco_Coarse e v = Inr s \<Longrightarrow> eco_Coarse e w = Inr t \<Longrightarrow> s \<le> t"
    and coarse_shape: "eco_Coarse e v = Inr s \<Longrightarrow> bounded s"

sublocale version_laws \<subseteq> coarse_contract "vle e" "eco_Coarse e"
  by unfold_locales (rule vle_coarse)

context version_laws
begin

lemma vle_total:
  assumes "parses e v" "parses e w"
  shows "vle e v w \<or> vle e w v"
proof -
  obtain a b where p: "eco_Parse e v = Inr a" "eco_Parse e w = Inr b"
    using assms by (auto simp: parses_def split: sum.splits)
  obtain c d where c: "eco_Compare e a b = Inr c" "eco_Compare e b a = Inr d"
    using compare_ok p by blast
  have "(c \<le> 0 \<longleftrightarrow> 0 \<le> d) \<and> (d \<le> 0 \<longleftrightarrow> 0 \<le> c)" by (rule compare_sym [OF p c])
  then have "c \<le> 0 \<or> d \<le> 0" by linarith
  then show ?thesis by (simp add: vle_def p c)
qed

lemma vle_parses: "vle e v w \<Longrightarrow> parses e v \<and> parses e w"
  by (auto simp: vle_def parses_def split: sum.splits)

text \<open>The comparison of events is the order of their versions, then of their types.\<close>

lemma compareEvents_cases:
  assumes "parses e (ev_version x)" "parses e (ev_version y)"
  shows "compareEvents e x y \<le> 0 \<longleftrightarrow>
    vlt e (ev_version x) (ev_version y)
    \<or> vle e (ev_version x) (ev_version y) \<and> event_type_int (ev_type x) \<le> event_type_int (ev_type y)"
proof -
  obtain a b where p: "eco_Parse e (ev_version x) = Inr a" "eco_Parse e (ev_version y) = Inr b"
    using assms by (auto simp: parses_def split: sum.splits)
  obtain c d where c: "eco_Compare e a b = Inr c" "eco_Compare e b a = Inr d"
    using compare_ok p by blast
  have "(c \<le> 0 \<longleftrightarrow> 0 \<le> d) \<and> (d \<le> 0 \<longleftrightarrow> 0 \<le> c)" by (rule compare_sym [OF p c])
  then have "c < 0 \<longleftrightarrow> 0 < d" "c = 0 \<longleftrightarrow> d = 0" by linarith+
  then show ?thesis by (auto simp: compareEvents_def vlt_def vle_def p c Let_def)
qed

lemma compareEvents_vle:
  "parses e (ev_version x) \<Longrightarrow> parses e (ev_version y) \<Longrightarrow> compareEvents e x y \<le> 0 \<Longrightarrow>
    vle e (ev_version x) (ev_version y)"
  by (auto simp: compareEvents_cases vlt_def)

end

section \<open>Sorting\<close>

text \<open>
  What \<open>slices.SortFunc\<close> documents: the elements stay, and they end in ascending order if the
  comparison is a weak order on them.
\<close>

definition weak_order_on :: "'a set \<Rightarrow> ('a \<Rightarrow> 'a \<Rightarrow> int) \<Rightarrow> bool" where
  "weak_order_on A cmp \<longleftrightarrow>
     (\<forall>x \<in> A. \<forall>y \<in> A. cmp x y \<le> 0 \<or> cmp y x \<le> 0)
     \<and> (\<forall>x \<in> A. \<forall>y \<in> A. \<forall>z \<in> A. cmp x y \<le> 0 \<longrightarrow> cmp y z \<le> 0 \<longrightarrow> cmp x z \<le> 0)"

lemma weak_order_on_subset: "weak_order_on B cmp \<Longrightarrow> A \<subseteq> B \<Longrightarrow> weak_order_on A cmp"
  unfolding weak_order_on_def by (intro conjI ballI impI) (meson subsetD)+

lemma weak_order_onD:
  assumes "weak_order_on A cmp"
  shows "x \<in> A \<Longrightarrow> y \<in> A \<Longrightarrow> cmp x y \<le> 0 \<or> cmp y x \<le> 0"
    and "x \<in> A \<Longrightarrow> y \<in> A \<Longrightarrow> z \<in> A \<Longrightarrow> cmp x y \<le> 0 \<Longrightarrow> cmp y z \<le> 0 \<Longrightarrow> cmp x z \<le> 0"
  using assms unfolding weak_order_on_def by blast+

definition sorter_ok :: "'a sorter \<Rightarrow> bool" where
  "sorter_ok sorter \<longleftrightarrow>
     (\<forall>cmp xs. set (sorter cmp xs) = set xs \<and> length (sorter cmp xs) = length xs
        \<and> (weak_order_on (set xs) cmp \<longrightarrow> sorted_wrt (\<lambda>x y. cmp x y \<le> 0) (sorter cmp xs)))"

fun insertBy :: "('a \<Rightarrow> 'a \<Rightarrow> int) \<Rightarrow> 'a \<Rightarrow> 'a list \<Rightarrow> 'a list" where
  "insertBy cmp x [] = [x]"
| "insertBy cmp x (y # ys) = (if cmp x y \<le> 0 then x # y # ys else y # insertBy cmp x ys)"

definition insertionSort :: "'a sorter" where
  "insertionSort cmp xs = foldr (insertBy cmp) xs []"

lemma set_insertBy [simp]: "set (insertBy cmp x ys) = insert x (set ys)"
  by (induction ys) auto

lemma length_insertBy [simp]: "length (insertBy cmp x ys) = Suc (length ys)"
  by (induction ys) auto

lemma sorted_insertBy:
  "weak_order_on (insert x (set ys)) cmp \<Longrightarrow> sorted_wrt (\<lambda>x y. cmp x y \<le> 0) ys \<Longrightarrow>
    sorted_wrt (\<lambda>x y. cmp x y \<le> 0) (insertBy cmp x ys)"
proof (induction ys)
  case (Cons y ys)
  have w: "weak_order_on (insert x (set ys)) cmp" by (rule weak_order_on_subset [OF Cons.prems(1)]) auto
  show ?case
  proof (cases "cmp x y \<le> 0")
    case True
    have "cmp x z \<le> 0" if "z \<in> set ys" for z
      by (rule weak_order_onD(2) [OF Cons.prems(1), of x y z]) (use that Cons.prems(2) True in auto)
    with True Cons.prems(2) show ?thesis by simp
  next
    case False
    then have "cmp y x \<le> 0" using weak_order_onD(1) [OF Cons.prems(1), of x y] by simp
    with False Cons.IH [OF w] Cons.prems(2) show ?thesis by auto
  qed
qed simp

lemma insertionSort_ok: "sorter_ok insertionSort"
proof -
  have s: "set (insertionSort cmp xs) = set xs \<and> length (insertionSort cmp xs) = length xs" for cmp :: "'a \<Rightarrow> 'a \<Rightarrow> int" and xs
    by (induction xs) (simp_all add: insertionSort_def)
  have "sorted_wrt (\<lambda>x y. cmp x y \<le> 0) (insertionSort cmp xs)" if "weak_order_on (set xs) cmp"
    for cmp :: "'a \<Rightarrow> 'a \<Rightarrow> int" and xs
    using that
  proof (induction xs)
    case (Cons x xs)
    have "weak_order_on (set xs) cmp" by (rule weak_order_on_subset [OF Cons.prems]) auto
    from Cons.IH [OF this] Cons.prems s [of cmp xs] show ?case
      by (simp add: insertionSort_def sorted_insertBy)
  qed (simp add: insertionSort_def)
  with s show ?thesis by (simp add: sorter_ok_def)
qed


section \<open>The versions a range affects\<close>

text \<open>
  The evaluation of the schema: introduced at or before the version and not fixed since, no later
  than a last affected one, and before a limit if there are any.
\<close>

definition affects :: "'v ecosystem \<Rightarrow> event list \<Rightarrow> string \<Rightarrow> bool" where
  "affects e evs x \<longleftrightarrow>
     (\<exists>i \<in> set evs. ev_type i = Introduced \<and> vle e (ev_version i) x
        \<and> (\<forall>f \<in> set evs. ev_type f = Fixed \<longrightarrow> vle e (ev_version i) (ev_version f) \<longrightarrow>
             \<not> vle e (ev_version f) x)
        \<and> (\<forall>l \<in> set evs. ev_type l = LastAffected \<longrightarrow> vle e (ev_version i) (ev_version l) \<longrightarrow>
             vle e x (ev_version l)))
     \<and> ((\<exists>m \<in> set evs. ev_type m = Limit) \<longrightarrow> (\<exists>m \<in> set evs. ev_type m = Limit \<and> vlt e x (ev_version m)))"

abbreviation as_entry :: "event \<Rightarrow> affected_event" where
  "as_entry ev \<equiv> \<lparr>ae_type = event_type_String (ev_type ev), ae_value = ev_version ev\<rparr>"

lemma event_type_String_introduced: "event_type_String t = ''introduced'' \<longleftrightarrow> t = Introduced"
  by (cases t) simp_all

context version_laws
begin

lemma vlt_trans: "vlt e u v \<Longrightarrow> vle e v w \<Longrightarrow> vlt e u w" "vle e u v \<Longrightarrow> vlt e v w \<Longrightarrow> vlt e u w"
  using vle_trans unfolding vlt_def by blast+

lemma events_weak_order:
  assumes "\<forall>ev \<in> A. parses e (ev_version ev)"
  shows "weak_order_on A (compareEvents e)"
  unfolding weak_order_on_def
proof (intro conjI ballI impI)
  fix x y z
  assume xyz: "x \<in> A" "y \<in> A"
  then have "vle e (ev_version x) (ev_version y) \<or> vle e (ev_version y) (ev_version x)"
    using vle_total assms by blast
  then show "compareEvents e x y \<le> 0 \<or> compareEvents e y x \<le> 0"
    using xyz assms by (auto simp: compareEvents_cases vlt_def)
next
  fix x y z
  assume xyz: "x \<in> A" "y \<in> A" "z \<in> A" and le: "compareEvents e x y \<le> 0" "compareEvents e y z \<le> 0"
  have p: "parses e (ev_version x)" "parses e (ev_version y)" "parses e (ev_version z)" using xyz assms by auto
  consider "vlt e (ev_version x) (ev_version y)" "vle e (ev_version y) (ev_version z)"
    | "vle e (ev_version x) (ev_version y)" "vlt e (ev_version y) (ev_version z)"
    | "vle e (ev_version x) (ev_version y)" "vle e (ev_version y) (ev_version z)"
      "event_type_int (ev_type x) \<le> event_type_int (ev_type z)"
    using le p by (auto simp: compareEvents_cases vlt_def)
  then show "compareEvents e x z \<le> 0"
    by cases (auto simp: compareEvents_cases p intro: vlt_trans vle_trans)
qed

lemma SortEvents_sorted:
  assumes "sorter_ok sorter" "\<forall>ev \<in> set evs. parses e (ev_version ev)"
  shows "set (SortEvents sorter e evs) = set evs"
    and "sorted_wrt (\<lambda>x y. vle e (ev_version x) (ev_version y)) (SortEvents sorter e evs)"
proof -
  show s: "set (SortEvents sorter e evs) = set evs"
    using assms(1) by (simp add: SortEvents_def sorter_ok_def)
  have "sorted_wrt (\<lambda>x y. compareEvents e x y \<le> 0) (SortEvents sorter e evs)"
    using assms(1) events_weak_order [OF assms(2)] by (simp add: SortEvents_def sorter_ok_def)
  then show "sorted_wrt (\<lambda>x y. vle e (ev_version x) (ev_version y)) (SortEvents sorter e evs)"
    by (rule sorted_wrt_mono_rel [rotated]) (use s assms(2) compareEvents_vle in blast)
qed

text \<open>The coarse bounds of sorted events hold the coarse version of every version they affect.\<close>

lemma coarseOfEvents_covers:
  assumes sorted: "sorted_wrt (\<lambda>x y. vle e (ev_version x) (ev_version y)) evs"
    and ok: "\<forall>ev \<in> set evs. parses e (ev_version ev)"
    and affects: "affects e evs x" and x: "eco_Coarse e x = Inr s"
  shows "fst (coarseOfEvents e (map as_entry evs)) \<le> s \<and> s \<le> snd (coarseOfEvents e (map as_entry evs))"
proof -
  have b: "minCoarseVersion \<le> s" "s \<le> maxCoarseVersion" using coarse_shape [OF x] by (simp_all add: bounded_def)
  obtain i where i: "i \<in> set evs" "ev_type i = Introduced" "vle e (ev_version i) x"
    and f: "\<And>f. f \<in> set evs \<Longrightarrow> ev_type f = Fixed \<Longrightarrow> vle e (ev_version i) (ev_version f) \<Longrightarrow>
        \<not> vle e (ev_version f) x"
    and l: "\<And>l. l \<in> set evs \<Longrightarrow> ev_type l = LastAffected \<Longrightarrow> vle e (ev_version i) (ev_version l) \<Longrightarrow>
        vle e x (ev_version l)"
    using affects unfolding affects_def by blast
  have px: "parses e x" using vle_parses i(3) by blast
  have refl: "vle e v v" if "parses e v" for v using vle_total that by blast
  obtain j where j: "find (\<lambda>ev. ae_type ev = ''introduced'') (map as_entry evs) = Some (as_entry j)"
    and first: "vle e (ev_version j) (ev_version i)"
    using sorted i(1,2) ok
  proof (induction evs arbitrary: thesis)
    case (Cons ev evs)
    show ?case
    proof (cases "ev_type ev = Introduced")
      case True
      then show ?thesis using Cons.prems refl by (intro Cons.prems(1) [of ev]) auto
    next
      case False
      show ?thesis
      proof (rule Cons.IH)
        fix j
        assume "find (\<lambda>ev. ae_type ev = ''introduced'') (map as_entry evs) = Some (as_entry j)"
          "vle e (ev_version j) (ev_version i)"
        then show thesis by (intro Cons.prems(1) [of j]) (simp_all add: event_type_String_introduced False)
      qed (use Cons.prems False in auto)
    qed
  qed simp
  have low: "coarseOr e (ev_version j) minCoarseVersion \<le> s"
    using vle_coarse [OF vle_trans [OF first i(3)] _ x] b
    by (auto simp: coarseOr_def split: sum.splits)
  have ne: "evs \<noteq> []" using i(1) by auto
  have top: "vle e (ev_version y) (ev_version (last evs))" if "y \<in> set evs" for y
  proof -
    from that obtain us vs where evs: "evs = us @ y # vs" by (metis split_list)
    then show ?thesis using sorted refl ok by (cases vs) (auto simp: sorted_wrt_append)
  qed
  have high: "vle e x (ev_version (last evs))" if "ev_type (last evs) \<noteq> Introduced"
  proof (cases "ev_type (last evs)")
    case Fixed
    then have "\<not> vle e (ev_version (last evs)) x" using f top i(1) ne by auto
    moreover have "parses e (ev_version (last evs))" using ok ne by simp
    ultimately show ?thesis using vle_total [OF px] by blast
  next
    case LastAffected
    then show ?thesis using l top i(1) ne by auto
  next
    case Limit
    then have "\<exists>m \<in> set evs. ev_type m = Limit" using ne last_in_set by blast
    then obtain m where "m \<in> set evs" "vlt e x (ev_version m)"
      using affects unfolding affects_def by blast
    then show ?thesis using top vle_trans unfolding vlt_def by blast
  qed (use that in simp)
  have "s \<le> coarseOr e (ev_version (last evs)) maxCoarseVersion" if "ev_type (last evs) \<noteq> Introduced"
    using vle_coarse [OF high [OF that] x] b by (auto simp: coarseOr_def split: sum.splits)
  then show ?thesis
    using low b ne by (simp add: coarseOfEvents_def j Let_def last_map event_type_String_introduced)
qed

end


section \<open>The wrapper\<close>

text \<open>
  Every ecosystem is used through the wrapper that puts the version \<open>0\<close> before all others. It
  keeps the laws if the coarse version of \<open>0\<close> is the least.
\<close>

locale wrappable = version_laws +
  assumes zero_coarse: "eco_Coarse e ''0'' = Inr s \<Longrightarrow> s = minCoarseVersion"

lemma wrap_simps [simp]:
  "eco_Parse (wrapEcosystem e) = parseWrapped (eco_Parse e)"
  "eco_Compare (wrapEcosystem e) = wrapped_Compare (eco_Compare e)"
  "eco_Coarse (wrapEcosystem e) = eco_Coarse e"
  by (simp_all add: wrapEcosystem_def)

lemma vle_wrap:
  "vle (wrapEcosystem e) v w =
     (if v = ''0'' then w = ''0'' \<or> parses e w else w \<noteq> ''0'' \<and> vle e v w)"
  by (auto simp: vle_def parseWrapped_def parses_def split: sum.splits)

sublocale wrappable \<subseteq> wrapped: version_laws "wrapEcosystem e"
proof
  fix v w a b
  assume "eco_Parse (wrapEcosystem e) v = Inr a" "eco_Parse (wrapEcosystem e) w = Inr b"
  then show "\<exists>c. eco_Compare (wrapEcosystem e) a b = Inr c"
    using compare_ok by (auto simp: parseWrapped_def split: if_splits sum.splits)
next
  fix v w a b c d
  assume "eco_Parse (wrapEcosystem e) v = Inr a" "eco_Parse (wrapEcosystem e) w = Inr b"
    "eco_Compare (wrapEcosystem e) a b = Inr c" "eco_Compare (wrapEcosystem e) b a = Inr d"
  then show "(c \<le> 0 \<longleftrightarrow> 0 \<le> d) \<and> (d \<le> 0 \<longleftrightarrow> 0 \<le> c)"
    by (auto dest: compare_sym simp: parseWrapped_def split: if_splits sum.splits)
next
  fix u v w
  assume uv: "vle (wrapEcosystem e) u v" and vw: "vle (wrapEcosystem e) v w"
  show "vle (wrapEcosystem e) u w"
  proof (cases "u = ''0''")
    case True
    then show ?thesis using vw vle_parses [of v w] unfolding vle_wrap by presburger
  next
    case False
    then show ?thesis using uv vw vle_trans [of u v w] unfolding vle_wrap by presburger
  qed
next
  fix v w s t
  assume le: "vle (wrapEcosystem e) v w" and c: "eco_Coarse (wrapEcosystem e) v = Inr s" "eco_Coarse (wrapEcosystem e) w = Inr t"
  show "s \<le> t"
  proof (cases "v = ''0''")
    case True
    then show ?thesis using zero_coarse c coarse_shape [of w t] by (simp add: bounded_def)
  next
    case False
    then show ?thesis using le c vle_coarse [of v w s t] by (simp add: vle_wrap)
  qed
next
  fix v s
  assume "eco_Coarse (wrapEcosystem e) v = Inr s"
  then show "bounded s" using coarse_shape by simp
qed

text \<open>
  The ecosystem of versions made of numbers and dots, of which the first three count, with any
  of the implementations of \<open>Coarse\<close>.
\<close>

definition numbers_Compare :: "int list \<Rightarrow> int list \<Rightarrow> string + int" where
  "numbers_Compare m n =
     Inr (if numbers 0 m < numbers 0 n then -1 else if numbers 0 m = numbers 0 n then 0 else 1)"

definition dotted_ecosystem :: "(string \<Rightarrow> string + string) \<Rightarrow> int list ecosystem" where
  "dotted_ecosystem Coarse = \<lparr>
     eco_Parse = (\<lambda>v. case dotted_numbers v of None \<Rightarrow> Inl ''invalid version'' | Some n \<Rightarrow> Inr n),
     eco_Compare = numbers_Compare, eco_Coarse = Coarse\<rparr>"

lemma vle_dotted: "vle (dotted_ecosystem Coarse) = dotted_le"
  by (intro ext) (auto simp: vle_def dotted_ecosystem_def dotted_le_def numbers_Compare_def split: option.splits)

lemma dotted_zero: "dotted_numbers ''0'' = Some [0]"
  by (simp add: dotted_numbers_def isDecimal_def is_digit_def decimal_value_def digit_val_def)

lemma min_coarse_zero: "coarseFromInts 0 [0] = minCoarseVersion"
  by (simp add: coarseFromInts_def numeral_3_eq_3 maxCoarsePart_def maxCoarseEpoch_def minCoarseVersion_def
      padded_zeros del: padded.simps) (simp add: numeral_eq_Suc)

lemma dotted_wrappable:
  assumes "Coarse \<in> ecosystem_Coarses"
  shows "wrappable (dotted_ecosystem Coarse)"
proof
  fix v w a b c d
  assume "eco_Compare (dotted_ecosystem Coarse) a b = Inr c" "eco_Compare (dotted_ecosystem Coarse) b a = Inr d"
  then show "(c \<le> 0 \<longleftrightarrow> 0 \<le> d) \<and> (d \<le> 0 \<longleftrightarrow> 0 \<le> c)"
    by (auto simp: dotted_ecosystem_def numbers_Compare_def split: if_splits)
next
  fix u v w
  assume "vle (dotted_ecosystem Coarse) u v" "vle (dotted_ecosystem Coarse) v w"
  then show "vle (dotted_ecosystem Coarse) u w"
    unfolding vle_dotted by (auto simp: dotted_le_def split: option.splits)
next
  fix v w s t
  assume "vle (dotted_ecosystem Coarse) v w" "eco_Coarse (dotted_ecosystem Coarse) v = Inr s"
    "eco_Coarse (dotted_ecosystem Coarse) w = Inr t"
  then show "s \<le> t"
    using coarse_contract.coarse_mono [OF dotted_contract [OF assms]]
    unfolding vle_dotted by (auto simp: dotted_ecosystem_def)
next
  fix v s
  assume "eco_Coarse (dotted_ecosystem Coarse) v = Inr s"
  then show "bounded s" using ecosystem_bounded [OF assms] by (simp add: dotted_ecosystem_def)
next
  fix s
  assume "eco_Coarse (dotted_ecosystem Coarse) ''0'' = Inr s"
  then show "s = minCoarseVersion"
    using dotted_Coarse [OF assms dotted_zero] by (simp add: dotted_ecosystem_def min_coarse_zero)
qed (simp add: dotted_ecosystem_def numbers_Compare_def)

interpretation semver: wrappable "dotted_ecosystem semver_Coarse"
  by (rule dotted_wrappable) simp

interpretation dpkg: wrappable "dotted_ecosystem dpkg_Coarse"
  by (rule dotted_wrappable) simp

section \<open>No affected version is missed\<close>

text \<open>
  C7: The coarse query misses no version: for each range of a vulnerability with events by version
  and each name under which its ecosystem is looked up, an entity is stored whose bounds hold the
  coarse version of every version that the range affects, if the ecosystem keeps its contract,
  the versions of the events can be parsed and the events are sorted as \<open>slices.SortFunc\<close> documents.
\<close>

theorem computeAffectedVersions_covers:
  assumes "sorter_ok sorter"
    and "a \<in> set affected" and "r \<in> set (sa_ranges a)" and "versionRange r"
    and "get (sa_ecosystem a) = Some e" and "version_laws e"
    and "\<forall>ev \<in> set (filter (\<lambda>ev. ev_version ev \<noteq> []) (map FromSchemaEvent (sr_events r))). parses e (ev_version ev)"
    and "affects e (filter (\<lambda>ev. ev_version ev \<noteq> []) (map FromSchemaEvent (sr_events r))) x"
    and "eco_Coarse e x = Inr s" and "eco \<in> set (allPkgEcosystems (sa_ecosystem a))"
  shows "\<exists>av \<in> set (computeAffectedVersions sorter urlParse get vid affected).
      av_vuln_id av = vid \<and> av_ecosystem av = eco \<and> av_name av = sa_name a
      \<and> av_coarse_min av \<le> s \<and> s \<le> av_coarse_max av"
proof -
  let ?evs = "filter (\<lambda>ev. ev_version ev \<noteq> []) (map FromSchemaEvent (sr_events r))"
  let ?sorted = "SortEvents sorter e ?evs"
  note sorted = version_laws.SortEvents_sorted [OF assms(6,1,7)]
  have events: "rangeEventsOf sorter (Some e) r = map as_entry ?sorted"
    by (simp add: rangeEventsOf_def Let_def)
  have "affects e ?sorted x" using assms(8) unfolding affects_def sorted(1) .
  moreover have "\<forall>ev \<in> set ?sorted. parses e (ev_version ev)" using assms(7) unfolding sorted(1) .
  ultimately have bounds: "fst (coarseOfEvents e (map as_entry ?sorted)) \<le> s
      \<and> s \<le> snd (coarseOfEvents e (map as_entry ?sorted))"
    by (intro version_laws.coarseOfEvents_covers [OF assms(6) sorted(2) _ _ assms(9)])
  define av where "av = \<lparr>av_vuln_id = vid, av_ecosystem = eco, av_name = sa_name a, av_versions = [],
    av_events = map as_entry ?sorted, av_coarse_min = fst (coarseOfEvents e (map as_entry ?sorted)),
    av_coarse_max = snd (coarseOfEvents e (map as_entry ?sorted))\<rparr>"
  have "av \<in> set (rangeEntries sorter (Some e) vid (allPkgEcosystems (sa_ecosystem a)) (sa_name a) r)"
    using assms(10) by (simp add: rangeEntries_def events Let_def av_def)
  then have "av \<in> set (affectedEntries sorter urlParse get vid a)"
    using assms(3,4,5) by (auto simp: affectedEntries_def Let_def)
  then have "av \<in> set (computeAffectedVersions sorter urlParse get vid affected)"
    using assms(2) by (auto simp: computeAffectedVersions_def)
  then show ?thesis using bounds by (intro bexI [of _ av]) (simp_all add: av_def)
qed

text \<open>The range from 1.2 to 1.10.3 of a package, and 1.9 in it.\<close>

definition ex_range :: schema_range where
  "ex_range = \<lparr>sr_type = RangeSemver, sr_repo = [], sr_events =
     [\<lparr>se_introduced = [], se_last_affected = [], se_fixed = ''1.10.3'', se_limit = []\<rparr>,
      \<lparr>se_introduced = ''1.2'', se_last_affected = [], se_fixed = [], se_limit = []\<rparr>]\<rparr>"

definition ex_affected :: schema_affected where
  "ex_affected = \<lparr>sa_ecosystem = ''npm'', sa_name = ''left-pad'', sa_ranges = [ex_range], sa_versions = [], sa_severity = []\<rparr>"

lemmas ex_numbers = dotted_numbers_def isDecimal_def is_digit_def decimal_value_def digit_val_def Let_def

lemma computeAffectedVersions_covers_witness:
  "\<exists>av \<in> set (computeAffectedVersions insertionSort (\<lambda>_. None)
       (\<lambda>_. Some (wrapEcosystem (dotted_ecosystem semver_Coarse))) ''V-1'' [ex_affected]).
     av_vuln_id av = ''V-1'' \<and> av_ecosystem av = ''npm'' \<and> av_name av = ''left-pad''
     \<and> av_coarse_min av \<le> coarseFromInts 0 [1, 9] \<and> coarseFromInts 0 [1, 9] \<le> av_coarse_max av"
proof -
  have n: "dotted_numbers ''1.2'' = Some [1, 2]" "dotted_numbers ''1.10.3'' = Some [1, 10, 3]"
    "dotted_numbers ''1.9'' = Some [1, 9]"
    by (simp_all add: ex_numbers)
  have c: "semver_Coarse ''1.9'' = Inr (coarseFromInts 0 [1, 9])"
    by (rule dotted_Coarse [OF _ n(3)]) simp
  have le: "dotted_le ''1.2'' ''1.9''" "\<not> dotted_le ''1.10.3'' ''1.9''"
    by (simp_all add: dotted_le_def n numbers_def numeral_3_eq_3)
  have p: "parses (wrapEcosystem (dotted_ecosystem semver_Coarse)) v" if "dotted_numbers v = Some k" for v k
    using that by (simp add: parses_def parseWrapped_def dotted_ecosystem_def)
  let ?e = "wrapEcosystem (dotted_ecosystem semver_Coarse)"
  have evs: "filter (\<lambda>ev. ev_version ev \<noteq> []) (map FromSchemaEvent (sr_events ex_range)) =
    [\<lparr>ev_type = Fixed, ev_version = ''1.10.3''\<rparr>, \<lparr>ev_type = Introduced, ev_version = ''1.2''\<rparr>]"
    by (simp add: ex_range_def FromSchemaEvent_def)
  have name: "sa_name ex_affected = ''left-pad''" "sa_ecosystem ex_affected = ''npm''"
    by (simp_all add: ex_affected_def)
  show ?thesis
    unfolding name(1) [symmetric]
  proof (rule computeAffectedVersions_covers [where r = ex_range and x = "''1.9''" and e = ?e])
    show "sorter_ok insertionSort" by (rule insertionSort_ok)
    show "version_laws ?e" by (rule semver.wrapped.version_laws_axioms)
    show "versionRange ex_range" by (simp add: ex_range_def versionRange_def)
    show "ex_range \<in> set (sa_ranges ex_affected)" by (simp add: ex_affected_def)
    show "eco_Coarse ?e ''1.9'' = Inr (coarseFromInts 0 [1, 9])" by (simp add: dotted_ecosystem_def c)
    show "''npm'' \<in> set (allPkgEcosystems (sa_ecosystem ex_affected))"
      by (simp add: name allPkgEcosystems_def strings_cut_def removeVariants_def)
    show "\<forall>ev \<in> set (filter (\<lambda>ev. ev_version ev \<noteq> []) (map FromSchemaEvent (sr_events ex_range))). parses ?e (ev_version ev)"
      unfolding evs using p n by simp
    show "affects ?e (filter (\<lambda>ev. ev_version ev \<noteq> []) (map FromSchemaEvent (sr_events ex_range))) ''1.9''"
      unfolding evs affects_def by (simp add: vle_wrap vle_dotted le)
  qed simp_all
qed

end
