(* ===== verification/Listed.thy ===== *)
theory Listed
  imports AffectedVersions
begin

text \<open>
  The entity behind the search and the lists of the website
  (\<open>database/datastore/listed_vulnerability.go\<close>): a vulnerability with the terms it is found by.
  Sets are lists without duplicates; the loops over maps take the order they visit the keys in,
  one for each loop, because the limit on the number of terms can end them early.
\<close>

section \<open>Tokens\<close>

definition maxIndices :: nat where
  "maxIndices = 2000"

text \<open>The parts between runs of other characters, the whole, and the runs of two or more parts.\<close>

definition tokenize :: "string \<Rightarrow> string list" where
  "tokenize value =
     (let valueLower = to_lower value;
          words = filter (\<lambda>token. token \<noteq> []) (splitAt (\<lambda>c. \<not> is_alnum c) valueLower []);
          parts = strings_split valueLower ''-'';
          combos = concat (map (\<lambda>len. map (\<lambda>i. join ''-'' (take len (drop i parts)))
              [0..<Suc (length parts - len)]) [2..<Suc (length parts)])
      in slices_sort (set_add_all combos (set_add valueLower (set_add_all words []))))"

section \<open>The vulnerability, as far as it is read\<close>

record schema_vuln =
  sv_id :: vuln_id
  sv_published :: timestamp
  sv_modified :: timestamp
  sv_withdrawn :: bool
  sv_summary :: string
  sv_severity :: "(string \<times> string) list"
  sv_affected :: "schema_affected list"
  sv_aliases :: "vuln_id list"
  sv_related :: "vuln_id list"
  sv_upstream :: "vuln_id list"

record listed_vulnerability =
  lv_published :: timestamp
  lv_ecosystems :: "string list"
  lv_packages :: "string list"
  lv_summary :: string
  lv_is_fixed :: bool
  lv_severities :: "(string \<times> string) list"
  lv_autocomplete_tags :: "string list"
  lv_search_indices :: "string list"

section \<open>What the loop over the affected packages collects\<close>

record collected =
  co_ecosystems :: "string list"
  co_packages :: "string list"
  co_fixed :: bool
  co_severities :: "(string \<times> string) list"
  co_tags :: "string list"
  co_pkgs :: "string list"
  co_repos :: "string list"

definition fixesEvent :: "schema_event \<Rightarrow> bool" where
  "fixesEvent e \<longleftrightarrow> se_fixed e \<noteq> [] \<or> se_limit e \<noteq> []"

text \<open>The part of a repository's address after the scheme, if it has one.\<close>

definition noHTTP :: "string \<Rightarrow> string option" where
  "noHTTP repo =
     (let split = strings_split repo ''//'' in if length split \<ge> 2 then Some (split ! 1) else None)"

definition collectRange :: "schema_range \<Rightarrow> collected \<Rightarrow> collected" where
  "collectRange r c =
     (let c1 =
        (if sr_type r = RangeGit
         then
           let repoLower = to_lower (sr_repo r)
           in c\<lparr>co_ecosystems := set_add ''GIT'' (co_ecosystems c),
                co_repos := set_add repoLower (co_repos c),
                co_tags := set_add repoLower (co_tags c),
                co_packages := set_add (case noHTTP repoLower of Some h \<Rightarrow> h | None \<Rightarrow> repoLower) (co_packages c)\<rparr>
         else c)
      in c1\<lparr>co_fixed := co_fixed c1 \<or> list_ex fixesEvent (sr_events r)\<rparr>)"

definition collectAffected :: "schema_affected \<Rightarrow> collected \<Rightarrow> collected" where
  "collectAffected a c =
     (let pkgNameLower = to_lower (sa_name a);
          c1 = (if sa_name a \<noteq> []
            then c\<lparr>co_pkgs := set_add pkgNameLower (co_pkgs c), co_tags := set_add pkgNameLower (co_tags c),
                   co_packages := set_add (sa_ecosystem a @ ''/'' @ sa_name a) (co_packages c)\<rparr>
            else c);
          c2 = (if sa_ecosystem a \<noteq> []
            then c1\<lparr>co_ecosystems := set_add (sa_ecosystem a) (co_ecosystems c1)\<rparr> else c1);
          c3 = c2\<lparr>co_severities := set_add_all (sa_severity a) (co_severities c2)\<rparr>
      in fold collectRange (sa_ranges a) c3)"

definition collect :: "schema_vuln \<Rightarrow> collected" where
  "collect v = fold collectAffected (sv_affected v)
     \<lparr>co_ecosystems = [], co_packages = [], co_fixed = False,
      co_severities = set_add_all (sv_severity v) [], co_tags = [to_lower (sv_id v)],
      co_pkgs = [], co_repos = []\<rparr>"

section \<open>The terms, up to the limit\<close>

fun addTokens :: "string list \<Rightarrow> string list \<Rightarrow> string list" where
  "addTokens [] indices = indices"
| "addTokens (t # ts) indices =
     (if length indices \<ge> maxIndices then indices else addTokens ts (set_add t indices))"

fun addRepos :: "string list \<Rightarrow> string list \<Rightarrow> string list" where
  "addRepos [] indices = indices"
| "addRepos (repo # repos) indices =
     (if length indices \<ge> maxIndices then indices
      else
        (case noHTTP repo of
           None \<Rightarrow> addRepos repos indices
         | Some h \<Rightarrow>
             let indices1 = set_add h indices
             in if length indices1 \<ge> maxIndices then indices1
                else addRepos repos (addTokens (tl (strings_split h ''/'')) indices1)))"

fun addPkgs :: "string list \<Rightarrow> string list \<Rightarrow> string list" where
  "addPkgs [] indices = indices"
| "addPkgs (pkg # pkgs) indices =
     (if length indices \<ge> maxIndices then indices else addPkgs pkgs (addTokens (tokenize pkg) indices))"

definition addEcosystem :: "string \<Rightarrow> string list \<Rightarrow> string list" where
  "addEcosystem eco indices =
     (let indices1 = addTokens (tokenize eco) indices;
          v = removeVariants eco
      in if v \<noteq> [] then addTokens (tokenize v) indices1 else indices1)"

text \<open>The orders of the three loops over maps that end early: repositories, packages, ecosystems.\<close>

type_synonym order = "string list \<Rightarrow> string list"

definition searchIndices :: "order \<Rightarrow> order \<Rightarrow> order \<Rightarrow> schema_vuln \<Rightarrow> collected \<Rightarrow> string list" where
  "searchIndices ordR ordP ordE v c =
     (let s0 = set_add_all (tokenize (sv_id v)) [];
          s1 = set_add_all (co_pkgs c) (set_add_all (co_repos c) s0);
          s2 = addRepos (ordR (co_repos c)) s1;
          s3 = addPkgs (ordP (co_pkgs c)) s2;
          s4 = fold addEcosystem (ordE (co_ecosystems c)) s3;
          s5 = fold (\<lambda>alias. addTokens (tokenize alias)) (sv_aliases v) s4
      in fold (\<lambda>upstream. addTokens (tokenize upstream)) (sv_upstream v) s5)"

definition NewListedVulnerabilityFromProto ::
  "order \<Rightarrow> order \<Rightarrow> order \<Rightarrow> schema_vuln \<Rightarrow> listed_vulnerability" where
  "NewListedVulnerabilityFromProto ordR ordP ordE v =
     (let c = collect v in
      \<lparr>lv_published = sv_published v,
       lv_ecosystems = slices_compact (slices_sort
         (map (\<lambda>eco. fst (strings_cut eco (CHR '':''))) (co_ecosystems c))),
       lv_packages = slices_sort (co_packages c),
       lv_summary = sv_summary v,
       lv_is_fixed = co_fixed c,
       lv_severities = slices_sort (co_severities c),
       lv_autocomplete_tags = take maxIndices (slices_sort (co_tags c)),
       lv_search_indices = take maxIndices (slices_sort (searchIndices ordR ordP ordE v c))\<rparr>)"

section \<open>What the loop collects\<close>

definition gitRanges :: "schema_affected \<Rightarrow> schema_range set" where
  "gitRanges a = {r \<in> set (sa_ranges a). sr_type r = RangeGit}"

definition ecosystemsOf :: "schema_affected \<Rightarrow> string set" where
  "ecosystemsOf a =
     (if sa_ecosystem a \<noteq> [] then {sa_ecosystem a} else {}) \<union> (if gitRanges a \<noteq> {} then {''GIT''} else {})"

definition namesOf :: "schema_affected \<Rightarrow> string set" where
  "namesOf a = (if sa_name a \<noteq> [] then {to_lower (sa_name a)} else {})"

definition reposOf :: "schema_affected \<Rightarrow> string set" where
  "reposOf a = (\<lambda>r. to_lower (sr_repo r)) ` gitRanges a"

lemma collectRanges:
  "set (co_repos (fold collectRange rs c)) =
     set (co_repos c) \<union> (\<lambda>r. to_lower (sr_repo r)) ` {r \<in> set rs. sr_type r = RangeGit}"
  "co_pkgs (fold collectRange rs c) = co_pkgs c"
  "set (co_ecosystems (fold collectRange rs c)) =
     set (co_ecosystems c) \<union> (if \<exists>r \<in> set rs. sr_type r = RangeGit then {''GIT''} else {})"
  "co_fixed (fold collectRange rs c) \<longleftrightarrow> co_fixed c \<or> (\<exists>r \<in> set rs. \<exists>ev \<in> set (sr_events r). fixesEvent ev)"
  "distinct (co_repos (fold collectRange rs c)) = distinct (co_repos c)"
  "distinct (co_ecosystems (fold collectRange rs c)) = distinct (co_ecosystems c)"
  by (induction rs arbitrary: c) (auto simp: collectRange_def Let_def list_ex_iff)

lemma collectAffected_sets:
  "set (co_repos (collectAffected a c)) = set (co_repos c) \<union> reposOf a"
  "set (co_pkgs (collectAffected a c)) = set (co_pkgs c) \<union> namesOf a"
  "set (co_ecosystems (collectAffected a c)) = set (co_ecosystems c) \<union> ecosystemsOf a"
  "co_fixed (collectAffected a c) \<longleftrightarrow>
     co_fixed c \<or> (\<exists>r \<in> set (sa_ranges a). \<exists>ev \<in> set (sr_events r). fixesEvent ev)"
  "distinct (co_repos (collectAffected a c)) = distinct (co_repos c)"
  "distinct (co_pkgs (collectAffected a c)) = distinct (co_pkgs c)"
  "distinct (co_ecosystems (collectAffected a c)) = distinct (co_ecosystems c)"
  by (auto simp: collectAffected_def collectRanges Let_def reposOf_def namesOf_def ecosystemsOf_def gitRanges_def)

lemma collectAll_sets:
  "set (co_repos (fold collectAffected as c)) = set (co_repos c) \<union> (\<Union>a \<in> set as. reposOf a)"
  "set (co_pkgs (fold collectAffected as c)) = set (co_pkgs c) \<union> (\<Union>a \<in> set as. namesOf a)"
  "set (co_ecosystems (fold collectAffected as c)) = set (co_ecosystems c) \<union> (\<Union>a \<in> set as. ecosystemsOf a)"
  "co_fixed (fold collectAffected as c) \<longleftrightarrow>
     co_fixed c \<or> (\<exists>a \<in> set as. \<exists>r \<in> set (sa_ranges a). \<exists>ev \<in> set (sr_events r). fixesEvent ev)"
  "distinct (co_repos (fold collectAffected as c)) = distinct (co_repos c)"
  "distinct (co_pkgs (fold collectAffected as c)) = distinct (co_pkgs c)"
  "distinct (co_ecosystems (fold collectAffected as c)) = distinct (co_ecosystems c)"
  by (induction as arbitrary: c) (auto simp: collectAffected_sets)

lemma collect_sets:
  "set (co_repos (collect v)) = (\<Union>a \<in> set (sv_affected v). reposOf a)"
  "set (co_pkgs (collect v)) = (\<Union>a \<in> set (sv_affected v). namesOf a)"
  "set (co_ecosystems (collect v)) = (\<Union>a \<in> set (sv_affected v). ecosystemsOf a)"
  "co_fixed (collect v) \<longleftrightarrow>
     (\<exists>a \<in> set (sv_affected v). \<exists>r \<in> set (sa_ranges a). \<exists>ev \<in> set (sr_events r). fixesEvent ev)"
  "distinct (co_repos (collect v))" "distinct (co_pkgs (collect v))" "distinct (co_ecosystems (collect v))"
  by (simp_all add: collect_def collectAll_sets)

section \<open>Additions with a limit\<close>

text \<open>Adds only terms of a set, and all of them unless the limit is reached.\<close>

definition adds :: "(string list \<Rightarrow> string list) \<Rightarrow> string set \<Rightarrow> bool" where
  "adds f S \<longleftrightarrow>
     (\<forall>s. distinct s \<longrightarrow> distinct (f s) \<and> set s \<subseteq> set (f s) \<and> set (f s) \<subseteq> set s \<union> S
        \<and> (S \<subseteq> set (f s) \<or> maxIndices \<le> length (f s)))"

lemma adds_length: "adds f S \<Longrightarrow> distinct s \<Longrightarrow> length s \<le> length (f s)"
  unfolding adds_def by (metis List.finite_set card_mono distinct_card)

lemma adds_comp:
  assumes f: "adds f S" and g: "adds g T"
  shows "adds (\<lambda>s. g (f s)) (S \<union> T)"
  unfolding adds_def
proof (intro allI impI)
  fix s :: "string list"
  assume s: "distinct s"
  have F: "distinct (f s)" "set s \<subseteq> set (f s)" "set (f s) \<subseteq> set s \<union> S" "S \<subseteq> set (f s) \<or> maxIndices \<le> length (f s)"
    using f s by (auto simp: adds_def)
  have G: "distinct (g (f s))" "set (f s) \<subseteq> set (g (f s))" "set (g (f s)) \<subseteq> set (f s) \<union> T"
    "T \<subseteq> set (g (f s)) \<or> maxIndices \<le> length (g (f s))"
    using g F(1) by (auto simp: adds_def)
  show "distinct (g (f s)) \<and> set s \<subseteq> set (g (f s)) \<and> set (g (f s)) \<subseteq> set s \<union> (S \<union> T)
      \<and> (S \<union> T \<subseteq> set (g (f s)) \<or> maxIndices \<le> length (g (f s)))"
    using F G adds_length [OF g F(1)] by auto
qed

lemma adds_id: "adds (\<lambda>s. s) {}"
  by (simp add: adds_def)

lemma adds_set_add: "adds (set_add t) {t}"
  by (auto simp: adds_def)

lemma adds_full: "adds f S \<Longrightarrow> adds (\<lambda>s. if maxIndices \<le> length s then s else f s) S"
  by (simp add: adds_def)

lemma adds_tokens: "adds (addTokens ts) (set ts)"
proof (induction ts)
  case Nil
  show ?case using adds_id by simp
next
  case (Cons t ts)
  have "adds (\<lambda>s. if maxIndices \<le> length s then s else addTokens ts (set_add t s)) ({t} \<union> set ts)"
    by (rule adds_full) (rule adds_comp [OF adds_set_add Cons.IH])
  then show ?case by (simp add: if_distrib cong: if_cong)
qed

lemma adds_fold:
  "(\<And>x. x \<in> set xs \<Longrightarrow> adds (f x) (S x)) \<Longrightarrow> adds (fold f xs) (\<Union>x \<in> set xs. S x)"
proof (induction xs)
  case Nil
  show ?case using adds_id by (simp add: id_def)
next
  case (Cons x xs)
  have "adds (\<lambda>s. fold f xs (f x s)) (S x \<union> (\<Union>y \<in> set xs. S y))"
    by (rule adds_comp) (use Cons in auto)
  then show ?case by (simp add: comp_def)
qed

section \<open>The terms a vulnerability is found by\<close>

definition repoTerms :: "string \<Rightarrow> string set" where
  "repoTerms repo = (case noHTTP repo of None \<Rightarrow> {} | Some h \<Rightarrow> insert h (set (tl (strings_split h ''/''))))"

definition ecoTerms :: "string \<Rightarrow> string set" where
  "ecoTerms eco =
     set (tokenize eco) \<union> (if removeVariants eco \<noteq> [] then set (tokenize (removeVariants eco)) else {})"

definition searchTerms :: "schema_vuln \<Rightarrow> string set" where
  "searchTerms v =
     set (tokenize (sv_id v))
     \<union> (\<Union>repo \<in> (\<Union>a \<in> set (sv_affected v). reposOf a). insert repo (repoTerms repo))
     \<union> (\<Union>name \<in> (\<Union>a \<in> set (sv_affected v). namesOf a). insert name (set (tokenize name)))
     \<union> (\<Union>eco \<in> (\<Union>a \<in> set (sv_affected v). ecosystemsOf a). ecoTerms eco)
     \<union> (\<Union>alias \<in> set (sv_aliases v). set (tokenize alias))
     \<union> (\<Union>upstream \<in> set (sv_upstream v). set (tokenize upstream))"

lemma UN_insert_self: "(\<Union>x \<in> A. insert x (f x)) = A \<union> (\<Union>x \<in> A. f x)"
  by auto

lemma Un_shuffle: "(T \<union> R \<union> P) \<union> (S \<union> Q \<union> E \<union> A \<union> U) = T \<union> (R \<union> S) \<union> (P \<union> Q) \<union> E \<union> A \<union> U"
  by blast

lemma adds_repos: "adds (addRepos repos) (\<Union>repo \<in> set repos. repoTerms repo)"
proof (induction repos)
  case Nil
  show ?case using adds_id by simp
next
  case (Cons repo repos)
  show ?case
  proof (cases "noHTTP repo")
    case None
    then have "addRepos (repo # repos) = (\<lambda>s. if maxIndices \<le> length s then s else addRepos repos s)"
      by (simp add: fun_eq_iff)
    then show ?thesis using adds_full [OF Cons.IH] None by (simp add: repoTerms_def)
  next
    case (Some h)
    let ?ts = "tl (strings_split h ''/'')"
    have "adds (\<lambda>s. addRepos repos (addTokens ?ts s)) (set ?ts \<union> (\<Union>repo \<in> set repos. repoTerms repo))"
      by (rule adds_comp [OF adds_tokens Cons.IH])
    note r = adds_full [OF adds_comp [OF adds_set_add adds_full [OF this], of h]]
    have "addRepos (repo # repos) = (\<lambda>s. if maxIndices \<le> length s then s
        else if maxIndices \<le> length (set_add h s) then set_add h s
        else addRepos repos (addTokens ?ts (set_add h s)))"
      by (simp add: fun_eq_iff Some Let_def)
    with r show ?thesis by (simp add: Some repoTerms_def Un_assoc)
  qed
qed

lemma adds_pkgs: "adds (addPkgs pkgs) (\<Union>pkg \<in> set pkgs. set (tokenize pkg))"
proof (induction pkgs)
  case Nil
  show ?case using adds_id by simp
next
  case (Cons pkg pkgs)
  from adds_full [OF adds_comp [OF adds_tokens Cons.IH]] show ?case by simp
qed

lemma adds_ecosystem: "adds (addEcosystem eco) (ecoTerms eco)"
  using adds_tokens [of "tokenize eco"] adds_comp [OF adds_tokens [of "tokenize eco"] adds_tokens [of "tokenize (removeVariants eco)"]]
  by (simp add: addEcosystem_def [abs_def] ecoTerms_def Let_def)

lemma searchIndices_terms:
  assumes ord: "iteration_order ordR" "iteration_order ordP" "iteration_order ordE"
  shows "distinct (searchIndices ordR ordP ordE v (collect v))
    \<and> set (searchIndices ordR ordP ordE v (collect v)) \<subseteq> searchTerms v
    \<and> (searchTerms v \<subseteq> set (searchIndices ordR ordP ordE v (collect v))
       \<or> maxIndices \<le> length (searchIndices ordR ordP ordE v (collect v)))"
proof -
  define s1 where "s1 = set_add_all (co_pkgs (collect v)) (set_add_all (co_repos (collect v)) (set_add_all (tokenize (sv_id v)) []))"
  define f where "f = (\<lambda>s. fold (\<lambda>upstream. addTokens (tokenize upstream)) (sv_upstream v)
      (fold (\<lambda>alias. addTokens (tokenize alias)) (sv_aliases v)
        (fold addEcosystem (ordE (co_ecosystems (collect v)))
          (addPkgs (ordP (co_pkgs (collect v))) (addRepos (ordR (co_repos (collect v))) s)))))"
  define S where "S = (\<Union>repo \<in> set (ordR (co_repos (collect v))). repoTerms repo)
      \<union> (\<Union>pkg \<in> set (ordP (co_pkgs (collect v))). set (tokenize pkg))
      \<union> (\<Union>eco \<in> set (ordE (co_ecosystems (collect v))). ecoTerms eco)
      \<union> (\<Union>alias \<in> set (sv_aliases v). set (tokenize alias))
      \<union> (\<Union>upstream \<in> set (sv_upstream v). set (tokenize upstream))"
  note o = iteration_orderD(2) [OF ord(1) collect_sets(5)] iteration_orderD(2) [OF ord(2) collect_sets(6)]
    iteration_orderD(2) [OF ord(3) collect_sets(7)]
  have "adds f S"
    unfolding f_def S_def by (intro adds_comp adds_repos adds_pkgs adds_fold adds_ecosystem adds_tokens)
  moreover have "distinct s1" by (simp add: s1_def)
  ultimately have "distinct (f s1)" "set s1 \<subseteq> set (f s1)" "set (f s1) \<subseteq> set s1 \<union> S"
    "S \<subseteq> set (f s1) \<or> maxIndices \<le> length (f s1)"
    unfolding adds_def by simp_all
  moreover have "set s1 \<union> S = searchTerms v"
    unfolding o collect_sets(1-3) searchTerms_def set_set_add_all UN_insert_self list.set(1) Un_empty_left s1_def S_def
    by (rule Un_shuffle)
  moreover have "searchIndices ordR ordP ordE v (collect v) = f s1"
    by (simp add: searchIndices_def Let_def f_def s1_def)
  ultimately show ?thesis by auto
qed

text \<open>
  The terms a listed vulnerability is found by are sorted, without duplicates and at most
  2000, and all are terms of its identifier, packages, repositories, ecosystems, aliases or
  upstreams; if there are not more than 2000 of those they are all stored, in whatever order
  the maps are visited.
\<close>

theorem NewListed_search_indices:
  assumes "iteration_order ordR" "iteration_order ordP" "iteration_order ordE"
  shows "sorted (lv_search_indices (NewListedVulnerabilityFromProto ordR ordP ordE v))
    \<and> distinct (lv_search_indices (NewListedVulnerabilityFromProto ordR ordP ordE v))
    \<and> length (lv_search_indices (NewListedVulnerabilityFromProto ordR ordP ordE v)) \<le> 2000
    \<and> set (lv_search_indices (NewListedVulnerabilityFromProto ordR ordP ordE v)) \<subseteq> searchTerms v
    \<and> (card (searchTerms v) \<le> 2000 \<longrightarrow>
         lv_search_indices (NewListedVulnerabilityFromProto ordR ordP ordE v) = sorted_list_of_set (searchTerms v))"
proof -
  let ?s = "searchIndices ordR ordP ordE v (collect v)"
  have l: "lv_search_indices (NewListedVulnerabilityFromProto ordR ordP ordE v) = take 2000 (sort ?s)"
    by (simp add: NewListedVulnerabilityFromProto_def Let_def maxIndices_def)
  have s: "distinct ?s" "set ?s \<subseteq> searchTerms v" "searchTerms v \<subseteq> set ?s \<or> 2000 \<le> length ?s"
    using searchIndices_terms [OF assms, of v] by (auto simp: maxIndices_def)
  have fin: "finite (searchTerms v)"
    by (auto simp: searchTerms_def reposOf_def gitRanges_def namesOf_def ecosystemsOf_def ecoTerms_def repoTerms_def
        split: option.split)
  have "take 2000 (sort ?s) = sorted_list_of_set (searchTerms v)" if c: "card (searchTerms v) \<le> 2000"
  proof -
    have len: "length ?s = card (set ?s)" using s(1) by (simp add: distinct_card)
    have eq: "set ?s = searchTerms v"
      using s(2,3) card_seteq [OF fin s(2)] len c by auto
    then have "length ?s \<le> 2000" using len c by simp
    then have "take 2000 (sort ?s) = sort ?s" by simp
    also have "\<dots> = sorted_list_of_set (searchTerms v)" using sort_distinct_sorted_list [OF s(1)] eq by (simp only:)
    finally show ?thesis .
  qed
  moreover have "set (take 2000 (sort ?s)) \<subseteq> searchTerms v"
    using set_take_subset [of 2000 "sort ?s"] s(2) by auto
  ultimately show ?thesis
    using s(1) unfolding l by (simp add: sorted_wrt_take)
qed


text \<open>A vulnerability of a package of Ubuntu and of a repository.\<close>

definition ex_listed :: schema_vuln where
  "ex_listed = \<lparr>sv_id = ''USN-1-1'', sv_published = 1, sv_modified = 2, sv_withdrawn = False, sv_summary = ''s'',
     sv_severity = [], sv_affected =
       [\<lparr>sa_ecosystem = ''Ubuntu:22.04:LTS'', sa_name = ''Curl'',
         sa_ranges = [\<lparr>sr_type = RangeGit, sr_repo = ''https://github.com/curl/curl'', sr_events = []\<rparr>],
         sa_versions = [], sa_severity = []\<rparr>],
     sv_aliases = [''CVE-1''], sv_related = [], sv_upstream = []\<rparr>"

lemma NewListed_search_indices_witness:
  "length (lv_search_indices (NewListedVulnerabilityFromProto rev id rev ex_listed)) \<le> 2000"
  using NewListed_search_indices [OF iteration_order_rev iteration_order_id iteration_order_rev, of ex_listed] by simp

end
