(* ===== verification/VulnStore.thy ===== *)
theory VulnStore
  imports Listed "HOL-Library.More_List"
begin

text \<open>
  The write path of a vulnerability (\<open>database/datastore/vulnerability.go\<close>): one transaction over
  its base entities, the pages of its commits, and the object in cloud storage, with the queue
  that takes the object when storage fails. Cloud Datastore, cloud storage and the queue are
  parameters (\<open>store_api\<close>) over a state of their own; what they document is \<open>store_laws\<close>, over a
  view of that state.
\<close>

section \<open>The clients\<close>

record affected_commits =
  ac_vuln_id :: vuln_id
  ac_commits :: "string list"
  ac_public :: bool
  ac_page :: nat

datatype tx_op =
    PutVuln vuln_id vulnerability
  | PutListed vuln_id listed_vulnerability
  | DeleteListed vuln_id
  | PutAffected affected_versions
  | DeleteAffected ds_key

datatype 'a get_result = Found 'a | NoSuchEntity | GetFailed string

datatype call_error = ErrNoSuchEntity | ErrOther string

record ('s, 'b) store_api =
  api_NewTransaction :: "'s \<Rightarrow> string option"
  api_Get :: "'s \<Rightarrow> vuln_id \<Rightarrow> vulnerability get_result"
  api_tx_op :: "'s \<Rightarrow> tx_op list \<Rightarrow> tx_op \<Rightarrow> call_error option"
  api_GetAll_affected :: "'s \<Rightarrow> vuln_id \<Rightarrow> string + (ds_key \<times> affected_versions) list"
  api_Commit :: "'s \<Rightarrow> tx_op list \<Rightarrow> 's \<times> string option"
  api_Put_commits :: "string \<Rightarrow> affected_commits \<Rightarrow> 's \<Rightarrow> 's \<times> string option"
  api_GetAll_commits :: "'s \<Rightarrow> vuln_id \<Rightarrow> string + string list"
  api_Delete_commits :: "string \<Rightarrow> 's \<Rightarrow> 's \<times> string option"
  api_Marshal :: "schema_vuln \<Rightarrow> string + 'b"
  api_Unmarshal :: "'b \<Rightarrow> string + schema_vuln"
  api_WriteObject :: "string \<Rightarrow> 'b \<Rightarrow> timestamp \<Rightarrow> 's \<Rightarrow> 's \<times> string option"
  api_ReadObject :: "'s \<Rightarrow> string \<Rightarrow> 'b get_result"
  api_Publish :: "('b \<Rightarrow> 's \<Rightarrow> 's \<times> string option) option"

text \<open>How a version, a repository and a sorted slice are read: the parameters of the entities.\<close>

record 'v entity_env =
  env_sorter :: "event sorter"
  env_urlParse :: "string \<Rightarrow> (string \<times> string) option"
  env_ecosystem :: "string \<Rightarrow> 'v ecosystem option"
  env_ordR :: order
  env_ordP :: order
  env_ordE :: order

record write_request =
  wr_id :: vuln_id
  wr_source :: string
  wr_path :: string
  wr_raw :: "schema_vuln option"
  wr_enriched :: schema_vuln
  wr_commits :: "string list"
  wr_skip :: bool

text \<open>The zero value of \<open>time.Time\<close>, in seconds of Unix time.\<close>

definition zero_time :: timestamp where
  "zero_time = -62135596800"

definition zero_vulnerability :: vulnerability where
  "zero_vulnerability = \<lparr>v_key = [], v_source_id = [], v_modified = zero_time, v_is_withdrawn = False,
     v_modified_raw = zero_time, v_alias_raw = [], v_related_raw = [], v_upstream_raw = []\<rparr>"

section \<open>The affected versions\<close>

text \<open>A call within the transaction: what is buffered grows by it unless it fails.\<close>

definition tx_call :: "('s, 'b) store_api \<Rightarrow> 's \<Rightarrow> string \<Rightarrow> tx_op \<Rightarrow> tx_op list \<Rightarrow> tx_op list \<times> string option" where
  "tx_call api s msg op ops =
     (case api_tx_op api s ops op of
        None \<Rightarrow> (ops @ [op], None)
      | Some ErrNoSuchEntity \<Rightarrow> (ops, Some msg)
      | Some (ErrOther err) \<Rightarrow> (ops, Some (msg @ err)))"

text \<open>A deletion, for which it is no error that there is nothing to delete.\<close>

definition tx_delete :: "('s, 'b) store_api \<Rightarrow> 's \<Rightarrow> string \<Rightarrow> tx_op \<Rightarrow> tx_op list \<Rightarrow> tx_op list \<times> string option" where
  "tx_delete api s msg op ops =
     (case api_tx_op api s ops op of
        None \<Rightarrow> (ops @ [op], None)
      | Some ErrNoSuchEntity \<Rightarrow> (ops, None)
      | Some (ErrOther err) \<Rightarrow> (ops, Some (msg @ err)))"

definition addedAffected :: "(ds_key \<times> affected_versions) list \<Rightarrow> affected_versions list \<Rightarrow> affected_versions list" where
  "addedAffected old new = filter (\<lambda>nav. sortKey nav \<notin> sortKey ` set (map snd old)) new"

definition removedAffected :: "(ds_key \<times> affected_versions) list \<Rightarrow> affected_versions list \<Rightarrow> ds_key list" where
  "removedAffected old new = map fst (filter (\<lambda>(k, av). sortKey av \<notin> sortKey ` set new) old)"

definition updateAffectedVersions ::
  "('s, 'b) store_api \<Rightarrow> 'v entity_env \<Rightarrow> 's \<Rightarrow> bool \<Rightarrow> schema_vuln \<Rightarrow> tx_op list \<Rightarrow> tx_op list \<times> string option" where
  "updateAffectedVersions api env s isWithdrawn enriched ops =
     (case api_GetAll_affected api s (sv_id enriched) of
        Inl err \<Rightarrow> (ops, Some (''failed to query old AffectedVersions: '' @ err))
      | Inr old \<Rightarrow>
          if isWithdrawn
          then for_each (\<lambda>k. tx_delete api s ''failed to delete old AffectedVersions: '' (DeleteAffected k)) (map fst old) ops
          else
            (let newAffected = computeAffectedVersions (env_sorter env) (env_urlParse env) (env_ecosystem env)
                   (sv_id enriched) (sv_affected enriched)
             in (case for_each (\<lambda>av. tx_call api s ''failed to put new AffectedVersions: '' (PutAffected av))
                     (addedAffected old newAffected) ops of
                   (ops1, Some err) \<Rightarrow> (ops1, Some err)
                 | (ops1, None) \<Rightarrow>
                     for_each (\<lambda>k. tx_delete api s ''failed to delete removed AffectedVersions: '' (DeleteAffected k))
                       (removedAffected old newAffected) ops1)))"

section \<open>The base entities\<close>

definition newVulnerability :: "write_request \<Rightarrow> vulnerability \<Rightarrow> vulnerability" where
  "newVulnerability req old =
     (let v = old\<lparr>v_source_id := wr_source req @ '':'' @ wr_path req,
                  v_modified := sv_modified (wr_enriched req),
                  v_is_withdrawn := sv_withdrawn (wr_enriched req)\<rparr>
      in (case wr_raw req of
            None \<Rightarrow> v
          | Some raw \<Rightarrow> v\<lparr>v_modified_raw := sv_modified raw, v_alias_raw := sv_aliases raw,
                v_related_raw := sv_related raw, v_upstream_raw := sv_upstream raw\<rparr>))"

text \<open>
  On every early return the deferred rollback drops the buffer, so the store is as it was; its
  error is dropped too.
\<close>

definition writeBaseEntities ::
  "('s, 'b) store_api \<Rightarrow> 'v entity_env \<Rightarrow> write_request \<Rightarrow> 's \<Rightarrow> 's \<times> string option" where
  "writeBaseEntities api env req s =
     (case api_NewTransaction api s of
        Some err \<Rightarrow> (s, Some (''failed to start transaction: '' @ err))
      | None \<Rightarrow>
          (case api_Get api s (wr_id req) of
             GetFailed err \<Rightarrow> (s, Some (''failed to get old Vulnerability: '' @ err))
           | got \<Rightarrow>
               let old = (case got of Found v \<Rightarrow> v | _ \<Rightarrow> zero_vulnerability);
                   dsVuln = newVulnerability req old;
                   listed = NewListedVulnerabilityFromProto (env_ordR env) (env_ordP env) (env_ordE env) (wr_enriched req)
               in (case tx_call api s ''failed to put Vulnerability: '' (PutVuln (wr_id req) dsVuln) [] of
                     (_, Some err) \<Rightarrow> (s, Some err)
                   | (ops1, None) \<Rightarrow>
                       (case (if v_is_withdrawn dsVuln
                              then tx_delete api s ''failed to delete ListedVulnerability: '' (DeleteListed (wr_id req)) ops1
                              else tx_call api s ''failed to put ListedVulnerability: '' (PutListed (wr_id req) listed) ops1) of
                          (_, Some err) \<Rightarrow> (s, Some err)
                        | (ops2, None) \<Rightarrow>
                            (case updateAffectedVersions api env s (v_is_withdrawn dsVuln) (wr_enriched req) ops2 of
                               (_, Some err) \<Rightarrow> (s, Some err)
                             | (ops3, None) \<Rightarrow>
                                 (case api_Commit api s ops3 of
                                    (s', Some err) \<Rightarrow> (s', Some (''failed to commit transaction: '' @ err))
                                  | (s', None) \<Rightarrow> (s', None)))))))"

section \<open>The affected commits\<close>

definition batchSize :: nat where
  "batchSize = 10000"

function batches :: "'a list \<Rightarrow> 'a list list" where
  "batches [] = []"
| "batches (c # cs) = take batchSize (c # cs) # batches (drop batchSize (c # cs))"
  by pat_completeness auto
termination
  by (relation "measure length") (simp_all add: batchSize_def)

fun digits :: "nat \<Rightarrow> string" where
  "digits n = (if n < 10 then [char_of (48 + n)] else digits (n div 10) @ [char_of (48 + n mod 10)])"

declare digits.simps [simp del]

definition commitsKey :: "vuln_id \<Rightarrow> nat \<Rightarrow> string" where
  "commitsKey vid page = vid @ ''-'' @ digits page"

text \<open>\<open>strconv.Atoi\<close>, for the 64-bit \<open>int\<close>.\<close>

definition strconv_Atoi :: "string \<Rightarrow> int option" where
  "strconv_Atoi s =
     (case SetString s of
        None \<Rightarrow> None
      | Some n \<Rightarrow> if - (2 ^ 63) \<le> n \<and> n < 2 ^ 63 then Some n else None)"

definition deleteStale :: "('s, 'b) store_api \<Rightarrow> nat \<Rightarrow> string \<Rightarrow> 's \<Rightarrow> 's \<times> string option" where
  "deleteStale api numPages k s =
     (case strconv_Atoi (last (strings_split k ''-'')) of
        None \<Rightarrow> (s, Some ''failed to parse page number from key'')
      | Some page \<Rightarrow>
          if page \<ge> int numPages
          then (case api_Delete_commits api k s of
                  (s', None) \<Rightarrow> (s', None)
                | (s', Some err) \<Rightarrow> (s', Some (''failed to delete AffectedCommits: '' @ err)))
          else (s, None))"

definition putPage :: "('s, 'b) store_api \<Rightarrow> vuln_id \<Rightarrow> nat \<times> string list \<Rightarrow> 's \<Rightarrow> 's \<times> string option" where
  "putPage api vid p s =
     (case api_Put_commits api (commitsKey vid (fst p))
             \<lparr>ac_vuln_id = vid, ac_commits = snd p, ac_public = True, ac_page = fst p\<rparr> s of
        (s', None) \<Rightarrow> (s', None)
      | (s', Some err) \<Rightarrow> (s', Some (''failed to write AffectedCommits: '' @ err)))"

definition updateAffectedCommits ::
  "('s, 'b) store_api \<Rightarrow> vuln_id \<Rightarrow> string list \<Rightarrow> 's \<Rightarrow> 's \<times> string option" where
  "updateAffectedCommits api vid commits s =
     (let pages = batches (slices_sort commits) in
      (case for_each (putPage api vid) (enumerate 0 pages) s of
         (s1, Some err) \<Rightarrow> (s1, Some err)
       | (s1, None) \<Rightarrow>
           (case api_GetAll_commits api s1 vid of
              Inl err \<Rightarrow> (s1, Some (''failed to query AffectedCommits: '' @ err))
            | Inr ks \<Rightarrow> for_each (deleteStale api (length pages)) ks s1)))"

section \<open>The object, and the whole write\<close>

definition objectPath :: "vuln_id \<Rightarrow> string" where
  "objectPath vid = ''all/pb/'' @ vid @ ''.pb''"

definition uploadToGCS :: "('s, 'b) store_api \<Rightarrow> vuln_id \<Rightarrow> schema_vuln \<Rightarrow> 's \<Rightarrow> 's \<times> string option" where
  "uploadToGCS api vid enriched s =
     (case api_Marshal api enriched of
        Inl err \<Rightarrow> (s, Some (''failed to marshal enriched vulnerability: '' @ err))
      | Inr newData \<Rightarrow>
          (case api_WriteObject api (objectPath vid) newData (sv_modified enriched) s of
             (s1, None) \<Rightarrow> (s1, None)
           | (s1, Some err) \<Rightarrow>
               (case api_Publish api of
                  None \<Rightarrow> (s1, Some (''failed to write vulnerability object to GCS: '' @ err))
                | Some publish \<Rightarrow>
                    (case publish newData s1 of
                       (s2, None) \<Rightarrow> (s2, None)
                     | (s2, Some err') \<Rightarrow> (s2, Some (''failed to write vulnerability object to GCS: '' @ err'))))))"

definition Write :: "('s, 'b) store_api \<Rightarrow> 'v entity_env \<Rightarrow> write_request \<Rightarrow> 's \<Rightarrow> 's \<times> string option" where
  "Write api env req s =
     (case writeBaseEntities api env req s of
        (s1, Some err) \<Rightarrow> (s1, Some err)
      | (s1, None) \<Rightarrow>
          (case (if wr_skip req then (s1, None) else updateAffectedCommits api (wr_id req) (wr_commits req) s1) of
             (s2, Some err) \<Rightarrow> (s2, Some err)
           | (s2, None) \<Rightarrow> uploadToGCS api (wr_id req) (wr_enriched req) s2))"

section \<open>Reading back\<close>

datatype 'a read_result = ReadOk 'a | ErrNotFound | ReadFailed string

definition GetSourceModified :: "('s, 'b) store_api \<Rightarrow> 's \<Rightarrow> vuln_id \<Rightarrow> timestamp read_result" where
  "GetSourceModified api s vid =
     (case api_Get api s vid of
        Found v \<Rightarrow> ReadOk (v_modified_raw v)
      | NoSuchEntity \<Rightarrow> ErrNotFound
      | GetFailed err \<Rightarrow> ReadFailed err)"

definition store_Get :: "('s, 'b) store_api \<Rightarrow> 's \<Rightarrow> vuln_id \<Rightarrow> schema_vuln read_result" where
  "store_Get api s vid =
     (case api_ReadObject api s (objectPath vid) of
        NoSuchEntity \<Rightarrow> ErrNotFound
      | GetFailed err \<Rightarrow> ReadFailed err
      | Found data \<Rightarrow> (case api_Unmarshal api data of Inl err \<Rightarrow> ReadFailed err | Inr v \<Rightarrow> ReadOk v))"

record source_ref =
  ref_id :: vuln_id
  ref_source :: string
  ref_path :: string
  ref_modified_raw :: timestamp

definition GetWithMetadata ::
  "('s, 'b) store_api \<Rightarrow> 's \<Rightarrow> vuln_id \<Rightarrow> (schema_vuln \<times> source_ref) read_result" where
  "GetWithMetadata api s vid =
     (case api_Get api s vid of
        NoSuchEntity \<Rightarrow> ErrNotFound
      | GetFailed err \<Rightarrow> ReadFailed err
      | Found dv \<Rightarrow>
          (case store_Get api s vid of
             ErrNotFound \<Rightarrow> ReadFailed ''vulnerability found in Datastore but not in GCS''
           | ReadFailed err \<Rightarrow> ReadFailed err
           | ReadOk v \<Rightarrow>
               (case strings_cut (v_source_id dv) (CHR '':'') of
                  (source, path, _) \<Rightarrow>
                    ReadOk (v, \<lparr>ref_id = vid, ref_source = source, ref_path = path,
                      ref_modified_raw = v_modified_raw dv\<rparr>))))"

section \<open>What the stores hold\<close>

record 'b db =
  db_vulns :: "vuln_id \<rightharpoonup> vulnerability"
  db_listed :: "vuln_id \<rightharpoonup> listed_vulnerability"
  db_affected :: "ds_key \<rightharpoonup> affected_versions"
  db_commits :: "string \<rightharpoonup> affected_commits"
  db_objects :: "string \<rightharpoonup> 'b"
  db_queue :: "'b list"

text \<open>
  A committed transaction: its operations one after the other; an entity with an incomplete key
  gets a key that is not in use.
\<close>

inductive tx_applied :: "'b db \<Rightarrow> tx_op list \<Rightarrow> 'b db \<Rightarrow> bool" where
  tx_none: "tx_applied d [] d"
| tx_put_vuln: "tx_applied (d\<lparr>db_vulns := (db_vulns d)(vid \<mapsto> v\<lparr>v_key := vid\<rparr>)\<rparr>) ops d' \<Longrightarrow>
    tx_applied d (PutVuln vid v # ops) d'"
| tx_put_listed: "tx_applied (d\<lparr>db_listed := (db_listed d)(vid \<mapsto> lv)\<rparr>) ops d' \<Longrightarrow>
    tx_applied d (PutListed vid lv # ops) d'"
| tx_delete_listed: "tx_applied (d\<lparr>db_listed := (db_listed d)(vid := None)\<rparr>) ops d' \<Longrightarrow>
    tx_applied d (DeleteListed vid # ops) d'"
| tx_put_affected: "db_affected d k = None \<Longrightarrow>
    tx_applied (d\<lparr>db_affected := (db_affected d)(k \<mapsto> av)\<rparr>) ops d' \<Longrightarrow>
    tx_applied d (PutAffected av # ops) d'"
| tx_delete_affected: "tx_applied (d\<lparr>db_affected := (db_affected d)(k := None)\<rparr>) ops d' \<Longrightarrow>
    tx_applied d (DeleteAffected k # ops) d'"

inductive_simps tx_applied_simps [simp]:
  "tx_applied d [] d'"
  "tx_applied d (PutVuln vid v # ops) d'"
  "tx_applied d (PutListed vid lv # ops) d'"
  "tx_applied d (DeleteListed vid # ops) d'"
  "tx_applied d (PutAffected av # ops) d'"
  "tx_applied d (DeleteAffected k # ops) d'"

text \<open>What Cloud Datastore, Cloud Storage and the queue document.\<close>

definition store_laws :: "('s \<Rightarrow> 'b db) \<Rightarrow> ('s, 'b) store_api \<Rightarrow> bool" where
  "store_laws view api \<longleftrightarrow>
     (\<forall>s vid v. api_Get api s vid = Found v \<longrightarrow> db_vulns (view s) vid = Some v)
     \<and> (\<forall>s vid. api_Get api s vid = NoSuchEntity \<longrightarrow> db_vulns (view s) vid = None)
     \<and> (\<forall>s vid xs. api_GetAll_affected api s vid = Inr xs \<longrightarrow> distinct (map fst xs)
          \<and> (\<forall>k av. (k, av) \<in> set xs \<longleftrightarrow> db_affected (view s) k = Some av \<and> av_vuln_id av = vid))
     \<and> (\<forall>s ops k. api_tx_op api s ops (DeleteAffected k) = Some ErrNoSuchEntity \<longrightarrow> db_affected (view s) k = None)
     \<and> (\<forall>s ops vid. api_tx_op api s ops (DeleteListed vid) = Some ErrNoSuchEntity \<longrightarrow> db_listed (view s) vid = None)
     \<and> (\<forall>s ops s'. api_Commit api s ops = (s', None) \<longrightarrow> tx_applied (view s) ops (view s'))
     \<and> (\<forall>s ops s' err. api_Commit api s ops = (s', Some err) \<longrightarrow> view s' = view s)
     \<and> (\<forall>s k ac s'. api_Put_commits api k ac s = (s', None) \<longrightarrow>
          view s' = (view s)\<lparr>db_commits := (db_commits (view s))(k \<mapsto> ac)\<rparr>)
     \<and> (\<forall>s vid ks. api_GetAll_commits api s vid = Inr ks \<longrightarrow>
          set ks = {k. \<exists>ac. db_commits (view s) k = Some ac \<and> ac_vuln_id ac = vid})
     \<and> (\<forall>s k s'. api_Delete_commits api k s = (s', None) \<longrightarrow>
          view s' = (view s)\<lparr>db_commits := (db_commits (view s))(k := None)\<rparr>)
     \<and> (\<forall>s p x t s'. api_WriteObject api p x t s = (s', None) \<longrightarrow>
          view s' = (view s)\<lparr>db_objects := (db_objects (view s))(p \<mapsto> x)\<rparr>)
     \<and> (\<forall>s p x t s' err. api_WriteObject api p x t s = (s', Some err) \<longrightarrow> view s' = view s)
     \<and> (\<forall>s p x. api_ReadObject api s p = Found x \<longrightarrow> db_objects (view s) p = Some x)
     \<and> (\<forall>s p. api_ReadObject api s p = NoSuchEntity \<longrightarrow> db_objects (view s) p = None)
     \<and> (\<forall>v x. api_Marshal api v = Inr x \<longrightarrow> api_Unmarshal api x = Inr v)
     \<and> (\<forall>publish s x s'. api_Publish api = Some publish \<longrightarrow> publish x s = (s', None) \<longrightarrow>
          view s' = (view s)\<lparr>db_queue := db_queue (view s) @ [x]\<rparr>)"

lemma store_lawsD:
  assumes "store_laws view api"
  shows "api_Get api s vid = Found v \<Longrightarrow> db_vulns (view s) vid = Some v"
    and "api_Get api s vid = NoSuchEntity \<Longrightarrow> db_vulns (view s) vid = None"
    and "api_GetAll_affected api s vid = Inr xs \<Longrightarrow> distinct (map fst xs)"
    and "api_GetAll_affected api s vid = Inr xs \<Longrightarrow>
      (k, av) \<in> set xs \<longleftrightarrow> db_affected (view s) k = Some av \<and> av_vuln_id av = vid"
    and "api_tx_op api s ops (DeleteAffected k) = Some ErrNoSuchEntity \<Longrightarrow> db_affected (view s) k = None"
    and "api_tx_op api s ops (DeleteListed vid) = Some ErrNoSuchEntity \<Longrightarrow> db_listed (view s) vid = None"
    and "api_Commit api s ops = (s', None) \<Longrightarrow> tx_applied (view s) ops (view s')"
    and "api_Commit api s ops = (s', Some err) \<Longrightarrow> view s' = view s"
    and "api_Put_commits api p ac s = (s', None) \<Longrightarrow>
      view s' = (view s)\<lparr>db_commits := (db_commits (view s))(p \<mapsto> ac)\<rparr>"
    and "api_GetAll_commits api s vid = Inr ks \<Longrightarrow>
      set ks = {k. \<exists>ac. db_commits (view s) k = Some ac \<and> ac_vuln_id ac = vid}"
    and "api_Delete_commits api p s = (s', None) \<Longrightarrow>
      view s' = (view s)\<lparr>db_commits := (db_commits (view s))(p := None)\<rparr>"
    and "api_WriteObject api p x t s = (s', None) \<Longrightarrow>
      view s' = (view s)\<lparr>db_objects := (db_objects (view s))(p \<mapsto> x)\<rparr>"
    and "api_WriteObject api p x t s = (s', Some err) \<Longrightarrow> view s' = view s"
    and "api_ReadObject api s p = Found x \<Longrightarrow> db_objects (view s) p = Some x"
    and "api_ReadObject api s p = NoSuchEntity \<Longrightarrow> db_objects (view s) p = None"
    and "api_Marshal api v' = Inr x \<Longrightarrow> api_Unmarshal api x = Inr v'"
    and "api_Publish api = Some publish \<Longrightarrow> publish x s = (s', None) \<Longrightarrow>
      view s' = (view s)\<lparr>db_queue := db_queue (view s) @ [x]\<rparr>"
  using assms unfolding store_laws_def by (simp_all (no_asm_simp))

section \<open>The transaction\<close>

lemma tx_applied_append: "tx_applied d (xs @ ys) d' \<longleftrightarrow> (\<exists>d1. tx_applied d xs d1 \<and> tx_applied d1 ys d')"
proof (induction xs arbitrary: d)
  case (Cons op xs)
  then show ?case by (cases op) auto
qed simp

lemma tx_applied_puts:
  "tx_applied d (map PutAffected avs) d' \<Longrightarrow>
    \<exists>new. d' = d\<lparr>db_affected := db_affected d ++ new\<rparr> \<and> dom new \<inter> dom (db_affected d) = {} \<and> ran new = set avs"
proof (induction avs arbitrary: d)
  case Nil
  then show ?case by (intro exI [of _ Map.empty]) simp
next
  case (Cons av avs)
  then obtain k where k: "db_affected d k = None"
    "tx_applied (d\<lparr>db_affected := (db_affected d)(k \<mapsto> av)\<rparr>) (map PutAffected avs) d'" by auto
  obtain new where
    new0: "d' = d\<lparr>db_affected := (db_affected d)(k \<mapsto> av), db_affected :=
        db_affected (d\<lparr>db_affected := (db_affected d)(k \<mapsto> av)\<rparr>) ++ new\<rparr>"
      "dom new \<inter> dom (db_affected (d\<lparr>db_affected := (db_affected d)(k \<mapsto> av)\<rparr>)) = {}" "ran new = set avs"
    using Cons.IH [OF k(2)] by blast
  have new: "d' = d\<lparr>db_affected := (db_affected d)(k \<mapsto> av) ++ new\<rparr>"
    "dom new \<inter> insert k (dom (db_affected d)) = {}" "ran new = set avs"
    using new0 by (simp_all del: fun_upd_apply)
  have kn: "new k = None" using new(2) by auto
  have "(db_affected d)(k \<mapsto> av) ++ new = db_affected d ++ new(k \<mapsto> av)"
    using kn by (auto simp: map_add_def fun_eq_iff split: option.splits)
  moreover have "ran (new(k \<mapsto> av)) = set (av # avs)" using kn new(3) by simp
  moreover have "dom (new(k \<mapsto> av)) \<inter> dom (db_affected d) = {}"
    using new(2) k(1) by (simp only: dom_fun_upd option.distinct if_False) blast
  ultimately show ?case using new(1) by metis
qed

lemma tx_applied_deletes:
  "tx_applied d (map DeleteAffected ks) d' \<Longrightarrow> d' = d\<lparr>db_affected := (db_affected d) |` (- set ks)\<rparr>"
proof (induction ks arbitrary: d)
  case (Cons k ks)
  have "tx_applied (d\<lparr>db_affected := (db_affected d)(k := None)\<rparr>) (map DeleteAffected ks) d'"
    using Cons.prems by simp
  from Cons.IH [OF this] have "d' = d\<lparr>db_affected := ((db_affected d)(k := None)) |` (- set ks)\<rparr>"
    by (simp del: fun_upd_apply restrict_upd_same)
  moreover have "((db_affected d)(k := None)) |` (- set ks) = (db_affected d) |` (- set (k # ks))"
    by (auto simp: restrict_map_def)
  ultimately show ?case by (simp only:)
qed (simp add: restrict_map_def)

lemma for_each_tx_call:
  "for_each (\<lambda>x. tx_call api s msg (f x)) xs ops = (ops', None) \<Longrightarrow> ops' = ops @ map f xs"
proof (induction xs arbitrary: ops)
  case (Cons x xs)
  show ?case
  proof (cases "api_tx_op api s ops (f x)")
    case None
    then show ?thesis using Cons.prems Cons.IH [of "ops @ [f x]"] by (simp add: tx_call_def)
  next
    case (Some err)
    then show ?thesis using Cons.prems by (cases err) (simp_all add: tx_call_def)
  qed
qed simp

lemma for_each_tx_delete:
  assumes "\<And>x ops. x \<in> set xs \<Longrightarrow> api_tx_op api s ops (f x) \<noteq> Some ErrNoSuchEntity"
    and "for_each (\<lambda>x. tx_delete api s msg (f x)) xs ops = (ops', None)"
  shows "ops' = ops @ map f xs"
  using assms
proof (induction xs arbitrary: ops)
  case (Cons x xs)
  then have "api_tx_op api s ops (f x) = None"
    by (auto simp: tx_delete_def split: option.splits call_error.splits prod.splits)
  then have "tx_delete api s msg (f x) ops = (ops @ [f x], None)" by (simp add: tx_delete_def)
  then have "for_each (\<lambda>x. tx_delete api s msg (f x)) xs (ops @ [f x]) = (ops', None)"
    using Cons.prems(2) by simp
  then show ?case using Cons.IH [of "ops @ [f x]"] Cons.prems(1) by simp
qed simp

lemma computeAffectedVersions_vuln:
  "av \<in> set (computeAffectedVersions sorter urlParse get vid affected) \<Longrightarrow> av_vuln_id av = vid"
  by (auto simp: computeAffectedVersions_def affectedEntries_def rangeEntries_def Let_def split: if_splits)

definition affectedOf :: "'b db \<Rightarrow> vuln_id \<Rightarrow> affected_versions set" where
  "affectedOf d vid = {av. \<exists>k. db_affected d k = Some av \<and> av_vuln_id av = vid}"

definition entitiesOf :: "'v entity_env \<Rightarrow> schema_vuln \<Rightarrow> affected_versions list" where
  "entitiesOf env v =
     (if sv_withdrawn v then []
      else computeAffectedVersions (env_sorter env) (env_urlParse env) (env_ecosystem env) (sv_id v) (sv_affected v))"

lemma entitiesOf_vuln: "av \<in> set (entitiesOf env v) \<Longrightarrow> av_vuln_id av = sv_id v"
  using computeAffectedVersions_vuln by (auto simp: entitiesOf_def split: if_splits)

lemma updateAffectedVersions_ops:
  assumes laws: "store_laws view api"
    and run: "updateAffectedVersions api env s (sv_withdrawn v) v ops = (ops', None)"
  shows "\<exists>avs ks. ops' = ops @ map PutAffected avs @ map DeleteAffected ks
    \<and> set avs = {av \<in> set (entitiesOf env v). sortKey av \<notin> sortKey ` affectedOf (view s) (sv_id v)}
    \<and> set ks = {k. \<exists>av. db_affected (view s) k = Some av \<and> av_vuln_id av = sv_id v
          \<and> sortKey av \<notin> sortKey ` set (entitiesOf env v)}"
proof -
  obtain old where old: "api_GetAll_affected api s (sv_id v) = Inr old"
    using run by (auto simp: updateAffectedVersions_def split: sum.splits)
  note q = store_lawsD(3,4) [OF laws old]
  have present: "api_tx_op api s os (DeleteAffected k) \<noteq> Some ErrNoSuchEntity" if "k \<in> set (map fst old)" for os k
    using that q(2) store_lawsD(5) [OF laws] by fastforce
  have snds: "set (map snd old) = affectedOf (view s) (sv_id v)"
    using q(2) by (force simp: affectedOf_def)
  show ?thesis
  proof (cases "sv_withdrawn v")
    case True
    have "ops' = ops @ map DeleteAffected (map fst old)"
      by (rule for_each_tx_delete [OF present]) (use run True in \<open>simp_all add: updateAffectedVersions_def old\<close>)
    moreover have "set (map fst old) = {k. \<exists>av. db_affected (view s) k = Some av \<and> av_vuln_id av = sv_id v}"
      using q(2) by (auto simp: image_iff Bex_def)
    ultimately show ?thesis
      by (intro exI [of _ "[]"] exI [of _ "map fst old"]) (simp add: entitiesOf_def True)
  next
    case False
    let ?new = "entitiesOf env v"
    obtain ops1 where ops1: "for_each (\<lambda>av. tx_call api s ''failed to put new AffectedVersions: '' (PutAffected av))
          (addedAffected old ?new) ops = (ops1, None)"
      and ops2: "for_each (\<lambda>k. tx_delete api s ''failed to delete removed AffectedVersions: '' (DeleteAffected k))
          (removedAffected old ?new) ops1 = (ops', None)"
      using run False by (auto simp: updateAffectedVersions_def old entitiesOf_def Let_def split: prod.splits option.splits)
    have "ops' = ops1 @ map DeleteAffected (removedAffected old ?new)"
      by (rule for_each_tx_delete [OF present ops2]) (auto simp: removedAffected_def)
    moreover have "ops1 = ops @ map PutAffected (addedAffected old ?new)"
      by (rule for_each_tx_call [OF ops1])
    moreover have "set (addedAffected old ?new) = {av \<in> set ?new. sortKey av \<notin> sortKey ` affectedOf (view s) (sv_id v)}"
      unfolding addedAffected_def snds by auto
    moreover have "set (removedAffected old ?new) =
        {k. \<exists>av. db_affected (view s) k = Some av \<and> av_vuln_id av = sv_id v \<and> sortKey av \<notin> sortKey ` set ?new}"
      using q(2) by (auto simp: removedAffected_def image_iff Bex_def)
    ultimately show ?thesis
      by (intro exI [of _ "addedAffected old ?new"] exI [of _ "removedAffected old ?new"]) simp
  qed
qed

text \<open>Additions under fresh keys, then deletions, on the table of the affected versions.\<close>

lemma affected_table:
  fixes m n :: "ds_key \<rightharpoonup> affected_versions"
  assumes fresh: "dom n \<inter> dom m = {}" and n: "ran n = A"
    and A: "A = {av \<in> E. sortKey av \<notin> sortKey ` {av. \<exists>k. m k = Some av \<and> av_vuln_id av = vid}}"
    and K: "K = {k. \<exists>av. m k = Some av \<and> av_vuln_id av = vid \<and> sortKey av \<notin> sortKey ` E}"
    and E: "\<And>av. av \<in> E \<Longrightarrow> av_vuln_id av = vid"
  shows "av_vuln_id av \<noteq> vid \<Longrightarrow> ((m ++ n) |` (- K)) k = Some av \<longleftrightarrow> m k = Some av"
    and "m k = Some av \<Longrightarrow> sortKey av \<in> sortKey ` E \<Longrightarrow> ((m ++ n) |` (- K)) k = Some av"
    and "sortKey ` {av. \<exists>k. ((m ++ n) |` (- K)) k = Some av \<and> av_vuln_id av = vid} = sortKey ` E"
proof -
  have nk: "n k = Some av \<Longrightarrow> av \<in> A \<and> m k = None" for k av
    using fresh n by (auto simp: ran_def)
  have mn: "(m ++ n) k = Some av \<longleftrightarrow> n k = Some av \<or> m k = Some av" for k av
    using nk by (auto simp: map_add_def split: option.splits)
  have r: "((m ++ n) |` (- K)) k = Some av \<longleftrightarrow> k \<notin> K \<and> (n k = Some av \<or> m k = Some av)" for k av
    using mn by (auto simp: restrict_map_def)
  have nv: "n k = Some av \<Longrightarrow> av_vuln_id av = vid" for k av using nk [of k av] E unfolding A by blast
  have kv: "k \<in> K \<Longrightarrow> \<exists>av. m k = Some av \<and> av_vuln_id av = vid" for k unfolding K by blast
  have kE: "k \<in> K \<Longrightarrow> m k = Some av \<Longrightarrow> sortKey av \<notin> sortKey ` E" for k av unfolding K by auto
  show "((m ++ n) |` (- K)) k = Some av \<longleftrightarrow> m k = Some av" if "av_vuln_id av \<noteq> vid"
    using that nv [of k av] kv [of k] unfolding r by auto
  show "((m ++ n) |` (- K)) k = Some av" if "m k = Some av" "sortKey av \<in> sortKey ` E"
    using that kE [of k av] unfolding r by blast
  show "sortKey ` {av. \<exists>k. ((m ++ n) |` (- K)) k = Some av \<and> av_vuln_id av = vid} = sortKey ` E"
  proof (rule set_eqI)
    fix x
    show "x \<in> sortKey ` {av. \<exists>k. ((m ++ n) |` (- K)) k = Some av \<and> av_vuln_id av = vid} \<longleftrightarrow> x \<in> sortKey ` E"
    proof
      assume "x \<in> sortKey ` {av. \<exists>k. ((m ++ n) |` (- K)) k = Some av \<and> av_vuln_id av = vid}"
      then obtain k av where x: "x = sortKey av" "av_vuln_id av = vid" "k \<notin> K" "n k = Some av \<or> m k = Some av"
        unfolding r by auto
      from x(4) show "x \<in> sortKey ` E"
      proof
        assume "n k = Some av"
        then show ?thesis using nk x(1) unfolding A by blast
      next
        assume "m k = Some av"
        then show ?thesis using x(1-3) unfolding K by blast
      qed
    next
      assume "x \<in> sortKey ` E"
      then obtain av where av: "av \<in> E" "x = sortKey av" by auto
      show "x \<in> sortKey ` {av. \<exists>k. ((m ++ n) |` (- K)) k = Some av \<and> av_vuln_id av = vid}"
      proof (cases "av \<in> A")
        case True
        then obtain k where k: "n k = Some av" using n by (auto simp: ran_def)
        then have "k \<notin> K" using nk [OF k] kv [of k] by auto
        then show ?thesis using k av(2) E [OF av(1)] unfolding r av(2) by blast
      next
        case False
        then obtain k av' where k: "m k = Some av'" "av_vuln_id av' = vid" "sortKey av' = sortKey av"
          using av unfolding A by auto
        then have "k \<notin> K" using kE [of k av'] av(1) by auto
        then have "av' \<in> {av. \<exists>k. ((m ++ n) |` (- K)) k = Some av \<and> av_vuln_id av = vid}"
          using k(1,2) unfolding r by blast
        then have "sortKey av' \<in> sortKey ` {av. \<exists>k. ((m ++ n) |` (- K)) k = Some av \<and> av_vuln_id av = vid}"
          by (rule imageI)
        then show ?thesis unfolding k(3) av(2) .
      qed
    qed
  qed
qed


text \<open>A successful run, step by step.\<close>

lemma newVulnerability_withdrawn [simp]: "v_is_withdrawn (newVulnerability req old) = sv_withdrawn (wr_enriched req)"
  by (simp add: newVulnerability_def Let_def split: option.split)

lemma writeBaseEntities_steps:
  assumes laws: "store_laws view api"
    and run: "writeBaseEntities api env req s = (s', None)"
  defines "v \<equiv> newVulnerability req
      (case db_vulns (view s) (wr_id req) of Some v \<Rightarrow> v | None \<Rightarrow> zero_vulnerability)"
    and "lv \<equiv> NewListedVulnerabilityFromProto (env_ordR env) (env_ordP env) (env_ordE env) (wr_enriched req)"
  obtains listing avs ks where
    "tx_applied ((view s)\<lparr>db_vulns := (db_vulns (view s))(wr_id req \<mapsto> v\<lparr>v_key := wr_id req\<rparr>)\<rparr>)
       (listing @ map PutAffected avs @ map DeleteAffected ks) (view s')"
    and "listing = (if sv_withdrawn (wr_enriched req)
          then (if db_listed (view s) (wr_id req) = None \<and> listing = [] then [] else [DeleteListed (wr_id req)])
          else [PutListed (wr_id req) lv])"
    and "set avs = {av \<in> set (entitiesOf env (wr_enriched req)).
          sortKey av \<notin> sortKey ` affectedOf (view s) (sv_id (wr_enriched req))}"
    and "set ks = {k. \<exists>av. db_affected (view s) k = Some av \<and> av_vuln_id av = sv_id (wr_enriched req)
          \<and> sortKey av \<notin> sortKey ` set (entitiesOf env (wr_enriched req))}"
proof -
  have got: "(case api_Get api s (wr_id req) of Found v \<Rightarrow> v | _ \<Rightarrow> zero_vulnerability) =
      (case db_vulns (view s) (wr_id req) of Some v \<Rightarrow> v | None \<Rightarrow> zero_vulnerability)"
    if "\<And>e. api_Get api s (wr_id req) \<noteq> GetFailed e"
    using that store_lawsD(1,2) [OF laws, of s "wr_id req"]
    by (cases "api_Get api s (wr_id req)") (simp, simp, blast)
  have nofail: "api_Get api s (wr_id req) \<noteq> GetFailed e" for e
    using run by (auto simp: writeBaseEntities_def split: option.splits)
  have v: "v = newVulnerability req (case api_Get api s (wr_id req) of Found v \<Rightarrow> v | _ \<Rightarrow> zero_vulnerability)"
    unfolding v_def got [OF nofail] ..
  obtain ops1 ops2 ops3 where
    1: "tx_call api s ''failed to put Vulnerability: '' (PutVuln (wr_id req) v) [] = (ops1, None)"
    and 2: "(if sv_withdrawn (wr_enriched req)
        then tx_delete api s ''failed to delete ListedVulnerability: '' (DeleteListed (wr_id req)) ops1
        else tx_call api s ''failed to put ListedVulnerability: '' (PutListed (wr_id req) (NewListedVulnerabilityFromProto (env_ordR env) (env_ordP env) (env_ordE env) (wr_enriched req))) ops1) = (ops2, None)"
    and 3: "updateAffectedVersions api env s (sv_withdrawn (wr_enriched req)) (wr_enriched req) ops2 = (ops3, None)"
    and 4: "api_Commit api s ops3 = (s', None)"
    using run nofail
    by (cases "api_Get api s (wr_id req)")
      (auto simp: writeBaseEntities_def Let_def v split: option.splits prod.splits)
  note 2 = 2 [folded lv_def]
  from 1 have ops1: "ops1 = [PutVuln (wr_id req) v]" by (auto simp: tx_call_def split: option.splits call_error.splits)
  obtain listing where ops2: "ops2 = ops1 @ listing" and listing: "listing = (if sv_withdrawn (wr_enriched req)
          then (if db_listed (view s) (wr_id req) = None \<and> listing = [] then [] else [DeleteListed (wr_id req)])
          else [PutListed (wr_id req) lv])"
    using 2 store_lawsD(6) [OF laws, of s ops1 "wr_id req"]
    by (cases "sv_withdrawn (wr_enriched req)")
      (auto simp: tx_call_def tx_delete_def split: option.splits call_error.splits)
  obtain avs ks where ops3: "ops3 = ops2 @ map PutAffected avs @ map DeleteAffected ks"
    and sets: "set avs = {av \<in> set (entitiesOf env (wr_enriched req)).
          sortKey av \<notin> sortKey ` affectedOf (view s) (sv_id (wr_enriched req))}"
      "set ks = {k. \<exists>av. db_affected (view s) k = Some av \<and> av_vuln_id av = sv_id (wr_enriched req)
          \<and> sortKey av \<notin> sortKey ` set (entitiesOf env (wr_enriched req))}"
    using updateAffectedVersions_ops [OF laws 3] by blast
  have "tx_applied (view s) ops3 (view s')" by (rule store_lawsD(7) [OF laws 4])
  then show thesis using that listing sets by (simp add: ops3 ops2 ops1)
qed

text \<open>What a successful run leaves.\<close>

lemma writeBaseEntities_view:
  assumes laws: "store_laws view api" and run: "writeBaseEntities api env req s = (s', None)"
  shows "db_vulns (view s') = (db_vulns (view s))(wr_id req \<mapsto> (newVulnerability req
            (case db_vulns (view s) (wr_id req) of Some v \<Rightarrow> v | None \<Rightarrow> zero_vulnerability))\<lparr>v_key := wr_id req\<rparr>)
        \<and> db_listed (view s') = (db_listed (view s))(wr_id req :=
            if sv_withdrawn (wr_enriched req) then None
            else Some (NewListedVulnerabilityFromProto (env_ordR env) (env_ordP env) (env_ordE env) (wr_enriched req)))
        \<and> sortKey ` affectedOf (view s') (sv_id (wr_enriched req)) = sortKey ` set (entitiesOf env (wr_enriched req))
        \<and> (\<forall>k av. av_vuln_id av \<noteq> sv_id (wr_enriched req) \<longrightarrow>
             (db_affected (view s') k = Some av \<longleftrightarrow> db_affected (view s) k = Some av))
        \<and> (\<forall>k av. db_affected (view s) k = Some av \<longrightarrow>
             sortKey av \<in> sortKey ` set (entitiesOf env (wr_enriched req)) \<longrightarrow> db_affected (view s') k = Some av)
        \<and> db_commits (view s') = db_commits (view s) \<and> db_objects (view s') = db_objects (view s)
        \<and> db_queue (view s') = db_queue (view s)"
proof (intro conjI)
  let ?v = "(newVulnerability req
      (case db_vulns (view s) (wr_id req) of Some v \<Rightarrow> v | None \<Rightarrow> zero_vulnerability))\<lparr>v_key := wr_id req\<rparr>"
  let ?lv = "NewListedVulnerabilityFromProto (env_ordR env) (env_ordP env) (env_ordE env) (wr_enriched req)"
  let ?listed = "if sv_withdrawn (wr_enriched req) then None else Some ?lv"
  let ?d = "(view s)\<lparr>db_vulns := (db_vulns (view s))(wr_id req \<mapsto> ?v),
    db_listed := (db_listed (view s))(wr_id req := ?listed)\<rparr>"
  obtain listing avs ks where
    tx: "tx_applied ((view s)\<lparr>db_vulns := (db_vulns (view s))(wr_id req \<mapsto> ?v)\<rparr>)
          (listing @ map PutAffected avs @ map DeleteAffected ks) (view s')"
    and listing: "listing = (if sv_withdrawn (wr_enriched req)
          then (if db_listed (view s) (wr_id req) = None \<and> listing = [] then [] else [DeleteListed (wr_id req)])
          else [PutListed (wr_id req) ?lv])"
    and avs: "set avs = {av \<in> set (entitiesOf env (wr_enriched req)).
          sortKey av \<notin> sortKey ` affectedOf (view s) (sv_id (wr_enriched req))}"
    and ks: "set ks = {k. \<exists>av. db_affected (view s) k = Some av \<and> av_vuln_id av = sv_id (wr_enriched req)
          \<and> sortKey av \<notin> sortKey ` set (entitiesOf env (wr_enriched req))}"
    by (rule writeBaseEntities_steps [OF laws run])
  have same: "(db_listed (view s))(wr_id req := None) = db_listed (view s)" if "db_listed (view s) (wr_id req) = None"
    using that by (simp add: fun_upd_idem)
  have "tx_applied ?d (map PutAffected avs @ map DeleteAffected ks) (view s')"
  proof (cases "sv_withdrawn (wr_enriched req)")
    case True
    then consider "db_listed (view s) (wr_id req) = None" "listing = []" | "listing = [DeleteListed (wr_id req)]"
      using listing by meson
    then show ?thesis using tx True same by cases simp_all
  next
    case False
    then show ?thesis using tx listing by simp
  qed
  then obtain d1 where d1: "tx_applied ?d (map PutAffected avs) d1" "tx_applied d1 (map DeleteAffected ks) (view s')"
    unfolding tx_applied_append by blast
  obtain n where n: "d1 = ?d\<lparr>db_affected := db_affected (view s) ++ n\<rparr>"
    "dom n \<inter> dom (db_affected (view s)) = {}" "ran n = set avs"
    using tx_applied_puts [OF d1(1)] by auto
  have d2: "view s' = ?d\<lparr>db_affected := (db_affected (view s) ++ n) |` (- set ks)\<rparr>"
    using tx_applied_deletes [OF d1(2)] unfolding n(1) by simp
  note table = affected_table [OF n(2,3) avs [unfolded affectedOf_def] ks entitiesOf_vuln [of _ env]]
  have a: "db_affected (view s') = (db_affected (view s) ++ n) |` (- set ks)" by (simp add: d2)
  show "db_vulns (view s') = (db_vulns (view s))(wr_id req \<mapsto> ?v)" by (simp add: d2)
  show "db_listed (view s') = (db_listed (view s))(wr_id req := ?listed)" by (simp add: d2)
  show "db_commits (view s') = db_commits (view s)" "db_objects (view s') = db_objects (view s)"
    "db_queue (view s') = db_queue (view s)" by (simp_all add: d2)
  show "sortKey ` affectedOf (view s') (sv_id (wr_enriched req)) = sortKey ` set (entitiesOf env (wr_enriched req))"
    unfolding affectedOf_def a by (rule table(3))
  show "\<forall>k av. av_vuln_id av \<noteq> sv_id (wr_enriched req) \<longrightarrow>
      (db_affected (view s') k = Some av \<longleftrightarrow> db_affected (view s) k = Some av)"
    unfolding a using table(1) by blast
  show "\<forall>k av. db_affected (view s) k = Some av \<longrightarrow>
      sortKey av \<in> sortKey ` set (entitiesOf env (wr_enriched req)) \<longrightarrow> db_affected (view s') k = Some av"
    unfolding a using table(2) by blast
qed


section \<open>The pages of commits\<close>

lemma digit_char: "d < 10 \<Longrightarrow> is_digit (char_of (48 + d :: nat)) \<and> digit_val (char_of (48 + d :: nat)) = d"
  by (simp add: is_digit_def digit_val_def Let_def)

lemma isDecimal_digits: "isDecimal (digits n)"
proof (induction n rule: digits.induct)
  case (1 n)
  then show ?case using digit_char [of n] digit_char [of "n mod 10"]
    by (subst digits.simps) (auto simp: isDecimal_def)
qed

lemma decimal_value_snoc: "decimal_value (s @ [c]) = 10 * decimal_value s + int (digit_val c)"
  by (simp add: decimal_value_def)

lemma decimal_value_digits: "decimal_value (digits n) = int n"
proof (induction n rule: digits.induct)
  case (1 n)
  show ?case
  proof (cases "n < 10")
    case True
    then show ?thesis using digit_char [of n] by (subst digits.simps) (simp add: decimal_value_def)
  next
    case False
    have "decimal_value (digits n) = 10 * int (n div 10) + int (n mod 10)"
      using 1 [OF False] False digit_char [of "n mod 10"]
      by (subst digits.simps) (simp add: decimal_value_snoc)
    also have "\<dots> = int (10 * (n div 10) + n mod 10)" by (simp only: of_nat_add of_nat_mult of_nat_numeral)
    also have "10 * (n div 10) + n mod 10 = n" by simp
    finally show ?thesis .
  qed
qed

lemma strconv_Atoi_digits: "p < 2 ^ 63 \<Longrightarrow> strconv_Atoi (digits p) = Some (int p)"
  by (simp add: strconv_Atoi_def SetString_decimal [OF isDecimal_digits] decimal_value_digits)

lemma last_split_at: "c \<notin> set t \<Longrightarrow> last (split_at [c] 0 acc (s @ c # t)) = t"
proof (induction s arbitrary: acc)
  case Nil
  then show ?case using split_at_single(1) [of c t "[]"] by simp
next
  case (Cons d s)
  have "split_at [c] 0 acc xs \<noteq> []" for acc xs by (induction xs arbitrary: acc) auto
  with Cons show ?case by auto
qed

lemma last_split_key: "last (strings_split (commitsKey vid p) ''-'') = digits p"
proof -
  have "CHR ''-'' \<notin> set (digits p)" using isDecimal_digits [of p] digit_ordinary by (auto simp: isDecimal_def)
  from last_split_at [OF this, of "[]" vid] show ?thesis by (simp add: commitsKey_def strings_split_def)
qed

lemma commitsKey_inj: "commitsKey v p = commitsKey w q \<Longrightarrow> v = w \<and> p = q"
proof -
  assume eq: "commitsKey v p = commitsKey w q"
  have "digits p = digits q" using last_split_key [of v p] last_split_key [of w q] eq by simp
  then have pq: "p = q" by (metis decimal_value_digits of_nat_eq_iff)
  from eq show ?thesis unfolding commitsKey_def pq append_same_eq by blast
qed

lemma batches_concat: "concat (batches xs) = xs"
proof (induction xs rule: batches.induct)
  case (2 c cs)
  show ?case unfolding batches.simps concat.simps 2 by (rule append_take_drop_id)
qed simp

lemma batches_size: "b \<in> set (batches xs) \<Longrightarrow> b \<noteq> [] \<and> length b \<le> batchSize"
proof (induction xs rule: batches.induct)
  case (2 c cs)
  then show ?case by (auto simp: batchSize_def)
qed simp

lemma length_batches: "length (batches xs) \<le> length xs"
proof (induction xs rule: batches.induct)
  case (2 c cs)
  then show ?case by (simp add: batchSize_def)
qed simp

definition page :: "vuln_id \<Rightarrow> nat \<Rightarrow> string list \<Rightarrow> affected_commits" where
  "page vid i b = \<lparr>ac_vuln_id = vid, ac_commits = b, ac_public = True, ac_page = i\<rparr>"

definition pageTable :: "vuln_id \<Rightarrow> nat \<Rightarrow> string list list \<Rightarrow> (string \<times> affected_commits) list" where
  "pageTable vid n pages = map (\<lambda>(i, b). (commitsKey vid i, page vid i b)) (enumerate n pages)"

lemma pageTable_simps [simp]:
  "pageTable vid n [] = []"
  "pageTable vid n (b # bs) = (commitsKey vid n, page vid n b) # pageTable vid (Suc n) bs"
  by (simp_all add: pageTable_def)

lemma pageTable_map:
  "map_of (pageTable vid n bs) k = Some ac \<longleftrightarrow>
     (\<exists>i < length bs. k = commitsKey vid (n + i) \<and> ac = page vid (n + i) (bs ! i))"
proof (induction bs arbitrary: n)
  case (Cons b bs)
  have "(\<exists>i < length (b # bs). P i) \<longleftrightarrow> P 0 \<or> (\<exists>i < length bs. P (Suc i))" for P
    by (auto simp: less_Suc_eq_0_disj)
  then show ?case using Cons [of "Suc n"] commitsKey_inj [of vid n vid] by (auto dest: commitsKey_inj)
qed simp

lemma putPage_ok: "putPage api vid (n, b) s = (s', None) \<longleftrightarrow> api_Put_commits api (commitsKey vid n) (page vid n b) s = (s', None)"
  by (auto simp: putPage_def page_def split: prod.splits option.splits)

lemma for_each_Cons_ok:
  "for_each f (x # xs) s = (s', None) \<longleftrightarrow> (\<exists>t. f x s = (t, None) \<and> for_each f xs t = (s', None))"
  by (auto split: prod.splits option.splits)

lemma commits_upd:
  "d\<lparr>db_commits := a, db_commits := b\<rparr> = d\<lparr>db_commits := b\<rparr>" "db_commits (d\<lparr>db_commits := a\<rparr>) = a"
  by simp_all

lemma put_pages:
  assumes laws: "store_laws view api"
  shows "for_each (putPage api vid) (enumerate n pages) s = (s', None) \<Longrightarrow>
    view s' = (view s)\<lparr>db_commits := db_commits (view s) ++ map_of (pageTable vid n pages)\<rparr>"
proof (induction pages arbitrary: n s)
  case (Cons b bs)
  obtain s1 where s1: "api_Put_commits api (commitsKey vid n) (page vid n b) s = (s1, None)"
    "for_each (putPage api vid) (enumerate (Suc n) bs) s1 = (s', None)"
    using Cons.prems unfolding enumerate_simps for_each_Cons_ok putPage_ok by blast
  have "map_of (pageTable vid (Suc n) bs) (commitsKey vid n) = None"
  proof (rule ccontr)
    assume "\<not> ?thesis"
    then show False unfolding not_None_eq pageTable_map by (auto dest: commitsKey_inj)
  qed
  then have "(db_commits (view s))(commitsKey vid n \<mapsto> page vid n b) ++ map_of (pageTable vid (Suc n) bs) =
      db_commits (view s) ++ map_of (pageTable vid n (b # bs))"
    by (auto simp: map_add_def fun_eq_iff split: option.splits)
  then show ?case using Cons.IH [OF s1(2)] unfolding store_lawsD(9) [OF laws s1(1)] commits_upd by (simp only:)
qed simp

lemma delete_stale:
  assumes laws: "store_laws view api"
  shows "for_each (deleteStale api n) ks s = (s', None) \<Longrightarrow> (\<And>k. k \<in> set ks \<Longrightarrow> \<exists>p < 2 ^ 63. k = commitsKey vid p) \<Longrightarrow>
    view s' = (view s)\<lparr>db_commits := (db_commits (view s)) |` (- {k \<in> set ks. \<exists>p \<ge> n. k = commitsKey vid p})\<rparr>"
proof (induction ks arbitrary: s)
  case Nil
  then show ?case by (simp add: restrict_map_def)
next
  case (Cons k ks)
  obtain p where p: "p < 2 ^ 63" "k = commitsKey vid p" using Cons.prems(2) by auto
  have at: "strconv_Atoi (last (strings_split k ''-'')) = Some (int p)"
    using p strconv_Atoi_digits by (simp add: last_split_key)
  show ?case
  proof (cases "n \<le> p")
    case True
    then obtain s1 where s1: "api_Delete_commits api k s = (s1, None)" "for_each (deleteStale api n) ks s1 = (s', None)"
      using Cons.prems(1) at True unfolding for_each_Cons_ok
      by (auto simp: deleteStale_def split: prod.splits option.splits)
    have "(db_commits (view s))(k := None) |` (- {k \<in> set ks. \<exists>p \<ge> n. k = commitsKey vid p}) =
        db_commits (view s) |` (- {k' \<in> set (k # ks). \<exists>p \<ge> n. k' = commitsKey vid p})"
      using True p by (auto simp: restrict_map_def fun_eq_iff)
    moreover have "\<exists>p < 2 ^ 63. k' = commitsKey vid p" if "k' \<in> set ks" for k' using Cons.prems(2) that by simp
    ultimately show ?thesis
      using Cons.IH [OF s1(2)] unfolding store_lawsD(11) [OF laws s1(1)] commits_upd by (simp only:)
  next
    case False
    then have "deleteStale api n k s = (s, None)" using at by (simp add: deleteStale_def)
    then have "for_each (deleteStale api n) ks s = (s', None)" using Cons.prems(1) by simp
    moreover have "{k' \<in> set (k # ks). \<exists>p \<ge> n. k' = commitsKey vid p} = {k \<in> set ks. \<exists>p \<ge> n. k = commitsKey vid p}"
      using False p by (auto dest: commitsKey_inj)
    ultimately show ?thesis using Cons.IH Cons.prems(2) by auto
  qed
qed

text \<open>The key of a page tells its vulnerability and its number.\<close>

definition commits_keyed :: "'b db \<Rightarrow> bool" where
  "commits_keyed d \<longleftrightarrow>
     (\<forall>k ac. db_commits d k = Some ac \<longrightarrow> (\<exists>p < 2 ^ 63. k = commitsKey (ac_vuln_id ac) p))"


text \<open>
  C10: After a successful update the commits stored for a vulnerability are exactly the pages of
  the sorted commits given, each under the key of its number, non-empty and of at most ten thousand
  commits; pages left over from a longer list are gone, and those of other vulnerabilities and
  the naming of the keys are kept.
\<close>

theorem updateAffectedCommits_pages:
  assumes laws: "store_laws view api" and keyed: "commits_keyed (view s)"
    and run: "updateAffectedCommits api vid commits s = (s', None)"
    and size: "length commits < 2 ^ 63"
  shows "(\<forall>k ac. ac_vuln_id ac = vid \<longrightarrow>
        (db_commits (view s') k = Some ac \<longleftrightarrow>
          (\<exists>i < length (batches (sort commits)). k = commitsKey vid i \<and>
             ac = \<lparr>ac_vuln_id = vid, ac_commits = batches (sort commits) ! i, ac_public = True, ac_page = i\<rparr>)))
    \<and> concat (batches (sort commits)) = sort commits
    \<and> (\<forall>b \<in> set (batches (sort commits)). b \<noteq> [] \<and> length b \<le> 10000)
    \<and> (\<forall>k ac. ac_vuln_id ac \<noteq> vid \<longrightarrow>
        (db_commits (view s') k = Some ac \<longleftrightarrow> db_commits (view s) k = Some ac))
    \<and> commits_keyed (view s')"
proof -
  let ?pages = "batches (sort commits)"
  have len: "length ?pages < 2 ^ 63" using size length_batches [of "sort commits"] by simp
  obtain s1 ks where 1: "for_each (putPage api vid) (enumerate 0 ?pages) s = (s1, None)"
    and 2: "api_GetAll_commits api s1 vid = Inr ks" and 3: "for_each (deleteStale api (length ?pages)) ks s1 = (s', None)"
    using run by (auto simp: updateAffectedCommits_def Let_def split: prod.splits option.splits sum.splits)
  define t where "t = map_of (pageTable vid 0 ?pages)"
  have t: "t k = Some ac \<longleftrightarrow> (\<exists>i < length ?pages. k = commitsKey vid i \<and> ac = page vid i (?pages ! i))" for k ac
    by (simp add: t_def pageTable_map)
  have v1: "view s1 = (view s)\<lparr>db_commits := db_commits (view s) ++ t\<rparr>"
    unfolding t_def by (rule put_pages [OF laws 1])
  have c1: "db_commits (view s1) k = Some ac \<longleftrightarrow> t k = Some ac \<or> t k = None \<and> db_commits (view s) k = Some ac" for k ac
    by (auto simp: v1 map_add_Some_iff)
  have ks: "k \<in> set ks \<longleftrightarrow> (\<exists>ac. db_commits (view s1) k = Some ac \<and> ac_vuln_id ac = vid)" for k
    using store_lawsD(10) [OF laws 2] by simp
  have keyed1: "\<exists>p < 2 ^ 63. k = commitsKey (ac_vuln_id ac) p" if "db_commits (view s1) k = Some ac" for k ac
  proof -
    from that consider "t k = Some ac" | "db_commits (view s) k = Some ac" unfolding c1 by blast
    then show ?thesis
    proof cases
      case 1
      then obtain i where i: "i < length ?pages" "k = commitsKey vid i" "ac_vuln_id ac = vid"
        unfolding t by (auto simp: page_def)
      then show ?thesis using len by (intro exI [of _ i]) simp
    next
      case 2
      then show ?thesis using keyed unfolding commits_keyed_def by blast
    qed
  qed
  let ?stale = "{k \<in> set ks. \<exists>p \<ge> length ?pages. k = commitsKey vid p}"
  have v2: "view s' = (view s1)\<lparr>db_commits := db_commits (view s1) |` (- ?stale)\<rparr>"
    by (rule delete_stale [OF laws 3]) (use ks keyed1 in blast)
  have c2: "db_commits (view s') k = Some ac \<longleftrightarrow> k \<notin> ?stale \<and> db_commits (view s1) k = Some ac" for k ac
    by (auto simp: v2 restrict_map_def)
  have own: "db_commits (view s') k = Some ac \<longleftrightarrow> t k = Some ac" if of_vid: "ac_vuln_id ac = vid" for k ac
  proof
    assume "db_commits (view s') k = Some ac"
    then have s1: "db_commits (view s1) k = Some ac" "k \<notin> ?stale" unfolding c2 by auto
    then obtain p where p: "k = commitsKey vid p" "p < length ?pages"
      using keyed1 [OF s1(1)] ks [of k] of_vid by (auto simp: not_le)
    then have "t k = Some (page vid p (?pages ! p))" unfolding t by blast
    then show "t k = Some ac" using s1(1) unfolding c1 by auto
  next
    assume "t k = Some ac"
    then obtain i where i: "i < length ?pages" "k = commitsKey vid i" unfolding t by blast
    then have "k \<notin> ?stale" using commitsKey_inj [of vid i vid] by auto
    then show "db_commits (view s') k = Some ac" using \<open>t k = Some ac\<close> unfolding c2 c1 by blast
  qed
  have other: "db_commits (view s') k = Some ac \<longleftrightarrow> db_commits (view s) k = Some ac" if other_vid: "ac_vuln_id ac \<noteq> vid" for k ac
  proof
    assume "db_commits (view s') k = Some ac"
    then have "t k = Some ac \<or> db_commits (view s) k = Some ac" unfolding c2 c1 by blast
    moreover have "t k \<noteq> Some ac" using other_vid unfolding t by (auto simp: page_def)
    ultimately show "db_commits (view s) k = Some ac" by blast
  next
    assume k: "db_commits (view s) k = Some ac"
    then obtain p where p: "k = commitsKey (ac_vuln_id ac) p" using keyed unfolding commits_keyed_def by blast
    have "k \<noteq> commitsKey vid i" for i using commitsKey_inj [of "ac_vuln_id ac" p vid i] other_vid p by auto
    then have "t k = None" "k \<notin> ?stale" using t [of k] by (cases "t k"; auto)+
    then show "db_commits (view s') k = Some ac" using k unfolding c2 c1 by blast
  qed
  have "commits_keyed (view s')" unfolding commits_keyed_def c2 using keyed1 by blast
  then show ?thesis
    using own other batches_concat [of "sort commits"] batches_size [of _ "sort commits"]
    unfolding t page_def batchSize_def by blast
qed

section \<open>A store in memory\<close>

text \<open>It keeps the laws: the closed instances of the properties run on it.\<close>

record mem =
  m_vulns :: "vuln_id \<rightharpoonup> vulnerability"
  m_listed :: "vuln_id \<rightharpoonup> listed_vulnerability"
  m_affected :: "(ds_key \<times> affected_versions) list"
  m_commits :: "(string \<times> affected_commits) list"
  m_objects :: "string \<rightharpoonup> schema_vuln"
  m_queue :: "schema_vuln list"

definition mem_view :: "mem \<Rightarrow> schema_vuln db" where
  "mem_view m = \<lparr>db_vulns = m_vulns m, db_listed = m_listed m, db_affected = map_of (m_affected m),
     db_commits = map_of (m_commits m), db_objects = m_objects m, db_queue = m_queue m\<rparr>"

definition mem_fresh :: "(ds_key \<times> affected_versions) list \<Rightarrow> ds_key" where
  "mem_fresh xs = IDKey (int (Suc (sum_list (map (key_number \<circ> fst) xs))))"

fun mem_op :: "tx_op \<Rightarrow> mem \<Rightarrow> mem" where
  "mem_op (PutVuln vid v) m = m\<lparr>m_vulns := (m_vulns m)(vid \<mapsto> v\<lparr>v_key := vid\<rparr>)\<rparr>"
| "mem_op (PutListed vid lv) m = m\<lparr>m_listed := (m_listed m)(vid \<mapsto> lv)\<rparr>"
| "mem_op (DeleteListed vid) m = m\<lparr>m_listed := (m_listed m)(vid := None)\<rparr>"
| "mem_op (PutAffected av) m = m\<lparr>m_affected := (mem_fresh (m_affected m), av) # m_affected m\<rparr>"
| "mem_op (DeleteAffected k) m = m\<lparr>m_affected := filter (\<lambda>e. fst e \<noteq> k) (m_affected m)\<rparr>"

definition of_option :: "'a option \<Rightarrow> 'a get_result" where
  "of_option r = (case r of Some x \<Rightarrow> Found x | None \<Rightarrow> NoSuchEntity)"

definition mem_api :: "(mem, schema_vuln) store_api" where
  "mem_api = \<lparr>
     api_NewTransaction = \<lambda>m. None,
     api_Get = \<lambda>m vid. of_option (m_vulns m vid),
     api_tx_op = \<lambda>m ops op. None,
     api_GetAll_affected = \<lambda>m vid. Inr (filter (\<lambda>e. av_vuln_id (snd e) = vid) (AList.clearjunk (m_affected m))),
     api_Commit = \<lambda>m ops. (fold mem_op ops m, None),
     api_Put_commits = \<lambda>k ac m. (m\<lparr>m_commits := (k, ac) # m_commits m\<rparr>, None),
     api_GetAll_commits = \<lambda>m vid.
       Inr (map fst (filter (\<lambda>e. ac_vuln_id (snd e) = vid) (AList.clearjunk (m_commits m)))),
     api_Delete_commits = \<lambda>k m. (m\<lparr>m_commits := filter (\<lambda>e. fst e \<noteq> k) (m_commits m)\<rparr>, None),
     api_Marshal = Inr,
     api_Unmarshal = Inr,
     api_WriteObject = \<lambda>p x t m. (m\<lparr>m_objects := (m_objects m)(p \<mapsto> x)\<rparr>, None),
     api_ReadObject = \<lambda>m p. of_option (m_objects m p),
     api_Publish = Some (\<lambda>x m. (m\<lparr>m_queue := m_queue m @ [x]\<rparr>, None))\<rparr>"

lemma map_of_filter_key: "map_of (filter (\<lambda>e. fst e \<noteq> k) xs) = (map_of xs)(k := None)"
  by (induction xs) (auto simp: fun_eq_iff)

lemma key_number_le: "(k, v) \<in> set xs \<Longrightarrow> key_number k \<le> sum_list (map (key_number \<circ> fst) xs)"
  by (induction xs) auto

lemma mem_fresh_new: "map_of xs (mem_fresh xs) = None"
proof (rule ccontr)
  assume "map_of xs (mem_fresh xs) \<noteq> None"
  then obtain v where "(mem_fresh xs, v) \<in> set xs" by (auto dest: map_of_SomeD)
  from key_number_le [OF this] show False by (simp add: mem_fresh_def)
qed

lemma mem_commit: "tx_applied (mem_view m) ops (mem_view (fold mem_op ops m))"
proof (induction ops arbitrary: m)
  case (Cons op ops)
  show ?case
  proof (cases op)
    case (PutAffected av)
    then show ?thesis
      using Cons [of "mem_op op m"] mem_fresh_new [of "m_affected m"]
      by (auto simp: mem_view_def intro!: exI [of _ "mem_fresh (m_affected m)"])
  next
    case (DeleteAffected k)
    then show ?thesis
      using Cons [of "mem_op op m"] by (simp add: mem_view_def map_of_filter_key del: fun_upd_apply)
  qed (use Cons [of "mem_op op m"] in \<open>simp_all add: mem_view_def del: fun_upd_apply\<close>)
qed simp

lemma set_clearjunk: "(k, v) \<in> set (AList.clearjunk xs) \<longleftrightarrow> map_of xs k = Some v"
  by (metis AList.distinct_clearjunk map_of_clearjunk map_of_eq_Some_iff)

lemma mem_laws: "store_laws mem_view mem_api"
  unfolding store_laws_def mem_api_def
  using mem_commit
  by (auto simp: mem_view_def of_option_def set_clearjunk map_of_filter_key distinct_map_filter AList.distinct_clearjunk
      image_iff Bex_def split: option.splits)


definition mem_empty :: mem where
  "mem_empty = \<lparr>m_vulns = Map.empty, m_listed = Map.empty, m_affected = [], m_commits = [],
     m_objects = Map.empty, m_queue = []\<rparr>"

definition ex_env :: "int list wrapped entity_env" where
  "ex_env = \<lparr>env_sorter = insertionSort, env_urlParse = \<lambda>_. None,
     env_ecosystem = \<lambda>_. Some (wrapEcosystem (dotted_ecosystem semver_Coarse)),
     env_ordR = id, env_ordP = id, env_ordE = id\<rparr>"

definition ex_request :: write_request where
  "ex_request = \<lparr>wr_id = ''V-1'', wr_source = ''npm'', wr_path = ''V-1.json'', wr_raw = None,
     wr_enriched = ex_listed\<lparr>sv_id := ''V-1'', sv_withdrawn := True\<rparr>, wr_commits = [''b'', ''a''], wr_skip = False\<rparr>"

lemma mem_queries:
  "api_GetAll_affected mem_api mem_empty vid = Inr []"
  by (simp add: mem_api_def mem_empty_def)


lemma updateAffectedCommits_pages_witness:
  "\<exists>s'. updateAffectedCommits mem_api ''V-1'' [''b'', ''a''] mem_empty = (s', None)
     \<and> commits_keyed (mem_view s') \<and> concat (batches (sort [''b'', ''a''])) = [''a'', ''b'']"
proof -
  have b: "sort [''b'', ''a''] = [''a'', ''b'']" "batches [''a'', ''b''] = [[''a'', ''b'']]"
    by (simp_all add: batchSize_def)
  obtain s' where run: "updateAffectedCommits mem_api ''V-1'' [''b'', ''a''] mem_empty = (s', None)"
    by (simp add: updateAffectedCommits_def b putPage_def mem_api_def mem_empty_def deleteStale_def
        last_split_key strconv_Atoi_digits del: batches.simps)
  show ?thesis
    using updateAffectedCommits_pages [OF mem_laws _ run] run
    by (simp add: b mem_view_def mem_empty_def commits_keyed_def)
qed

section \<open>The whole write\<close>

text \<open>Only the commits change.\<close>

lemma put_pages_frame:
  "store_laws view api \<Longrightarrow> for_each (putPage api vid) ps s = (s', None) \<Longrightarrow>
    \<exists>c. view s' = (view s)\<lparr>db_commits := c\<rparr>"
proof (induction ps arbitrary: s)
  case Nil
  then show ?case by (intro exI [of _ "db_commits (view s)"]) simp
next
  case (Cons p ps)
  obtain n b where p: "p = (n, b)" by (cases p)
  obtain s1 where s1: "api_Put_commits api (commitsKey vid n) (page vid n b) s = (s1, None)"
    "for_each (putPage api vid) ps s1 = (s', None)"
    using Cons.prems(2) unfolding p for_each_Cons_ok putPage_ok by blast
  then show ?case
    using Cons.IH [OF Cons.prems(1) s1(2)] store_lawsD(9) [OF Cons.prems(1) s1(1)] by auto
qed

lemma deleteStale_frame:
  "store_laws view api \<Longrightarrow> deleteStale api n k s = (s', None) \<Longrightarrow> \<exists>c. view s' = (view s)\<lparr>db_commits := c\<rparr>"
proof -
  assume laws: "store_laws view api" and run: "deleteStale api n k s = (s', None)"
  have "s' = s \<or> api_Delete_commits api k s = (s', None)"
    using run by (auto simp: deleteStale_def split: option.splits if_splits prod.splits)
  then show ?thesis
  proof
    assume "s' = s"
    then show ?thesis by (intro exI [of _ "db_commits (view s)"]) simp
  next
    assume "api_Delete_commits api k s = (s', None)"
    then show ?thesis using store_lawsD(11) [OF laws] by blast
  qed
qed

lemma delete_stales_frame:
  "store_laws view api \<Longrightarrow> for_each (deleteStale api n) ks s = (s', None) \<Longrightarrow>
    \<exists>c. view s' = (view s)\<lparr>db_commits := c\<rparr>"
proof (induction ks arbitrary: s)
  case Nil
  then show ?case by (intro exI [of _ "db_commits (view s)"]) simp
next
  case (Cons k ks)
  then obtain s1 where s1: "deleteStale api n k s = (s1, None)" "for_each (deleteStale api n) ks s1 = (s', None)"
    unfolding for_each_Cons_ok by blast
  then show ?case
    using Cons.IH [OF Cons.prems(1) s1(2)] deleteStale_frame [OF Cons.prems(1) s1(1)] by auto
qed

lemma updateAffectedCommits_frame:
  assumes laws: "store_laws view api" and run: "updateAffectedCommits api vid commits s = (s', None)"
  shows "\<exists>c. view s' = (view s)\<lparr>db_commits := c\<rparr>"
proof -
  obtain s1 ks where 1: "for_each (putPage api vid) (enumerate 0 (batches (sort commits))) s = (s1, None)"
    and 3: "for_each (deleteStale api (length (batches (sort commits)))) ks s1 = (s', None)"
    using run by (auto simp: updateAffectedCommits_def Let_def split: prod.splits option.splits sum.splits)
  show ?thesis using put_pages_frame [OF laws 1] delete_stales_frame [OF laws 3] by auto
qed

lemma Write_steps:
  assumes laws: "store_laws view api" and run: "Write api env req s = (s', None)"
  obtains s1 s2 c where "writeBaseEntities api env req s = (s1, None)"
    and "view s2 = (view s1)\<lparr>db_commits := c\<rparr>" and "uploadToGCS api (wr_id req) (wr_enriched req) s2 = (s', None)"
proof -
  obtain s1 s2 where s1: "writeBaseEntities api env req s = (s1, None)"
    and s2: "(if wr_skip req then (s1, None) else updateAffectedCommits api (wr_id req) (wr_commits req) s1) = (s2, None)"
    and up: "uploadToGCS api (wr_id req) (wr_enriched req) s2 = (s', None)"
    using run by (auto simp: Write_def split: prod.splits option.splits)
  have "\<exists>c. view s2 = (view s1)\<lparr>db_commits := c\<rparr>"
  proof (cases "wr_skip req")
    case True
    then show ?thesis using s2 by (intro exI [of _ "db_commits (view s1)"]) simp
  next
    case False
    then show ?thesis using s2 updateAffectedCommits_frame [OF laws] by auto
  qed
  then show thesis using that s1 up by blast
qed

lemma uploadToGCS_ok:
  assumes laws: "store_laws view api" and run: "uploadToGCS api vid v s = (s', None)"
  obtains x where "api_Marshal api v = Inr x"
    and "view s' = (view s)\<lparr>db_objects := (db_objects (view s))(objectPath vid \<mapsto> x)\<rparr>
      \<or> api_Publish api \<noteq> None \<and> view s' = (view s)\<lparr>db_queue := db_queue (view s) @ [x]\<rparr>"
proof -
  obtain x where x: "api_Marshal api v = Inr x" using run by (auto simp: uploadToGCS_def split: sum.splits)
  obtain s1 e where w: "api_WriteObject api (objectPath vid) x (sv_modified v) s = (s1, e)" by fastforce
  show thesis
  proof (cases e)
    case None
    then have "s' = s1" using run x w by (simp add: uploadToGCS_def)
    then show ?thesis using that [OF x] store_lawsD(12) [OF laws w [unfolded None]] by blast
  next
    case (Some err)
    have same: "view s1 = view s" by (rule store_lawsD(13) [OF laws w [unfolded Some]])
    obtain publish where p: "api_Publish api = Some publish" "publish x s1 = (s', None)"
      using run x w Some by (auto simp: uploadToGCS_def split: option.splits prod.splits)
    have "view s' = (view s)\<lparr>db_queue := db_queue (view s) @ [x]\<rparr>"
      using store_lawsD(17) [OF laws p] same by simp
    then show ?thesis using that [OF x] p(1) by blast
  qed
qed

text \<open>
  C12: No write that reports success loses the object: it is in cloud storage under the path of
  the vulnerability, or, where there is a queue for it, it has been added to the queue that
  writes it later.
\<close>

theorem Write_keeps_object:
  assumes "store_laws view api" and "Write api env req s = (s', None)"
  shows "\<exists>x. api_Marshal api (wr_enriched req) = Inr x
    \<and> (db_objects (view s') (objectPath (wr_id req)) = Some x
       \<or> api_Publish api \<noteq> None \<and> db_queue (view s') = db_queue (view s) @ [x])"
proof -
  obtain s1 s2 c where 1: "writeBaseEntities api env req s = (s1, None)"
    and 2: "view s2 = (view s1)\<lparr>db_commits := c\<rparr>" and 3: "uploadToGCS api (wr_id req) (wr_enriched req) s2 = (s', None)"
    by (rule Write_steps [OF assms])
  have q: "db_queue (view s2) = db_queue (view s)"
    using writeBaseEntities_view [OF assms(1) 1] by (simp add: 2)
  obtain x where x: "api_Marshal api (wr_enriched req) = Inr x"
    "view s' = (view s2)\<lparr>db_objects := (db_objects (view s2))(objectPath (wr_id req) \<mapsto> x)\<rparr>
      \<or> api_Publish api \<noteq> None \<and> view s' = (view s2)\<lparr>db_queue := db_queue (view s2) @ [x]\<rparr>"
    by (rule uploadToGCS_ok [OF assms(1) 3])
  from x(2) show ?thesis
  proof
    assume "view s' = (view s2)\<lparr>db_objects := (db_objects (view s2))(objectPath (wr_id req) \<mapsto> x)\<rparr>"
    then have "db_objects (view s') (objectPath (wr_id req)) = Some x" by simp
    then show ?thesis using x(1) by blast
  next
    assume "api_Publish api \<noteq> None \<and> view s' = (view s2)\<lparr>db_queue := db_queue (view s2) @ [x]\<rparr>"
    then have "api_Publish api \<noteq> None" "db_queue (view s') = db_queue (view s) @ [x]" by (simp_all add: q)
    then show ?thesis using x(1) by blast
  qed
qed

text \<open>The example written to the store in memory.\<close>

lemma ex_Write_ok: "\<exists>s'. Write mem_api ex_env ex_request mem_empty = (s', None)"
proof -
  have b: "sort [''b'', ''a''] = [''a'', ''b'']" "batches [''a'', ''b''] = [[''a'', ''b'']]"
    by (simp_all add: batchSize_def)
  show ?thesis
    by (simp add: Write_def writeBaseEntities_def mem_api_def mem_empty_def tx_call_def tx_delete_def Let_def
        updateAffectedVersions_def ex_request_def of_option_def updateAffectedCommits_def b putPage_def deleteStale_def
        last_split_key strconv_Atoi_digits uploadToGCS_def del: batches.simps)
qed

lemma Write_keeps_object_witness:
  "\<exists>s'. Write mem_api ex_env ex_request mem_empty = (s', None)
     \<and> (db_objects (mem_view s') (objectPath ''V-1'') = Some (wr_enriched ex_request)
        \<or> db_queue (mem_view s') = [wr_enriched ex_request])"
proof -
  obtain s' where run: "Write mem_api ex_env ex_request mem_empty = (s', None)" using ex_Write_ok by blast
  have "api_Marshal mem_api (wr_enriched ex_request) = Inr (wr_enriched ex_request)"
    "wr_id ex_request = ''V-1''" "db_queue (mem_view mem_empty) = []"
    by (simp_all add: mem_api_def ex_request_def mem_view_def mem_empty_def)
  with run Write_keeps_object [OF mem_laws run] show ?thesis by auto
qed

text \<open>
  C9: What a write that reports success has stored can be read back, where there is no queue to
  take the object instead: unless a read fails, \<open>GetWithMetadata\<close> gives the vulnerability
  written, its identifier, the source and the path of the request if the source has no colon,
  and the modification time of the raw record.
\<close>

theorem Write_GetWithMetadata:
  assumes laws: "store_laws view api" and run: "Write api env req s = (s', None)"
    and noqueue: "api_Publish api = None"
    and source: "CHR '':'' \<notin> set (wr_source req)" and raw: "wr_raw req = Some raw"
    and reads: "\<forall>e. api_Get api s' (wr_id req) \<noteq> GetFailed e"
      "\<forall>e. api_ReadObject api s' (objectPath (wr_id req)) \<noteq> GetFailed e"
  shows "GetWithMetadata api s' (wr_id req) =
      ReadOk (wr_enriched req, \<lparr>ref_id = wr_id req, ref_source = wr_source req, ref_path = wr_path req,
        ref_modified_raw = sv_modified raw\<rparr>)"
proof -
  obtain s1 s2 c where 1: "writeBaseEntities api env req s = (s1, None)"
    and 2: "view s2 = (view s1)\<lparr>db_commits := c\<rparr>" and 3: "uploadToGCS api (wr_id req) (wr_enriched req) s2 = (s', None)"
    by (rule Write_steps [OF laws run])
  obtain x where x: "api_Marshal api (wr_enriched req) = Inr x"
    "view s' = (view s2)\<lparr>db_objects := (db_objects (view s2))(objectPath (wr_id req) \<mapsto> x)\<rparr>
      \<or> api_Publish api \<noteq> None \<and> view s' = (view s2)\<lparr>db_queue := db_queue (view s2) @ [x]\<rparr>"
    by (rule uploadToGCS_ok [OF laws 3])
  let ?old = "case db_vulns (view s) (wr_id req) of Some v \<Rightarrow> v | None \<Rightarrow> zero_vulnerability"
  let ?v = "(newVulnerability req ?old)\<lparr>v_key := wr_id req\<rparr>"
  have obj: "db_objects (view s') (objectPath (wr_id req)) = Some x" using x(2) noqueue by auto
  have vuln: "db_vulns (view s') (wr_id req) = Some ?v"
    using x(2) noqueue writeBaseEntities_view [OF laws 1] by (auto simp: 2)
  have got: "api_Get api s' (wr_id req) = Found ?v"
    using reads(1) store_lawsD(1,2) [OF laws, of s' "wr_id req"] vuln
    by (cases "api_Get api s' (wr_id req)") auto
  have read: "api_ReadObject api s' (objectPath (wr_id req)) = Found x"
    using reads(2) store_lawsD(14,15) [OF laws, of s' "objectPath (wr_id req)"] obj
    by (cases "api_ReadObject api s' (objectPath (wr_id req))") auto
  have "store_Get api s' (wr_id req) = ReadOk (wr_enriched req)"
    using store_lawsD(16) [OF laws x(1)] by (simp add: store_Get_def read)
  moreover have "strings_cut (v_source_id ?v) (CHR '':'') = (wr_source req, wr_path req, True)"
    using source by (simp add: newVulnerability_def raw Let_def strings_cut_append)
  moreover have "v_modified_raw ?v = sv_modified raw" by (simp add: newVulnerability_def raw Let_def)
  ultimately show ?thesis by (simp add: GetWithMetadata_def got)
qed


lemma no_queue_laws: "store_laws view api \<Longrightarrow> store_laws view (api\<lparr>api_Publish := None\<rparr>)"
  by (simp add: store_laws_def)

lemma Write_GetWithMetadata_witness:
  "\<exists>s'. GetWithMetadata (mem_api\<lparr>api_Publish := None\<rparr>) s' ''V-1'' =
     ReadOk (wr_enriched ex_request, \<lparr>ref_id = ''V-1'', ref_source = ''npm'', ref_path = ''V-1.json'',
       ref_modified_raw = 2\<rparr>)"
proof -
  let ?api = "mem_api\<lparr>api_Publish := None\<rparr>" and ?req = "ex_request\<lparr>wr_raw := Some ex_listed\<rparr>"
  have b: "sort [''b'', ''a''] = [''a'', ''b'']" "batches [''a'', ''b''] = [[''a'', ''b'']]"
    by (simp_all add: batchSize_def)
  obtain s' where run: "Write ?api ex_env ?req mem_empty = (s', None)"
    by (simp add: Write_def writeBaseEntities_def mem_api_def mem_empty_def tx_call_def tx_delete_def Let_def
        updateAffectedVersions_def ex_request_def of_option_def updateAffectedCommits_def b putPage_def deleteStale_def
        last_split_key strconv_Atoi_digits uploadToGCS_def del: batches.simps)
  have "GetWithMetadata ?api s' (wr_id ?req) =
      ReadOk (wr_enriched ?req, \<lparr>ref_id = wr_id ?req, ref_source = wr_source ?req, ref_path = wr_path ?req,
        ref_modified_raw = sv_modified ex_listed\<rparr>)"
    by (rule Write_GetWithMetadata [OF no_queue_laws [OF mem_laws] run])
      (auto simp: ex_request_def mem_api_def of_option_def split: option.splits)
  then show ?thesis by (auto simp: ex_request_def ex_listed_def)
qed

end
