(* ===== verification/RelationsStore.thy ===== *)
theory RelationsStore
  imports AliasGroups UpstreamGroups RelatedGroups
begin

text \<open>
  The store the enrichment of a vulnerability reads its relations from
  (\<open>database/datastore/relations.go\<close>): the client of the groups that the relations worker keeps.
  The queries of the datastore are parameters.
\<close>

section \<open>Operations\<close>

datatype 'a relation_result = RelFound 'a | RelNotFound | RelFailed string

datatype 'a entity_result = Entity 'a | NoEntity | EntityError string

definition GetAliases ::
  "(vuln_id \<Rightarrow> string + alias_group list) \<Rightarrow> vuln_id \<Rightarrow> (vuln_id list \<times> timestamp) relation_result" where
  "GetAliases query vid =
     (case query vid of
        Inl err \<Rightarrow> RelFailed (''failed to get alias group: '' @ err)
      | Inr aliasGroups \<Rightarrow>
          if aliasGroups = [] then RelNotFound
          else if length aliasGroups > 1 then RelFailed ''id belongs to multiple aliases''
          else
            (let aliasGroup = hd aliasGroups
             in RelFound (slices_sort (filter (\<lambda>v. v \<noteq> vid) (ag_vuln_ids aliasGroup)), ag_modified aliasGroup)))"

definition GetRelated ::
  "(vuln_id \<Rightarrow> related_group entity_result) \<Rightarrow> vuln_id \<Rightarrow> (vuln_id list \<times> timestamp) relation_result" where
  "GetRelated get vid =
     (case get vid of
        NoEntity \<Rightarrow> RelNotFound
      | EntityError err \<Rightarrow> RelFailed (''failed to get related group: '' @ err)
      | Entity g \<Rightarrow> RelFound (slices_sort (rg_related_ids g), rg_modified g))"

definition GetUpstream ::
  "(vuln_id \<Rightarrow> upstream_group entity_result) \<Rightarrow> vuln_id \<Rightarrow> (vuln_id list \<times> timestamp) relation_result" where
  "GetUpstream get vid =
     (case get vid of
        NoEntity \<Rightarrow> RelNotFound
      | EntityError err \<Rightarrow> RelFailed (''failed to get upstream group: '' @ err)
      | Entity g \<Rightarrow> RelFound (slices_sort (ug_upstream_ids g), ug_modified g))"

section \<open>Reading what the worker wrote\<close>

text \<open>A query for a member of the groups in a table: each group that has it, once.\<close>

definition group_query :: "(ds_key \<rightharpoonup> alias_group) \<Rightarrow> (vuln_id \<Rightarrow> string + alias_group list) \<Rightarrow> bool" where
  "group_query table query \<longleftrightarrow>
     (\<forall>vid. \<exists>ks. distinct ks \<and> set ks = {k. \<exists>g. table k = Some g \<and> vid \<in> set (ag_vuln_ids g)}
        \<and> query vid = Inr (map (\<lambda>k. the (table k)) ks))"

text \<open>
  C11: After a run of the relations worker that no datastore call stops, asking for the aliases of a
  vulnerability never finds it in several groups: it gives the other members of its connected
  component of the alias graph, sorted, if that has between 2 and 32 members, and says that there
  are none otherwise.
\<close>

theorem GetAliases_after_run:
  assumes "datastore_laws contents cl" and "iteration_order ord"
    and "contents [] = map_of groups" and "distinct (map fst groups)"
    and "ar_error (ComputeAliasGroups cl clock ord (Inr al) (Inr dl) (vulns, None) (groups, None)) = None"
    and "final = contents (ar_log (ComputeAliasGroups cl clock ord (Inr al) (Inr dl) (vulns, None) (groups, None)))"
    and query: "group_query final query"
  shows "if groupable al dl vulns v
    then \<exists>t. GetAliases query v = RelFound (sorted_list_of_set (alias_component al dl vulns v - {v}), t)
    else GetAliases query v = RelNotFound"
proof -
  note stored = ComputeAliasGroups_grouped [OF assms(1-6)]
  obtain ks where ks: "distinct ks" "set ks = {k. \<exists>g. final k = Some g \<and> v \<in> set (ag_vuln_ids g)}"
    "query v = Inr (map (\<lambda>k. the (final k)) ks)"
    using query unfolding group_query_def by blast
  have member: "groupable al dl vulns v \<and> ag_vuln_ids g = group_ids al dl vulns v"
    if g: "final k = Some g" "v \<in> set (ag_vuln_ids g)" for k g
  proof -
    obtain w where w: "groupable al dl vulns w" "ag_vuln_ids g = group_ids al dl vulns w"
      using stored g(1) unfolding group_ids_def by blast
    then have "v \<in> alias_component al dl vulns w" using g(2) by simp
    then show ?thesis using w by (simp add: groupable_of_union group_ids_of_union)
  qed
  show ?thesis
  proof (cases "groupable al dl vulns v")
    case False
    then have "set ks = {}" using ks(2) member by auto
    then show ?thesis using False by (simp add: GetAliases_def ks(3))
  next
    case True
    then obtain k g where k: "final k = Some g" "ag_vuln_ids g = group_ids al dl vulns v"
      and only: "\<And>k' g'. final k' = Some g' \<Longrightarrow> ag_vuln_ids g' = group_ids al dl vulns v \<Longrightarrow> k' = k"
      using stored unfolding group_ids_def by metis
    have "set ks = {k}"
      unfolding ks(2)
    proof (intro equalityI subsetI)
      fix k'
      assume "k' \<in> {k. \<exists>g. final k = Some g \<and> v \<in> set (ag_vuln_ids g)}"
      then obtain g' where "final k' = Some g'" "v \<in> set (ag_vuln_ids g')" by blast
      then show "k' \<in> {k}" using member only by blast
    qed (use k in simp)
    moreover have "length ks = card (set ks)" using ks(1) by (simp add: distinct_card)
    ultimately have "length ks = 1" by simp
    then have "ks = [k]" using \<open>set ks = {k}\<close> by (cases ks) auto
    then have "query v = Inr [g]" by (simp add: ks(3) k(1))
    moreover have "slices_sort (filter (\<lambda>w. w \<noteq> v) (group_ids al dl vulns v)) =
        sorted_list_of_set (alias_component al dl vulns v - {v})"
      using sort_distinct_sorted_list [of "filter (\<lambda>w. w \<noteq> v) (group_ids al dl vulns v)"]
      by (simp add: set_diff_eq)
    ultimately show ?thesis using True by (simp add: GetAliases_def k(2))
  qed
qed


lemma finite_replay: "finite (dom (replay init log))"
proof (induction log rule: rev_induct)
  case (snoc e log)
  obtain op k where e: "e = (op, k)" by (cases e)
  with snoc show ?case by (cases op) (simp_all del: fun_upd_apply)
qed (simp add: finite_dom_map_of)

lemma group_query_exists:
  assumes "finite (dom table)"
  shows "\<exists>query. group_query table query"
proof -
  have "\<exists>ks. distinct ks \<and> set ks = {k. \<exists>g. table k = Some g \<and> vid \<in> set (ag_vuln_ids g)}" for vid
  proof -
    have "{k. \<exists>g. table k = Some g \<and> vid \<in> set (ag_vuln_ids g)} \<subseteq> dom table" by (auto simp: dom_def)
    from finite_distinct_list [OF finite_subset [OF this assms]] show ?thesis by (simp only: conj_commute)
  qed
  from choice [OF allI [OF this]] obtain K where
    "\<forall>vid. distinct (K vid) \<and> set (K vid) = {k. \<exists>g. table k = Some g \<and> vid \<in> set (ag_vuln_ids g)}" ..
  then have "group_query table (\<lambda>vid. Inr (map (\<lambda>k. the (table k)) (K vid)))"
    unfolding group_query_def by blast
  then show ?thesis by auto
qed

lemma GetAliases_after_run_witness:
  "\<exists>query t. group_query (replay ex_alias_groups (ar_log (ComputeAliasGroups (numbering_client ex_alias_groups)
       int id (Inr []) (Inr []) (ex_alias_vulns, None) (ex_alias_groups, None)))) query
     \<and> GetAliases query ''A'' = RelFound ([''B'', ''C''], t)"
proof -
  let ?final = "replay ex_alias_groups (ar_log (ComputeAliasGroups (numbering_client ex_alias_groups)
       int id (Inr []) (Inr []) (ex_alias_vulns, None) (ex_alias_groups, None)))"
  have "computeAliases (collectAliases [] [] ex_alias_vulns) id ''A'' {} = ([''A'', ''B'', ''C''], {''A'', ''B'', ''C''})"
    by code_simp
  with computeAliases_component [OF iteration_order_id refl, of "[]" "[]" ex_alias_vulns "{}" "''A''"]
  have ids: "group_ids [] [] ex_alias_vulns ''A'' = [''A'', ''B'', ''C'']"
    by (simp add: alias_closed_def)
  have comp: "alias_component [] [] ex_alias_vulns ''A'' = {''A'', ''B'', ''C''}"
    using group_ids_simps(1) [of "[]" "[]" ex_alias_vulns "''A''"] by (simp add: ids)
  then have g: "groupable [] [] ex_alias_vulns ''A''"
    by (simp add: groupable_def aliasGroupVulnLimit_def)
  obtain query where q: "group_query ?final query" using group_query_exists [OF finite_replay] by blast
  have distinct_ex: "distinct (map fst ex_alias_groups)" by simp
  have "sorted_list_of_set ({''A'', ''B'', ''C''} - {''A''}) = [''B'', ''C'']" by simp
  then show ?thesis
    using GetAliases_after_run [OF datastore_laws_replay iteration_order_id _ _ ex_alias_run refl q, of "''A''"] q
    unfolding comp if_P [OF g] by (metis distinct_ex replay_Nil)
qed

end
