(* ===== verification/DatabaseSpecific.thy ===== *)
theory DatabaseSpecific
  imports Complex_Main Prelude
begin

text \<open>
  The free-form part of an OSV record (\<open>google.golang.org/protobuf\<close>'s \<open>structpb\<close>) and the
  functions of \<open>vulnfeeds/conversion\<close> that merge it: \<open>MergeDatabaseSpecificValues\<close> and
  \<open>deduplicateList\<close> of \<open>common.go\<close>, the body of \<open>mergeDatabaseSpecific\<close> and
  \<open>mergeDatabaseSpecificExtractedEvents\<close> of \<open>grouping.go\<close> on the fields of a struct.

  A Go map has no order and two maps with the same entries are equal, so an object is the list
  of its entries by strictly increasing key: \<open>json_ok\<close> says that a value is such, and every
  function keeps it. Of a number only its equality is used (not-a-number is excluded).
\<close>

section \<open>Values\<close>

datatype json =
    JNull
  | JBool bool
  | JNum rat
  | JStr string
  | JList "json list"
  | JObj "(string \<times> json) list"

type_synonym struct_fields = "(string \<times> json) list"

text \<open>\<open>m[k] = v\<close> on the entries by increasing key.\<close>

fun put_field :: "string \<Rightarrow> 'v \<Rightarrow> (string \<times> 'v) list \<Rightarrow> (string \<times> 'v) list" where
  "put_field k v [] = [(k, v)]"
| "put_field k v ((k', v') # fs) =
     (if k < k' then (k, v) # (k', v') # fs
      else if k = k' then (k, v) # fs
      else (k', v') # put_field k v fs)"

definition fields_sorted :: "(string \<times> 'v) list \<Rightarrow> bool" where
  "fields_sorted fs \<longleftrightarrow> sorted_wrt (<) (map fst fs)"

fun json_ok :: "json \<Rightarrow> bool" where
  "json_ok (JList vs) = (\<forall>v\<in>set vs. json_ok v)"
| "json_ok (JObj fs) = (fields_sorted fs \<and> (\<forall>(k, v)\<in>set fs. json_ok v))"
| "json_ok _ = True"

definition struct_ok :: "struct_fields \<Rightarrow> bool" where
  "struct_ok fs \<longleftrightarrow> fields_sorted fs \<and> (\<forall>(k, v)\<in>set fs. json_ok v)"

lemma json_ok_JObj [simp]: "json_ok (JObj fs) = struct_ok fs"
  by (simp add: struct_ok_def)

declare json_ok.simps(2) [simp del]

lemma map_of_put_field [simp]: "map_of (put_field k v fs) = (map_of fs)(k \<mapsto> v)"
  by (induction fs) (auto simp: fun_eq_iff)

lemma set_put_field: "set (put_field k v fs) \<subseteq> insert (k, v) (set fs)"
  by (induction fs) (auto split: if_splits)

lemma keys_put_field: "set (map fst (put_field k v fs)) = insert k (set (map fst fs))"
proof -
  have "dom (map_of (put_field k v fs)) = insert k (dom (map_of fs))" by simp
  then show ?thesis by (simp only: dom_map_of_conv_image_fst set_map)
qed

lemma fields_sorted_put_field [simp]: "fields_sorted fs \<Longrightarrow> fields_sorted (put_field k v fs)"
proof (induction fs)
  case (Cons f fs)
  then show ?case
    using keys_put_field [of k v fs] by (cases f) (force simp: fields_sorted_def)
qed (simp add: fields_sorted_def)

lemma fields_sorted_distinct: "fields_sorted fs \<Longrightarrow> distinct (map fst fs)"
  unfolding fields_sorted_def by (simp add: strict_sorted_iff)

lemma fields_sorted_Cons:
  "fields_sorted (f # fs) \<longleftrightarrow> fields_sorted fs \<and> (\<forall>k \<in> set (map fst fs). fst f < k)"
  by (auto simp: fields_sorted_def)

lemma fields_sorted_notin: "fields_sorted ((k, v) # fs) \<Longrightarrow> map_of fs k = None"
  using fields_sorted_distinct [of "(k, v) # fs"] by (simp add: map_of_eq_None_iff)

lemma struct_ok_put_field [simp]:
  assumes "struct_ok fs" and "json_ok v"
  shows "struct_ok (put_field k v fs)"
  using assms set_put_field [of k v fs] by (auto simp: struct_ok_def)

lemma struct_ok_map_of: "struct_ok fs \<Longrightarrow> map_of fs k = Some v \<Longrightarrow> json_ok v"
  by (auto simp: struct_ok_def dest: map_of_SomeD)

lemma struct_ok_Cons: "struct_ok ((k, v) # fs) \<Longrightarrow> struct_ok fs \<and> json_ok v"
  by (auto simp: struct_ok_def fields_sorted_def)

lemma struct_ok_Nil [simp]: "struct_ok []"
  by (simp add: struct_ok_def fields_sorted_def)

text \<open>Two lists of entries by increasing key with the same lookups are the same list.\<close>

lemma entries_of_keys:
  "distinct (map fst fs) \<Longrightarrow> fs = map (\<lambda>k. (k, the (map_of fs k))) (map fst fs)"
proof -
  assume d: "distinct (map fst fs)"
  have "map (\<lambda>k. (k, the (map_of fs k))) (map fst fs) = map id fs"
    unfolding map_map by (rule map_cong) (use d in \<open>auto simp: map_of_eq_Some_iff\<close>)
  then show ?thesis by simp
qed

lemma fields_sorted_ext:
  assumes "fields_sorted xs" and "fields_sorted ys" and m: "map_of xs = map_of ys"
  shows "xs = ys"
proof -
  have "set (map fst xs) = set (map fst ys)"
    using arg_cong [OF m, of dom] by (simp add: dom_map_of_conv_image_fst)
  then have k: "map fst xs = map fst ys"
    using assms(1,2) unfolding fields_sorted_def by (metis strict_sorted_equal)
  have "xs = map (\<lambda>k. (k, the (map_of xs k))) (map fst xs)"
    using assms(1) by (intro entries_of_keys fields_sorted_distinct)
  also have "\<dots> = map (\<lambda>k. (k, the (map_of ys k))) (map fst ys)"
    by (simp only: k m)
  also have "\<dots> = ys"
    using assms(2) by (intro entries_of_keys [symmetric] fields_sorted_distinct)
  finally show ?thesis .
qed

section \<open>Merging values\<close>

text \<open>\<open>deduplicateList\<close>: of equal strings, numbers and booleans the first is kept.\<close>

fun json_comparable :: "json \<Rightarrow> bool" where
  "json_comparable (JStr s) = True"
| "json_comparable (JNum n) = True"
| "json_comparable (JBool b) = True"
| "json_comparable _ = False"

fun deduplicate_from :: "json list \<Rightarrow> json list \<Rightarrow> json list" where
  "deduplicate_from seen [] = []"
| "deduplicate_from seen (v # vs) =
     (if json_comparable v
      then (if v \<in> set seen then deduplicate_from seen vs
            else v # deduplicate_from (v # seen) vs)
      else v # deduplicate_from seen vs)"

definition deduplicateList :: "json list \<Rightarrow> json list" where
  "deduplicateList vs = deduplicate_from [] vs"

text \<open>The dynamic type of a value (\<open>%T\<close>).\<close>

datatype json_type = TNil | TBool | TFloat | TString | TSlice | TMap

fun json_type_of :: "json \<Rightarrow> json_type" where
  "json_type_of JNull = TNil"
| "json_type_of (JBool _) = TBool"
| "json_type_of (JNum _) = TFloat"
| "json_type_of (JStr _) = TString"
| "json_type_of (JList _) = TSlice"
| "json_type_of (JObj _) = TMap"

abbreviation mismatch :: "go_error + 'a" where
  "mismatch \<equiv> Inl (GoErr ''mismatching types'')"

text \<open>
  \<open>MergeDatabaseSpecificValues\<close>. The test that a list holds values of the type of a single
  value looks at the first element; on the way from the single value to the list it is the
  same test for a string and for any other scalar.
\<close>

fun MergeDatabaseSpecificValues :: "json \<Rightarrow> json \<Rightarrow> go_error + json"
  and mergeMaps :: "struct_fields \<Rightarrow> struct_fields \<Rightarrow> go_error + struct_fields" where
  "MergeDatabaseSpecificValues (JList v1) val2 =
     (case val2 of
        JList v2 \<Rightarrow> Inr (JList (deduplicateList (v1 @ v2)))
      | _ \<Rightarrow> (case v1 of
                [] \<Rightarrow> Inr (JList (deduplicateList [val2]))
              | x # _ \<Rightarrow>
                  if json_type_of x \<noteq> json_type_of val2 then mismatch
                  else Inr (JList (deduplicateList (v1 @ [val2])))))"
| "MergeDatabaseSpecificValues (JObj v1) (JObj v2) =
     (case mergeMaps v1 v2 of Inl e \<Rightarrow> Inl e | Inr m \<Rightarrow> Inr (JObj m))"
| "MergeDatabaseSpecificValues (JObj v1) val2 = mismatch"
| "MergeDatabaseSpecificValues val1 (JList v2) =
     (case v2 of
        [] \<Rightarrow> Inr (JList (deduplicateList [val1]))
      | x # _ \<Rightarrow>
          if json_type_of val1 \<noteq> json_type_of x then mismatch
          else Inr (JList (deduplicateList (val1 # v2))))"
| "MergeDatabaseSpecificValues val1 val2 =
     (if json_type_of val1 \<noteq> json_type_of val2 then mismatch
      else if val1 = val2 then Inr val1
      else Inr (JList (deduplicateList [val1, val2])))"
| "mergeMaps merged [] = Inr merged"
| "mergeMaps merged ((k, v) # rest) =
     (case map_of merged k of
        None \<Rightarrow> mergeMaps (put_field k v merged) rest
      | Some existing \<Rightarrow>
          (case MergeDatabaseSpecificValues existing v of
             Inl e \<Rightarrow> Inl e
           | Inr m \<Rightarrow> mergeMaps (put_field k m merged) rest))"

section \<open>What merging keeps\<close>

lemma deduplicate_from_set:
  "set (deduplicate_from seen vs) = set vs - {v \<in> set seen. json_comparable v}"
  by (induction seen vs rule: deduplicate_from.induct) auto

lemma set_deduplicateList [simp]: "set (deduplicateList vs) = set vs"
  by (simp add: deduplicateList_def deduplicate_from_set)

lemma deduplicate_from_distinct:
  "distinct (filter json_comparable (deduplicate_from seen vs))"
  by (induction seen vs rule: deduplicate_from.induct) (auto simp: deduplicate_from_set)

lemma deduplicateList_distinct: "distinct (filter json_comparable (deduplicateList vs))"
  by (simp add: deduplicateList_def deduplicate_from_distinct)

lemma Merge_json_ok:
  "json_ok v1 \<Longrightarrow> json_ok v2 \<Longrightarrow> MergeDatabaseSpecificValues v1 v2 = Inr m \<Longrightarrow> json_ok m"
  "struct_ok merged \<Longrightarrow> struct_ok fs \<Longrightarrow> mergeMaps merged fs = Inr ms \<Longrightarrow> struct_ok ms"
proof (induction v1 v2 and merged fs arbitrary: m and ms
       rule: MergeDatabaseSpecificValues_mergeMaps.induct)
  case (1 v1 val2)
  then show ?case by (auto split: json.splits list.splits if_splits)
next
  case (2 v1 v2)
  then show ?case by (auto split: sum.splits)
next
  case (7 merged k v rest)
  have v: "struct_ok rest" "json_ok v" using struct_ok_Cons [OF "7.prems"(2)] by auto
  show ?case
  proof (cases "map_of merged k")
    case None
    then show ?thesis using 7 v by simp
  next
    case (Some e)
    then obtain m' where m: "MergeDatabaseSpecificValues e v = Inr m'"
      and ms: "mergeMaps (put_field k m' merged) rest = Inr ms"
      using "7.prems"(3) by (auto split: sum.splits)
    have "json_ok m'"
      by (rule "7.IH"(2) [OF Some _ v(2) m]) (rule struct_ok_map_of [OF "7.prems"(1) Some])
    then show ?thesis using "7.IH"(3) [OF Some m _ v(1) ms] "7.prems"(1) by simp
  qed
qed (auto split: list.splits if_splits)

text \<open>Merging maps works entry by entry, whatever the order of the entries.\<close>

lemma mergeMaps_lookup:
  assumes "distinct (map fst fs)" and "mergeMaps merged fs = Inr ms"
  shows "map_of ms k = (case map_of fs k of
           None \<Rightarrow> map_of merged k
         | Some v \<Rightarrow> (case map_of merged k of
             None \<Rightarrow> Some v
           | Some e \<Rightarrow> (case MergeDatabaseSpecificValues e v of Inl _ \<Rightarrow> None | Inr m \<Rightarrow> Some m)))"
  using assms
proof (induction fs arbitrary: merged)
  case (Cons f fs)
  obtain j v where f: "f = (j, v)" by fastforce
  have n: "map_of fs j = None" using Cons.prems(1) by (simp add: f map_of_eq_None_iff)
  have d: "distinct (map fst fs)" using Cons.prems(1) by simp
  show ?case
  proof (cases "map_of merged j")
    case None
    then have "mergeMaps (put_field j v merged) fs = Inr ms" using Cons.prems(2) by (simp add: f)
    then show ?thesis using Cons.IH [OF d, of "put_field j v merged"] n None
      by (cases "k = j") (auto simp: f split: option.splits)
  next
    case (Some e)
    then obtain m where m: "MergeDatabaseSpecificValues e v = Inr m"
      and "mergeMaps (put_field j m merged) fs = Inr ms"
      using Cons.prems(2) by (auto simp: f split: sum.splits)
    then show ?thesis using Cons.IH [OF d, of "put_field j m merged"] n Some
      by (cases "k = j") (auto simp: f split: option.splits)
  qed
qed simp

lemma mergeMaps_fails:
  assumes "distinct (map fst fs)"
  shows "(\<exists>ms. mergeMaps merged fs = Inr ms) \<longleftrightarrow>
         (\<forall>k e v. map_of merged k = Some e \<longrightarrow> map_of fs k = Some v \<longrightarrow>
            (\<exists>m. MergeDatabaseSpecificValues e v = Inr m))"
  using assms
proof (induction fs arbitrary: merged)
  case (Cons f fs)
  obtain j w where f: "f = (j, w)" by fastforce
  have n: "map_of fs j = None" using Cons.prems(1) by (simp add: f map_of_eq_None_iff)
  have d: "distinct (map fst fs)" using Cons.prems(1) by simp
  have p: "(\<exists>ms. mergeMaps (put_field j x merged) fs = Inr ms) \<longleftrightarrow>
      (\<forall>k e v. k \<noteq> j \<longrightarrow> map_of merged k = Some e \<longrightarrow> map_of fs k = Some v \<longrightarrow>
            (\<exists>m. MergeDatabaseSpecificValues e v = Inr m))" for x
    unfolding Cons.IH [OF d] using n by auto
  show ?case
  proof (cases "map_of merged j")
    case None
    have "(\<exists>ms. mergeMaps merged (f # fs) = Inr ms) \<longleftrightarrow>
        (\<exists>ms. mergeMaps (put_field j w merged) fs = Inr ms)"
      by (simp add: f None)
    also have "\<dots> \<longleftrightarrow> (\<forall>k e v. map_of merged k = Some e \<longrightarrow> map_of (f # fs) k = Some v \<longrightarrow>
            (\<exists>m. MergeDatabaseSpecificValues e v = Inr m))"
      unfolding p using None by (auto simp: f)
    finally show ?thesis .
  next
    case (Some e)
    show ?thesis
    proof (cases "MergeDatabaseSpecificValues e w")
      case (Inl x)
      then show ?thesis using Some by (auto simp: f intro!: exI [of _ j])
    next
      case (Inr m)
      have "(\<exists>ms. mergeMaps merged (f # fs) = Inr ms) \<longleftrightarrow>
          (\<exists>ms. mergeMaps (put_field j m merged) fs = Inr ms)"
        by (simp add: f Some Inr)
      also have "\<dots> \<longleftrightarrow> (\<forall>k e v. map_of merged k = Some e \<longrightarrow> map_of (f # fs) k = Some v \<longrightarrow>
            (\<exists>m. MergeDatabaseSpecificValues e v = Inr m))"
        unfolding p using Some Inr by (auto simp: f)
      finally show ?thesis .
    qed
  qed
qed simp

section \<open>Merging the fields of two structs\<close>

text \<open>
  A field that both have is merged; when that fails the merged value is Go's \<open>nil\<close>, which
  \<open>structpb.NewValue\<close> turns into a null without an error, and the null is stored.
\<close>

definition mergedField :: "json \<Rightarrow> json \<Rightarrow> json" where
  "mergedField existing v =
     (case MergeDatabaseSpecificValues existing v of Inl _ \<Rightarrow> JNull | Inr m \<Rightarrow> m)"

text \<open>The fields of the second struct into those of the first, one after the other.\<close>

fun mergeInto :: "struct_fields \<Rightarrow> struct_fields \<Rightarrow> struct_fields" where
  "mergeInto merged [] = merged"
| "mergeInto merged ((k, v) # rest) =
     mergeInto (put_field k (case map_of merged k of
                               None \<Rightarrow> v
                             | Some existing \<Rightarrow> mergedField existing v) merged) rest"

text \<open>\<open>mergeDatabaseSpecificExtractedEvents\<close>: lists are joined without duplicates.\<close>

definition extracted :: string where
  "extracted = ''extracted_events''"

definition mergeExtractedEvents :: "struct_fields \<Rightarrow> struct_fields \<Rightarrow> struct_fields" where
  "mergeExtractedEvents target source =
     (case map_of source extracted of
        None \<Rightarrow> target
      | Some sourceVersions \<Rightarrow>
          (case map_of target extracted of
             None \<Rightarrow> put_field extracted sourceVersions target
           | Some targetVersions \<Rightarrow>
               (case (targetVersions, sourceVersions) of
                  (JList t, JList s) \<Rightarrow>
                    put_field extracted (JList (set_add_all (t @ s) [])) target
                | _ \<Rightarrow> target)))"

text \<open>The body of \<open>mergeDatabaseSpecific\<close> on the fields of the target and of the source.\<close>

definition mergeFields :: "struct_fields \<Rightarrow> struct_fields \<Rightarrow> struct_fields" where
  "mergeFields target source =
     mergeExtractedEvents
       (mergeInto target (filter (\<lambda>(k, v). k \<noteq> extracted) source)) source"

lemma mergeInto_lookup:
  "distinct (map fst fs) \<Longrightarrow>
   map_of (mergeInto merged fs) k = (case (map_of merged k, map_of fs k) of
      (x, None) \<Rightarrow> x | (None, Some v) \<Rightarrow> Some v
    | (Some e, Some v) \<Rightarrow> Some (mergedField e v))"
proof (induction fs arbitrary: merged)
  case (Cons f fs)
  obtain j v where f: "f = (j, v)" by fastforce
  have n: "map_of fs j = None" using Cons.prems(1) by (simp add: f map_of_eq_None_iff)
  show ?case using Cons n by (auto simp: f split: option.splits)
qed (simp split: option.splits)

lemma json_ok_mergedField: "json_ok e \<Longrightarrow> json_ok v \<Longrightarrow> json_ok (mergedField e v)"
  by (auto simp: mergedField_def split: sum.splits dest: Merge_json_ok(1))

lemma struct_ok_mergeInto: "struct_ok merged \<Longrightarrow> struct_ok fs \<Longrightarrow> struct_ok (mergeInto merged fs)"
proof (induction merged fs rule: mergeInto.induct)
  case (2 merged k v rest)
  have "json_ok (mergedField e v)" if "map_of merged k = Some e" for e
    using that 2 struct_ok_map_of struct_ok_Cons by (blast intro: json_ok_mergedField)
  with 2 struct_ok_Cons [OF "2.prems"(2)] show ?case by (auto split: option.splits)
qed simp

lemma struct_ok_filter: "struct_ok fs \<Longrightarrow> struct_ok (filter P fs)"
  by (induction fs) (auto simp: struct_ok_def fields_sorted_def)

lemma struct_ok_mergeExtracted:
  assumes "struct_ok target" and "struct_ok source"
  shows "struct_ok (mergeExtractedEvents target source)"
proof -
  have "json_ok (JList (set_add_all (t @ s) []))"
    if "map_of target extracted = Some (JList t)" and "map_of source extracted = Some (JList s)"
    for t s
    using struct_ok_map_of [OF assms(1) that(1)] struct_ok_map_of [OF assms(2) that(2)] by auto
  then show ?thesis
    using assms struct_ok_map_of [OF assms(2)]
    by (auto simp: mergeExtractedEvents_def split: option.splits json.splits
        intro!: struct_ok_put_field)
qed

lemma struct_ok_mergeFields:
  "struct_ok target \<Longrightarrow> struct_ok source \<Longrightarrow> struct_ok (mergeFields target source)"
  by (simp add: mergeFields_def struct_ok_mergeExtracted struct_ok_mergeInto struct_ok_filter)

lemma map_of_filter_fields: "map_of (filter (\<lambda>(k, v). P k) fs) k = (if P k then map_of fs k else None)"
  by (induction fs) auto

text \<open>What the fields are after merging, field by field.\<close>

lemma mergeFields_lookup:
  assumes "fields_sorted source" and k: "k \<noteq> extracted"
  shows "map_of (mergeFields target source) k =
     (case (map_of target k, map_of source k) of
        (x, None) \<Rightarrow> x | (None, Some v) \<Rightarrow> Some v
      | (Some e, Some v) \<Rightarrow> Some (mergedField e v))"
proof -
  have "map_of (mergeExtractedEvents t source) k = map_of t k" for t
    using k by (auto simp: mergeExtractedEvents_def split: option.splits json.splits)
  moreover have "distinct (map fst (filter (\<lambda>(k, v). k \<noteq> extracted) source))"
    using fields_sorted_distinct [OF assms(1)] by (rule distinct_map_filter)
  ultimately show ?thesis
    using k by (simp add: mergeFields_def mergeInto_lookup map_of_filter_fields)
qed

lemma mergeFields_extracted:
  assumes "fields_sorted source"
  shows "map_of (mergeFields target source) extracted =
     (case (map_of target extracted, map_of source extracted) of
        (x, None) \<Rightarrow> x | (None, Some v) \<Rightarrow> Some v
      | (Some (JList t), Some (JList s)) \<Rightarrow> Some (JList (set_add_all (t @ s) []))
      | (Some e, Some v) \<Rightarrow> Some e)"
proof -
  have "distinct (map fst (filter (\<lambda>(k, v). k \<noteq> extracted) source))"
    using fields_sorted_distinct [OF assms] by (rule distinct_map_filter)
  then have "map_of (mergeInto target (filter (\<lambda>(k, v). k \<noteq> extracted) source)) extracted
      = map_of target extracted"
    by (simp add: mergeInto_lookup map_of_filter_fields split: option.splits)
  then show ?thesis
    by (auto simp: mergeFields_def mergeExtractedEvents_def split: option.splits json.splits)
qed

section \<open>The types of merged fields\<close>

lemma Merge_type:
  assumes "MergeDatabaseSpecificValues v1 v2 = Inr m"
  shows "json_type_of m = json_type_of v1 \<or> json_type_of m = TSlice"
  using assms by (cases v1; cases v2) (auto split: list.splits if_splits sum.splits)

text \<open>Two values of which neither is a list merge only when they have one type.\<close>

lemma Merge_mismatch:
  assumes "json_type_of v1 \<noteq> TSlice" and "json_type_of v2 \<noteq> TSlice"
    and "json_type_of v1 \<noteq> json_type_of v2"
  shows "MergeDatabaseSpecificValues v1 v2 = mismatch"
  using assms by (cases v1; cases v2) auto



end
