(* ===== verification/Ranges.thy ===== *)
theory Ranges
  imports DatabaseSpecific AffectedVersions
begin

text \<open>
  Ranges of a converted CVE (\<open>vulnfeeds/conversion/grouping.go\<close> and the range functions of
  \<open>common.go\<close>): building them, merging two of them, cleaning their events, grouping them by
  type, repository and introduced version, and making the affected entries of the record out
  of ranges and commits.

  A range points to its database-specific struct, and \<open>GroupRanges\<close> lets the range it builds
  point to the struct of the first range of the group and then merges the others into it: the
  structs are cells of a store, \<open>rn_ds\<close> is the address of one, and every function that
  changes a struct returns the store. A value within a struct is not shared (the code shares
  the list of extracted events of a later range of a group when the first one has none).
  Everything else is passed by value. Logging is left out; of the notes of the metrics only
  their kind is kept.
\<close>

section \<open>Data\<close>

record osv_range =
  rn_type :: range_type
  rn_repo :: string
  rn_events :: "schema_event list"
  rn_ds :: "nat option"

record range_metadata =
  md_cpe :: string
  md_source :: string

record range_with_metadata =
  rm_range :: osv_range
  rm_metadata :: range_metadata

record affected_commit =
  ac_repo :: string
  ac_introduced :: string
  ac_fixed :: string
  ac_limit :: string
  ac_last_affected :: string

type_synonym store = "struct_fields list"

text \<open>The fields a range points to (\<open>GetDatabaseSpecific\<close>).\<close>

definition ds_fields :: "store \<Rightarrow> osv_range \<Rightarrow> struct_fields option" where
  "ds_fields st r = map_option (\<lambda>a. st ! a) (rn_ds r)"

section \<open>Building ranges\<close>

definition introduced_event :: "string \<Rightarrow> schema_event" where
  "introduced_event v = \<lparr>se_introduced = v, se_last_affected = [], se_fixed = [], se_limit = []\<rparr>"

definition fixed_event :: "string \<Rightarrow> schema_event" where
  "fixed_event v = \<lparr>se_introduced = [], se_last_affected = [], se_fixed = v, se_limit = []\<rparr>"

definition last_affected_event :: "string \<Rightarrow> schema_event" where
  "last_affected_event v = \<lparr>se_introduced = [], se_last_affected = v, se_fixed = [], se_limit = []\<rparr>"

definition BuildVersionRange :: "string \<Rightarrow> string \<Rightarrow> string \<Rightarrow> osv_range" where
  "BuildVersionRange intro lastAff fixed =
     (let i = (if intro = [] then ''0'' else intro) in
      \<lparr>rn_type = RangeUnspecified, rn_repo = [],
       rn_events = introduced_event i #
         (if fixed \<noteq> [] then [fixed_event fixed]
          else if lastAff \<noteq> [] then [last_affected_event lastAff]
          else []),
       rn_ds = None\<rparr>)"

definition BuildGitVersionRange :: "string \<Rightarrow> string \<Rightarrow> string \<Rightarrow> string \<Rightarrow> osv_range" where
  "BuildGitVersionRange intro lastAff fixed repo =
     (BuildVersionRange intro lastAff fixed)\<lparr>rn_repo := repo, rn_type := RangeGit\<rparr>"

text \<open>\<open>convertCommitToEvent\<close>: one event, the introduction before the fix before the last one.\<close>

definition convertCommitToEvent :: "affected_commit \<Rightarrow> schema_event option" where
  "convertCommitToEvent c =
     (if ac_introduced c \<noteq> [] then Some (introduced_event (ac_introduced c))
      else if ac_fixed c \<noteq> [] then Some (fixed_event (ac_fixed c))
      else if ac_last_affected c \<noteq> [] then Some (last_affected_event (ac_last_affected c))
      else None)"

definition same_event :: "schema_event \<Rightarrow> schema_event \<Rightarrow> bool" where
  "same_event e event \<longleftrightarrow>
     se_introduced e \<noteq> [] \<and> se_introduced e = se_introduced event
   \<or> se_fixed e \<noteq> [] \<and> se_fixed e = se_fixed event
   \<or> se_last_affected e \<noteq> [] \<and> se_last_affected e = se_last_affected event"

definition addEventToRange :: "osv_range \<Rightarrow> schema_event \<Rightarrow> osv_range" where
  "addEventToRange r event =
     (if \<exists>e\<in>set (rn_events r). same_event e event then r
      else if se_introduced event \<noteq> []
      then r\<lparr>rn_events := introduced_event (se_introduced event) # rn_events r\<rparr>
      else r\<lparr>rn_events := rn_events r @ [event]\<rparr>)"

section \<open>Merging ranges\<close>

definition MergeTwoRanges ::
  "store \<Rightarrow> osv_range \<Rightarrow> osv_range \<Rightarrow> go_error + (store \<times> osv_range)" where
  "MergeTwoRanges st range1 range2 =
     (if rn_repo range1 \<noteq> rn_repo range2 \<or> rn_type range1 \<noteq> rn_type range2
      then Inl (GoErr ''ranges are not the same repo or type'')
      else
        (let merged = \<lparr>rn_type = rn_type range1, rn_repo = rn_repo range1,
                       rn_events = rn_events range1 @ rn_events range2, rn_ds = None\<rparr>;
             db1 = ds_fields st range1; db2 = ds_fields st range2
         in if db1 = None \<and> db2 = None then Inr (st, merged)
            else
              (let mergedMap = mergeInto (case db1 of None \<Rightarrow> [] | Some fs \<Rightarrow> fs)
                                         (case db2 of None \<Rightarrow> [] | Some fs \<Rightarrow> fs)
               in if mergedMap \<noteq> []
                  then Inr (st @ [mergedMap], merged\<lparr>rn_ds := Some (length st)\<rparr>)
                  else Inr (st, merged))))"

text \<open>\<open>mergeDatabaseSpecific\<close>: the struct of the target is changed in place.\<close>

definition mergeDatabaseSpecific ::
  "store \<Rightarrow> osv_range \<Rightarrow> struct_fields option \<Rightarrow> store \<times> osv_range" where
  "mergeDatabaseSpecific st target source =
     (case source of
        None \<Rightarrow> (st, target)
      | Some fs \<Rightarrow>
          (case rn_ds target of
             None \<Rightarrow> (st @ [mergeFields [] fs], target\<lparr>rn_ds := Some (length st)\<rparr>)
           | Some a \<Rightarrow> (st[a := mergeFields (st ! a) fs], target)))"

section \<open>Cleaning events\<close>

definition event_key :: "schema_event \<Rightarrow> string" where
  "event_key e = se_introduced e @ ''|'' @ se_fixed e @ ''|'' @ se_limit e @ ''|''
     @ se_last_affected e"

fun uniqueEvents :: "string list \<Rightarrow> schema_event list \<Rightarrow> schema_event list" where
  "uniqueEvents seen [] = []"
| "uniqueEvents seen (e # es) =
     (if event_key e \<in> set seen then uniqueEvents seen es
      else e # uniqueEvents (event_key e # seen) es)"

fun oneIntroduced :: "string \<Rightarrow> schema_event list \<Rightarrow> schema_event list" where
  "oneIntroduced introduced [] = []"
| "oneIntroduced introduced (e # es) =
     (if se_introduced e \<noteq> []
      then (if introduced = [] then e # oneIntroduced (se_introduced e) es
            else oneIntroduced introduced es)
      else e # oneIntroduced introduced es)"

definition cleanEvents :: "schema_event list \<Rightarrow> schema_event list" where
  "cleanEvents events =
     oneIntroduced []
       (sort_key (\<lambda>e. if se_introduced e \<noteq> [] then 0 else 1 :: nat) (uniqueEvents [] events))"

section \<open>Grouping ranges\<close>

type_synonym group_key = "range_type \<times> string \<times> string"

definition rangeIntroduced :: "schema_event list \<Rightarrow> string" where
  "rangeIntroduced events =
     fold (\<lambda>e introduced. if se_introduced e \<noteq> [] then se_introduced e else introduced) events []"

definition groupKey :: "osv_range \<Rightarrow> group_key" where
  "groupKey r = (rn_type r, rn_repo r, rangeIntroduced (rn_events r))"

fun groupLoop ::
  "store \<Rightarrow> (group_key \<times> range_with_metadata) list \<Rightarrow> range_with_metadata list
     \<Rightarrow> store \<times> (group_key \<times> range_with_metadata) list" where
  "groupLoop st groups [] = (st, groups)"
| "groupLoop st groups (rwm # rwms) =
     (let r = rm_range rwm; key = groupKey r in
      case map_of groups key of
        None \<Rightarrow>
          groupLoop st
            (groups @ [(key,
               \<lparr>rm_range = \<lparr>rn_type = rn_type r, rn_repo = rn_repo r, rn_events = [] @ rn_events r,
                            rn_ds = rn_ds r\<rparr>,
                rm_metadata = rm_metadata rwm\<rparr>)]) rwms
      | Some g \<Rightarrow>
          (let (st', t) = mergeDatabaseSpecific st (rm_range g) (ds_fields st r) in
           groupLoop st'
             (AList.update key
                (g\<lparr>rm_range := t\<lparr>rn_events := rn_events t @ rn_events r\<rparr>\<rparr>) groups) rwms))"

definition cleanRange :: "range_with_metadata \<Rightarrow> range_with_metadata" where
  "cleanRange rwm =
     rwm\<lparr>rm_range := (rm_range rwm)\<lparr>rn_events := cleanEvents (rn_events (rm_range rwm))\<rparr>\<rparr>"

definition GroupRanges ::
  "store \<Rightarrow> range_with_metadata list \<Rightarrow> store \<times> range_with_metadata list" where
  "GroupRanges st ranges =
     (let (st', groups) = groupLoop st [] ranges
      in (st', map (\<lambda>(key, rwm). cleanRange rwm) groups))"

text \<open>\<open>GroupAffectedRanges\<close>: the ranges of each affected entry, when it has more than one.\<close>

fun GroupAffectedRanges :: "store \<Rightarrow> osv_range list list \<Rightarrow> store \<times> osv_range list list" where
  "GroupAffectedRanges st [] = (st, [])"
| "GroupAffectedRanges st (ranges # affected) =
     (if length ranges \<le> 1
      then (let (st', affected') = GroupAffectedRanges st affected in (st', ranges # affected'))
      else
        (let (st1, grouped) = GroupRanges st
               (map (\<lambda>r. \<lparr>rm_range = r, rm_metadata = \<lparr>md_cpe = [], md_source = []\<rparr>\<rparr>) ranges);
             (st', affected') = GroupAffectedRanges st1 affected
         in (st', map rm_range grouped # affected')))"

section \<open>Affected entries out of ranges and commits\<close>

datatype conversion_outcome =
    ConversionUnknown | Successful | Rejected | NoSoftware | NoRepos | NoCommitRanges
  | NoRanges | FixUnresolvable | ConversionError

datatype conversion_note =
    MergeFailed | NoCanonicalLink string | NoTags string | NoCommitFor string
  | InvalidCPE | RefsFailed | CommitsFound | TextVersionsFound | NoRangesDetected

record conversion_metrics =
  cm_outcome :: conversion_outcome
  cm_sources :: "string list"
  cm_notes :: "conversion_note list"
  cm_unresolved :: int
  cm_resolved :: int

definition AddNote :: "conversion_note \<Rightarrow> conversion_metrics \<Rightarrow> conversion_metrics" where
  "AddNote n m = m\<lparr>cm_notes := cm_notes m @ [n]\<rparr>"

definition SetOutcome :: "conversion_outcome \<Rightarrow> conversion_metrics \<Rightarrow> conversion_metrics" where
  "SetOutcome outcome m =
     (if cm_outcome m = ConversionUnknown then m\<lparr>cm_outcome := outcome\<rparr> else m)"

definition refsSource :: struct_fields where
  "refsSource = [(''source'', JStr ''REFERENCES'')]"

text \<open>
  The ranges of one repository, merged one after the other. When a merge fails its result is
  nil, and so is the merged range.
\<close>

fun mergeRepoRanges ::
  "string \<Rightarrow> store \<Rightarrow> conversion_metrics \<Rightarrow> osv_range option \<Rightarrow> range_with_metadata list
     \<Rightarrow> store \<times> conversion_metrics \<times> osv_range option" where
  "mergeRepoRanges repo st mt merged [] = (st, mt, merged)"
| "mergeRepoRanges repo st mt merged (vrwm # vrwms) =
     (let vr = rm_range vrwm in
      if rn_repo vr = repo then
        (case merged of
           None \<Rightarrow> mergeRepoRanges repo st mt (Some vr) vrwms
         | Some mr \<Rightarrow>
             (case MergeTwoRanges st mr vr of
                Inl e \<Rightarrow> mergeRepoRanges repo st (AddNote MergeFailed mt) None vrwms
              | Inr (st', mr') \<Rightarrow> mergeRepoRanges repo st' mt (Some mr') vrwms))
      else mergeRepoRanges repo st mt merged vrwms)"

text \<open>The commits of the repository: events of the range, or the range itself if there is none.\<close>

definition addCommit :: "store \<Rightarrow> osv_range option \<Rightarrow> affected_commit \<Rightarrow> store \<times> osv_range" where
  "addCommit st merged commit =
     (let mr = (case merged of
                  None \<Rightarrow> BuildGitVersionRange (ac_introduced commit) (ac_last_affected commit)
                            (ac_fixed commit) (ac_repo commit)
                | Some mr \<Rightarrow> (case convertCommitToEvent commit of
                                None \<Rightarrow> mr
                              | Some event \<Rightarrow> addEventToRange mr event))
      in mergeDatabaseSpecific st mr (Some refsSource))"

fun addRepoCommits ::
  "string \<Rightarrow> store \<Rightarrow> osv_range option \<Rightarrow> affected_commit list \<Rightarrow> store \<times> osv_range option" where
  "addRepoCommits repo st merged [] = (st, merged)"
| "addRepoCommits repo st merged (commit # commits) =
     (if ac_repo commit = repo
      then (let (st', mr) = addCommit st merged commit
            in addRepoCommits repo st' (Some mr) commits)
      else addRepoCommits repo st merged commits)"

fun affectedOfRepos ::
  "range_with_metadata list \<Rightarrow> affected_commit list \<Rightarrow> string list \<Rightarrow> store \<Rightarrow> conversion_metrics
     \<Rightarrow> store \<times> conversion_metrics \<times> osv_range list" where
  "affectedOfRepos resolved commits [] st mt = (st, mt, [])"
| "affectedOfRepos resolved commits (repo # repos) st mt =
     (let (st1, mt1, merged) = mergeRepoRanges repo st mt None resolved;
          (st2, merged') = addRepoCommits repo st1 merged commits;
          (st3, mt2, affected) = affectedOfRepos resolved commits repos st2 mt1
      in (st3, mt2, (case merged' of None \<Rightarrow> affected | Some mr \<Rightarrow> mr # affected)))"

text \<open>Without resolved ranges: one range for each repository of the commits.\<close>

fun rangesOfCommits ::
  "store \<Rightarrow> conversion_metrics \<Rightarrow> (string \<times> osv_range) list \<Rightarrow> affected_commit list
     \<Rightarrow> store \<times> conversion_metrics \<times> (string \<times> osv_range) list" where
  "rangesOfCommits st mt repoToRange [] = (st, mt, repoToRange)"
| "rangesOfCommits st mt repoToRange (commit # commits) =
     (case map_of repoToRange (ac_repo commit) of
        None \<Rightarrow>
          rangesOfCommits (st @ [refsSource]) (mt\<lparr>cm_resolved := cm_resolved mt + 1\<rparr>)
            (repoToRange @ [(ac_repo commit,
               (BuildGitVersionRange (ac_introduced commit) (ac_last_affected commit)
                  (ac_fixed commit) (ac_repo commit))\<lparr>rn_ds := Some (length st)\<rparr>)]) commits
      | Some vr \<Rightarrow>
          rangesOfCommits st mt
            (case convertCommitToEvent commit of
               None \<Rightarrow> repoToRange
             | Some event \<Rightarrow> AList.update (ac_repo commit) (addEventToRange vr event) repoToRange)
            commits)"

text \<open>\<open>MergeRangesAndCreateAffected\<close>; an affected entry is its one range.\<close>

definition MergeRangesAndCreateAffected ::
  "store \<Rightarrow> range_with_metadata list \<Rightarrow> affected_commit list \<Rightarrow> string list \<Rightarrow> conversion_metrics
     \<Rightarrow> store \<times> conversion_metrics \<times> osv_range list" where
  "MergeRangesAndCreateAffected st resolved commits successfulRepos mt =
     (if resolved \<noteq> []
      then affectedOfRepos resolved commits (slices_compact (slices_sort successfulRepos)) st mt
      else if commits \<noteq> []
      then (let (st', mt', repoToRange) = rangesOfCommits st mt [] commits
            in (st', mt', map (\<lambda>repo. the (map_of repoToRange repo))
                            (slices_sort (keys repoToRange))))
      else (st, mt, []))"

section \<open>Grouping by value\<close>

text \<open>
  The specification of \<open>GroupRanges\<close> on values: a range with the fields it points to, two such
  values joined, and the join of the ranges of a key.
\<close>

type_synonym range_value =
  "range_type \<times> string \<times> schema_event list \<times> struct_fields option \<times> range_metadata"

definition range_value :: "store \<Rightarrow> range_with_metadata \<Rightarrow> range_value" where
  "range_value st rwm =
     (rn_type (rm_range rwm), rn_repo (rm_range rwm), rn_events (rm_range rwm),
      ds_fields st (rm_range rwm), rm_metadata rwm)"

definition joinFields :: "struct_fields option \<Rightarrow> struct_fields option \<Rightarrow> struct_fields option" where
  "joinFields target source =
     (case source of
        None \<Rightarrow> target
      | Some fs \<Rightarrow> Some (mergeFields (case target of None \<Rightarrow> [] | Some t \<Rightarrow> t) fs))"

fun joinRanges :: "range_value \<Rightarrow> range_value \<Rightarrow> range_value" where
  "joinRanges (ty, repo, es, d, m) (ty', repo', es', d', m') =
     (ty, repo, es @ es', joinFields d d', m)"

definition joinSome :: "range_value option \<Rightarrow> range_value \<Rightarrow> range_value option" where
  "joinSome g v = Some (case g of None \<Rightarrow> v | Some w \<Rightarrow> joinRanges w v)"

abbreviation key_of :: "range_with_metadata \<Rightarrow> group_key" where
  "key_of rwm \<equiv> groupKey (rm_range rwm)"

fun addresses :: "range_with_metadata list \<Rightarrow> nat list" where
  "addresses [] = []"
| "addresses (r # rs) = (case rn_ds (rm_range r) of None \<Rightarrow> [] | Some a \<Rightarrow> [a]) @ addresses rs"

text \<open>The structs of the ranges are cells of the store, and no two ranges share one.\<close>

definition store_ok :: "store \<Rightarrow> range_with_metadata list \<Rightarrow> bool" where
  "store_ok st rs \<longleftrightarrow> distinct (addresses rs) \<and> (\<forall>a\<in>set (addresses rs). a < length st)"

lemma addresses_append [simp]: "addresses (xs @ ys) = addresses xs @ addresses ys"
  by (induction xs) auto

lemma addresses_in: "r \<in> set rs \<Longrightarrow> rn_ds (rm_range r) = Some a \<Longrightarrow> a \<in> set (addresses rs)"
  by (induction rs) auto

text \<open>What merging a struct into a range does to the store and to the values of the ranges.\<close>

lemma mergeDatabaseSpecific_store:
  assumes "mergeDatabaseSpecific st t src = (st', t')"
    and "\<forall>a. rn_ds t = Some a \<longrightarrow> a < length st"
  shows "length st \<le> length st'"
    and "rn_type t' = rn_type t" "rn_repo t' = rn_repo t" "rn_events t' = rn_events t"
    and "ds_fields st' t' = joinFields (ds_fields st t) src"
    and "rn_ds t' = rn_ds t \<or> rn_ds t = None \<and> rn_ds t' = Some (length st) \<and> length st < length st'"
    and "\<And>a. a < length st \<Longrightarrow> rn_ds t \<noteq> Some a \<Longrightarrow> st' ! a = st ! a"
  using assms
  by (auto simp: mergeDatabaseSpecific_def ds_fields_def joinFields_def nth_append nth_list_update
      split: option.splits)

lemma ds_fields_cong:
  assumes "\<And>a. rn_ds r = Some a \<Longrightarrow> st' ! a = st ! a"
  shows "ds_fields st' r = ds_fields st r"
  using assms by (cases "rn_ds r") (auto simp: ds_fields_def)

lemma addresses_update:
  assumes "distinct (map fst groups)" and "map_of groups k = Some g"
  obtains xs ys where "groups = xs @ (k, g) # ys"
    and "AList.update k g' groups = xs @ (k, g') # ys"
proof -
  from assms(2) obtain xs ys where g: "groups = xs @ (k, g) # ys"
    by (meson map_of_SomeD split_list)
  then have "k \<notin> set (map fst xs)" using assms(1) by auto
  then have "AList.update k g' (xs @ (k, g) # ys) = xs @ (k, g') # ys"
    by (induction xs) auto
  with g that show ?thesis by blast
qed

lemma range_value_cong:
  assumes "\<And>a. a \<in> set (addresses rs) \<Longrightarrow> st' ! a = st ! a" and "r \<in> set rs"
  shows "range_value st' r = range_value st r"
  using assms addresses_in [OF assms(2)] by (auto simp: range_value_def intro: ds_fields_cong)

lemma range_values_cong:
  assumes "\<And>a. a \<in> set (addresses rs) \<Longrightarrow> st' ! a = st ! a"
  shows "map (range_value st') (filter P rs) = map (range_value st) (filter P rs)"
  using range_value_cong [OF assms] by (intro map_cong) auto

text \<open>One step of the loop that merges into a group there is.\<close>

lemma groupLoop_merge:
  assumes k: "map_of groups (key_of rwm) = Some g" and d: "distinct (map fst groups)"
    and ok: "store_ok st (map snd groups @ rwm # rwms)"
    and m: "mergeDatabaseSpecific st (rm_range g) (ds_fields st (rm_range rwm)) = (st', t)"
  defines "g' \<equiv> g\<lparr>rm_range := t\<lparr>rn_events := rn_events t @ rn_events (rm_range rwm)\<rparr>\<rparr>"
  defines "groups' \<equiv> AList.update (key_of rwm) g' groups"
  shows "map fst groups' = map fst groups"
    and "store_ok st' (map snd groups' @ rwms)"
    and "map_option (range_value st') (map_of groups' j) =
           (if j = key_of rwm then Some (joinRanges (range_value st g) (range_value st rwm))
            else map_option (range_value st) (map_of groups j))"
    and "map (range_value st') (filter P rwms) = map (range_value st) (filter P rwms)"
    and "length st \<le> length st'"
    and "set (addresses (map snd groups)) \<subseteq> set (addresses (map snd groups'))"
    and "a < length st \<Longrightarrow> a \<notin> set (addresses (map snd groups')) \<Longrightarrow> st' ! a = st ! a"
proof -
  obtain xs ys where gs: "groups = xs @ (key_of rwm, g) # ys"
    and gs': "groups' = xs @ (key_of rwm, g') # ys"
    unfolding groups'_def using addresses_update [OF d k] by metis
  show f: "map fst groups' = map fst groups" by (simp add: gs gs')
  have lt: "\<forall>a. rn_ds (rm_range g) = Some a \<longrightarrow> a < length st"
    using ok by (auto simp: store_ok_def gs)
  note s = mergeDatabaseSpecific_store [OF m lt]
  have ds: "rn_ds (rm_range g') = rn_ds t" by (simp add: g'_def)
  have keep: "st' ! a = st ! a"
    if "a \<in> set (addresses (map snd xs @ map snd ys @ rwms))" for a
    using that ok s(7) [of a] by (auto simp: store_ok_def gs split: option.splits)
  have rest: "set (addresses rs) \<subseteq> set (addresses (map snd xs @ map snd ys @ rwms)) \<Longrightarrow>
      r \<in> set rs \<Longrightarrow> range_value st' r = range_value st r" for r rs
    by (rule range_value_cong) (use keep in blast)+
  show "store_ok st' (map snd groups' @ rwms)"
  proof -
    have lt': "a < length st'" if "a < length st" for a using that s(1) by simp
    from s(6) consider "rn_ds t = rn_ds (rm_range g)"
      | "rn_ds (rm_range g) = None" "rn_ds t = Some (length st)" "length st < length st'"
      by (elim disjE conjE)
    then show ?thesis
    proof cases
      case 1
      have "\<forall>a\<in>set (addresses (map snd xs @ g # map snd ys @ rwms)). a < length st"
        and "distinct (addresses (map snd xs @ g # map snd ys @ rwms))"
        using ok by (auto simp: store_ok_def gs)
      then show ?thesis using 1 lt' by (simp add: store_ok_def gs' ds)
    next
      case 2
      then have "\<forall>a\<in>set (addresses (map snd xs @ map snd ys @ rwms)). a < length st"
        and "distinct (addresses (map snd xs @ map snd ys @ rwms))"
        using ok by (auto simp: store_ok_def gs split: option.splits)
      moreover from this(1) lt'
      have "\<forall>a\<in>set (addresses (map snd xs @ map snd ys @ rwms)). a < length st'" by blast
      ultimately show ?thesis using 2 by (auto simp: store_ok_def gs' ds)
    qed
  qed
  show "map (range_value st') (filter P rwms) = map (range_value st) (filter P rwms)"
    by (rule range_values_cong) (rule keep, simp)
  have "ds_fields st' (rm_range g') = ds_fields st' t"
    by (simp add: g'_def ds_fields_def)
  then have g': "range_value st' g' = joinRanges (range_value st g) (range_value st rwm)"
    using s(2-5) by (simp add: range_value_def g'_def)
  have o: "map_of groups' j = (if j = key_of rwm then Some g' else map_of groups j)"
    using d unfolding groups'_def by (simp add: update_conv')
  have "range_value st' r = range_value st r" if "map_of groups j = Some r" "j \<noteq> key_of rwm" for r
  proof (rule rest)
    have "(j, r) \<in> set xs \<union> set ys" using map_of_SomeD [OF that(1)] that(2) by (auto simp: gs)
    then show "r \<in> set (map snd xs @ map snd ys)" by force
  qed auto
  then show "map_option (range_value st') (map_of groups' j) =
           (if j = key_of rwm then Some (joinRanges (range_value st g) (range_value st rwm))
            else map_option (range_value st) (map_of groups j))"
    using g' by (cases "map_of groups j") (simp_all add: o)
  show "length st \<le> length st'" by (rule s(1))
  show "set (addresses (map snd groups)) \<subseteq> set (addresses (map snd groups'))"
    using s(6) by (auto simp: gs gs' ds)
  show "a < length st \<Longrightarrow> a \<notin> set (addresses (map snd groups')) \<Longrightarrow> st' ! a = st ! a"
    using s(6,7) by (auto simp: gs' ds)
qed

lemma groupLoop_values:
  assumes "groupLoop st groups rwms = (st', groups')"
    and "distinct (map fst groups)" and "store_ok st (map snd groups @ rwms)"
  shows "map fst groups' = set_add_all (map key_of rwms) (map fst groups)
    \<and> (\<forall>k. map_option (range_value st') (map_of groups' k)
          = foldl joinSome (map_option (range_value st) (map_of groups k))
              (map (range_value st) (filter (\<lambda>r. key_of r = k) rwms)))
    \<and> length st \<le> length st' \<and> set (addresses (map snd groups)) \<subseteq> set (addresses (map snd groups'))
    \<and> (\<forall>a < length st. a \<notin> set (addresses (map snd groups')) \<longrightarrow> st' ! a = st ! a)"
  using assms
proof (induction rwms arbitrary: st groups)
  case Nil
  then show ?case by (simp add: set_add_all_def)
next
  case (Cons rwm rwms)
  let ?k = "key_of rwm"
  show ?case
  proof (cases "map_of groups ?k")
    case None
    define g where "g = \<lparr>rm_range = \<lparr>rn_type = rn_type (rm_range rwm), rn_repo = rn_repo (rm_range rwm),
        rn_events = [] @ rn_events (rm_range rwm), rn_ds = rn_ds (rm_range rwm)\<rparr>,
        rm_metadata = rm_metadata rwm\<rparr>"
    have run: "groupLoop st (groups @ [(?k, g)]) rwms = (st', groups')"
      using Cons.prems(1) None by (simp add: g_def Let_def)
    have n: "?k \<notin> set (map fst groups)" using None by (simp add: map_of_eq_None_iff)
    have d: "distinct (map fst (groups @ [(?k, g)]))" using Cons.prems(2) n by simp
    have ok: "store_ok st (map snd (groups @ [(?k, g)]) @ rwms)"
      using Cons.prems(3) by (simp add: store_ok_def g_def)
    have v: "range_value st g = range_value st rwm"
      by (simp add: g_def range_value_def ds_fields_def)
    have a: "set_add_all (map key_of (rwm # rwms)) (map fst groups) =
        set_add_all (map key_of rwms) (map fst (groups @ [(?k, g)]))"
      using n by (simp add: set_add_all_def set_add_def)
    have b: "foldl joinSome (map_option (range_value st) (map_of (groups @ [(?k, g)]) k))
          (map (range_value st) (filter (\<lambda>r. key_of r = k) rwms)) =
        foldl joinSome (map_option (range_value st) (map_of groups k))
          (map (range_value st) (filter (\<lambda>r. key_of r = k) (rwm # rwms)))" for k
      using None v by (cases "k = ?k") (auto simp: joinSome_def map_add_def split: option.splits)
    show ?thesis using Cons.IH [OF run d ok] unfolding a b by simp
  next
    case (Some g)
    obtain st1 t where m: "mergeDatabaseSpecific st (rm_range g) (ds_fields st (rm_range rwm)) = (st1, t)"
      by fastforce
    define groups1 where "groups1 = AList.update ?k
        (g\<lparr>rm_range := t\<lparr>rn_events := rn_events t @ rn_events (rm_range rwm)\<rparr>\<rparr>) groups"
    have run: "groupLoop st1 groups1 rwms = (st', groups')"
      using Cons.prems(1) Some m by (simp add: groups1_def Let_def)
    note step = groupLoop_merge [OF Some Cons.prems(2,3) m, folded groups1_def]
    have d: "distinct (map fst groups1)" using Cons.prems(2) by (simp only: step(1))
    note ih = Cons.IH [OF run d step(2)]
    have a: "set_add_all (map key_of (rwm # rwms)) (map fst groups) =
        set_add_all (map key_of rwms) (map fst groups1)"
      using map_of_SomeD [OF Some] by (force simp: set_add_all_def set_add_def step(1))
    have b: "foldl joinSome (map_option (range_value st1) (map_of groups1 k))
          (map (range_value st1) (filter (\<lambda>r. key_of r = k) rwms)) =
        foldl joinSome (map_option (range_value st) (map_of groups k))
          (map (range_value st) (filter (\<lambda>r. key_of r = k) (rwm # rwms)))" for k
      using Some unfolding step(3,4) by (auto simp: joinSome_def)
    have c: "st' ! c = st ! c" if "c < length st" "c \<notin> set (addresses (map snd groups'))" for c
    proof -
      have "c \<notin> set (addresses (map snd groups1))" using ih that(2) by blast
      then show ?thesis using ih that step(5) step(7) [of c] by auto
    qed
    have e: "set (addresses (map snd groups)) \<subseteq> set (addresses (map snd groups'))"
      using ih step(6) by blast
    have l: "length st \<le> length st'" using ih step(5) by linarith
    show ?thesis using ih c e l unfolding a b by blast
  qed
qed

text \<open>The group of a key by the specification: its ranges joined, its events cleaned.\<close>

definition groupSpec :: "store \<Rightarrow> range_with_metadata list \<Rightarrow> group_key \<Rightarrow> range_value" where
  "groupSpec st rs k =
     (let vs = map (range_value st) (filter (\<lambda>r. key_of r = k) rs) in foldl joinRanges (hd vs) (tl vs))"

fun cleanValue :: "range_value \<Rightarrow> range_value" where
  "cleanValue (ty, repo, es, d, m) = (ty, repo, cleanEvents es, d, m)"

definition groupKeys :: "range_with_metadata list \<Rightarrow> group_key list" where
  "groupKeys rs = set_add_all (map key_of rs) []"

lemma foldl_joinSome: "foldl joinSome (Some v) vs = Some (foldl joinRanges v vs)"
  by (induction vs arbitrary: v) (auto simp: joinSome_def)

lemma foldl_joinSome_None: "vs \<noteq> [] \<Longrightarrow> foldl joinSome None vs = Some (foldl joinRanges (hd vs) (tl vs))"
  by (cases vs) (auto simp: joinSome_def foldl_joinSome)

lemma range_value_cleanRange: "range_value st (cleanRange r) = cleanValue (range_value st r)"
  by (simp add: range_value_def cleanRange_def ds_fields_def)

lemma set_groupKeys [simp]: "set (groupKeys rs) = key_of ` set rs"
  by (simp add: groupKeys_def)

lemma distinct_groupKeys [simp]: "distinct (groupKeys rs)"
  by (simp add: groupKeys_def)

lemma map_values_of_keys:
  "distinct (map fst al) \<Longrightarrow> map snd al = map (\<lambda>k. the (map_of al k)) (map fst al)"
proof -
  assume "distinct (map fst al)"
  from arg_cong [OF entries_of_keys [OF this], of "map snd"] show ?thesis by (simp add: o_def)
qed

lemma GroupRanges_values:
  assumes "GroupRanges st rs = (st', out)" and "store_ok st rs"
  shows "map (range_value st') out = map (\<lambda>k. cleanValue (groupSpec st rs k)) (groupKeys rs)
    \<and> length st \<le> length st'
    \<and> (\<forall>a < length st. (\<forall>r\<in>set out. rn_ds (rm_range r) \<noteq> Some a) \<longrightarrow> st' ! a = st ! a)"
proof -
  obtain groups where run: "groupLoop st [] rs = (st', groups)"
    and out: "out = map (\<lambda>(k, r). cleanRange r) groups"
    using assms(1) by (auto simp: GroupRanges_def split: prod.splits)
  have v: "map fst groups = groupKeys rs"
    "\<And>k. map_option (range_value st') (map_of groups k)
        = foldl joinSome None (map (range_value st) (filter (\<lambda>r. key_of r = k) rs))"
    "length st \<le> length st'"
    "\<And>a. a < length st \<Longrightarrow> a \<notin> set (addresses (map snd groups)) \<Longrightarrow> st' ! a = st ! a"
    using groupLoop_values [OF run] assms(2)
    by (simp_all add: groupKeys_def del: split_paired_All)
  have "map_option (range_value st') (map_of groups k) = Some (groupSpec st rs k)"
    if "k \<in> set (groupKeys rs)" for k
    using that unfolding v(2) groupSpec_def Let_def
    by (intro foldl_joinSome_None) (auto simp: filter_empty_conv)
  then have "range_value st' (the (map_of groups k)) = groupSpec st rs k"
    if "k \<in> set (groupKeys rs)" for k
    using that by (metis option.map_sel option.sel option.map_disc_iff option.distinct(1))
  then have "map (range_value st') (map snd groups) = map (groupSpec st rs) (groupKeys rs)"
    using map_values_of_keys [of groups] by (simp add: v(1))
  then have "map cleanValue (map (range_value st') (map snd groups))
      = map cleanValue (map (groupSpec st rs) (groupKeys rs))" by simp
  then have "map (range_value st') out = map (\<lambda>k. cleanValue (groupSpec st rs k)) (groupKeys rs)"
    by (simp add: out o_def range_value_cleanRange case_prod_beta)
  moreover have "st' ! a = st ! a"
    if a: "a < length st" and n: "\<forall>r\<in>set out. rn_ds (rm_range r) \<noteq> Some a" for a
  proof (rule v(4) [OF a])
    have "\<forall>r\<in>set rs'. rn_ds (rm_range r) \<noteq> Some a \<Longrightarrow> a \<notin> set (addresses rs')" for rs'
      by (induction rs') auto
    moreover have "\<forall>r\<in>set (map snd groups). rn_ds (rm_range r) \<noteq> Some a"
      using n by (auto simp: out cleanRange_def)
    ultimately show "a \<notin> set (addresses (map snd groups))" by blast
  qed
  ultimately show ?thesis using v(3) by blast
qed


section \<open>Cleaned events\<close>

lemma uniqueEvents_keys:
  "distinct (map event_key (uniqueEvents seen es))
   \<and> set (map event_key (uniqueEvents seen es)) = event_key ` set es - set seen"
  by (induction seen es rule: uniqueEvents.induct) auto

lemma uniqueEvents_subset: "set (uniqueEvents seen es) \<subseteq> set es"
  by (induction seen es rule: uniqueEvents.induct) auto

lemma uniqueEvents_id:
  "distinct (map event_key es) \<Longrightarrow> event_key ` set es \<inter> set seen = {} \<Longrightarrow> uniqueEvents seen es = es"
  by (induction seen es rule: uniqueEvents.induct) auto

lemma insort_two_keys:
  "\<forall>a\<in>set as. P a \<Longrightarrow> \<forall>b\<in>set bs. \<not> P b \<Longrightarrow>
   insort_key (\<lambda>x. if P x then 0 else 1 :: nat) x (as @ bs)
     = (if P x then x # as @ bs else as @ x # bs)"
proof (induction as)
  case Nil
  then show ?case by (cases bs) auto
qed auto

lemma sort_two_keys:
  "sort_key (\<lambda>x. if P x then 0 else 1 :: nat) xs = filter P xs @ filter (\<lambda>x. \<not> P x) xs"
  by (induction xs) (simp_all add: insort_two_keys)

lemma oneIntroduced_none:
  "\<forall>e\<in>set es. se_introduced e = [] \<Longrightarrow> oneIntroduced i es = es"
  by (induction es) auto

lemma oneIntroduced_skip:
  "\<forall>e\<in>set es. se_introduced e \<noteq> [] \<Longrightarrow> i \<noteq> [] \<Longrightarrow> oneIntroduced i (es @ fs) = oneIntroduced i fs"
  by (induction es) auto

text \<open>\<open>cleanEvents\<close> keeps the first introduced event, and after it each other event once.\<close>

lemma cleanEvents_eq:
  "cleanEvents es =
     (let u = uniqueEvents [] es
      in take 1 (filter (\<lambda>e. se_introduced e \<noteq> []) u) @ filter (\<lambda>e. se_introduced e = []) u)"
proof -
  define u where "u = uniqueEvents [] es"
  have "oneIntroduced [] (is @ filter (\<lambda>e. se_introduced e = []) u) =
      take 1 is @ filter (\<lambda>e. se_introduced e = []) u"
    if "\<forall>e\<in>set is. se_introduced e \<noteq> []" for "is"
    using that by (cases "is") (auto simp: oneIntroduced_skip oneIntroduced_none)
  from this [of "filter (\<lambda>e. se_introduced e \<noteq> []) u"] show ?thesis
    by (simp add: cleanEvents_def sort_two_keys Let_def u_def)
qed

lemma cleanEvents_subset: "set (cleanEvents es) \<subseteq> set es"
  using uniqueEvents_subset [of "[]" es]
  by (auto simp: cleanEvents_eq Let_def dest!: in_set_takeD)

lemma cleanEvents_distinct: "distinct (map event_key (cleanEvents es))"
proof -
  define u where "u = uniqueEvents [] es"
  have d: "distinct (map event_key u)" unfolding u_def using uniqueEvents_keys by blast
  have s: "set (take 1 (filter (\<lambda>e. se_introduced e \<noteq> []) u)) \<subseteq> {e \<in> set u. se_introduced e \<noteq> []}"
    using set_take_subset [of 1 "filter (\<lambda>e. se_introduced e \<noteq> []) u"] by auto
  have "inj_on event_key (set u)" using d by (simp add: distinct_map)
  then have "event_key ` set (take 1 (filter (\<lambda>e. se_introduced e \<noteq> []) u)) \<inter>
      event_key ` set (filter (\<lambda>e. se_introduced e = []) u) = {}"
    using s by (auto simp: inj_on_def)
  then show ?thesis
    unfolding cleanEvents_eq Let_def u_def [symmetric]
    using d by (simp add: distinct_map_filter take_map [symmetric] del: One_nat_def)
      (simp add: take_map)
qed

lemma cleanEvents_idem: "cleanEvents (cleanEvents es) = cleanEvents es"
proof -
  have u: "uniqueEvents [] (cleanEvents es) = cleanEvents es"
    by (rule uniqueEvents_id) (simp_all add: cleanEvents_distinct)
  have "filter (\<lambda>e. se_introduced e \<noteq> []) (cleanEvents es)
        = take 1 (filter (\<lambda>e. se_introduced e \<noteq> []) (uniqueEvents [] es))"
    by (simp add: cleanEvents_eq Let_def filter_id_conv) (auto dest!: in_set_takeD)
  moreover have "filter (\<lambda>e. se_introduced e = []) (cleanEvents es)
        = filter (\<lambda>e. se_introduced e = []) (uniqueEvents [] es)"
    by (simp add: cleanEvents_eq Let_def filter_empty_conv) (auto dest!: in_set_takeD)
  ultimately show ?thesis
    unfolding cleanEvents_eq [of "cleanEvents es"] Let_def u
    by (simp add: cleanEvents_eq [of es] Let_def)
qed

text \<open>
  Of versions without a bar the key of an event tells all; then no end of a range is lost.
\<close>

definition plain_event :: "schema_event \<Rightarrow> bool" where
  "plain_event e \<longleftrightarrow> CHR ''|'' \<notin> set (se_introduced e @ se_fixed e @ se_limit e @ se_last_affected e)"

lemma bar_split: "x \<notin> set a \<Longrightarrow> x \<notin> set b \<Longrightarrow> a @ x # c = b @ x # d \<Longrightarrow> a = b \<and> c = d"
proof (induction a arbitrary: b)
  case Nil
  then show ?case by (cases b) auto
next
  case (Cons y a)
  then show ?case by (cases b) auto
qed

lemma event_key_inj:
  assumes "plain_event e" and "plain_event f" and k: "event_key e = event_key f"
  shows "e = f"
proof -
  have p: "CHR ''|'' \<notin> set (se_introduced e)" "CHR ''|'' \<notin> set (se_introduced f)"
    "CHR ''|'' \<notin> set (se_fixed e)" "CHR ''|'' \<notin> set (se_fixed f)"
    "CHR ''|'' \<notin> set (se_limit e)" "CHR ''|'' \<notin> set (se_limit f)"
    using assms(1,2) by (auto simp: plain_event_def)
  note k1 = bar_split [OF p(1,2) k [unfolded event_key_def append_Cons append_Nil]]
  note k2 = bar_split [OF p(3,4) conjunct2 [OF k1]]
  note k3 = bar_split [OF p(5,6) conjunct2 [OF k2]]
  show ?thesis using k1 k2 k3 by simp
qed

lemma set_uniqueEvents:
  assumes "\<forall>e\<in>set es. plain_event e"
  shows "set (uniqueEvents [] es) = set es"
proof
  show "set (uniqueEvents [] es) \<subseteq> set es" by (rule uniqueEvents_subset)
  show "set es \<subseteq> set (uniqueEvents [] es)"
  proof
    fix e assume e: "e \<in> set es"
    then have "event_key e \<in> event_key ` set (uniqueEvents [] es)"
      using uniqueEvents_keys [of "[]" es] by simp
    then obtain f where f: "f \<in> set (uniqueEvents [] es)" "event_key e = event_key f" by blast
    with uniqueEvents_subset [of "[]" es] assms e have "e = f" by (intro event_key_inj) auto
    with f show "e \<in> set (uniqueEvents [] es)" by simp
  qed
qed

lemma cleanEvents_ends:
  assumes "\<forall>e\<in>set es. plain_event e"
  shows "filter (\<lambda>e. se_introduced e = []) (cleanEvents es)
           = filter (\<lambda>e. se_introduced e = []) (uniqueEvents [] es)"
    and "{e \<in> set (cleanEvents es). se_introduced e = []} = {e \<in> set es. se_introduced e = []}"
proof -
  show f: "filter (\<lambda>e. se_introduced e = []) (cleanEvents es)
        = filter (\<lambda>e. se_introduced e = []) (uniqueEvents [] es)"
    by (simp add: cleanEvents_eq Let_def filter_empty_conv) (auto dest!: in_set_takeD)
  show "{e \<in> set (cleanEvents es). se_introduced e = []} = {e \<in> set es. se_introduced e = []}"
    using arg_cong [OF f, of set] set_uniqueEvents [OF assms] by auto
qed

lemma cleanEvents_introduced:
  assumes "\<forall>e\<in>set es. plain_event e"
  shows "length (filter (\<lambda>e. se_introduced e \<noteq> []) (cleanEvents es))
           = (if \<exists>e\<in>set es. se_introduced e \<noteq> [] then 1 else 0)"
proof -
  let ?fs = "filter (\<lambda>e. se_introduced e \<noteq> []) (uniqueEvents [] es)"
  have "filter (\<lambda>e. se_introduced e \<noteq> []) (cleanEvents es) = take 1 ?fs"
    by (simp add: cleanEvents_eq Let_def filter_id_conv) (auto dest!: in_set_takeD)
  then show ?thesis
    using set_uniqueEvents [OF assms] by (cases ?fs) (auto simp: filter_empty_conv filter_eq_Cons_iff)
qed

text \<open>A range with a single introduced version (it may repeat it).\<close>

definition one_introduced :: "schema_event list \<Rightarrow> bool" where
  "one_introduced es \<longleftrightarrow> (\<forall>e\<in>set es. se_introduced e \<in> {[], rangeIntroduced es})"

lemma rangeIntroduced_none: "(\<forall>e\<in>set es. se_introduced e = []) \<Longrightarrow> rangeIntroduced es = []"
  unfolding rangeIntroduced_def by (induction es) auto

lemma rangeIntroduced_eq:
  assumes "\<forall>e\<in>set es. se_introduced e \<in> {[], v}" and "e \<in> set es" and "se_introduced e \<noteq> []"
  shows "rangeIntroduced es = v"
  using assms
proof (induction es rule: rev_induct)
  case (snoc f es)
  then show ?case by (cases "e \<in> set es") (auto simp: rangeIntroduced_def)
qed simp

text \<open>The introduced version of a cleaned group is the one of its ranges.\<close>

lemma rangeIntroduced_group:
  assumes "rss \<noteq> []" and "\<forall>es\<in>set rss. one_introduced es \<and> rangeIntroduced es = v"
    and p: "\<forall>e\<in>set (concat rss). plain_event e"
  shows "rangeIntroduced (cleanEvents (concat rss)) = v"
    and "one_introduced (cleanEvents (concat rss))"
proof -
  have a: "\<forall>e\<in>set (concat rss). se_introduced e \<in> {[], v}"
    using assms(2) by (auto simp: one_introduced_def)
  then have c: "\<forall>e\<in>set (cleanEvents (concat rss)). se_introduced e \<in> {[], v}"
    using cleanEvents_subset by blast
  show i: "rangeIntroduced (cleanEvents (concat rss)) = v"
  proof (cases "\<forall>e\<in>set (concat rss). se_introduced e = []")
    case True
    obtain es where es: "es \<in> set rss" using assms(1) by (cases rss) auto
    then have "rangeIntroduced es = []" using True by (intro rangeIntroduced_none) auto
    then have "v = []" using assms(2) es by auto
    with c show ?thesis by (auto intro: rangeIntroduced_none)
  next
    case False
    then obtain e where e: "e \<in> set (concat rss)" "se_introduced e \<noteq> []" by blast
    then have "filter (\<lambda>e. se_introduced e \<noteq> []) (cleanEvents (concat rss)) \<noteq> []"
      using cleanEvents_introduced [OF p] by (metis list.size(3) zero_neq_one)
    then obtain f where "f \<in> set (cleanEvents (concat rss))" "se_introduced f \<noteq> []"
      by (auto simp: filter_empty_conv)
    with c show ?thesis by (rule rangeIntroduced_eq)
  qed
  with c show "one_introduced (cleanEvents (concat rss))" by (simp add: one_introduced_def)
qed

text \<open>Ranges with different keys are only copied and cleaned.\<close>

lemma groupLoop_distinct:
  assumes "distinct (map fst groups @ map key_of rs)"
  shows "groupLoop st groups rs = (st, groups @ map (\<lambda>r. (key_of r, r)) rs)"
  using assms
proof (induction rs arbitrary: groups)
  case (Cons r rs)
  have "map_of groups (key_of r) = None"
    using Cons.prems by (auto simp: map_of_eq_None_iff)
  then show ?case using Cons by (simp add: Let_def)
qed simp

lemma GroupRanges_distinct:
  "distinct (map key_of rs) \<Longrightarrow> GroupRanges st rs = (st, map cleanRange rs)"
  by (simp add: GroupRanges_def groupLoop_distinct o_def)

definition ranges_plain :: "range_with_metadata list \<Rightarrow> bool" where
  "ranges_plain rs \<longleftrightarrow>
     (\<forall>r\<in>set rs. one_introduced (rn_events (rm_range r))
        \<and> (\<forall>e\<in>set (rn_events (rm_range r)). plain_event e))"

abbreviation events_of :: "range_with_metadata \<Rightarrow> schema_event list" where
  "events_of r \<equiv> rn_events (rm_range r)"

lemma joinRanges_fst:
  "foldl joinRanges (ty, repo, es, d, m) vs =
     (ty, repo, es @ concat (map (\<lambda>(_, _, es, _). es) vs), foldl joinFields d (map (\<lambda>(_, _, _, d, _). d) vs), m)"
  by (induction vs arbitrary: es d) auto

lemma groupSpec_eq:
  assumes "filter (\<lambda>r. key_of r = k) rs = r # rs'"
  shows "groupSpec st rs k =
    (fst k, fst (snd k), concat (map events_of (r # rs')),
     foldl joinFields (ds_fields st (rm_range r)) (map (ds_fields st \<circ> rm_range) rs'), rm_metadata r)"
proof -
  have k: "key_of r = k" using assms by (auto simp: filter_eq_Cons_iff)
  have "groupSpec st rs k = foldl joinRanges (range_value st r) (map (range_value st) rs')"
    by (simp add: groupSpec_def assms)
  also have "\<dots> = (fst k, fst (snd k), concat (map events_of (r # rs')),
     foldl joinFields (ds_fields st (rm_range r)) (map (ds_fields st \<circ> rm_range) rs'), rm_metadata r)"
    by (simp add: range_value_def joinRanges_fst o_def flip: k) (simp add: groupKey_def)
  finally show ?thesis .
qed

text \<open>The ranges that come out have the keys, in the order of their first ranges.\<close>

lemma GroupRanges_keys:
  assumes run: "GroupRanges st rs = (st', out)" and ok: "store_ok st rs" and p: "ranges_plain rs"
  shows "map key_of out = groupKeys rs"
    and "map events_of out =
           map (\<lambda>k. cleanEvents (concat (map events_of (filter (\<lambda>r. key_of r = k) rs)))) (groupKeys rs)"
proof -
  let ?es = "\<lambda>k. concat (map events_of (filter (\<lambda>r. key_of r = k) rs))"
  note v = conjunct1 [OF GroupRanges_values [OF run ok]]
  have g: "\<exists>d m. groupSpec st rs k = (fst k, fst (snd k), ?es k, d, m)
      \<and> rangeIntroduced (cleanEvents (?es k)) = snd (snd k) \<and> one_introduced (cleanEvents (?es k))"
    if "k \<in> set (groupKeys rs)" for k
  proof -
    obtain r rs' where f: "filter (\<lambda>r. key_of r = k) rs = r # rs'"
    proof (cases "filter (\<lambda>r. key_of r = k) rs")
      case Nil
      then have "k \<notin> key_of ` set rs" by (auto simp: filter_empty_conv)
      with \<open>k \<in> set (groupKeys rs)\<close> show ?thesis by (simp only: set_groupKeys)
    qed
    have k: "\<forall>es\<in>set (map events_of (filter (\<lambda>r. key_of r = k) rs)).
        one_introduced es \<and> rangeIntroduced es = snd (snd k)"
      using p by (auto simp: ranges_plain_def groupKey_def)
    have pl: "\<forall>e\<in>set (concat (map events_of (filter (\<lambda>r. key_of r = k) rs))). plain_event e"
      using p by (auto simp: ranges_plain_def)
    have "map events_of (filter (\<lambda>r. key_of r = k) rs) \<noteq> []" by (simp add: f)
    note rangeIntroduced_group [OF this k pl]
    then show ?thesis using groupSpec_eq [OF f, of st] by (simp add: f)
  qed
  have len: "length out = length (groupKeys rs)" using arg_cong [OF v, of length] by simp
  have nth: "range_value st' (out ! i) = cleanValue (groupSpec st rs (groupKeys rs ! i))"
    if "i < length out" for i
    using arg_cong [OF v, of "\<lambda>l. l ! i"] that len by simp
  have e: "events_of (out ! i) = cleanEvents (?es (groupKeys rs ! i))
      \<and> key_of (out ! i) = groupKeys rs ! i"
    if "i < length out" for i
  proof -
    have "groupKeys rs ! i \<in> set (groupKeys rs)"
      by (rule nth_mem) (use that len in simp)
    from g [OF this] nth [OF that] show ?thesis
      by (cases "groupKeys rs ! i") (auto simp: range_value_def groupKey_def)
  qed
  show "map key_of out = groupKeys rs"
    and "map events_of out = map (\<lambda>k. cleanEvents (?es k)) (groupKeys rs)"
    using e len by (auto intro!: nth_equalityI)
qed


section \<open>What grouping promises\<close>


definition git_range :: "string \<Rightarrow> schema_event list \<Rightarrow> nat \<Rightarrow> range_with_metadata" where
  "git_range cpe es a =
     \<lparr>rm_range = \<lparr>rn_type = RangeGit, rn_repo = ''r'', rn_events = es, rn_ds = Some a\<rparr>,
      rm_metadata = \<lparr>md_cpe = cpe, md_source = ''CPE_RANGE''\<rparr>\<rparr>"

definition two_ranges :: "range_with_metadata list" where
  "two_ranges =
     [git_range ''c'' [introduced_event ''0'', fixed_event ''f1''] 0,
      git_range ''d'' [introduced_event ''0'', fixed_event ''f2''] 1]"

definition two_structs :: store where
  "two_structs = [[(''source'', JStr ''a'')], [(''source'', JStr ''b'')]]"

lemma two_ranges_ok: "store_ok two_structs two_ranges" "ranges_plain two_ranges"
  by (simp_all add: store_ok_def two_ranges_def two_structs_def git_range_def ranges_plain_def
      one_introduced_def rangeIntroduced_def introduced_event_def fixed_event_def plain_event_def)


text \<open>Of ranges with a single introduced version each, \<open>GroupRanges\<close> makes one range for each combination of type, repository and introduced version; it holds exactly the ends (fixed, last affected, limit) of the ranges of that combination, no event twice, and at most one introduced event.\<close>

theorem GroupRanges_events:
  assumes "GroupRanges st rs = (st', out)" and "store_ok st rs" and "ranges_plain rs"
  shows "map (\<lambda>r. groupKey (rm_range r)) out = groupKeys rs
    \<and> (\<forall>r\<in>set out.
          {e \<in> set (rn_events (rm_range r)). se_introduced e = []}
            = {e. \<exists>r'\<in>set rs. groupKey (rm_range r') = groupKey (rm_range r)
                 \<and> e \<in> set (rn_events (rm_range r')) \<and> se_introduced e = []}
        \<and> distinct (map event_key (rn_events (rm_range r)))
        \<and> length (filter (\<lambda>e. se_introduced e \<noteq> []) (rn_events (rm_range r))) \<le> 1)"
proof -
  note k = GroupRanges_keys [OF assms]
  have "{e \<in> set (events_of r). se_introduced e = []}
            = {e. \<exists>r'\<in>set rs. key_of r' = key_of r \<and> e \<in> set (events_of r') \<and> se_introduced e = []}
        \<and> distinct (map event_key (events_of r))
        \<and> length (filter (\<lambda>e. se_introduced e \<noteq> []) (events_of r)) \<le> 1"
    if r: "r \<in> set out" for r
  proof -
    let ?es = "concat (map events_of (filter (\<lambda>r'. key_of r' = key_of r) rs))"
    obtain i where i: "i < length out" "out ! i = r" using r by (auto simp: in_set_conv_nth)
    have len: "length out = length (groupKeys rs)" using arg_cong [OF k(1), of length] by simp
    have "key_of r = groupKeys rs ! i" using arg_cong [OF k(1), of "\<lambda>l. l ! i"] i by simp
    then have e: "events_of r = cleanEvents ?es"
      using arg_cong [OF k(2), of "\<lambda>l. l ! i"] i len by simp
    have pl: "\<forall>e\<in>set ?es. plain_event e" using assms(3) by (auto simp: ranges_plain_def)
    show ?thesis
      unfolding e using cleanEvents_ends(2) [OF pl] cleanEvents_introduced [OF pl] cleanEvents_distinct
      by auto
  qed
  with k(1) show ?thesis by blast
qed

theorem GroupRanges_events_witness:
  "length (snd (GroupRanges two_structs two_ranges)) = 1"
proof -
  have "groupKeys two_ranges = [(RangeGit, ''r'', ''0'')]"
    by (simp add: groupKeys_def two_ranges_def git_range_def groupKey_def rangeIntroduced_def
        introduced_event_def fixed_event_def set_add_all_def set_add_def)
  moreover have "map key_of (snd (GroupRanges two_structs two_ranges)) = groupKeys two_ranges"
    using GroupRanges_events [OF surjective_pairing two_ranges_ok] by (rule conjunct1)
  ultimately have "length (map key_of (snd (GroupRanges two_structs two_ranges))) = 1"
    by (simp only: list.size One_nat_def add_0)
  then show ?thesis by simp
qed

text \<open>Grouping is settled after one run: grouped again, with whatever structs, the ranges stay as they are and no struct is touched.\<close>

theorem GroupRanges_settled:
  assumes "GroupRanges st rs = (st', out)" and "store_ok st rs" and "ranges_plain rs"
  shows "GroupRanges st2 out = (st2, out)"
proof -
  note k = GroupRanges_keys [OF assms]
  have "cleanRange r = r" if "r \<in> set out" for r
  proof -
    have "events_of r \<in> set (map events_of out)" using that by simp
    then obtain es where "events_of r = cleanEvents es" unfolding k(2) by auto
    then have "cleanEvents (events_of r) = events_of r" by (simp add: cleanEvents_idem)
    then show ?thesis by (simp add: cleanRange_def)
  qed
  then have "map cleanRange out = out" by (simp add: map_idI)
  moreover have "distinct (map key_of out)" by (simp add: k(1))
  ultimately show ?thesis by (simp add: GroupRanges_distinct)
qed

theorem GroupRanges_settled_witness:
  "GroupRanges two_structs (snd (GroupRanges two_structs two_ranges))
     = (two_structs, snd (GroupRanges two_structs two_ranges))"
  by (rule GroupRanges_settled [OF surjective_pairing two_ranges_ok])

section \<open>What the affected entries hold\<close>

text \<open>The event of a commit is in a range when the range has one that means the same.\<close>

definition has_event :: "osv_range \<Rightarrow> affected_commit \<Rightarrow> bool" where
  "has_event r c \<longleftrightarrow>
     (case convertCommitToEvent c of
        None \<Rightarrow> True | Some event \<Rightarrow> \<exists>e\<in>set (rn_events r). same_event e event)"

lemma convertCommit_same: "convertCommitToEvent c = Some event \<Longrightarrow> same_event event event"
  by (auto simp: convertCommitToEvent_def same_event_def introduced_event_def fixed_event_def
      last_affected_event_def split: if_splits)

lemma convertCommit_introduced:
  "convertCommitToEvent c = Some event \<Longrightarrow> se_introduced event \<noteq> [] \<Longrightarrow>
   event = introduced_event (se_introduced event)"
  by (auto simp: convertCommitToEvent_def introduced_event_def fixed_event_def
      last_affected_event_def split: if_splits)

lemma addEventToRange_events:
  "set (rn_events r) \<subseteq> set (rn_events (addEventToRange r event))"
  "rn_repo (addEventToRange r event) = rn_repo r" "rn_type (addEventToRange r event) = rn_type r"
  "rn_ds (addEventToRange r event) = rn_ds r"
  by (auto simp: addEventToRange_def)

lemma addEventToRange_has:
  assumes "convertCommitToEvent c = Some event"
  shows "has_event (addEventToRange r event) c"
  using convertCommit_same [OF assms] convertCommit_introduced [OF assms] assms
  by (auto simp: has_event_def addEventToRange_def)

lemma has_event_mono: "has_event r c \<Longrightarrow> set (rn_events r) \<subseteq> set (rn_events r') \<Longrightarrow> has_event r' c"
  by (auto simp: has_event_def split: option.splits)

lemma has_event_cong: "rn_events r = rn_events r' \<Longrightarrow> has_event r c = has_event r' c"
  by (simp only: has_event_def)

lemma BuildGitVersionRange_has:
  "has_event (BuildGitVersionRange (ac_introduced c) (ac_last_affected c) (ac_fixed c) repo) c"
  by (auto simp: has_event_def BuildGitVersionRange_def BuildVersionRange_def Let_def
      convertCommitToEvent_def same_event_def introduced_event_def fixed_event_def
      last_affected_event_def)

lemma BuildGitVersionRange_simps [simp]:
  "rn_repo (BuildGitVersionRange i l f repo) = repo"
  "rn_type (BuildGitVersionRange i l f repo) = RangeGit"
  by (simp_all add: BuildGitVersionRange_def)

lemma mergeDatabaseSpecific_simps:
  assumes "mergeDatabaseSpecific st t src = (st', t')"
  shows "rn_type t' = rn_type t" "rn_repo t' = rn_repo t" "rn_events t' = rn_events t"
  using assms by (auto simp: mergeDatabaseSpecific_def split: option.splits)

text \<open>Merging the ranges of a repository, all of type GIT, loses no event.\<close>

lemma MergeTwoRanges_git:
  assumes "rn_type r1 = RangeGit" "rn_type r2 = RangeGit" "rn_repo r1 = rn_repo r2"
  obtains st' r where "MergeTwoRanges st r1 r2 = Inr (st', r)" and "rn_type r = RangeGit"
    and "rn_repo r = rn_repo r1" and "rn_events r = rn_events r1 @ rn_events r2"
  using assms that by (fastforce simp: MergeTwoRanges_def Let_def split: if_splits)

lemma mergeRepoRanges_git:
  assumes "\<forall>r\<in>set rs. rn_type (rm_range r) = RangeGit"
    and "\<forall>m. merged = Some m \<longrightarrow> rn_type m = RangeGit \<and> rn_repo m = repo"
  shows "\<exists>st' merged'. mergeRepoRanges repo st mt merged rs = (st', mt, merged')
    \<and> (merged' = None \<longleftrightarrow> merged = None \<and> (\<forall>r\<in>set rs. rn_repo (rm_range r) \<noteq> repo))
    \<and> (\<forall>m. merged' = Some m \<longrightarrow> rn_type m = RangeGit \<and> rn_repo m = repo
         \<and> rn_events m = (case merged of None \<Rightarrow> [] | Some m0 \<Rightarrow> rn_events m0)
             @ concat (map events_of (filter (\<lambda>r. rn_repo (rm_range r) = repo) rs)))"
  using assms
proof (induction rs arbitrary: st merged)
  case Nil
  then show ?case by auto
next
  case (Cons r rs)
  have t: "rn_type (rm_range r) = RangeGit" "\<forall>r\<in>set rs. rn_type (rm_range r) = RangeGit"
    using Cons.prems(1) by auto
  show ?case
  proof (cases "rn_repo (rm_range r) = repo")
    case False
    with Cons.IH [OF t(2) Cons.prems(2), of st] show ?thesis by simp
  next
    case repo: True
    show ?thesis
    proof (cases merged)
      case None
      with Cons.IH [OF t(2), of "Some (rm_range r)" st] repo t(1) show ?thesis by simp
    next
      case (Some m)
      then have m: "rn_type m = RangeGit" "rn_repo m = repo" using Cons.prems(2) by auto
      obtain st1 m1 where m1: "MergeTwoRanges st m (rm_range r) = Inr (st1, m1)"
        "rn_type m1 = RangeGit" "rn_repo m1 = rn_repo m" "rn_events m1 = rn_events m @ events_of r"
        by (rule MergeTwoRanges_git [OF m(1) t(1)]) (use m(2) repo in auto)
      with Cons.IH [OF t(2), of "Some m1" st1] repo Some m show ?thesis by simp
    qed
  qed
qed

lemma addCommit_has:
  assumes "addCommit st merged c = (st', mr)"
    and "\<forall>m. merged = Some m \<longrightarrow> rn_type m = RangeGit \<and> rn_repo m = ac_repo c"
  shows "has_event mr c" "rn_type mr = RangeGit" "rn_repo mr = ac_repo c"
    and "\<forall>m. merged = Some m \<longrightarrow> set (rn_events m) \<subseteq> set (rn_events mr)"
proof -
  define m1 where "m1 = (case merged of
        None \<Rightarrow> BuildGitVersionRange (ac_introduced c) (ac_last_affected c) (ac_fixed c) (ac_repo c)
      | Some m \<Rightarrow> (case convertCommitToEvent c of None \<Rightarrow> m | Some event \<Rightarrow> addEventToRange m event))"
  have "mergeDatabaseSpecific st m1 (Some refsSource) = (st', mr)"
    using assms(1) by (simp add: addCommit_def m1_def)
  note s = mergeDatabaseSpecific_simps [OF this]
  have "has_event m1 c \<and> rn_type m1 = RangeGit \<and> rn_repo m1 = ac_repo c
      \<and> (\<forall>m. merged = Some m \<longrightarrow> set (rn_events m) \<subseteq> set (rn_events m1))"
  proof (cases merged)
    case None
    then show ?thesis by (simp add: m1_def BuildGitVersionRange_has)
  next
    case (Some m)
    then have "rn_type m = RangeGit \<and> rn_repo m = ac_repo c" using assms(2) by simp
    then show ?thesis
      by (cases "convertCommitToEvent c")
        (simp_all add: m1_def Some addEventToRange_has addEventToRange_events, simp add: has_event_def)
  qed
  then show "has_event mr c" "rn_type mr = RangeGit" "rn_repo mr = ac_repo c"
    and "\<forall>m. merged = Some m \<longrightarrow> set (rn_events m) \<subseteq> set (rn_events mr)"
    using s has_event_cong [OF s(3)] by auto
qed

lemma addRepoCommits_has:
  assumes "\<forall>m. merged = Some m \<longrightarrow> rn_type m = RangeGit \<and> rn_repo m = repo"
  shows "\<exists>st' merged'. addRepoCommits repo st merged commits = (st', merged')
    \<and> (merged' = None \<longleftrightarrow> merged = None \<and> (\<forall>c\<in>set commits. ac_repo c \<noteq> repo))
    \<and> (\<forall>m. merged' = Some m \<longrightarrow> rn_type m = RangeGit \<and> rn_repo m = repo
         \<and> (\<forall>m0. merged = Some m0 \<longrightarrow> set (rn_events m0) \<subseteq> set (rn_events m))
         \<and> (\<forall>c\<in>set commits. ac_repo c = repo \<longrightarrow> has_event m c))"
  using assms
proof (induction commits arbitrary: st merged)
  case (Cons c commits)
  show ?case
  proof (cases "ac_repo c = repo")
    case True
    obtain st1 mr where a: "addCommit st merged c = (st1, mr)" by fastforce
    note h = addCommit_has [OF a Cons.prems [folded True]]
    from Cons.IH [of "Some mr" st1] h True obtain st' m' where
      r: "addRepoCommits repo st1 (Some mr) commits = (st', Some m')"
      and m': "rn_type m' = RangeGit" "rn_repo m' = repo" "set (rn_events mr) \<subseteq> set (rn_events m')"
        "\<forall>c\<in>set commits. ac_repo c = repo \<longrightarrow> has_event m' c"
      by (metis option.exhaust option.inject option.distinct(1))
    have "has_event m' c" using has_event_mono [OF h(1) m'(3)] .
    with r m' h(4) a True show ?thesis by auto
  qed (use Cons in simp)
qed simp


definition repo_events :: "range_with_metadata list \<Rightarrow> string \<Rightarrow> schema_event set" where
  "repo_events resolved repo =
     (\<Union>r\<in>{r\<in>set resolved. rn_repo (rm_range r) = repo}. set (rn_events (rm_range r)))"

definition entry_ok ::
  "range_with_metadata list \<Rightarrow> affected_commit list \<Rightarrow> osv_range \<Rightarrow> bool" where
  "entry_ok resolved commits a \<longleftrightarrow>
     rn_type a = RangeGit \<and> repo_events resolved (rn_repo a) \<subseteq> set (rn_events a)
   \<and> (\<forall>c\<in>set commits. ac_repo c = rn_repo a \<longrightarrow> has_event a c)"

definition repo_known :: "range_with_metadata list \<Rightarrow> affected_commit list \<Rightarrow> string \<Rightarrow> bool" where
  "repo_known resolved commits repo \<longleftrightarrow>
     (\<exists>r\<in>set resolved. rn_repo (rm_range r) = repo) \<or> (\<exists>c\<in>set commits. ac_repo c = repo)"

lemma affectedOfRepos_git:
  assumes "\<forall>r\<in>set resolved. rn_type (rm_range r) = RangeGit"
    and "affectedOfRepos resolved commits repos st mt = (st', mt', affected)"
  shows "mt' = mt \<and> map rn_repo affected = filter (repo_known resolved commits) repos
    \<and> (\<forall>a\<in>set affected. entry_ok resolved commits a)"
  using assms(2)
proof (induction repos arbitrary: st st' mt mt' affected)
  case (Cons repo repos)
  from mergeRepoRanges_git [OF assms(1), of None repo st mt] obtain st1 merged where
    m: "mergeRepoRanges repo st mt None resolved = (st1, mt, merged)"
    and mn: "merged = None \<longleftrightarrow> (\<forall>r\<in>set resolved. rn_repo (rm_range r) \<noteq> repo)"
    and ms: "\<And>x. merged = Some x \<Longrightarrow> rn_type x = RangeGit \<and> rn_repo x = repo
         \<and> rn_events x = concat (map events_of (filter (\<lambda>r. rn_repo (rm_range r) = repo) resolved))"
    by auto
  have "\<forall>m. merged = Some m \<longrightarrow> rn_type m = RangeGit \<and> rn_repo m = repo" using ms by blast
  from addRepoCommits_has [OF this, of st1 commits] obtain st2 merged' where
    c: "addRepoCommits repo st1 merged commits = (st2, merged')"
    and cn: "merged' = None \<longleftrightarrow> merged = None \<and> (\<forall>c\<in>set commits. ac_repo c \<noteq> repo)"
    and cs: "\<forall>x. merged' = Some x \<longrightarrow> rn_type x = RangeGit \<and> rn_repo x = repo
         \<and> (\<forall>m0. merged = Some m0 \<longrightarrow> set (rn_events m0) \<subseteq> set (rn_events x))
         \<and> (\<forall>c\<in>set commits. ac_repo c = repo \<longrightarrow> has_event x c)"
    by (elim exE conjE)
  obtain st3 mt2 rest where r: "affectedOfRepos resolved commits repos st2 mt = (st3, mt2, rest)"
    by (metis prod_cases3)
  note ih = Cons.IH [OF r]
  have aff: "mt' = mt2 \<and> affected = (case merged' of None \<Rightarrow> rest | Some x \<Rightarrow> x # rest)"
    using Cons.prems by (simp add: m c r)
  have known: "repo_known resolved commits repo \<longleftrightarrow> merged' \<noteq> None"
    using mn cn by (auto simp: repo_known_def)
  have "entry_ok resolved commits x" if x: "merged' = Some x" for x
  proof -
    have "repo_events resolved repo \<subseteq> set (rn_events x)"
    proof (cases merged)
      case None
      then show ?thesis using mn by (auto simp: repo_events_def)
    next
      case (Some m0)
      then have "repo_events resolved repo = set (rn_events m0)"
        using ms [OF Some] by (auto simp: repo_events_def)
      then show ?thesis using cs x Some by blast
    qed
    then show ?thesis using cs x by (simp add: entry_ok_def)
  qed
  then show ?case
    using ih aff known cs by (cases merged') auto
qed simp

text \<open>Commits alone.\<close>

lemma rangesOfCommits_inv:
  assumes "rangesOfCommits st mt rtr commits = (st', mt', rtr')"
    and "distinct (keys rtr)"
    and "\<forall>repo r. map_of rtr repo = Some r \<longrightarrow> rn_repo r = repo \<and> rn_type r = RangeGit"
  shows "distinct (keys rtr') \<and> set (keys rtr') = set (keys rtr) \<union> ac_repo ` set commits
    \<and> cm_resolved mt' = cm_resolved mt + int (card (set (keys rtr') - set (keys rtr)))
    \<and> (\<forall>repo r. map_of rtr' repo = Some r \<longrightarrow> rn_repo r = repo \<and> rn_type r = RangeGit
         \<and> (\<forall>r0. map_of rtr repo = Some r0 \<longrightarrow> set (rn_events r0) \<subseteq> set (rn_events r))
         \<and> (\<forall>c\<in>set commits. ac_repo c = repo \<longrightarrow> has_event r c))"
  using assms
proof (induction commits arbitrary: st mt rtr)
  case Nil
  then show ?case by auto
next
  case (Cons c commits)
  let ?repo = "ac_repo c"
  show ?case
  proof (cases "map_of rtr ?repo")
    case None
    define r1 where "r1 = (BuildGitVersionRange (ac_introduced c) (ac_last_affected c)
                  (ac_fixed c) ?repo)\<lparr>rn_ds := Some (length st)\<rparr>"
    define rtr1 where "rtr1 = rtr @ [(?repo, r1)]"
    have run: "rangesOfCommits (st @ [refsSource]) (mt\<lparr>cm_resolved := cm_resolved mt + 1\<rparr>) rtr1 commits
        = (st', mt', rtr')"
      using Cons.prems(1) None by (simp add: rtr1_def r1_def)
    have n: "?repo \<notin> set (keys rtr)" using None by (auto simp: dom_def)
    have d: "distinct (keys rtr1)" using Cons.prems(2) n by (simp add: rtr1_def keys_def)
    have k: "set (keys rtr1) = insert ?repo (set (keys rtr))" by (auto simp: rtr1_def keys_def)
    have l: "map_of rtr1 repo = (if repo = ?repo then Some r1 else map_of rtr repo)" for repo
      using None by (auto simp: rtr1_def map_add_def split: option.splits)
    have has: "has_event r1 c" "rn_repo r1 = ?repo" "rn_type r1 = RangeGit"
      using BuildGitVersionRange_has [of c ?repo]
      by (simp_all add: r1_def has_event_cong [of "BuildGitVersionRange _ _ _ _\<lparr>rn_ds := _\<rparr>"
            "BuildGitVersionRange _ _ _ _"])
    have inv: "\<forall>repo r. map_of rtr1 repo = Some r \<longrightarrow> rn_repo r = repo \<and> rn_type r = RangeGit"
      using Cons.prems(3) has by (auto simp: l)
    note ih = Cons.IH [OF run d inv]
    note ih1 = conjunct1 [OF ih] and ih2 = conjunct1 [OF conjunct2 [OF ih]]
      and ih3 = conjunct1 [OF conjunct2 [OF conjunct2 [OF ih]]]
      and ih4 = conjunct2 [OF conjunct2 [OF conjunct2 [OF ih]], rule_format]
    have "int (card (set (keys rtr') - set (keys rtr))) =
        1 + int (card (set (keys rtr') - set (keys rtr1)))"
    proof -
      have "set (keys rtr') - set (keys rtr) = insert ?repo (set (keys rtr') - set (keys rtr1))"
        unfolding ih2 k using n by blast
      moreover have "?repo \<notin> set (keys rtr') - set (keys rtr1)" using k by blast
      ultimately show ?thesis by (simp del: set_keys)
    qed
    then have p3: "cm_resolved mt' = cm_resolved mt + int (card (set (keys rtr') - set (keys rtr)))"
      using ih3 by simp
    have p2: "set (keys rtr') = set (keys rtr) \<union> ac_repo ` set (c # commits)"
      unfolding ih2 k by auto
    have p: "rn_repo r = repo \<and> rn_type r = RangeGit
         \<and> (\<forall>r0. map_of rtr repo = Some r0 \<longrightarrow> set (rn_events r0) \<subseteq> set (rn_events r))
         \<and> (\<forall>c'\<in>set (c # commits). ac_repo c' = repo \<longrightarrow> has_event r c')"
      if r: "map_of rtr' repo = Some r" for repo r
    proof (cases "repo = ?repo")
      case True
      have "set (rn_events r1) \<subseteq> set (rn_events r)" using ih4 [OF r] True by (simp add: l)
      then show ?thesis using ih4 [OF r] has True None has_event_mono by (simp, blast?)
    next
      case False
      then show ?thesis using ih4 [OF r] by (simp add: l)
    qed
    show ?thesis using ih1 p2 p3 p by blast
  next
    case (Some vr)
    define rtr1 where "rtr1 = (case convertCommitToEvent c of
               None \<Rightarrow> rtr
             | Some event \<Rightarrow> AList.update ?repo (addEventToRange vr event) rtr)"
    define r1 where "r1 = (case convertCommitToEvent c of None \<Rightarrow> vr | Some event \<Rightarrow> addEventToRange vr event)"
    have run: "rangesOfCommits st mt rtr1 commits = (st', mt', rtr')"
      using Cons.prems(1) Some by (simp add: rtr1_def)
    have d: "distinct (keys rtr1)"
      using Cons.prems(2) by (simp add: rtr1_def split: option.split)
    have l: "map_of rtr1 repo = (if repo = ?repo then Some r1 else map_of rtr repo)" for repo
      using Some by (simp add: rtr1_def r1_def update_conv' split: option.split)
    have k: "set (keys rtr1) = set (keys rtr)"
      using Some by (auto simp: l split: if_splits)
    have vr: "rn_repo vr = ?repo" "rn_type vr = RangeGit" using Cons.prems(3) Some by auto
    have has: "has_event r1 c" "rn_repo r1 = ?repo" "rn_type r1 = RangeGit"
      "set (rn_events vr) \<subseteq> set (rn_events r1)"
      using addEventToRange_has [of c _ vr] vr addEventToRange_events [of vr]
      by (auto simp: r1_def has_event_def [of vr] split: option.split)
    have inv: "\<forall>repo r. map_of rtr1 repo = Some r \<longrightarrow> rn_repo r = repo \<and> rn_type r = RangeGit"
      using Cons.prems(3) has by (auto simp: l)
    note ih = Cons.IH [OF run d inv]
    note ih1 = conjunct1 [OF ih] and ih2 = conjunct1 [OF conjunct2 [OF ih]]
      and ih3 = conjunct1 [OF conjunct2 [OF conjunct2 [OF ih]]]
      and ih4 = conjunct2 [OF conjunct2 [OF conjunct2 [OF ih]], rule_format]
    have "?repo \<in> set (keys rtr)" using Some by auto
    then have p2: "set (keys rtr') = set (keys rtr) \<union> ac_repo ` set (c # commits)"
      unfolding ih2 k by auto
    have p3: "cm_resolved mt' = cm_resolved mt + int (card (set (keys rtr') - set (keys rtr)))"
      using ih3 k by (simp only:)
    have p: "rn_repo r = repo \<and> rn_type r = RangeGit
         \<and> (\<forall>r0. map_of rtr repo = Some r0 \<longrightarrow> set (rn_events r0) \<subseteq> set (rn_events r))
         \<and> (\<forall>c'\<in>set (c # commits). ac_repo c' = repo \<longrightarrow> has_event r c')"
      if r: "map_of rtr' repo = Some r" for repo r
    proof (cases "repo = ?repo")
      case True
      have "set (rn_events r1) \<subseteq> set (rn_events r)" using ih4 [OF r] True by (simp add: l)
      then show ?thesis using ih4 [OF r] has True Some has_event_mono by (simp, blast?)
    next
      case False
      then show ?thesis using ih4 [OF r] by (simp add: l)
    qed
    show ?thesis using ih1 p2 p3 p by blast
  qed
qed


lemma affected_of_commits:
  assumes "rangesOfCommits st mt [] commits = (st', mt', rtr)"
  defines "affected \<equiv> map (\<lambda>repo. the (map_of rtr repo)) (sort (keys rtr))"
  shows "map rn_repo affected = sorted_list_of_set (ac_repo ` set commits)"
    and "\<forall>a\<in>set affected. entry_ok [] commits a"
    and "cm_resolved mt' = cm_resolved mt + int (card (ac_repo ` set commits))"
proof -
  note inv = rangesOfCommits_inv [OF assms(1)]
  have d: "distinct (keys rtr)" and k: "set (keys rtr) = ac_repo ` set commits"
    and "cm_resolved mt' = cm_resolved mt + int (card (set (keys rtr)))"
    and r: "\<And>repo r. map_of rtr repo = Some r \<Longrightarrow> rn_repo r = repo \<and> rn_type r = RangeGit
         \<and> (\<forall>c\<in>set commits. ac_repo c = repo \<longrightarrow> has_event r c)"
    using inv by (simp_all add: keys_def)
  then show "cm_resolved mt' = cm_resolved mt + int (card (ac_repo ` set commits))" by simp
  have s: "\<exists>r. map_of rtr repo = Some r" if "repo \<in> set (keys rtr)" for repo
    using that by auto
  have "map rn_repo affected = map id (sort (keys rtr))"
    unfolding affected_def map_map
  proof (rule map_cong [OF refl])
    fix repo assume "repo \<in> set (sort (keys rtr))"
    then obtain x where x: "map_of rtr repo = Some x" using s by auto
    then show "(rn_repo \<circ> (\<lambda>repo. the (map_of rtr repo))) repo = id repo"
      using r [OF x] by simp
  qed
  then show "map rn_repo affected = sorted_list_of_set (ac_repo ` set commits)"
    using sort_distinct_sorted_list [OF d] k by simp
  show "\<forall>a\<in>set affected. entry_ok [] commits a"
  proof
    fix a assume "a \<in> set affected"
    then obtain repo where repo: "repo \<in> set (keys rtr)" "a = the (map_of rtr repo)"
      by (auto simp: affected_def simp del: set_keys)
    then obtain x where x: "map_of rtr repo = Some x" "a = x" using s by fastforce
    then show "entry_ok [] commits a" using r [OF x(1)] by (simp add: entry_ok_def repo_events_def)
  qed
qed

lemma affected_entries:
  assumes "\<forall>r\<in>set resolved. rn_type (rm_range r) = RangeGit"
    and "MergeRangesAndCreateAffected st resolved commits repos mt = (st', mt', affected)"
  shows "map rn_repo affected =
           (if resolved = [] then sorted_list_of_set (ac_repo ` set commits)
            else filter (repo_known resolved commits) (sorted_list_of_set (set repos)))
    \<and> (\<forall>a\<in>set affected. entry_ok resolved commits a)
    \<and> cm_resolved mt' = cm_resolved mt
        + (if resolved = [] then int (card (ac_repo ` set commits)) else 0)"
proof (cases "resolved = []")
  case False
  then have "affectedOfRepos resolved commits (sorted_list_of_set (set repos)) st mt = (st', mt', affected)"
    using assms(2) by (simp add: MergeRangesAndCreateAffected_def compact_sort_sorted_list)
  with affectedOfRepos_git [OF assms(1) this] False show ?thesis by simp
next
  case True
  show ?thesis
  proof (cases "commits = []")
    case False
    then obtain st1 rtr where "rangesOfCommits st mt [] commits = (st1, mt', rtr)"
      and "affected = map (\<lambda>repo. the (map_of rtr repo)) (sort (keys rtr))"
      using assms(2) True
      by (auto simp: MergeRangesAndCreateAffected_def split: prod.splits)
    with affected_of_commits [OF this(1)] True show ?thesis by simp
  qed (use assms(2) True in \<open>simp add: MergeRangesAndCreateAffected_def\<close>)
qed

text \<open>C32: Of resolved GIT ranges and commits the affected entries are made so: when there are resolved ranges, one entry for each successful repository that has a range or a commit, in alphabetical order; without any, one entry for each repository of the commits, in that order, each counted as resolved. An entry is a GIT range that holds every event of the ranges of its repository and the event of each of its commits.\<close>

theorem MergeRanges_affected:
  assumes "\<forall>r\<in>set resolved. rn_type (rm_range r) = RangeGit"
    and "MergeRangesAndCreateAffected st resolved commits repos mt = (st', mt', affected)"
  shows "map rn_repo affected =
           (if resolved = [] then sorted_list_of_set (ac_repo ` set commits)
            else filter (repo_known resolved commits) (sorted_list_of_set (set repos)))
    \<and> (\<forall>a\<in>set affected. entry_ok resolved commits a)
    \<and> cm_resolved mt' = cm_resolved mt
        + (if resolved = [] then int (card (ac_repo ` set commits)) else 0)"
  by (rule affected_entries [OF assms])

definition a_commit :: "string \<Rightarrow> string \<Rightarrow> affected_commit" where
  "a_commit repo f = \<lparr>ac_repo = repo, ac_introduced = [], ac_fixed = f, ac_limit = [], ac_last_affected = []\<rparr>"

definition no_metrics :: conversion_metrics where
  "no_metrics = \<lparr>cm_outcome = ConversionUnknown, cm_sources = [], cm_notes = [], cm_unresolved = 0,
     cm_resolved = 0\<rparr>"

theorem MergeRanges_affected_witness:
  "map rn_repo (snd (snd (MergeRangesAndCreateAffected two_structs two_ranges [a_commit ''s'' ''f'']
     [''s'', ''r'', ''q''] no_metrics))) = [''r'', ''s'']"
proof -
  have g: "\<forall>r\<in>set two_ranges. rn_type (rm_range r) = RangeGit"
    by (simp add: two_ranges_def git_range_def)
  have "{''s'', ''r'', ''q''} = set [''q'', ''r'', ''s'']" by auto
  then have "sorted_list_of_set {''s'', ''r'', ''q''} = [''q'', ''r'', ''s'']"
    using sorted_distinct_is_sorted_list [of "[''q'', ''r'', ''s'']"] by simp
  with MergeRanges_affected [OF g, of two_structs "[a_commit ''s'' ''f'']" "[''s'', ''r'', ''q'']" no_metrics]
  show ?thesis
    by (simp add: repo_known_def two_ranges_def git_range_def a_commit_def prod_eq_iff)
qed

text \<open>
  Two ranges of a repository with different types: the failed merge leaves no range at all, and
  what had been merged is lost.
\<close>

lemma merge_clash_loses_ranges:
  assumes "rn_repo (rm_range r1) = repo" and "rn_repo (rm_range r2) = repo"
    and "rn_type (rm_range r1) \<noteq> rn_type (rm_range r2)"
  shows "mergeRepoRanges repo st mt None [r1, r2] = (st, AddNote MergeFailed mt, None)"
  using assms by (simp add: MergeTwoRanges_def)

end
