(* ===== verification/Tags.thy ===== *)
theory Tags
  imports AffectedVersions
begin

text \<open>
  Versions and the tags of a repository (\<open>vulnfeeds/git/versions.go\<close> and the tag functions of
  \<open>vulnfeeds/git/repository.go\<close>): normalizing a version, the tags of a repository out of its
  references, their normalized names, and the commit of a version. Strings are ASCII. The two
  regular expressions are written out: the components of a version are the runs of digits
  and the words rc, alpha, beta and preview with the digits after them, and the prefix of a
  Java package is a dotted name before the first dash. The references of a repository (git's
  answer over the network) and the name of the repository (\<open>url.Parse\<close>) are parameters, and so
  are the orders in which Go visits a map.
\<close>

section \<open>Normalizing a version\<close>

definition version_words :: "string list" where
  "version_words = [''rc'', ''alpha'', ''beta'', ''preview'']"

text \<open>The word a string begins with, in any case: its length.\<close>

definition word_length :: "string \<Rightarrow> nat option" where
  "word_length s = map_option length (find (has_prefix (to_lower s)) version_words)"

text \<open>\<open>validVersion.FindAllString\<close>: the matches from left to right.\<close>

fun version_components :: "nat \<Rightarrow> string \<Rightarrow> string list" where
  "version_components n [] = []"
| "version_components 0 s = []"
| "version_components (Suc n) (c # s) =
     (if is_digit c
      then takeWhile is_digit (c # s) # version_components n (dropWhile is_digit (c # s))
      else (case word_length (c # s) of
              Some k \<Rightarrow>
                (let rest = drop k (c # s) in
                 (take k (c # s) @ takeWhile is_digit rest)
                   # version_components n (dropWhile is_digit rest))
            | None \<Rightarrow> version_components n s))"

definition FindAllString :: "string \<Rightarrow> string list" where
  "FindAllString s = version_components (length s) s"

text \<open>\<open>validVersionText.MatchString\<close>: one of the words occurs.\<close>

fun matches_text :: "string \<Rightarrow> bool" where
  "matches_text [] = False"
| "matches_text (c # s) = (word_length (c # s) \<noteq> None \<or> matches_text s)"

definition NormalizeVersion :: "string \<Rightarrow> go_error + string" where
  "NormalizeVersion version =
     (let version = (if has_prefix version ''.'' then ''0'' @ version else version);
          components = FindAllString version
      in case components of
           [] \<Rightarrow> Inl (GoErr ''not a supported version'')
         | c # cs \<Rightarrow> Inr (join ''-'' (if matches_text c then cs else c # cs)))"

section \<open>The tags of a repository\<close>

record normalized_tag =
  nt_original :: string
  nt_commit :: string
  nt_text :: bool

definition peeledSuffix :: string where
  "peeledSuffix = ''^{}''"

text \<open>
  \<open>RepoTags\<close> on a cache miss: the tag references by name, and of an annotated tag (one with a
  peeled reference) the commit the peeled reference names. \<open>sort.Sort\<close> by tag name.
\<close>

definition tagsMap :: "(string \<times> string) list \<Rightarrow> (string \<times> string) list" where
  "tagsMap refs = fold (\<lambda>(name, hash). AList.update name hash) refs []"

fun unpeeledTags ::
  "(string \<times> string) list \<Rightarrow> (string \<times> string) list \<Rightarrow> string list \<Rightarrow> (string \<times> string) list" where
  "unpeeledTags m tags [] = tags"
| "unpeeledTags m tags (name # names) =
     (case map_of m name of
        None \<Rightarrow> unpeeledTags m tags names
      | Some commit \<Rightarrow>
          if name @ peeledSuffix \<in> set (keys m) then unpeeledTags m tags names
          else if has_suffix name peeledSuffix
          then unpeeledTags m (tags @ [(trim_suffix name peeledSuffix, commit)]) names
          else if (name, commit) \<in> set tags then unpeeledTags m tags names
          else unpeeledTags m (tags @ [(name, commit)]) names)"

definition RepoTags ::
  "(string list \<Rightarrow> string list) \<Rightarrow> (string \<times> string) list \<Rightarrow> (string \<times> string) list" where
  "RepoTags ord refs =
     (let m = tagsMap refs in sort_key fst (unpeeledTags m [] (ord (keys m))))"

text \<open>\<open>strings.Cut(s, sep)\<close> at a separator of any length: what comes after it.\<close>

fun cut_after :: "string \<Rightarrow> string \<Rightarrow> string option" where
  "cut_after [] sep = (if sep = [] then Some [] else None)"
| "cut_after (c # s) sep =
     (if has_prefix (c # s) sep then Some (drop (length sep) (c # s)) else cut_after s sep)"

definition is_word_char :: "char \<Rightarrow> bool" where
  "is_word_char c \<longleftrightarrow> is_alnum c \<or> c = CHR ''_''"

definition java_identifier :: "nat \<Rightarrow> string \<Rightarrow> bool" where
  "java_identifier n s \<longleftrightarrow>
     n \<le> length s \<and> (s \<noteq> [] \<longrightarrow> (is_lower (hd s) \<or> is_upper (hd s)) \<and> (\<forall>c\<in>set (tl s). is_word_char c))"

text \<open>\<open>javaPackageRegex\<close>: a dotted name of at least two parts before the first dash; what follows.\<close>

definition javaPackage :: "string \<Rightarrow> string option" where
  "javaPackage s =
     (case strings_cut s (CHR ''-'') of (pre, after, found) \<Rightarrow>
        if \<not> found then None
        else (let ps = strings_split pre ''.'' in
              if length ps \<ge> 2 \<and> java_identifier 1 (hd ps)
                 \<and> (\<forall>p\<in>set (butlast (tl ps)). java_identifier 2 p)
                 \<and> java_identifier 2 (butlast (last ps)) \<and> is_word_char (last (last ps))
              then Some after else None))"

definition normalizeRepoTag :: "string \<Rightarrow> string \<Rightarrow> go_error + string" where
  "normalizeRepoTag tag reponame =
     (let t = trim_prefix (to_lower tag) reponame;
          t = (case cut_after t reponame of None \<Rightarrow> t | Some after \<Rightarrow> after);
          t = (case javaPackage t of None \<Rightarrow> t | Some after \<Rightarrow> after);
          t = trim_prefix t ''-''
      in NormalizeVersion t)"

text \<open>\<open>NormalizeRepoTags\<close> on a cache miss; the tags come sorted, and the last of a name stays.\<close>

definition NormalizeRepoTags ::
  "string \<Rightarrow> (string \<times> string) list \<Rightarrow> (string \<times> normalized_tag) list" where
  "NormalizeRepoTags reponame tags =
     fold (\<lambda>(tag, commit) m.
        case normalizeRepoTag (to_lower tag) reponame of
          Inl e \<Rightarrow> m
        | Inr normalizedTag \<Rightarrow>
            AList.update normalizedTag
              \<lparr>nt_original = tag, nt_commit = commit, nt_text = matches_text normalizedTag\<rparr> m)
       tags []"

section \<open>The commit of a version\<close>

definition findFuzzyCommit ::
  "(string list \<Rightarrow> string list) \<Rightarrow> string \<Rightarrow> (string \<times> normalized_tag) list \<Rightarrow> string option" where
  "findFuzzyCommit ord normalizedVersion normalizedTags =
     (let text = matches_text normalizedVersion;
          candidateTags = filter
            (\<lambda>k. case map_of normalizedTags k of
                    None \<Rightarrow> False
                  | Some v \<Rightarrow> nt_text v = text \<and> has_prefix k normalizedVersion)
            (ord (keys normalizedTags));
          commit = (\<lambda>t. map_option nt_commit (map_of normalizedTags t))
      in case candidateTags of
           [] \<Rightarrow> None
         | [t] \<Rightarrow> commit t
         | ts \<Rightarrow> (case find (\<lambda>t. trim_prefix t normalizedVersion = ''-0'') ts of
                    None \<Rightarrow> None
                  | Some t \<Rightarrow> commit t))"

definition VersionToCommit ::
  "(string list \<Rightarrow> string list) \<Rightarrow> string \<Rightarrow> (string \<times> normalized_tag) list \<Rightarrow> go_error + string" where
  "VersionToCommit ord version normalizedTags =
     (if version = [] then Inr []
      else case NormalizeVersion version of
        Inl e \<Rightarrow> Inl e
      | Inr normalizedVersion \<Rightarrow>
          (case map_of normalizedTags (to_lower normalizedVersion) of
             Some normalizedTag \<Rightarrow> Inr (nt_commit normalizedTag)
           | None \<Rightarrow>
               (case findFuzzyCommit ord normalizedVersion normalizedTags of
                  Some commitHash \<Rightarrow> Inr commitHash
                | None \<Rightarrow> Inl (GoErr ''failed to find a commit''))))"

section \<open>Normalized versions stay as they are\<close>

definition all_digits :: "string \<Rightarrow> bool" where
  "all_digits s \<longleftrightarrow> (\<forall>c\<in>set s. is_digit c)"

definition component_ok :: "string \<Rightarrow> bool" where
  "component_ok c \<longleftrightarrow>
     c \<noteq> [] \<and> all_digits c
   \<or> (\<exists>w ds. c = w @ ds \<and> to_lower w \<in> set version_words \<and> all_digits ds)"

lemma all_digits_takeWhile [simp]: "all_digits (takeWhile is_digit s)"
  by (auto simp: all_digits_def dest: set_takeWhileD)

lemma to_lower_append [simp]: "to_lower (s @ t) = to_lower s @ to_lower t"
  by (simp add: to_lower_def)

lemma word_length_Some:
  assumes "word_length s = Some k"
  shows "to_lower (take k s) \<in> set version_words \<and> k \<le> length s \<and> 0 < k"
proof -
  obtain w where w: "find (has_prefix (to_lower s)) version_words = Some w" "k = length w"
    using assms by (auto simp: word_length_def)
  then have m: "w \<in> set version_words" "has_prefix (to_lower s) w"
    by (auto simp: find_Some_iff)
  then obtain r where r: "to_lower s = w @ r" by (auto simp: has_prefix_iff)
  have "length s = length w + length r" using arg_cong [OF r, of length] by (simp add: to_lower_def)
  moreover have "to_lower (take k s) = w" using arg_cong [OF r, of "take k"]
    by (simp add: to_lower_def take_map w(2))
  ultimately show ?thesis using m(1) by (auto simp: w(2) version_words_def)
qed

lemma version_components_ok: "length s \<le> n \<Longrightarrow> \<forall>c\<in>set (version_components n s). component_ok c"
proof (induction n s rule: version_components.induct)
  case (3 n c s)
  show ?case
  proof (cases "is_digit c")
    case True
    have "length (dropWhile is_digit (c # s)) \<le> n"
      using "3.prems" True length_dropWhile_le [of is_digit s] by simp
    then show ?thesis using 3 True by (auto simp: component_ok_def all_digits_def dest: set_takeWhileD)
  next
    case False
    show ?thesis
    proof (cases "word_length (c # s)")
      case None
      then show ?thesis using 3 False by simp
    next
      case (Some k)
      note w = word_length_Some [OF Some]
      have "length (dropWhile is_digit (drop k (c # s))) \<le> n"
        using "3.prems" w length_dropWhile_le [of is_digit "drop k (c # s)"] by simp arith
      moreover have "component_ok (take k (c # s) @ takeWhile is_digit (drop k (c # s)))"
        unfolding component_ok_def using w all_digits_takeWhile by blast
      ultimately show ?thesis using "3.IH"(3) [OF False Some refl] False Some by (simp add: Let_def)
    qed
  qed
qed auto

lemma char_lower_digit: "is_digit c \<Longrightarrow> char_lower c = c"
  by (auto simp: char_lower_def is_digit_def is_upper_def Let_def)

lemma word_not_digit: "to_lower w \<in> set version_words \<Longrightarrow> w \<noteq> [] \<and> \<not> is_digit (hd w)"
proof
  assume w: "to_lower w \<in> set version_words"
  then show "w \<noteq> []" by (auto simp: version_words_def to_lower_def)
  then obtain c w' where c: "w = c # w'" by (cases w) auto
  show "\<not> is_digit (hd w)"
  proof
    assume d: "is_digit (hd w)"
    with c have "to_lower w = c # to_lower w'" by (simp add: to_lower_def char_lower_digit)
    with w d c show False by (auto simp: version_words_def is_digit_def)
  qed
qed

lemma word_length_word:
  assumes "to_lower w \<in> set version_words"
  shows "word_length (w @ s) = Some (length w)"
proof -
  have l: "length w = length (to_lower w)" by (simp add: to_lower_def)
  show ?thesis
    unfolding l word_length_def to_lower_append
    using assms by (auto simp: version_words_def simp del: length_map)
qed

text \<open>The fuel of the scan is the length of the string; more does not change the result.\<close>

lemma version_components_more:
  "length s \<le> n \<Longrightarrow> version_components (Suc n) s = version_components n s"
proof (induction n arbitrary: s)
  case (Suc n)
  show ?case
  proof (cases s)
    case (Cons c s')
    have l: "length s' \<le> n" "length (dropWhile is_digit s') \<le> n"
      using Suc.prems length_dropWhile_le [of is_digit s'] by (simp_all add: Cons)
    have w: "length (dropWhile is_digit (drop k (c # s'))) \<le> n"
      if "word_length (c # s') = Some k" for k
      using Suc.prems word_length_Some [OF that] length_dropWhile_le [of is_digit "drop k (c # s')"]
      by (simp add: Cons) arith
    show ?thesis
      unfolding Cons version_components.simps(3) [of "Suc n"] version_components.simps(3) [of n]
      using Suc.IH [OF l(1)] Suc.IH [OF l(2)] Suc.IH [OF w]
      by (simp add: Let_def split: option.split)
  qed simp
qed simp

lemma version_components_fuel: "length s \<le> n \<Longrightarrow> version_components n s = FindAllString s"
proof (induction "n - length s" arbitrary: n)
  case (Suc k)
  then obtain m where m: "n = Suc m" "length s \<le> m" by (cases n) auto
  with Suc show ?case using version_components_more [OF m(2)] by (metis diff_Suc_1 Suc_diff_le)
qed (simp add: FindAllString_def)


lemma FindAllString_Cons:
  "FindAllString (c # s) =
     (if is_digit c then takeWhile is_digit (c # s) # FindAllString (dropWhile is_digit (c # s))
      else (case word_length (c # s) of
              Some k \<Rightarrow>
                (take k (c # s) @ takeWhile is_digit (drop k (c # s)))
                   # FindAllString (dropWhile is_digit (drop k (c # s)))
            | None \<Rightarrow> FindAllString s))"
proof -
  have w: "length (dropWhile is_digit (drop k (c # s))) \<le> length s" if "word_length (c # s) = Some k" for k
    using word_length_Some [OF that] length_dropWhile_le [of is_digit "drop k (c # s)"] by simp arith
  have d: "length (dropWhile is_digit s) \<le> length s" by (rule length_dropWhile_le)
  show ?thesis
    unfolding FindAllString_def [of "c # s"] list.size(4) add_0_right add_Suc_right version_components.simps(3)
    using version_components_fuel [OF d] version_components_fuel [OF w] version_components_fuel [of s "length s"]
    by (simp add: Let_def split: option.split)
qed

lemma FindAllString_Nil [simp]: "FindAllString [] = []"
  by (simp add: FindAllString_def)

text \<open>A component at the front is found, whatever stands behind the dash or at the end.\<close>

lemma takeWhile_digits:
  "all_digits ds \<Longrightarrow> rest = [] \<or> \<not> is_digit (hd rest) \<Longrightarrow>
   takeWhile is_digit (ds @ rest) = ds \<and> dropWhile is_digit (ds @ rest) = rest"
  by (induction ds; cases rest) (auto simp: all_digits_def)

lemma FindAllString_component:
  assumes "component_ok c" and rest: "rest = [] \<or> \<not> is_digit (hd rest)"
  shows "FindAllString (c @ rest) = c # FindAllString rest"
  using assms(1) unfolding component_ok_def
proof (elim disjE exE conjE)
  assume "c \<noteq> []" and d: "all_digits c"
  then obtain x xs where c: "c = x # xs" by (cases c) auto
  then have "is_digit x" using d by (simp add: all_digits_def)
  then show ?thesis
    using takeWhile_digits [OF d rest] by (simp add: c FindAllString_Cons)
next
  fix w ds assume c: "c = w @ ds" and w: "to_lower w \<in> set version_words" and ds: "all_digits ds"
  obtain x xs where x: "w = x # xs" "\<not> is_digit x" using word_not_digit [OF w] by (cases w) auto
  have "word_length (x # xs @ ds @ rest) = Some (length w)"
    using word_length_word [OF w, of "ds @ rest"] x by simp
  then show ?thesis
    using takeWhile_digits [OF ds rest] x by (simp add: c FindAllString_Cons)
qed

lemma word_length_dash: "word_length (CHR ''-'' # s) = None"
  by (simp add: word_length_def version_words_def to_lower_def char_lower_def is_upper_def)

lemma FindAllString_join: "\<forall>c\<in>set cs. component_ok c \<Longrightarrow> FindAllString (join ''-'' cs) = cs"
proof (induction "''-'' :: string" cs rule: join.induct)
  case (2 s)
  then show ?case using FindAllString_component [of s "[]"] by simp
next
  case (3 s t ss)
  then show ?case
    using FindAllString_component [of s "''-'' @ join ''-'' (t # ss)"]
    by (simp add: FindAllString_Cons [of "CHR ''-''"] word_length_dash is_digit_def)
qed simp

lemma FindAllString_ok: "\<forall>c\<in>set (FindAllString s). component_ok c"
  using version_components_ok [of s "length s"] by (simp add: FindAllString_def)

lemma matches_text_digits: "all_digits s \<Longrightarrow> \<not> matches_text s"
proof (induction s)
  case (Cons c s)
  have "word_length (c # s) \<noteq> Some k" for k
  proof
    assume "word_length (c # s) = Some k"
    from word_length_Some [OF this] word_not_digit [of "take k (c # s)"] Cons.prems
    show False by (cases k) (auto simp: all_digits_def)
  qed
  then show ?case using Cons by (auto simp: all_digits_def)
qed simp

text \<open>A normalized version that begins with a digit is its own normal form, so that normalizing it again (as the tags of a repository and the versions of a record both are) changes nothing.\<close>

theorem NormalizeVersion_stable:
  assumes "NormalizeVersion version = Inr n" and "n \<noteq> []" and "is_digit (hd n)"
  shows "NormalizeVersion n = Inr n"
proof -
  obtain cs where n: "n = join ''-'' cs" and ok: "\<forall>c\<in>set cs. component_ok c"
  proof -
    define s where "s = (if has_prefix version ''.'' then ''0'' @ version else version)"
    have s: "\<forall>c\<in>set (FindAllString s). component_ok c" by (rule FindAllString_ok)
    obtain c ds where f: "FindAllString s = c # ds"
      and n: "n = join ''-'' (if matches_text c then ds else c # ds)"
      using assms(1) by (auto simp: NormalizeVersion_def Let_def s_def [symmetric] split: list.splits)
    have "\<forall>c'\<in>set (if matches_text c then ds else c # ds). component_ok c'" using s f by auto
    with n that show thesis by blast
  qed
  then obtain c ds where cs: "cs = c # ds" using assms(2) by (cases cs) auto
  have f: "FindAllString n = c # ds" using FindAllString_join [OF ok] by (simp add: n cs)
  have c: "component_ok c" using ok by (simp add: cs)
  have hd: "hd n = hd c" using c by (cases ds) (auto simp: n cs component_ok_def word_not_digit)
  have "all_digits c"
    using c assms(3) word_not_digit unfolding hd component_ok_def by (metis hd_append2)
  then have "\<not> matches_text c" by (rule matches_text_digits)
  moreover have "\<not> has_prefix n ''.''"
    using assms(2,3) by (cases n) (auto simp: is_digit_def)
  ultimately show ?thesis by (simp add: NormalizeVersion_def Let_def f) (simp add: n cs)
qed

theorem NormalizeVersion_stable_witness:
  "NormalizeVersion ''1-8-0-RC0'' = Inr ''1-8-0-RC0''"
proof (rule NormalizeVersion_stable)
  show "NormalizeVersion ''v1.8.0-RC0'' = Inr ''1-8-0-RC0''" by code_simp
qed (simp_all add: is_digit_def)

section \<open>The order of the tags does not matter\<close>

lemma find_unique:
  assumes "\<And>x. x \<in> set xs \<Longrightarrow> P x \<longleftrightarrow> x = a"
  shows "find P xs = (if a \<in> set xs then Some a else None)"
  using assms by (induction xs) auto

lemma trim_prefix_dash:
  "has_prefix t p \<Longrightarrow> trim_prefix t p = s \<longleftrightarrow> t = p @ s"
  by (auto simp: has_prefix_iff)

lemma findFuzzyCommit_order:
  assumes ord: "iteration_order ord" and ord': "iteration_order ord'" and d: "distinct (keys tags)"
  shows "findFuzzyCommit ord v tags = findFuzzyCommit ord' v tags"
proof -
  define P where "P k = (case map_of tags k of None \<Rightarrow> False
      | Some t \<Rightarrow> nt_text t = matches_text v \<and> has_prefix k v)" for k
  define xs where "xs = filter P (ord (keys tags))"
  define ys where "ys = filter P (ord' (keys tags))"
  have s: "set xs = set ys" "distinct xs" "distinct ys"
    using iteration_orderD [OF ord d] iteration_orderD [OF ord' d] by (auto simp: xs_def ys_def)
  then have len: "length xs = length ys" by (metis distinct_card)
  have "find (\<lambda>t. trim_prefix t v = ''-0'') zs = (if v @ ''-0'' \<in> set zs then Some (v @ ''-0'') else None)"
    if "set zs \<subseteq> set xs" for zs
    using that by (intro find_unique trim_prefix_dash) (auto simp: xs_def P_def split: option.splits)
  then have f: "find (\<lambda>t. trim_prefix t v = ''-0'') xs = find (\<lambda>t. trim_prefix t v = ''-0'') ys"
    using s(1) by simp
  define F where "F zs = (case zs of [] \<Rightarrow> None
      | [t] \<Rightarrow> map_option nt_commit (map_of tags t)
      | ts \<Rightarrow> (case find (\<lambda>t. trim_prefix t v = ''-0'') ts of None \<Rightarrow> None
               | Some t \<Rightarrow> map_option nt_commit (map_of tags t)))" for zs
  have c: "findFuzzyCommit ord v tags = F xs" and c': "findFuzzyCommit ord' v tags = F ys"
    by (simp_all only: findFuzzyCommit_def Let_def xs_def ys_def P_def [abs_def] F_def)
  consider "xs = []" "ys = []" | t where "xs = [t]" "ys = [t]"
    | a b as a' b' as' where "xs = a # b # as" "ys = a' # b' # as'"
  proof (cases xs rule: remdups_adj.cases)
    case 1
    with s len that(1) show thesis by simp
  next
    case (2 x)
    with s len have "ys = [x]" by (cases ys) auto
    with 2 that(2) show thesis by simp
  next
    case (3 x y zs)
    then obtain a' b' as' where "ys = a' # b' # as'" using len by (cases ys rule: remdups_adj.cases) auto
    with 3 that(3) show thesis by blast
  qed
  then show ?thesis
  proof cases
    case 3
    with f show ?thesis unfolding c c' by (simp add: F_def)
  qed (simp_all add: c c')
qed

text \<open>The commit a version resolves to does not depend on the order in which Go visits the map of the normalized tags.\<close>

theorem VersionToCommit_order:
  assumes "iteration_order ord" and "iteration_order ord'" and "distinct (keys tags)"
  shows "VersionToCommit ord version tags = VersionToCommit ord' version tags"
  unfolding VersionToCommit_def findFuzzyCommit_order [OF assms] ..

definition tag_of :: "string \<Rightarrow> normalized_tag" where
  "tag_of c = \<lparr>nt_original = [], nt_commit = c, nt_text = False\<rparr>"

theorem VersionToCommit_order_witness:
  "VersionToCommit id ''1.2'' [(''1-2-0'', tag_of ''a''), (''1-2-1'', tag_of ''b'')]
     = VersionToCommit rev ''1.2'' [(''1-2-0'', tag_of ''a''), (''1-2-1'', tag_of ''b'')]"
  by (rule VersionToCommit_order [OF iteration_order_id iteration_order_rev]) (simp add: keys_def)

text \<open>
  A single tag whose name only continues the last number of the version counts as the
  version: of a repository with the tag 1.10 alone, the version 1.1 is the commit of that tag.
  And a version that is nothing but a word is the commit of the only tag there is.
\<close>

lemma version_takes_longer_number:
  "VersionToCommit id ''1.1'' [(''1-10'', tag_of ''abc'')] = Inr ''abc''"
  by code_simp

lemma word_takes_only_tag: "VersionToCommit id ''beta'' [(''4-2'', tag_of ''abc'')] = Inr ''abc''"
  by code_simp

section \<open>What the tags are\<close>

definition tag_entry :: "(string \<times> string) list \<Rightarrow> string \<Rightarrow> (string \<times> string) option" where
  "tag_entry m name =
     (case map_of m name of
        None \<Rightarrow> None
      | Some commit \<Rightarrow>
          if map_of m (name @ peeledSuffix) \<noteq> None then None
          else Some (if has_suffix name peeledSuffix then trim_suffix name peeledSuffix else name, commit))"

lemma has_suffix_iff: "has_suffix s p \<longleftrightarrow> (\<exists>r. s = r @ p)"
  unfolding has_suffix_def has_prefix_iff by (metis rev_append rev_rev_ident)

lemma trim_suffix_append [simp]: "trim_suffix (s @ p) p = s"
  by (simp add: trim_suffix_def has_suffix_iff)

lemma tag_entry_peeled:
  "tag_entry m (t @ peeledSuffix) = Some (t', c) \<longleftrightarrow>
     t' = t \<and> map_of m (t @ peeledSuffix) = Some c \<and> map_of m (t @ peeledSuffix @ peeledSuffix) = None"
  by (auto simp: tag_entry_def has_suffix_iff split: option.splits)

lemma tag_entry_plain:
  "\<not> has_suffix t peeledSuffix \<Longrightarrow> tag_entry m t = Some (t', c) \<longleftrightarrow>
     t' = t \<and> map_of m t = Some c \<and> map_of m (t @ peeledSuffix) = None"
  by (auto simp: tag_entry_def split: option.splits)

lemma tag_entry_Some:
  "tag_entry m n = Some (t, c) \<longleftrightarrow>
     n = t @ peeledSuffix \<and> map_of m n = Some c \<and> map_of m (n @ peeledSuffix) = None
   \<or> n = t \<and> \<not> has_suffix t peeledSuffix \<and> map_of m t = Some c \<and> map_of m (t @ peeledSuffix) = None"
proof (cases "has_suffix n peeledSuffix")
  case True
  then obtain r where r: "n = r @ peeledSuffix" by (auto simp: has_suffix_iff)
  show ?thesis using True unfolding r tag_entry_peeled by auto
next
  case False
  then have "n \<noteq> t @ peeledSuffix" by (auto simp: has_suffix_iff)
  then show ?thesis using tag_entry_plain [OF False] False by auto
qed

lemma tag_entry_inj:
  assumes "tag_entry m n = Some (t, c)" and "tag_entry m n' = Some (t, c')"
  shows "n = n'"
  using assms unfolding tag_entry_Some by auto

lemma unpeeledTags_set:
  "set (unpeeledTags m tags names) = set tags \<union> {e. \<exists>n\<in>set names. tag_entry m n = Some e}"
  by (induction m tags names rule: unpeeledTags.induct)
    (auto simp: tag_entry_def dom_def split: option.splits if_splits)

lemma unpeeledTags_distinct:
  assumes "distinct (map fst tags)" and "distinct names"
    and "\<forall>n\<in>set names. \<forall>t c. tag_entry m n = Some (t, c) \<longrightarrow> t \<notin> fst ` set tags"
  shows "distinct (map fst (unpeeledTags m tags names))"
  using assms
proof (induction names arbitrary: tags)
  case (Cons n names)
  show ?case
  proof (cases "tag_entry m n")
    case None
    then have "unpeeledTags m tags (n # names) = unpeeledTags m tags names"
      by (auto simp: tag_entry_def dom_def split: option.splits if_splits)
    then show ?thesis using Cons by simp
  next
    case (Some e)
    obtain t c where e: "e = (t, c)" by fastforce
    have t: "t \<notin> fst ` set tags" using Cons.prems(3) Some by (simp add: e)
    then have "(n, c) \<notin> set tags" if "t = n" using that by force
    then have "unpeeledTags m tags (n # names) = unpeeledTags m (tags @ [(t, c)]) names"
      using Some by (auto simp: e tag_entry_def dom_def split: option.splits if_splits)
    moreover have "distinct (map fst (unpeeledTags m (tags @ [(t, c)]) names))"
    proof (rule Cons.IH)
      show "\<forall>n'\<in>set names. \<forall>t' c'. tag_entry m n' = Some (t', c') \<longrightarrow> t' \<notin> fst ` set (tags @ [(t, c)])"
      proof (intro ballI allI impI)
        fix n' t' c'
        assume n': "n' \<in> set names" and e': "tag_entry m n' = Some (t', c')"
        have "t' \<noteq> t"
          using tag_entry_inj [of m n t c n' c'] Some e' n' Cons.prems(2) by (auto simp: e)
        then show "t' \<notin> fst ` set (tags @ [(t, c)])" using Cons.prems(3) n' e' by simp
      qed
    qed (use Cons.prems t in auto)
    ultimately show ?thesis by simp
  qed
qed simp

lemma distinct_tagsMap: "distinct (keys (tagsMap refs))"
proof -
  have "distinct (keys m) \<Longrightarrow>
      distinct (keys (fold (\<lambda>(name, hash). AList.update name hash) refs m))" for m
    by (induction refs arbitrary: m) auto
  then show ?thesis by (simp add: tagsMap_def keys_def)
qed

text \<open>The tags of a repository come sorted and each once, whatever the order in which Go visits the map of references; the commit of a tag is the one its peeled reference names if there is such a reference, and otherwise the one of the reference itself.\<close>

theorem RepoTags_commits:
  assumes ord: "iteration_order ord"
  shows "sorted (map fst (RepoTags ord refs)) \<and> distinct (map fst (RepoTags ord refs))
    \<and> (\<forall>tag commit. (tag, commit) \<in> set (RepoTags ord refs) \<longleftrightarrow>
         map_of (tagsMap refs) (tag @ peeledSuffix) = Some commit
           \<and> map_of (tagsMap refs) (tag @ peeledSuffix @ peeledSuffix) = None
       \<or> map_of (tagsMap refs) tag = Some commit
           \<and> map_of (tagsMap refs) (tag @ peeledSuffix) = None \<and> \<not> has_suffix tag peeledSuffix)"
proof -
  let ?m = "tagsMap refs" and ?names = "ord (keys (tagsMap refs))"
  have n: "distinct ?names" "set ?names = dom (map_of ?m)"
    using iteration_orderD [OF ord distinct_tagsMap [of refs]] by auto
  have r: "RepoTags ord refs = sort_key fst (unpeeledTags ?m [] ?names)"
    by (simp add: RepoTags_def Let_def)
  have "distinct (map fst (unpeeledTags ?m [] ?names))"
    using n(1) by (intro unpeeledTags_distinct) auto
  then have "distinct (map fst (RepoTags ord refs))"
    unfolding r by (simp add: distinct_map)
  moreover have "(tag, commit) \<in> set (RepoTags ord refs) \<longleftrightarrow>
         map_of ?m (tag @ peeledSuffix) = Some commit
           \<and> map_of ?m (tag @ peeledSuffix @ peeledSuffix) = None
       \<or> map_of ?m tag = Some commit
           \<and> map_of ?m (tag @ peeledSuffix) = None \<and> \<not> has_suffix tag peeledSuffix" for tag commit
  proof -
    have "(tag, commit) \<in> set (RepoTags ord refs) \<longleftrightarrow> (\<exists>n. tag_entry ?m n = Some (tag, commit))"
      unfolding r by (auto simp: unpeeledTags_set n(2) tag_entry_def split: option.splits)
    also have "\<dots> \<longleftrightarrow> map_of ?m (tag @ peeledSuffix) = Some commit
           \<and> map_of ?m (tag @ peeledSuffix @ peeledSuffix) = None
       \<or> map_of ?m tag = Some commit
           \<and> map_of ?m (tag @ peeledSuffix) = None \<and> \<not> has_suffix tag peeledSuffix"
      unfolding tag_entry_Some by auto
    finally show ?thesis .
  qed
  ultimately show ?thesis by (simp add: r)
qed

theorem RepoTags_commits_witness:
  "(''v1'', ''commit'') \<in> set (RepoTags rev [(''v1'', ''object''), (''v1^{}'', ''commit'')])"
proof -
  have "map_of (tagsMap [(''v1'', ''object''), (''v1^{}'', ''commit'')]) (''v1'' @ peeledSuffix) = Some ''commit''
    \<and> map_of (tagsMap [(''v1'', ''object''), (''v1^{}'', ''commit'')]) (''v1'' @ peeledSuffix @ peeledSuffix) = None"
    by (simp add: tagsMap_def peeledSuffix_def)
  with RepoTags_commits [OF iteration_order_rev, of "[(''v1'', ''object''), (''v1^{}'', ''commit'')]"]
  show ?thesis by blast
qed

end
