(* ===== verification/Conversion.thy ===== *)
theory Conversion
  imports Ranges Tags "HOL-Library.Multiset"
begin

text \<open>
  From the version ranges of a CVE to commit ranges (\<open>vulnfeeds/conversion/common.go\<close>):
  resolving ranges with the tags of repositories (\<open>GitVersionsToCommits\<close>, \<open>ProcessRanges\<close>),
  leaving out the copies of what has been resolved (\<open>FilterUnresolvedRanges\<close>) and listing
  the rest (\<open>CreateUnresolvedRanges\<close>). What the network and the cache answer for a repository
  is a parameter, indexed by how many repositories are left, and so are the parser of CPE names
  (package \<open>naming\<close>) and the order in which Go visits a map. A range is stored in a struct as
  the JSON of its events, under the names the OSV schema gives the fields.
\<close>

section \<open>Resolving versions\<close>

text \<open>What is known of a repository: its canonical link and its normalized tags, or why not.\<close>

datatype repo_answer =
    RepoInvalid
  | LinkFailed bool
  | TagsFailed string bool
  | TagsOf string "(string \<times> normalized_tag) list"

definition put_string :: "string \<Rightarrow> string \<Rightarrow> struct_fields \<Rightarrow> struct_fields" where
  "put_string k v fs = (if v = [] then fs else put_field k (JStr v) fs)"

definition event_json :: "schema_event \<Rightarrow> json" where
  "event_json e =
     JObj (put_string ''introduced'' (se_introduced e) (put_string ''fixed'' (se_fixed e)
       (put_string ''last_affected'' (se_last_affected e) (put_string ''limit'' (se_limit e) []))))"

definition last_value :: "(schema_event \<Rightarrow> string) \<Rightarrow> schema_event list \<Rightarrow> string" where
  "last_value f events = fold (\<lambda>e v. if f e \<noteq> [] then f e else v) events []"

definition commitOf ::
  "(string list \<Rightarrow> string list) \<Rightarrow> (string \<times> normalized_tag) list \<Rightarrow> string \<Rightarrow> conversion_metrics
     \<Rightarrow> string \<times> conversion_metrics" where
  "commitOf ord tags version mt =
     (case VersionToCommit ord version tags of
        Inr c \<Rightarrow> (c, mt)
      | Inl e \<Rightarrow> ([], AddNote (NoCommitFor version) mt))"

text \<open>One range with the tags of a repository: the commit range, if its end is a commit.\<close>

definition resolveRange ::
  "(string list \<Rightarrow> string list) \<Rightarrow> string \<Rightarrow> (string \<times> normalized_tag) list \<Rightarrow> range_with_metadata
     \<Rightarrow> store \<Rightarrow> conversion_metrics \<Rightarrow> store \<times> conversion_metrics \<times> range_with_metadata option" where
  "resolveRange ord repo tags vr st mt =
     (let events = rn_events (rm_range vr); md = rm_metadata vr;
          introduced = last_value se_introduced events;
          (introducedCommit, mt1) =
            (if introduced = ''0'' then (''0'', mt) else commitOf ord tags introduced mt);
          (fixedCommit, mt2) = commitOf ord tags (last_value se_fixed events) mt1;
          (lastAffectedCommit, mt3) = commitOf ord tags (last_value se_last_affected events) mt2
      in if fixedCommit \<noteq> [] \<or> lastAffectedCommit \<noteq> [] then
           (let newVR = (if fixedCommit \<noteq> []
                         then BuildGitVersionRange introducedCommit [] fixedCommit repo
                         else BuildGitVersionRange introducedCommit lastAffectedCommit [] repo);
                ds = put_field extracted (JList (map event_json events))
                       (put_string ''cpe'' (md_cpe md) (put_string ''source'' (md_source md) []))
            in if events \<noteq> []
               then (st @ [ds], mt3,
                     Some \<lparr>rm_range = newVR\<lparr>rn_ds := Some (length st)\<rparr>, rm_metadata = md\<rparr>)
               else (st, mt3, Some \<lparr>rm_range = newVR, rm_metadata = md\<rparr>))
         else (st, mt3, None))"

text \<open>
  All ranges with the tags of a repository. A range that names a repository is only resolved
  with this one, and a range that names none not with a repository another range names.
\<close>

fun resolveRanges ::
  "(string list \<Rightarrow> string list) \<Rightarrow> string set \<Rightarrow> string \<Rightarrow> (string \<times> normalized_tag) list
     \<Rightarrow> store \<Rightarrow> conversion_metrics \<Rightarrow> range_with_metadata list
     \<Rightarrow> store \<times> conversion_metrics \<times> range_with_metadata list \<times> range_with_metadata list" where
  "resolveRanges ord claimed repo tags st mt [] = (st, mt, [], [])"
| "resolveRanges ord claimed repo tags st mt (vr # vrs) =
     (let own = rn_repo (rm_range vr) in
      if own \<noteq> [] \<and> own \<noteq> repo \<or> own = [] \<and> repo \<in> claimed
      then (let (st', mt', new, still) = resolveRanges ord claimed repo tags st mt vrs
            in (st', mt', new, vr # still))
      else
        (case resolveRange ord repo tags vr st mt of
           (st1, mt1, Some r) \<Rightarrow>
             (let (st', mt', new, still) = resolveRanges ord claimed repo tags st1 mt1 vrs
              in (st', mt', r # new, still))
         | (st1, mt1, None) \<Rightarrow>
             (let (st', mt', new, still) = resolveRanges ord claimed repo tags st1 mt1 vrs
              in (st', mt', new, vr # still))))"

text \<open>The loop over the repositories; a rate limit ends it with nothing and the outcome Error.\<close>

record resolution =
  rs_store :: store
  rs_metrics :: conversion_metrics
  rs_new :: "range_with_metadata list"
  rs_unresolved :: "range_with_metadata list"
  rs_repos :: "string list"

definition rateLimited :: "store \<Rightarrow> conversion_metrics \<Rightarrow> resolution" where
  "rateLimited st mt =
     \<lparr>rs_store = st, rs_metrics = mt\<lparr>cm_outcome := ConversionError\<rparr>, rs_new = [],
      rs_unresolved = [], rs_repos = []\<rparr>"

fun resolveRepos ::
  "(string list \<Rightarrow> string list) \<Rightarrow> (nat \<Rightarrow> string \<Rightarrow> repo_answer) \<Rightarrow> string set \<Rightarrow> string list
     \<Rightarrow> resolution \<Rightarrow> resolution" where
  "resolveRepos ord look claimed [] rs = rs"
| "resolveRepos ord look claimed (repo # repos) rs =
     (if rs_unresolved rs = [] then rs
      else case look (length repos) repo of
        RepoInvalid \<Rightarrow> resolveRepos ord look claimed repos rs
      | LinkFailed limited \<Rightarrow>
          (let mt = AddNote (NoCanonicalLink repo) (rs_metrics rs) in
           if limited then rateLimited (rs_store rs) mt
           else resolveRepos ord look claimed repos (rs\<lparr>rs_metrics := mt\<rparr>))
      | TagsFailed repo' limited \<Rightarrow>
          (if limited then rateLimited (rs_store rs) (rs_metrics rs)
           else resolveRepos ord look claimed repos
                  (rs\<lparr>rs_metrics := AddNote (NoTags repo') (rs_metrics rs)\<rparr>))
      | TagsOf repo' tags \<Rightarrow>
          (let (st, mt, new, still) =
                 resolveRanges ord claimed repo' tags (rs_store rs) (rs_metrics rs) (rs_unresolved rs)
           in resolveRepos ord look claimed repos
                \<lparr>rs_store = st, rs_metrics = mt, rs_new = rs_new rs @ new, rs_unresolved = still,
                 rs_repos = rs_repos rs @ map (\<lambda>_. repo') new\<rparr>))"

definition claimedRepos :: "range_with_metadata list \<Rightarrow> string set" where
  "claimedRepos ranges = set (filter (\<lambda>r. r \<noteq> []) (map (rn_repo \<circ> rm_range) ranges))"

definition GitVersionsToCommits ::
  "(string list \<Rightarrow> string list) \<Rightarrow> (nat \<Rightarrow> string \<Rightarrow> repo_answer) \<Rightarrow> store
     \<Rightarrow> range_with_metadata list \<Rightarrow> string list \<Rightarrow> conversion_metrics \<Rightarrow> resolution" where
  "GitVersionsToCommits ord look st ranges repos mt =
     resolveRepos ord look (claimedRepos ranges) repos
       \<lparr>rs_store = st, rs_metrics = mt, rs_new = [], rs_unresolved = ranges, rs_repos = []\<rparr>"

text \<open>\<open>ProcessRanges\<close>: the outcome and the counters of the metrics.\<close>

definition addSources :: "range_with_metadata list \<Rightarrow> string list \<Rightarrow> string list" where
  "addSources ranges sources =
     fold (\<lambda>ra ss. let s = md_source (rm_metadata ra) in if s = [] then ss else set_add s ss)
       ranges sources"

definition ProcessRanges ::
  "(string list \<Rightarrow> string list) \<Rightarrow> (nat \<Rightarrow> string \<Rightarrow> repo_answer) \<Rightarrow> store
     \<Rightarrow> range_with_metadata list \<Rightarrow> string list \<Rightarrow> conversion_metrics \<Rightarrow> resolution" where
  "ProcessRanges ord look st ranges repos mt =
     (if ranges = []
      then \<lparr>rs_store = st, rs_metrics = mt, rs_new = [], rs_unresolved = [], rs_repos = []\<rparr>
      else
        (let rs = GitVersionsToCommits ord look st ranges repos mt;
             r = rs_new rs; un = rs_unresolved rs; m = rs_metrics rs;
             m = (if r \<noteq> []
                  then SetOutcome Successful (m\<lparr>cm_resolved := cm_resolved m + int (length r)\<rparr>)
                  else m);
             m = (if un \<noteq> []
                  then (let m = m\<lparr>cm_unresolved := cm_unresolved m + int (length un)\<rparr>
                        in if r = [] then SetOutcome NoCommitRanges m else m)
                  else m)
         in rs\<lparr>rs_metrics := m\<lparr>cm_sources := addSources ranges (cm_sources m)\<rparr>\<rparr>))"

section \<open>What is left unresolved\<close>

text \<open>\<open>FilterUnresolvedRanges\<close>: a range is known by its CPE and the sorted list of its events.\<close>

definition event_string :: "string \<Rightarrow> string \<Rightarrow> string \<Rightarrow> string" where
  "event_string introduced fixed lastAffected = introduced @ ''|'' @ fixed @ ''|'' @ lastAffected"

definition string_field :: "struct_fields \<Rightarrow> string \<Rightarrow> string" where
  "string_field fs k = (case map_of fs k of Some (JStr s) \<Rightarrow> s | _ \<Rightarrow> [])"

fun extractedStrings :: "json list \<Rightarrow> string list" where
  "extractedStrings [] = []"
| "extractedStrings (JObj fs # vs) =
     event_string (string_field fs ''introduced'') (string_field fs ''fixed'')
       (string_field fs ''last_affected'') # extractedStrings vs"
| "extractedStrings (v # vs) = extractedStrings vs"

definition eventStrings :: "schema_event list \<Rightarrow> string list" where
  "eventStrings events =
     map (\<lambda>e. event_string (se_introduced e) (se_fixed e) (se_last_affected e)) events"

type_synonym range_key = "string \<times> string"

definition rangeKey :: "string \<Rightarrow> string list \<Rightarrow> range_key" where
  "rangeKey cpe strs = (cpe, join '','' (slices_sort strs))"

definition resolvedKey :: "store \<Rightarrow> range_with_metadata \<Rightarrow> range_key" where
  "resolvedKey st r =
     (let fromStruct = (case ds_fields st (rm_range r) of
            None \<Rightarrow> []
          | Some fs \<Rightarrow> (case map_of fs extracted of Some (JList vs) \<Rightarrow> extractedStrings vs | _ \<Rightarrow> []))
      in rangeKey (md_cpe (rm_metadata r))
           (if fromStruct = [] then eventStrings (rn_events (rm_range r)) else fromStruct))"

definition unresolvedKey :: "range_with_metadata \<Rightarrow> range_key" where
  "unresolvedKey ur = rangeKey (md_cpe (rm_metadata ur)) (eventStrings (rn_events (rm_range ur)))"

definition FilterUnresolvedRanges ::
  "store \<Rightarrow> range_with_metadata list \<Rightarrow> range_with_metadata list \<Rightarrow> range_with_metadata list" where
  "FilterUnresolvedRanges st resolved unresolved =
     filter (\<lambda>ur. unresolvedKey ur \<notin> set (map (resolvedKey st) resolved)) unresolved"

text \<open>\<open>CreateUnresolvedRanges\<close>: one entry for each source and product, in their order.\<close>

definition RemoveQuoting :: "string \<Rightarrow> string" where
  "RemoveQuoting s = filter (\<lambda>c. c \<noteq> CHR 92) s"

definition ParseCPE ::
  "(string \<Rightarrow> (string \<times> string) option) \<Rightarrow> string \<Rightarrow> (string \<times> string) option" where
  "ParseCPE unbind s =
     (if \<not> has_prefix s ''cpe:'' then None
      else map_option (\<lambda>(vendor, product). (RemoveQuoting vendor, RemoveQuoting product)) (unbind s))"

definition unresolvedGroup ::
  "(string \<Rightarrow> (string \<times> string) option) \<Rightarrow> range_with_metadata \<Rightarrow> string \<times> string" where
  "unresolvedGroup unbind ur =
     (let cpe = md_cpe (rm_metadata ur) in
      (md_source (rm_metadata ur),
       if cpe = [] then []
       else case ParseCPE unbind cpe of Some (vendor, product) \<Rightarrow> vendor @ '':'' @ product | None \<Rightarrow> cpe))"

definition kept_event :: "schema_event \<Rightarrow> bool" where
  "kept_event e \<longleftrightarrow>
     se_introduced e \<noteq> ''0'' \<and> se_introduced e \<noteq> [] \<or> se_last_affected e \<noteq> [] \<or> se_fixed e \<noteq> []"

definition unresolvedEntry :: "string \<times> string \<Rightarrow> range_with_metadata list \<Rightarrow> json" where
  "unresolvedEntry k ranges =
     (let cpes = sorted_list_of_set (set (filter (\<lambda>c. c \<noteq> []) (map (md_cpe \<circ> rm_metadata) ranges)));
          events = filter kept_event (concat (map (rn_events \<circ> rm_range) ranges))
      in JObj (put_field extracted (JList (map event_json events))
           (put_string ''vendor_product'' (snd k) (put_string ''source'' (fst k)
             (if cpes = [] then [] else put_field ''cpes'' (JList (map JStr cpes)) [])))))"

definition CreateUnresolvedRanges ::
  "(string \<Rightarrow> (string \<times> string) option) \<Rightarrow> range_with_metadata list \<Rightarrow> json list option" where
  "CreateUnresolvedRanges unbind unresolved =
     (if unresolved = [] then None
      else
        (let group = unresolvedGroup unbind;
             ks = sort_key fst (sort_key snd (set_add_all (map group unresolved) []))
         in Some (map (\<lambda>k. unresolvedEntry k (filter (\<lambda>ur. group ur = k) unresolved)) ks)))"

section \<open>Nothing is lost while resolving\<close>

text \<open>
  A commit range made out of a version range: it has its metadata and its repository, if it
  names one (a claimed repository is only used by the ranges that name it), and its struct
  holds the events it was made from.
\<close>

definition resolved_as ::
  "string set \<Rightarrow> store \<Rightarrow> range_with_metadata \<Rightarrow> range_with_metadata \<Rightarrow> bool" where
  "resolved_as claimed st vr r \<longleftrightarrow>
     rm_metadata r = rm_metadata vr \<and> rn_type (rm_range r) = RangeGit
   \<and> (if rn_repo (rm_range vr) = [] then rn_repo (rm_range r) \<notin> claimed
      else rn_repo (rm_range r) = rn_repo (rm_range vr))
   \<and> events_of vr \<noteq> []
   \<and> (\<exists>a < length st. rn_ds (rm_range r) = Some a
        \<and> map_of (st ! a) extracted = Some (JList (map event_json (events_of vr))))"

lemma resolved_as_append: "resolved_as claimed st vr r \<Longrightarrow> resolved_as claimed (st @ xs) vr r"
  unfolding resolved_as_def by (metis length_append nth_append trans_less_add1)

lemma commitOf_empty: "commitOf ord tags [] mt = ([], mt)"
  by (simp add: commitOf_def VersionToCommit_def)

lemma commitOf_metrics:
  "commitOf ord tags v mt = (c, mt') \<Longrightarrow>
   cm_resolved mt' = cm_resolved mt \<and> cm_unresolved mt' = cm_unresolved mt \<and> cm_outcome mt' = cm_outcome mt"
  by (auto simp: commitOf_def AddNote_def split: sum.splits)

lemma resolveRange_spec:
  assumes "resolveRange ord repo tags vr st mt = (st', mt', res)"
    and own: "if rn_repo (rm_range vr) = [] then repo \<notin> claimed else rn_repo (rm_range vr) = repo"
  shows "case res of
      None \<Rightarrow> st' = st
    | Some r \<Rightarrow> (\<exists>ds. st' = st @ [ds]) \<and> resolved_as claimed st' vr r
        \<and> rn_repo (rm_range r) = repo \<and> rn_ds (rm_range r) = Some (length st)"
    and "cm_resolved mt' = cm_resolved mt \<and> cm_unresolved mt' = cm_unresolved mt
       \<and> cm_outcome mt' = cm_outcome mt"
proof -
  let ?es = "events_of vr"
  obtain ic mt1 where i: "(if last_value se_introduced ?es = ''0'' then (''0'', mt)
      else commitOf ord tags (last_value se_introduced ?es) mt) = (ic, mt1)" by fastforce
  obtain fc mt2 where f: "commitOf ord tags (last_value se_fixed ?es) mt1 = (fc, mt2)" by fastforce
  obtain lc mt3 where l: "commitOf ord tags (last_value se_last_affected ?es) mt2 = (lc, mt3)" by fastforce
  have m: "mt' = mt3" and r: "?es = [] \<Longrightarrow> fc = [] \<and> lc = []"
    using assms(1) i f l
    by (auto simp: resolveRange_def Let_def last_value_def commitOf_empty split: if_splits)
  show "cm_resolved mt' = cm_resolved mt \<and> cm_unresolved mt' = cm_unresolved mt
       \<and> cm_outcome mt' = cm_outcome mt"
    using i commitOf_metrics [OF f] commitOf_metrics [OF l] commitOf_metrics
    unfolding m by (auto split: if_splits)
  show "case res of
      None \<Rightarrow> st' = st
    | Some r \<Rightarrow> (\<exists>ds. st' = st @ [ds]) \<and> resolved_as claimed st' vr r
        \<and> rn_repo (rm_range r) = repo \<and> rn_ds (rm_range r) = Some (length st)"
    using assms(1) i f l r own
    by (auto simp: resolveRange_def Let_def resolved_as_def split: if_splits)
qed

lemma resolveRanges_spec:
  assumes "resolveRanges ord claimed repo tags st mt vrs = (st', mt', new, still)"
  shows "\<exists>done xs. st' = st @ xs \<and> mset vrs = mset done + mset still
    \<and> list_all2 (resolved_as claimed st') done new
    \<and> (\<forall>r\<in>set new. rn_repo (rm_range r) = repo)
    \<and> distinct (addresses new) \<and> (\<forall>a\<in>set (addresses new). length st \<le> a \<and> a < length st')
    \<and> cm_resolved mt' = cm_resolved mt \<and> cm_unresolved mt' = cm_unresolved mt
    \<and> cm_outcome mt' = cm_outcome mt"
  using assms
proof (induction vrs arbitrary: st mt new still)
  case Nil
  then show ?case by auto
next
  case (Cons vr vrs)
  let ?own = "rn_repo (rm_range vr)"
  show ?case
  proof (cases "?own \<noteq> [] \<and> ?own \<noteq> repo \<or> ?own = [] \<and> repo \<in> claimed")
    case True
    obtain still1 where run: "resolveRanges ord claimed repo tags st mt vrs = (st', mt', new, still1)"
      and s: "still = vr # still1"
      using Cons.prems True by (auto simp: Let_def split: prod.splits)
    from Cons.IH [OF run] show ?thesis unfolding s by (elim exE) (intro exI, auto)
  next
    case False
    obtain st1 mt1 res where one: "resolveRange ord repo tags vr st mt = (st1, mt1, res)"
      by (metis prod_cases3)
    have own: "if ?own = [] then repo \<notin> claimed else ?own = repo" using False by auto
    note spec = resolveRange_spec [OF one own]
    show ?thesis
    proof (cases res)
      case None
      obtain still1 where run: "resolveRanges ord claimed repo tags st1 mt1 vrs = (st', mt', new, still1)"
        and s: "still = vr # still1"
        using Cons.prems False one None by (auto simp: Let_def split: prod.splits)
      from Cons.IH [OF run] spec None show ?thesis unfolding s by (elim exE) (intro exI, auto)
    next
      case (Some r)
      obtain new1 where run: "resolveRanges ord claimed repo tags st1 mt1 vrs = (st', mt', new1, still)"
        and n: "new = r # new1"
        using Cons.prems False one Some by (auto simp: Let_def split: prod.splits)
      from Cons.IH [OF run] obtain "done" xs where ih:
        "st' = st1 @ xs" "mset vrs = mset done + mset still"
        "list_all2 (resolved_as claimed st') done new1" "\<forall>r\<in>set new1. rn_repo (rm_range r) = repo"
        "distinct (addresses new1)" "\<forall>a\<in>set (addresses new1). length st1 \<le> a \<and> a < length st'"
        "cm_resolved mt' = cm_resolved mt1 \<and> cm_unresolved mt' = cm_unresolved mt1
          \<and> cm_outcome mt' = cm_outcome mt1" by blast
      from spec(1) Some obtain ds where st1: "st1 = st @ [ds]" and ra: "resolved_as claimed st1 vr r"
        and rr: "rn_repo (rm_range r) = repo" "rn_ds (rm_range r) = Some (length st)" by auto
      have "list_all2 (resolved_as claimed st') (vr # done) new"
        using ih(3) resolved_as_append [OF ra, of xs] by (simp add: n ih(1))
      moreover have "distinct (addresses new)"
        and "\<forall>a\<in>set (addresses new). length st \<le> a \<and> a < length st'"
        using ih(1,5,6) rr(2) by (auto simp: n st1)
      moreover have "mset (vr # vrs) = mset (vr # done) + mset still" using ih(2) by simp
      moreover have "st' = st @ (ds # xs)" using ih(1) st1 by simp
      ultimately show ?thesis using ih(4,7) rr(1) spec(2) n by (metis set_ConsD)
    qed
  qed
qed


text \<open>The invariant of the loop over the repositories.\<close>

definition resolution_ok :: "string set \<Rightarrow> range_with_metadata list \<Rightarrow> resolution \<Rightarrow> bool" where
  "resolution_ok claimed ranges rs \<longleftrightarrow>
     (\<exists>done. mset ranges = mset done + mset (rs_unresolved rs)
        \<and> list_all2 (resolved_as claimed (rs_store rs)) done (rs_new rs))
   \<and> rs_repos rs = map (rn_repo \<circ> rm_range) (rs_new rs)
   \<and> store_ok (rs_store rs) (rs_new rs)"

definition not_limited :: "(nat \<Rightarrow> string \<Rightarrow> repo_answer) \<Rightarrow> bool" where
  "not_limited look \<longleftrightarrow>
     (\<forall>i repo. look i repo \<noteq> LinkFailed True \<and> (\<forall>r. look i repo \<noteq> TagsFailed r True))"

lemma resolution_ok_step:
  assumes ok: "resolution_ok claimed ranges rs"
    and run: "resolveRanges ord claimed repo tags (rs_store rs) mt (rs_unresolved rs) = (st, mt', new, still)"
  shows "resolution_ok claimed ranges
     \<lparr>rs_store = st, rs_metrics = mt', rs_new = rs_new rs @ new, rs_unresolved = still,
      rs_repos = rs_repos rs @ map (\<lambda>_. repo) new\<rparr>"
proof -
  from resolveRanges_spec [OF run] obtain "done" xs where s:
    "st = rs_store rs @ xs" "mset (rs_unresolved rs) = mset done + mset still"
    "list_all2 (resolved_as claimed st) done new" "\<forall>r\<in>set new. rn_repo (rm_range r) = repo"
    "distinct (addresses new)" "\<forall>a\<in>set (addresses new). length (rs_store rs) \<le> a \<and> a < length st"
    by blast
  from ok obtain done0 where d: "mset ranges = mset done0 + mset (rs_unresolved rs)"
    "list_all2 (resolved_as claimed (rs_store rs)) done0 (rs_new rs)"
    and r: "rs_repos rs = map (rn_repo \<circ> rm_range) (rs_new rs)"
    and st: "store_ok (rs_store rs) (rs_new rs)"
    unfolding resolution_ok_def by blast
  have "list_all2 (resolved_as claimed st) done0 (rs_new rs)"
    using d(2) resolved_as_append unfolding s(1) by (rule list_all2_mono)
  then have "list_all2 (resolved_as claimed st) (done0 @ done) (rs_new rs @ new)"
    using s(3) by (rule list_all2_appendI)
  moreover have "mset ranges = mset (done0 @ done) + mset still" using d(1) s(2) by simp
  moreover have "store_ok st (rs_new rs @ new)"
    using st s(1,5,6) by (fastforce simp: store_ok_def)
  moreover have "map (\<lambda>_. repo) new = map (rn_repo \<circ> rm_range) new" using s(4) by simp
  ultimately show ?thesis
    unfolding resolution_ok_def using r by (intro conjI exI [of _ "done0 @ done"]) simp_all
qed

lemma resolveRepos_ok:
  assumes "resolution_ok claimed ranges rs" and "not_limited look"
  shows "resolution_ok claimed ranges (resolveRepos ord look claimed repos rs)
    \<and> cm_resolved (rs_metrics (resolveRepos ord look claimed repos rs)) = cm_resolved (rs_metrics rs)
    \<and> cm_unresolved (rs_metrics (resolveRepos ord look claimed repos rs)) = cm_unresolved (rs_metrics rs)"
  using assms(1)
proof (induction repos arbitrary: rs)
  case (Cons repo repos)
  show ?case
  proof (cases "rs_unresolved rs = []")
    case False
    show ?thesis
    proof (cases "look (length repos) repo")
      case RepoInvalid
      then show ?thesis using Cons False by simp
    next
      case (LinkFailed limited)
      with assms(2) have "\<not> limited" by (cases limited) (auto simp: not_limited_def)
      moreover have "resolution_ok claimed ranges (rs\<lparr>rs_metrics := AddNote (NoCanonicalLink repo) (rs_metrics rs)\<rparr>)"
        using Cons.prems by (simp add: resolution_ok_def)
      ultimately show ?thesis using Cons.IH False LinkFailed by (simp add: Let_def AddNote_def)
    next
      case (TagsFailed r limited)
      with assms(2) have "\<not> limited" by (cases limited) (auto simp: not_limited_def)
      moreover have "resolution_ok claimed ranges (rs\<lparr>rs_metrics := AddNote (NoTags r) (rs_metrics rs)\<rparr>)"
        using Cons.prems by (simp add: resolution_ok_def)
      ultimately show ?thesis using Cons.IH False TagsFailed by (simp add: AddNote_def)
    next
      case (TagsOf repo' tags)
      obtain st mt new still where run:
        "resolveRanges ord claimed repo' tags (rs_store rs) (rs_metrics rs) (rs_unresolved rs) = (st, mt, new, still)"
        by (metis prod_cases4)
      have "cm_resolved mt = cm_resolved (rs_metrics rs) \<and> cm_unresolved mt = cm_unresolved (rs_metrics rs)"
        using resolveRanges_spec [OF run] by blast
      with Cons.IH [OF resolution_ok_step [OF Cons.prems run]] show ?thesis
        using False TagsOf run by simp
    qed
  qed (use Cons.prems in simp)
qed simp

lemma GitVersionsToCommits_ok:
  fixes ord :: "string list \<Rightarrow> string list" and look :: "nat \<Rightarrow> string \<Rightarrow> repo_answer" and st :: store
    and ranges :: "range_with_metadata list" and repos :: "string list" and mt :: conversion_metrics
  assumes "not_limited look"
  defines "rs \<equiv> GitVersionsToCommits ord look st ranges repos mt"
  shows "resolution_ok (claimedRepos ranges) ranges rs
    \<and> cm_resolved (rs_metrics rs) = cm_resolved mt \<and> cm_unresolved (rs_metrics rs) = cm_unresolved mt"
proof -
  have "resolution_ok (claimedRepos ranges) ranges
      \<lparr>rs_store = st, rs_metrics = mt, rs_new = [], rs_unresolved = ranges, rs_repos = []\<rparr>"
    by (simp add: resolution_ok_def store_ok_def)
  from resolveRepos_ok [OF this assms(1)] show ?thesis
    unfolding rs_def GitVersionsToCommits_def by simp
qed

text \<open>C26: Unless a rate limit ends the run, resolving loses no range and duplicates none: the ranges given are those left unresolved and those a commit range was made from, one each; a commit range has the metadata of its range and the repository this names (one that names none is never resolved with a repository another names), its struct holds the events it was made from, and no two share a struct. The repositories reported are those of the commit ranges.\<close>

theorem GitVersions_conserves:
  assumes "not_limited look"
  shows "resolution_ok (claimedRepos ranges) ranges (GitVersionsToCommits ord look st ranges repos mt)"
  using GitVersionsToCommits_ok [OF assms] by blast

definition a_range :: "string \<Rightarrow> string \<Rightarrow> string \<Rightarrow> range_with_metadata" where
  "a_range repo cpe fixed =
     \<lparr>rm_range = \<lparr>rn_type = RangeEcosystem, rn_repo = repo,
        rn_events = [introduced_event ''0'', fixed_event fixed], rn_ds = None\<rparr>,
      rm_metadata = \<lparr>md_cpe = cpe, md_source = ''CPE_RANGE''\<rparr>\<rparr>"

definition a_repo :: "nat \<Rightarrow> string \<Rightarrow> repo_answer" where
  "a_repo i repo =
     (if repo = ''r'' then TagsOf ''r'' [(''1'', tag_of ''a''), (''2'', tag_of ''b'')]
      else TagsOf repo [])"

lemma a_repo_not_limited: "not_limited a_repo"
  by (simp add: not_limited_def a_repo_def)

theorem GitVersions_conserves_witness:
  "resolution_ok (claimedRepos [a_range ''r'' ''c'' ''1''])
     [a_range ''r'' ''c'' ''1''] (GitVersionsToCommits id a_repo [] [a_range ''r'' ''c'' ''1''] [''r''] no_metrics)"
  by (rule GitVersions_conserves [OF a_repo_not_limited])

text \<open>Unless a rate limit ends the run, processing ranges counts each of them once, as resolved or as unresolved.\<close>

theorem ProcessRanges_counts:
  fixes ord :: "string list \<Rightarrow> string list" and look :: "nat \<Rightarrow> string \<Rightarrow> repo_answer" and st :: store
    and ranges :: "range_with_metadata list" and repos :: "string list" and mt :: conversion_metrics
  assumes "not_limited look"
  defines "rs \<equiv> ProcessRanges ord look st ranges repos mt"
  shows "cm_resolved (rs_metrics rs) = cm_resolved mt + int (length (rs_new rs))
    \<and> cm_unresolved (rs_metrics rs) = cm_unresolved mt + int (length (rs_unresolved rs))
    \<and> length (rs_new rs) + length (rs_unresolved rs) = length ranges"
proof (cases "ranges = []")
  case False
  define gs where "gs = GitVersionsToCommits ord look st ranges repos mt"
  have g: "resolution_ok (claimedRepos ranges) ranges gs" "cm_resolved (rs_metrics gs) = cm_resolved mt"
    "cm_unresolved (rs_metrics gs) = cm_unresolved mt"
    using GitVersionsToCommits_ok [OF assms(1)] unfolding gs_def by blast+
  then obtain "done" where "mset ranges = mset done + mset (rs_unresolved gs)"
    and "length done = length (rs_new gs)"
    by (auto simp: resolution_ok_def dest: list_all2_lengthD)
  then have "length (rs_new gs) + length (rs_unresolved gs) = length ranges"
    by (metis size_mset size_union)
  with g False show ?thesis
    by (simp add: rs_def ProcessRanges_def Let_def gs_def [symmetric] SetOutcome_def)
qed (simp add: rs_def ProcessRanges_def)

theorem ProcessRanges_counts_witness:
  "length (rs_new (ProcessRanges id a_repo [] [a_range ''r'' ''c'' ''1''] [''r''] no_metrics))
     + length (rs_unresolved (ProcessRanges id a_repo [] [a_range ''r'' ''c'' ''1''] [''r''] no_metrics)) = 1"
  using ProcessRanges_counts [OF a_repo_not_limited, of id "[]" "[a_range ''r'' ''c'' ''1'']" "[''r'']" no_metrics]
  by simp

section \<open>Copies of what has been resolved\<close>

lemma string_field_put_string:
  "string_field (put_string k v fs) j =
     (if j = k then (if v = [] then string_field fs k else v) else string_field fs j)"
  by (simp add: string_field_def put_string_def)

lemma string_field_Nil [simp]: "string_field [] k = []"
  by (simp add: string_field_def)

lemma extractedStrings_events: "extractedStrings (map event_json es) = eventStrings es"
  by (induction es) (simp_all add: event_json_def eventStrings_def string_field_put_string)

lemma resolvedKey_eq:
  assumes "resolved_as claimed st vr r"
  shows "resolvedKey st r = unresolvedKey vr"
proof -
  obtain a where a: "rn_ds (rm_range r) = Some a"
    "map_of (st ! a) extracted = Some (JList (map event_json (events_of vr)))"
    and m: "rm_metadata r = rm_metadata vr" "events_of vr \<noteq> []"
    using assms by (auto simp: resolved_as_def)
  then have "eventStrings (events_of vr) \<noteq> []" by (simp add: eventStrings_def)
  with a m(1) show ?thesis
    by (simp add: resolvedKey_def unresolvedKey_def ds_fields_def extractedStrings_events)
qed

text \<open>Of the ranges left unresolved those are left out that are copies of a resolved one: with the same CPE and, in whatever order, the same events as a range that a commit range was made from.\<close>

theorem Filter_drops_copies:
  assumes "list_all2 (resolved_as claimed st) done new"
  shows "FilterUnresolvedRanges st new unresolved =
     filter (\<lambda>ur. \<forall>vr\<in>set done. md_cpe (rm_metadata ur) = md_cpe (rm_metadata vr) \<longrightarrow>
       join '','' (slices_sort (eventStrings (events_of ur)))
         \<noteq> join '','' (slices_sort (eventStrings (events_of vr)))) unresolved"
proof -
  have "map (resolvedKey st) new = map unresolvedKey done"
    using assms by (induction rule: list_all2_induct) (simp_all add: resolvedKey_eq)
  then show ?thesis
    by (auto simp: FilterUnresolvedRanges_def unresolvedKey_def rangeKey_def intro!: filter_cong)
qed

definition commit_range :: "string \<Rightarrow> nat \<Rightarrow> range_with_metadata" where
  "commit_range cpe a =
     \<lparr>rm_range = (BuildGitVersionRange ''0'' [] ''commit'' ''r'')\<lparr>rn_ds := Some a\<rparr>,
      rm_metadata = \<lparr>md_cpe = cpe, md_source = ''CPE_RANGE''\<rparr>\<rparr>"

definition extracted_from :: "range_with_metadata \<Rightarrow> struct_fields" where
  "extracted_from vr = [(extracted, JList (map event_json (events_of vr)))]"

definition two_extracted :: store where
  "two_extracted = [extracted_from (a_range ''r'' ''c'' ''1''), extracted_from (a_range ''r'' ''c'' ''2'')]"

lemma two_resolved:
  "list_all2 (resolved_as {''r''} two_extracted)
     [a_range ''r'' ''c'' ''1'', a_range ''r'' ''c'' ''2''] [commit_range ''c'' 0, commit_range ''c'' 1]"
  by (simp add: resolved_as_def a_range_def commit_range_def two_extracted_def extracted_from_def)

lemma key_of_copy: "events_of (a_range repo c v) = events_of (a_range repo' c v)"
    "md_cpe (rm_metadata (a_range repo c v)) = c"
  by (simp_all add: a_range_def)

theorem Filter_drops_copies_witness:
  "FilterUnresolvedRanges two_extracted [commit_range ''c'' 0, commit_range ''c'' 1]
     [a_range ''s'' ''c'' ''1''] = []"
  using Filter_drops_copies [OF two_resolved, of "[a_range ''s'' ''c'' ''1'']"]
    key_of_copy(1) [of "''s''" "''c''" "''1''" "''r''"] by (simp add: key_of_copy(2))

text \<open>
  The converter groups the resolved ranges before it filters. The grouped range points to the
  struct of its first range, whose extracted events are then those of the whole group, and the
  copies of the first range are no longer recognized.
\<close>

lemma grouping_hides_the_first:
  "FilterUnresolvedRanges (fst (GroupRanges two_extracted [commit_range ''c'' 0, commit_range ''c'' 1]))
     [commit_range ''c'' 0, commit_range ''c'' 1] [a_range ''s'' ''c'' ''1'']
   = [a_range ''s'' ''c'' ''1'']"
  by code_simp

section \<open>Converting a CVE of the NVD\<close>

text \<open>
  \<open>CVEToOSV\<close> of \<open>vulnfeeds/conversion/nvd/converter.go\<close>, from the version ranges on: the ranges
  of the CPEs are resolved, commits come from the references and, when no range could be
  resolved, ranges from the description; then the resolved ranges are grouped and made into
  affected entries, and the unresolved ones are listed. What is extracted from the record (the
  ranges, the commits and whether that failed or hit a rate limit) is a parameter; of the
  record the affected entries and the list of unresolved ranges are kept.
\<close>

record cve_input =
  ci_cpes :: "string list"
  ci_cpeRanges :: "range_with_metadata list"
  ci_commits :: "affected_commit list"
  ci_refsError :: "bool option"
  ci_textRanges :: "range_with_metadata list"

record osv_output =
  oo_affected :: "osv_range list"
  oo_unresolved :: "json list option"

definition affectedAndUnresolved ::
  "(string \<Rightarrow> (string \<times> string) option) \<Rightarrow> store \<Rightarrow> range_with_metadata list
     \<Rightarrow> range_with_metadata list \<Rightarrow> affected_commit list \<Rightarrow> string list \<Rightarrow> conversion_metrics
     \<Rightarrow> conversion_metrics \<times> osv_output" where
  "affectedAndUnresolved unbind st resolved unresolved commits successfulRepos mt =
     (let (st1, grouped) = GroupRanges st resolved;
          (st2, mt2, affected) = MergeRangesAndCreateAffected st1 grouped commits successfulRepos mt
      in (mt2, \<lparr>oo_affected = sort_key rn_repo affected,
                oo_unresolved = CreateUnresolvedRanges unbind
                                  (FilterUnresolvedRanges st2 resolved unresolved)\<rparr>))"

text \<open>The ranges of the description are resolved when none of the CPEs was.\<close>

definition resolveText ::
  "(string list \<Rightarrow> string list) \<Rightarrow> (nat \<Rightarrow> string \<Rightarrow> repo_answer) \<Rightarrow> cve_input \<Rightarrow> string list
     \<Rightarrow> resolution \<Rightarrow> conversion_metrics \<Rightarrow> resolution" where
  "resolveText ord look ci repos r1 mt =
     (if rs_new r1 = []
      then ProcessRanges ord look (rs_store r1) (ci_textRanges ci) repos
             (if ci_textRanges ci \<noteq> [] then AddNote TextVersionsFound mt else mt)
      else \<lparr>rs_store = rs_store r1, rs_metrics = mt, rs_new = [], rs_unresolved = [], rs_repos = []\<rparr>)"

definition CVEToOSV ::
  "(string list \<Rightarrow> string list) \<Rightarrow> (nat \<Rightarrow> string \<Rightarrow> repo_answer) \<Rightarrow> (nat \<Rightarrow> string \<Rightarrow> repo_answer)
     \<Rightarrow> (string \<Rightarrow> (string \<times> string) option) \<Rightarrow> cve_input \<Rightarrow> string list \<Rightarrow> conversion_metrics
     \<Rightarrow> osv_output option \<times> conversion_metrics \<times> conversion_outcome" where
  "CVEToOSV ord look look2 unbind ci repos mt =
     (if ci_cpes ci \<noteq> [] \<and> ParseCPE unbind (hd (ci_cpes ci)) = None
      then (None, AddNote InvalidCPE mt, ConversionUnknown)
      else if ci_cpeRanges ci = [] \<and> repos = []
      then (Some \<lparr>oo_affected = [], oo_unresolved = None\<rparr>, SetOutcome NoRepos mt, NoRepos)
      else if repos = []
      then (let mt = SetOutcome NoRepos mt;
                mt = mt\<lparr>cm_unresolved := cm_unresolved mt + int (length (ci_cpeRanges ci))\<rparr>
            in (Some \<lparr>oo_affected = [],
                      oo_unresolved = CreateUnresolvedRanges unbind (ci_cpeRanges ci)\<rparr>, mt, NoRepos))
      else
        (let r1 = ProcessRanges ord look [] (ci_cpeRanges ci) repos mt; mt = rs_metrics r1;
             commits = ci_commits ci
         in if cm_outcome mt = ConversionError then (None, mt, ConversionError)
            else
              (let mt = (if ci_refsError ci \<noteq> None then AddNote RefsFailed mt else mt) in
               if ci_refsError ci = Some True
               then (None, SetOutcome ConversionError mt, ConversionError)
               else
                 (let mt = (if commits \<noteq> []
                            then (let m = SetOutcome Successful (AddNote CommitsFound mt)
                                  in m\<lparr>cm_sources := cm_sources m @ [''REFERENCES'']\<rparr>)
                            else mt);
                      r2 = resolveText ord look2 ci repos r1 mt;
                      mt = rs_metrics r2
                  in if rs_new r1 = [] \<and> cm_outcome mt = ConversionError
                     then (None, mt, ConversionError)
                     else
                       (let resolved = rs_new r1 @ rs_new r2;
                            unresolved = rs_unresolved r1 @ rs_unresolved r2;
                            mt = (if resolved = [] \<and> commits = []
                                  then SetOutcome NoRanges (AddNote NoRangesDetected mt) else mt);
                            successfulRepos = remdups (rs_repos r1 @ map ac_repo commits @ rs_repos r2);
                            (mt', out) = affectedAndUnresolved unbind (rs_store r2) resolved unresolved
                                           commits successfulRepos mt
                        in if cm_outcome mt' = ConversionError then (None, mt', cm_outcome mt')
                           else (Some out, mt', cm_outcome mt'))))))"


text \<open>Grouping keeps the types and the repositories.\<close>

lemma GroupRanges_repos:
  assumes "GroupRanges st rs = (st', out)" and "store_ok st rs"
  shows "(\<lambda>r. (rn_type (rm_range r), rn_repo (rm_range r))) ` set out
       = (\<lambda>r. (rn_type (rm_range r), rn_repo (rm_range r))) ` set rs"
proof -
  let ?p = "\<lambda>(v :: range_value). (fst v, fst (snd v))"
  have "?p (cleanValue (groupSpec st rs k)) = (fst k, fst (snd k))" if k: "k \<in> set (groupKeys rs)" for k
  proof -
    from k have "filter (\<lambda>r. key_of r = k) rs \<noteq> []" by (auto simp: filter_empty_conv)
    then obtain r rs' where "filter (\<lambda>r. key_of r = k) rs = r # rs'"
      by (cases "filter (\<lambda>r. key_of r = k) rs") auto
    from groupSpec_eq [OF this] show ?thesis by simp
  qed
  then have "map ?p (map (range_value st') out) = map (\<lambda>k. (fst k, fst (snd k))) (groupKeys rs)"
    using conjunct1 [OF GroupRanges_values [OF assms]] by simp
  from arg_cong [OF this, of set] show ?thesis
    by (simp add: range_value_def image_image groupKey_def)
qed

lemma affectedAndUnresolved_repos:
  assumes run: "affectedAndUnresolved unbind st resolved unresolved commits repos mt = (mt', out)"
    and ok: "store_ok st resolved" and git: "\<forall>r\<in>set resolved. rn_type (rm_range r) = RangeGit"
    and repos: "set repos = (rn_repo \<circ> rm_range) ` set resolved \<union> ac_repo ` set commits"
  shows "map rn_repo (oo_affected out) = sorted_list_of_set (set repos)
    \<and> (\<forall>a\<in>set (oo_affected out). rn_type a = RangeGit
         \<and> (\<forall>c\<in>set commits. ac_repo c = rn_repo a \<longrightarrow> has_event a c))"
proof -
  obtain st1 grouped where g: "GroupRanges st resolved = (st1, grouped)" by fastforce
  obtain st2 mt2 affected where
    m: "MergeRangesAndCreateAffected st1 grouped commits repos mt = (st2, mt2, affected)"
    by (metis prod_cases3)
  note gr = GroupRanges_repos [OF g ok]
  have git': "\<forall>r\<in>set grouped. rn_type (rm_range r) = RangeGit"
  proof
    fix r assume "r \<in> set grouped"
    then have "(rn_type (rm_range r), rn_repo (rm_range r))
        \<in> (\<lambda>r. (rn_type (rm_range r), rn_repo (rm_range r))) ` set resolved"
      unfolding gr [symmetric] by (rule imageI)
    with git show "rn_type (rm_range r) = RangeGit" by auto
  qed
  have gr': "(rn_repo \<circ> rm_range) ` set grouped = (rn_repo \<circ> rm_range) ` set resolved"
    using arg_cong [OF gr, of "(`) snd"] by (simp add: image_image)
  have empty: "grouped = [] \<longleftrightarrow> resolved = []" using gr by auto
  note a = affected_entries [OF git' m]
  have known: "filter (repo_known grouped commits) (sorted_list_of_set (set repos)) = sorted_list_of_set (set repos)"
  proof (rule filter_True, rule ballI)
    fix repo assume "repo \<in> set (sorted_list_of_set (set repos))"
    then have "repo \<in> set repos" by simp
    then have "repo \<in> (rn_repo \<circ> rm_range) ` set grouped \<union> ac_repo ` set commits"
      by (simp only: repos gr')
    then show "repo_known grouped commits repo" by (auto simp: repo_known_def)
  qed
  have r: "map rn_repo affected = sorted_list_of_set (set repos)"
  proof (cases "grouped = []")
    case True
    then have "set repos = ac_repo ` set commits" using repos empty by simp
    with a True show ?thesis by simp
  next
    case False
    with a known show ?thesis by simp
  qed
  have "sorted (map rn_repo affected)" by (simp add: r)
  then have "oo_affected out = affected"
    using run by (simp add: affectedAndUnresolved_def g m sort_key_id_if_sorted)
      (auto simp: sorted_sort_id)
  with r a show ?thesis by (auto simp: entry_ok_def)
qed


lemma ProcessRanges_new:
  fixes ord :: "string list \<Rightarrow> string list" and look :: "nat \<Rightarrow> string \<Rightarrow> repo_answer" and st :: store
    and ranges :: "range_with_metadata list" and repos :: "string list" and mt :: conversion_metrics
  assumes "not_limited look"
  defines "rs \<equiv> ProcessRanges ord look st ranges repos mt"
  shows "store_ok (rs_store rs) (rs_new rs)" and "rs_repos rs = map (rn_repo \<circ> rm_range) (rs_new rs)"
    and "\<forall>r\<in>set (rs_new rs). rn_type (rm_range r) = RangeGit"
proof -
  have "resolution_ok (claimedRepos ranges) ranges rs"
    using GitVersionsToCommits_ok [OF assms(1)]
    by (simp add: rs_def ProcessRanges_def resolution_ok_def Let_def store_ok_def)
  then show "store_ok (rs_store rs) (rs_new rs)" "rs_repos rs = map (rn_repo \<circ> rm_range) (rs_new rs)"
    "\<forall>r\<in>set (rs_new rs). rn_type (rm_range r) = RangeGit"
    by (auto simp: resolution_ok_def resolved_as_def list_all2_conv_all_nth in_set_conv_nth)
qed


definition a_cve :: cve_input where
  "a_cve = \<lparr>ci_cpes = [], ci_cpeRanges = [a_range ''r'' ''c'' ''1''], ci_commits = [a_commit ''s'' ''f''],
     ci_refsError = None, ci_textRanges = []\<rparr>"

lemma a_cve_converted:
  "\<exists>out mt' outcome. CVEToOSV id a_repo a_repo (\<lambda>_. None) a_cve [''r''] no_metrics = (Some out, mt', outcome)"
proof -
  have "fst (CVEToOSV id a_repo a_repo (\<lambda>_. None) a_cve [''r''] no_metrics) \<noteq> None" by code_simp
  then show ?thesis by (metis option.exhaust prod.collapse)
qed


end
