(* ===== verification/Cpe.thy ===== *)
theory Cpe
  imports Coarse
begin

text \<open>
  The conversion between the two notations of CPE names
  (\<open>services/shared/pkg/cpe/conversion.go\<close>): the CPE 2.2 URI and the CPE 2.3 formatted string,
  both through a record of the eleven attributes. \<open>url.QueryEscape\<close> and
  \<open>url.QueryUnescape\<close> of the standard library are written out on bytes.
\<close>

section \<open>Escaping\<close>

definition unreserved :: "char \<Rightarrow> bool" where
  "unreserved c \<longleftrightarrow> is_alnum c \<or> c \<in> {CHR ''-'', CHR ''_'', CHR ''.'', CHR ''~''}"

definition upper_hex :: "nat \<Rightarrow> char" where
  "upper_hex n = ''0123456789ABCDEF'' ! (n mod 16)"

definition escape_char :: "char \<Rightarrow> string" where
  "escape_char c =
     (if unreserved c then [c]
      else if c = CHR '' '' then ''+''
      else [CHR ''%'', upper_hex (of_char c div 16), upper_hex (of_char c mod 16)])"

definition QueryEscape :: "string \<Rightarrow> string" where
  "QueryEscape s = concat (map escape_char s)"

fun QueryUnescape :: "string \<Rightarrow> string option" where
  "QueryUnescape [] = Some []"
| "QueryUnescape (c # s) =
     (if c = CHR ''%'' then
        (case s of
           a # b # rest \<Rightarrow>
             (case (hex_value a, hex_value b) of
                (Some h, Some l) \<Rightarrow> map_option ((#) (char_of (16 * h + l))) (QueryUnescape rest)
              | _ \<Rightarrow> None)
         | _ \<Rightarrow> None)
      else map_option ((#) (if c = CHR ''+'' then CHR '' '' else c)) (QueryUnescape s))"

definition wildcard :: string where
  "wildcard = ''*''"

definition pctDecode :: "string \<Rightarrow> string" where
  "pctDecode s =
     (if s = [] \<or> s = wildcard \<or> s = ''-'' then s
      else case QueryUnescape s of None \<Rightarrow> s | Some decoded \<Rightarrow> decoded)"

definition pctEncode :: "string \<Rightarrow> string" where
  "pctEncode s = (if s = wildcard \<or> s = [] \<or> s = ''-'' then s else QueryEscape s)"

section \<open>The attributes\<close>

record wfn =
  w_part :: string
  w_vendor :: string
  w_product :: string
  w_version :: string
  w_update :: string
  w_edition :: string
  w_language :: string
  w_sw_edition :: string
  w_target_sw :: string
  w_target_hw :: string
  w_other :: string

section \<open>Formatted strings\<close>

text \<open>\<open>strings.SplitN\<close> at a character, into at most so many parts (at least one).\<close>

fun split_n :: "nat \<Rightarrow> char \<Rightarrow> string \<Rightarrow> string list" where
  "split_n (Suc (Suc n)) c s =
     (case strings_cut s c of
        (a, b, found) \<Rightarrow> if found then a # split_n (Suc n) c b else [a])"
| "split_n n c s = [s]"

definition splitFS :: "string \<Rightarrow> string list" where
  "splitFS cpe = split_n 13 (CHR '':'') cpe"

text \<open>Backslash and colon become a colon (92 is the backslash).\<close>

fun normalizeFS :: "string \<Rightarrow> string" where
  "normalizeFS (a # b # s) =
     (if a = CHR 92 \<and> b = CHR '':'' then CHR '':'' # normalizeFS s else a # normalizeFS (b # s))"
| "normalizeFS s = s"

definition ParseFS :: "string \<Rightarrow> go_error + wfn" where
  "ParseFS cpeStr =
     (let parts = splitFS cpeStr; field = (\<lambda>i. normalizeFS (parts ! i)) in
      if length parts < 13 then Inl (GoErr ''CPE 2.3 FS must have 13 components'')
      else if parts ! 0 \<noteq> ''cpe'' \<or> parts ! 1 \<noteq> ''2.3'' then Inl (GoErr ''not a CPE 2.3 FS'')
      else Inr \<lparr>w_part = field 2, w_vendor = field 3, w_product = field 4, w_version = field 5,
                w_update = field 6, w_edition = field 7, w_language = field 8,
                w_sw_edition = field 9, w_target_sw = field 10, w_target_hw = field 11,
                w_other = field 12\<rparr>)"

definition ToFS :: "wfn \<Rightarrow> string" where
  "ToFS w =
     (let fields = [w_part w, w_vendor w, w_product w, w_version w, w_update w, w_edition w,
                    w_language w, w_sw_edition w, w_target_sw w, w_target_hw w, w_other w]
      in ''cpe:2.3:'' @ join '':'' (map (\<lambda>f. if f = [] then wildcard else f) fields))"

section \<open>URIs\<close>

definition pad_to :: "nat \<Rightarrow> string list \<Rightarrow> string list" where
  "pad_to n ps = ps @ replicate (n - length ps) []"

definition ParseURI :: "string \<Rightarrow> wfn" where
  "ParseURI uri =
     (let parts = pad_to 7 (strings_split (trim_prefix uri ''cpe:/'') '':'');
          edition = pctDecode (parts ! 5);
          w = \<lparr>w_part = pctDecode (parts ! 0), w_vendor = pctDecode (parts ! 1),
               w_product = pctDecode (parts ! 2), w_version = pctDecode (parts ! 3),
               w_update = pctDecode (parts ! 4), w_edition = [],
               w_language = (if length parts > 6 then pctDecode (parts ! 6) else []),
               w_sw_edition = [], w_target_sw = [], w_target_hw = [], w_other = []\<rparr>
      in if has_prefix edition ''~''
         then (let packed = pad_to 5 (strings_split (drop 1 edition) ''~'') in
               w\<lparr>w_edition := packed ! 0, w_sw_edition := packed ! 1, w_target_sw := packed ! 2,
                 w_target_hw := packed ! 3, w_other := packed ! 4\<rparr>)
         else w\<lparr>w_edition := edition\<rparr>)"

definition notSet :: "string \<Rightarrow> bool" where
  "notSet s \<longleftrightarrow> s = [] \<or> s = wildcard"

definition norm :: "string \<Rightarrow> string" where
  "norm s = (if s = wildcard then [] else s)"

definition packedEdition :: "wfn \<Rightarrow> string" where
  "packedEdition w =
     (if \<not> notSet (w_sw_edition w) \<or> \<not> notSet (w_target_sw w) \<or> \<not> notSet (w_target_hw w)
         \<or> \<not> notSet (w_other w)
      then ''~'' @ norm (w_edition w) @ ''~'' @ norm (w_sw_edition w) @ ''~''
             @ norm (w_target_sw w) @ ''~'' @ norm (w_target_hw w) @ ''~'' @ norm (w_other w)
      else norm (w_edition w))"

definition trim_right :: "char \<Rightarrow> string \<Rightarrow> string" where
  "trim_right c s = rev (dropWhile (\<lambda>d. d = c) (rev s))"

definition ToURI :: "wfn \<Rightarrow> string" where
  "ToURI w =
     (let components = [norm (w_part w), norm (w_vendor w), norm (w_product w), norm (w_version w),
                        norm (w_update w), packedEdition w, norm (w_language w)]
      in ''cpe:/'' @ trim_right (CHR '':'') (join '':'' (map pctEncode components)))"

definition URIToFS :: "string \<Rightarrow> go_error + string" where
  "URIToFS uri = Inr (ToFS (ParseURI uri))"

definition FSToURI :: "string \<Rightarrow> go_error + string" where
  "FSToURI fs = (case ParseFS fs of Inl e \<Rightarrow> Inl e | Inr w \<Rightarrow> Inr (ToURI w))"

definition IsFS :: "string \<Rightarrow> bool" where
  "IsFS s = has_prefix s ''cpe:2.3:''"

definition IsURI :: "string \<Rightarrow> bool" where
  "IsURI s = has_prefix s ''cpe:/''"

definition VendorProduct :: "string \<Rightarrow> string \<times> string" where
  "VendorProduct cpeStr =
     (if IsFS cpeStr
      then (let parts = splitFS cpeStr in
            if length parts \<ge> 5 then (normalizeFS (parts ! 3), normalizeFS (parts ! 4)) else ([], []))
      else if IsURI cpeStr
      then (let raw = trim_prefix cpeStr ''cpe:/'';
                raw = (if length raw > 2 then drop 2 raw else raw);
                parts = split_n 3 (CHR '':'') raw
            in if length parts \<ge> 2 then (pctDecode (parts ! 0), pctDecode (parts ! 1)) else ([], []))
      else ([], []))"

section \<open>Escaping and back\<close>

lemma hex_value_upper: "n < 16 \<Longrightarrow> hex_value (upper_hex n) = Some n"
proof -
  have "list_all (\<lambda>n. hex_value (upper_hex n) = Some n) [0..<16]" by code_simp
  then show "n < 16 \<Longrightarrow> hex_value (upper_hex n) = Some n" by (simp add: list_all_iff)
qed

lemma QueryUnescape_char: "QueryUnescape (escape_char c @ s) = map_option ((#) c) (QueryUnescape s)"
proof -
  have b: "of_char c < (256 :: nat)" by simp
  then have "of_char c div 16 < (16 :: nat)" by (intro less_mult_imp_div_less) simp
  then have h: "hex_value (upper_hex (of_char c div 16)) = Some (of_char c div 16)"
    "hex_value (upper_hex (of_char c mod 16)) = Some (of_char c mod 16)"
    by (simp_all add: hex_value_upper)
  have e: "16 * (of_char c div 16) + of_char c mod 16 = (of_char c :: nat)" by simp
  consider "unreserved c" | "\<not> unreserved c" "c = CHR '' ''" | "\<not> unreserved c" "c \<noteq> CHR '' ''"
    by blast
  then show ?thesis
  proof cases
    case 1
    then have "c \<noteq> CHR ''%'' \<and> c \<noteq> CHR ''+''"
      by (auto simp: unreserved_def is_alnum_def is_digit_def is_upper_def is_lower_def)
    with 1 show ?thesis by (simp add: escape_char_def)
  next
    case 3
    then show ?thesis by (simp add: escape_char_def h e del: mult_div_mod_eq)
  qed (simp add: escape_char_def)
qed

lemma QueryUnescape_Escape: "QueryUnescape (QueryEscape s) = Some s"
  by (induction s) (simp_all add: QueryEscape_def QueryUnescape_char)

lemma pctDecode_Encode [simp]: "pctDecode (pctEncode s) = s"
proof (cases "s = wildcard \<or> s = [] \<or> s = ''-''")
  case False
  have star: "QueryEscape s \<noteq> wildcard"
  proof
    assume "QueryEscape s = wildcard"
    with QueryUnescape_Escape [of s] have "QueryUnescape wildcard = Some s" by simp
    then show False using False by (simp add: wildcard_def)
  qed
  have "QueryEscape s \<noteq> []" using QueryUnescape_Escape [of s] False by auto
  moreover have "QueryEscape s \<noteq> ''-''" using QueryUnescape_Escape [of s] False by auto
  ultimately show ?thesis using False star by (simp add: pctDecode_def pctEncode_def QueryUnescape_Escape)
qed (auto simp: pctDecode_def pctEncode_def)

lemma pctEncode_no_colon: "CHR '':'' \<notin> set (pctEncode s)"
proof -
  have "upper_hex n \<noteq> CHR '':''" for n
  proof -
    have "list_all (\<lambda>n. upper_hex n \<noteq> CHR '':'') [0..<16]" by code_simp
    then have "upper_hex (n mod 16) \<noteq> CHR '':''" by (simp add: list_all_iff)
    then show ?thesis by (simp add: upper_hex_def)
  qed
  then have "CHR '':'' \<noteq> upper_hex n" for n by (metis (no_types))
  then have "CHR '':'' \<notin> set (escape_char c)" for c
    by (auto simp: escape_char_def unreserved_def is_alnum_def is_digit_def is_upper_def is_lower_def)
  then show ?thesis by (auto simp: pctEncode_def QueryEscape_def wildcard_def)
qed

lemma pctEncode_Nil [simp]: "pctEncode s = [] \<longleftrightarrow> s = []"
  using pctDecode_Encode [of s] by (metis pctDecode_def pctEncode_def)

section \<open>Formatted strings and back\<close>

lemma split_n_join:
  "ps \<noteq> [] \<Longrightarrow> \<forall>p\<in>set (butlast ps). c \<notin> set p \<Longrightarrow> split_n (length ps) c (join [c] ps) = ps"
proof (induction "[c]" ps rule: join.induct)
  case (3 s t ss)
  have "split_n (Suc (length ss)) c (join [c] (t # ss)) = t # ss"
    using 3 by simp
  then show ?case using 3(3) by (simp add: strings_cut_append)
qed auto

lemma normalizeFS_id: "CHR '':'' \<notin> set s \<Longrightarrow> normalizeFS s = s"
  by (induction s rule: normalizeFS.induct) auto

text \<open>A name whose attributes have no colon.\<close>

definition attributes :: "wfn \<Rightarrow> string list" where
  "attributes w =
     [w_part w, w_vendor w, w_product w, w_version w, w_update w, w_edition w, w_language w,
      w_sw_edition w, w_target_sw w, w_target_hw w, w_other w]"

definition no_char :: "char \<Rightarrow> wfn \<Rightarrow> bool" where
  "no_char c w \<longleftrightarrow> (\<forall>f\<in>set (attributes w). c \<notin> set f)"

definition map_wfn :: "(string \<Rightarrow> string) \<Rightarrow> wfn \<Rightarrow> wfn" where
  "map_wfn g w =
     \<lparr>w_part = g (w_part w), w_vendor = g (w_vendor w), w_product = g (w_product w),
      w_version = g (w_version w), w_update = g (w_update w), w_edition = g (w_edition w),
      w_language = g (w_language w), w_sw_edition = g (w_sw_edition w),
      w_target_sw = g (w_target_sw w), w_target_hw = g (w_target_hw w), w_other = g (w_other w)\<rparr>"

definition any :: "string \<Rightarrow> string" where
  "any f = (if f = [] then wildcard else f)"

lemma ToFS_join: "ToFS w = join '':'' (''cpe'' # ''2.3'' # map any (attributes w))"
  by (simp add: ToFS_def attributes_def any_def)

lemma splitFS_ToFS:
  assumes "no_char (CHR '':'') w"
  shows "splitFS (ToFS w) = ''cpe'' # ''2.3'' # map any (attributes w)"
proof -
  let ?ps = "''cpe'' # ''2.3'' # map any (attributes w)"
  have "\<forall>p\<in>set ?ps. CHR '':'' \<notin> set p"
    using assms by (auto simp: no_char_def any_def wildcard_def)
  then have "\<forall>p\<in>set (butlast ?ps). CHR '':'' \<notin> set p" by (blast dest: in_set_butlastD)
  then have "split_n (length ?ps) (CHR '':'') (join '':'' ?ps) = ?ps" by (intro split_n_join) simp_all
  moreover have "length ?ps = 13" by (simp add: attributes_def)
  ultimately show ?thesis by (simp only: splitFS_def ToFS_join)
qed

lemma ParseFS_ToFS_plain:
  assumes "no_char (CHR '':'') w"
  shows "ParseFS (ToFS w) = Inr (map_wfn any w)"
proof -
  have n: "normalizeFS (any f) = any f" if "f \<in> set (attributes w)" for f
    using assms that by (intro normalizeFS_id) (auto simp: no_char_def any_def wildcard_def)
  then show ?thesis
    by (simp add: ParseFS_def Let_def splitFS_ToFS [OF assms])
      (simp add: attributes_def map_wfn_def)
qed

text \<open>A colon in an attribute is not escaped, and an escaped one still separates two attributes.\<close>

lemma escaped_colon_splits:
  "VendorProduct (''cpe:2.3:a:v'' @ [CHR 92] @ '':w:p:1:*:*:*:*:*:*:*'') = (''v'' @ [CHR 92], ''w'')"
  by code_simp

section \<open>URIs and back\<close>

lemma strings_split_join:
  "ps \<noteq> [] \<Longrightarrow> \<forall>p\<in>set ps. c \<notin> set p \<Longrightarrow> strings_split (join [c] ps) [c] = ps"
  by (induction "[c]" ps rule: join.induct) (simp_all add: strings_split_single)

definition strip :: "string list \<Rightarrow> string list" where
  "strip ps = rev (dropWhile (\<lambda>p. p = []) (rev ps))"

lemma join_snoc: "ps \<noteq> [] \<Longrightarrow> join sep (ps @ [p]) = join sep ps @ sep @ p"
  by (induction sep ps rule: join.induct) auto

lemma trim_right_snoc: "trim_right c (s @ [c]) = trim_right c s"
  by (simp add: trim_right_def)

lemma trim_right_id: "s \<noteq> [] \<Longrightarrow> last s \<noteq> c \<Longrightarrow> trim_right c s = s"
  by (cases s rule: rev_cases) (auto simp: trim_right_def)

lemma trim_right_join:
  "\<forall>p\<in>set ps. c \<notin> set p \<Longrightarrow> trim_right c (join [c] ps) = join [c] (strip ps)"
proof (induction ps rule: rev_induct)
  case Nil
  then show ?case by (simp add: trim_right_def strip_def)
next
  case (snoc p ps)
  show ?case
  proof (cases "p = []")
    case True
    then have s: "strip (ps @ [p]) = strip ps" by (simp add: strip_def)
    show ?thesis
    proof (cases "ps = []")
      case True
      then show ?thesis using \<open>p = []\<close> by (simp add: trim_right_def strip_def)
    next
      case False
      then have "join [c] (ps @ [p]) = join [c] ps @ [c]" using True by (simp add: join_snoc)
      then show ?thesis using snoc by (simp add: trim_right_snoc s)
    qed
  next
    case False
    then have "strip (ps @ [p]) = ps @ [p]" by (simp add: strip_def)
    moreover have "join [c] (ps @ [p]) \<noteq> [] \<and> last (join [c] (ps @ [p])) \<noteq> c"
      using False snoc.prems last_in_set [OF False]
      by (cases "ps = []") (auto simp: join_snoc)
    ultimately show ?thesis by (simp add: trim_right_id)
  qed
qed

lemma pad_strip: "length ps = n \<Longrightarrow> pad_to n (strip ps) = ps"
proof -
  assume n: "length ps = n"
  have "\<exists>k. ps = strip ps @ replicate k []"
  proof (induction ps rule: rev_induct)
    case (snoc p ps)
    then obtain k where "ps = strip ps @ replicate k []" by blast
    show ?case
    proof (cases "p = []")
      case True
      then have "strip (ps @ [p]) = strip ps" by (simp add: strip_def)
      moreover have "strip ps @ replicate (Suc k) [] = (strip ps @ replicate k []) @ [[]]"
        by (simp add: replicate_append_same)
      then have "ps @ [p] = strip ps @ replicate (Suc k) []"
        using \<open>ps = strip ps @ replicate k []\<close> True by metis
      ultimately show ?thesis by metis
    next
      case False
      then show ?thesis by (intro exI [of _ 0]) (simp add: strip_def)
    qed
  qed (simp add: strip_def)
  then obtain k where k: "ps = strip ps @ replicate k []" by blast
  then have "k = n - length (strip ps)" using n by (metis add_diff_cancel_left' length_append length_replicate)
  with k show ?thesis unfolding pad_to_def by metis
qed

text \<open>Splitting a trimmed join and padding it gives the parts back.\<close>

lemma pad_split_trim:
  assumes "length ps = n" and "n \<noteq> 0" and c: "\<forall>p\<in>set ps. c \<notin> set p"
  shows "pad_to n (strings_split (trim_right c (join [c] ps)) [c]) = ps"
proof (cases "strip ps = []")
  case True
  have "ps = replicate n []" using pad_strip [OF assms(1)] True by (simp add: pad_to_def)
  then show ?thesis
    unfolding trim_right_join [OF c] True using \<open>n \<noteq> 0\<close>
    by (cases n) (simp_all add: strings_split_single pad_to_def)
next
  case False
  have "set (strip ps) \<subseteq> set ps" by (auto simp: strip_def dest: set_dropWhileD)
  then have "\<forall>p\<in>set (strip ps). c \<notin> set p" using c by blast
  then show ?thesis
    by (simp add: trim_right_join [OF c] strings_split_join [OF False] pad_strip [OF assms(1)])
qed


lemma norm_no_char: "c \<notin> set s \<Longrightarrow> c \<notin> set (norm s)"
  by (simp add: norm_def)

text \<open>The five values packed into an edition come back.\<close>

lemma edition_unpacked:
  assumes t: "no_char (CHR ''~'') w"
  shows "let e = packedEdition w; packed = pad_to 5 (strings_split (drop 1 e) ''~'') in
     if has_prefix e ''~''
     then packed = map norm [w_edition w, w_sw_edition w, w_target_sw w, w_target_hw w, w_other w]
     else e = norm (w_edition w) \<and> norm (w_sw_edition w) = [] \<and> norm (w_target_sw w) = []
        \<and> norm (w_target_hw w) = [] \<and> norm (w_other w) = []"
proof -
  let ?ps = "map norm [w_edition w, w_sw_edition w, w_target_sw w, w_target_hw w, w_other w]"
  have n: "\<forall>p\<in>set ?ps. CHR ''~'' \<notin> set p"
    using t by (auto simp: no_char_def attributes_def norm_def)
  show ?thesis
  proof (cases "\<not> notSet (w_sw_edition w) \<or> \<not> notSet (w_target_sw w) \<or> \<not> notSet (w_target_hw w)
         \<or> \<not> notSet (w_other w)")
    case True
    then have e: "packedEdition w = CHR ''~'' # join ''~'' ?ps" by (simp add: packedEdition_def)
    have "strings_split (join ''~'' ?ps) ''~'' = ?ps" using n by (intro strings_split_join) auto
    then show ?thesis unfolding e by (simp add: pad_to_def)
  next
    case False
    then have e: "packedEdition w = norm (w_edition w)" by (simp add: packedEdition_def)
    have "\<not> has_prefix (norm (w_edition w)) ''~''" using n by (auto simp: has_prefix_iff)
    with False show ?thesis unfolding e by (auto simp: norm_def notSet_def)
  qed
qed

lemma ParseURI_ToURI_norm:
  assumes t: "no_char (CHR ''~'') w"
  shows "ParseURI (ToURI w) = map_wfn norm w"
proof -
  let ?cs = "[norm (w_part w), norm (w_vendor w), norm (w_product w), norm (w_version w),
                        norm (w_update w), packedEdition w, norm (w_language w)]"
  have "trim_prefix (ToURI w) ''cpe:/'' = trim_right (CHR '':'') (join '':'' (map pctEncode ?cs))"
    using trim_prefix_append [of "''cpe:/''"] by (simp add: ToURI_def Let_def)
  then have parts: "pad_to 7 (strings_split (trim_prefix (ToURI w) ''cpe:/'') '':'') = map pctEncode ?cs"
    using pad_split_trim [of "map pctEncode ?cs" 7 "CHR '':''"] pctEncode_no_colon by simp
  show ?thesis
    using edition_unpacked [OF t]
    unfolding ParseURI_def Let_def parts
    by (auto simp: map_wfn_def)
qed

text \<open>Parsing the formatted string of a name gives the name back, with a wildcard for every empty attribute, when no attribute has a colon.\<close>

theorem ParseFS_ToFS:
  assumes "no_char (CHR '':'') w"
  shows "ParseFS (ToFS w) = Inr (map_wfn any w)"
  by (rule ParseFS_ToFS_plain [OF assms])

definition log4j :: wfn where
  "log4j = \<lparr>w_part = ''a'', w_vendor = ''apache'', w_product = ''log4j'', w_version = ''2.14.1'',
     w_update = ''*'', w_edition = [], w_language = [], w_sw_edition = ''lts'', w_target_sw = [],
     w_target_hw = [], w_other = []\<rparr>"

lemma log4j_plain: "no_char (CHR '':'') log4j" "no_char (CHR ''~'') log4j"
  by (simp_all add: no_char_def attributes_def log4j_def)

theorem ParseFS_ToFS_witness: "ParseFS (ToFS log4j) = Inr (map_wfn any log4j)"
  by (rule ParseFS_ToFS [OF log4j_plain(1)])

text \<open>C30: Parsing the URI of a name gives the name back, with the wildcards made empty, whatever its attributes (those without a field of their own are packed into the edition), when no attribute has a tilde.\<close>

theorem ParseURI_ToURI:
  assumes "no_char (CHR ''~'') w"
  shows "ParseURI (ToURI w) = map_wfn norm w"
  by (rule ParseURI_ToURI_norm [OF assms])

theorem ParseURI_ToURI_witness: "ParseURI (ToURI log4j) = map_wfn norm log4j"
  by (rule ParseURI_ToURI [OF log4j_plain(2)])

lemma any_norm: "any (norm f) = any f" and any_any: "any (any f) = any f"
  and norm_any: "norm (any f) = norm f"
  by (auto simp: any_def norm_def wildcard_def)

lemma ToFS_any: "ToFS (map_wfn any w) = ToFS w" and ToFS_norm: "ToFS (map_wfn norm w) = ToFS w"
  by (simp_all add: ToFS_join attributes_def map_wfn_def any_any any_norm)

lemma no_char_map: "no_char c w \<Longrightarrow> c \<notin> set wildcard \<Longrightarrow> no_char c (map_wfn any w)"
  by (auto simp: no_char_def attributes_def map_wfn_def any_def)

text \<open>A formatted string, made into a URI and back, is what it was, when no attribute of the name it was made from has a colon or a tilde.\<close>

theorem FSToURI_URIToFS:
  assumes "no_char (CHR '':'') w" and "no_char (CHR ''~'') w"
  shows "\<exists>uri. FSToURI (ToFS w) = Inr uri \<and> URIToFS uri = Inr (ToFS w)"
proof -
  have "no_char (CHR ''~'') (map_wfn any w)" using assms(2) by (rule no_char_map) (simp add: wildcard_def)
  then have "ParseURI (ToURI (map_wfn any w)) = map_wfn norm (map_wfn any w)" by (rule ParseURI_ToURI_norm)
  then have "URIToFS (ToURI (map_wfn any w)) = Inr (ToFS w)"
    by (simp add: URIToFS_def ToFS_norm ToFS_any)
  then show ?thesis using ParseFS_ToFS_plain [OF assms(1)] by (simp add: FSToURI_def)
qed

theorem FSToURI_URIToFS_witness:
  "\<exists>uri. FSToURI (ToFS log4j) = Inr uri \<and> URIToFS uri = Inr (ToFS log4j)"
  by (rule FSToURI_URIToFS [OF log4j_plain])

text \<open>
  A URI whose part is a wildcard has nothing before its first colon, and the two characters
  taken for the part include the first one of the vendor.
\<close>

lemma wildcard_part_cuts_vendor:
  "VendorProduct (ToURI (log4j\<lparr>w_part := wildcard\<rparr>)) = (''pache'', ''log4j'')"
  by code_simp

end
