(* ===== verification/FindingStore.thy ===== *)
theory FindingStore
  imports RiskAcceptance
begin

text \<open>
  The statements of the Postgres repository of findings that change rows or look them up
  (\<open>infra/postgres/finding_repo.go\<close> of the finding service) and the use cases over them: the
  status transitions, closing old findings, creation in batches and new SLA dates
  (\<open>usecase/finding/use_cases.go\<close>), the bulk operations (\<open>usecase/finding/bulk.go\<close>) and the
  bulk creation (\<open>usecase/findingbulk/usecase.go\<close>). The tables are those of \<open>Members\<close>; an
  outage decides which statement fails. \<open>scan\<close> is the order in which Postgres visits the rows
  of a state, and \<open>fresh\<close> the identifier made before a statement. Events are not modelled (their
  errors are ignored), nor are the tags and the fields of a finding no operation reads.
\<close>

type_synonym row_scan = "pg \<Rightarrow> uuid list"

definition scan_ok :: "row_scan \<Rightarrow> bool" where
  "scan_ok scan \<longleftrightarrow> (\<forall>s. set (scan s) = dom (finding_rows s) \<and> distinct (scan s))"

section \<open>Statements\<close>

definition insertFinding :: "finding \<Rightarrow> pg \<Rightarrow> pg" where
  "insertFinding f s =
     s\<lparr>finding_rows := (finding_rows s)(fi_id f \<mapsto>
         f\<lparr>fi_last_status_update := None, fi_duplicate_of := None\<rparr>)\<rparr>"

text \<open>An insertion fails when the identifier is taken.\<close>

definition FindingCreate :: "outage \<Rightarrow> finding \<Rightarrow> pg \<Rightarrow> pg \<times> pg_error option" where
  "FindingCreate down f s =
     (if finding_rows s (fi_id f) \<noteq> None
      then (s\<lparr>statements := Suc (statements s)\<rparr>, Some StatementFailed)
      else pg_exec down (insertFinding f) s)"

text \<open>The insertions of a transaction: at the first that fails the rows are as they were.\<close>

fun insertAll :: "outage \<Rightarrow> finding list \<Rightarrow> pg \<Rightarrow> pg \<times> pg_error option" where
  "insertAll down [] s = (s, None)"
| "insertAll down (f # fs) s =
     (case FindingCreate down f s of
        (s', Some e) \<Rightarrow> (s', Some e)
      | (s', None) \<Rightarrow> insertAll down fs s')"

definition rolledBack :: "pg \<Rightarrow> pg \<Rightarrow> pg" where
  "rolledBack s s' = s'\<lparr>finding_rows := finding_rows s\<rparr>"

definition FindingBulkCreate ::
  "outage \<Rightarrow> finding list \<Rightarrow> pg \<Rightarrow> pg \<times> (pg_error + uuid list)" where
  "FindingBulkCreate down fs s =
     (case pg_exec down id s of
        (s1, Some e) \<Rightarrow> (s1, Inl e)
      | (s1, None) \<Rightarrow>
          (case insertAll down fs s1 of
             (s2, Some e) \<Rightarrow> (rolledBack s s2, Inl e)
           | (s2, None) \<Rightarrow>
               (case pg_exec down id s2 of
                  (s3, Some e) \<Rightarrow> (rolledBack s s3, Inl e)
                | (s3, None) \<Rightarrow> (s3, Inr (map fi_id fs)))))"

definition FindByHashCode ::
  "outage \<Rightarrow> row_scan \<Rightarrow> string \<Rightarrow> uuid \<Rightarrow> bool \<Rightarrow> uuid option \<Rightarrow> uuid option \<Rightarrow> pg
     \<Rightarrow> pg \<times> (pg_error + finding)" where
  "FindByHashCode down scan hashCode testID onEngagement engagementID productID s =
     (let within = (\<lambda>row. case (onEngagement, engagementID, productID) of
            (True, Some e, _) \<Rightarrow> fi_engagement row = e
          | (_, _, Some p) \<Rightarrow> fi_product row = p
          | _ \<Rightarrow> fi_test row = testID)
      in pg_query down (\<lambda>s. Option.bind
           (find (\<lambda>fid. case finding_rows s fid of
                           None \<Rightarrow> False | Some row \<Rightarrow> fi_hash row = hashCode \<and> within row) (scan s))
           (finding_rows s)) s)"

definition FindActiveByTest ::
  "outage \<Rightarrow> row_scan \<Rightarrow> uuid \<Rightarrow> uuid list \<Rightarrow> pg \<Rightarrow> pg \<times> (pg_error + uuid list)" where
  "FindActiveByTest down scan testID excludeIDs =
     pg_query down (\<lambda>s. Some (filter
       (\<lambda>fid. case finding_rows s fid of
                 None \<Rightarrow> False
               | Some row \<Rightarrow> fi_test row = testID \<and> fi_active row \<and> fid \<notin> set excludeIDs) (scan s)))"

definition FindingDelete :: "outage \<Rightarrow> uuid \<Rightarrow> pg \<Rightarrow> pg \<times> pg_error option" where
  "FindingDelete down fid =
     pg_exec down (\<lambda>s. s\<lparr>finding_rows := (finding_rows s)(fid := None),
                        acceptance_links := filter (\<lambda>(ra, f). f \<noteq> fid) (acceptance_links s)\<rparr>)"

text \<open>An update of the rows that satisfy a condition.\<close>

definition updateWhere :: "(finding \<Rightarrow> bool) \<Rightarrow> (finding \<Rightarrow> finding) \<Rightarrow> pg \<Rightarrow> pg" where
  "updateWhere P g s =
     s\<lparr>finding_rows := (\<lambda>fid. map_option (\<lambda>row. if P row then g row else row) (finding_rows s fid))\<rparr>"

definition affectedRows :: "row_scan \<Rightarrow> (finding \<Rightarrow> bool) \<Rightarrow> pg \<Rightarrow> int" where
  "affectedRows scan P s =
     int (length (filter (\<lambda>fid. case finding_rows s fid of None \<Rightarrow> False | Some row \<Rightarrow> P row) (scan s)))"

definition BulkSetMitigated ::
  "outage \<Rightarrow> (nat \<Rightarrow> timestamp) \<Rightarrow> uuid list \<Rightarrow> uuid \<Rightarrow> pg \<Rightarrow> pg \<times> pg_error option" where
  "BulkSetMitigated down clock ids mitigatedByID s =
     (if ids = [] then (s, None)
      else let now = clock (statements s) in
        pg_exec down (updateWhere (\<lambda>row. fi_id row \<in> set ids)
          (\<lambda>row. row\<lparr>fi_active := False, fi_mitigated := True, fi_mitigated_at := Some now,
                     fi_mitigated_by := Some mitigatedByID, fi_updated := now\<rparr>)) s)"

definition BulkReactivate ::
  "outage \<Rightarrow> (nat \<Rightarrow> timestamp) \<Rightarrow> uuid list \<Rightarrow> pg \<Rightarrow> pg \<times> pg_error option" where
  "BulkReactivate down clock ids s =
     (if ids = [] then (s, None)
      else let now = clock (statements s) in
        pg_exec down (updateWhere (\<lambda>row. fi_id row \<in> set ids)
          (\<lambda>row. row\<lparr>fi_active := True, fi_mitigated := False, fi_mitigated_at := None,
                     fi_last_status_update := Some now, fi_updated := now\<rparr>)) s)"

fun setSLADates ::
  "outage \<Rightarrow> (nat \<Rightarrow> timestamp) \<Rightarrow> (uuid \<times> timestamp) list \<Rightarrow> pg \<Rightarrow> pg \<times> pg_error option" where
  "setSLADates down clock [] s = (s, None)"
| "setSLADates down clock ((fid, date) # us) s =
     (let now = clock (statements s) in
      case pg_exec down (updateWhere (\<lambda>row. fi_id row = fid)
             (\<lambda>row. row\<lparr>fi_sla_expiration := Some date, fi_updated := now\<rparr>)) s of
        (s', Some e) \<Rightarrow> (s', Some e)
      | (s', None) \<Rightarrow> setSLADates down clock us s')"

definition BulkUpdateSLADates ::
  "outage \<Rightarrow> (nat \<Rightarrow> timestamp) \<Rightarrow> (uuid \<times> timestamp) list \<Rightarrow> pg \<Rightarrow> pg \<times> pg_error option" where
  "BulkUpdateSLADates down clock updates s =
     (case pg_exec down id s of
        (s1, Some e) \<Rightarrow> (s1, Some e)
      | (s1, None) \<Rightarrow>
          (case setSLADates down clock updates s1 of
             (s2, Some e) \<Rightarrow> (rolledBack s s2, Some e)
           | (s2, None) \<Rightarrow>
               (case pg_exec down id s2 of
                  (s3, Some e) \<Rightarrow> (rolledBack s s3, Some e)
                | (s3, None) \<Rightarrow> (s3, None))))"

definition ExistsFalsePositiveByHash ::
  "outage \<Rightarrow> row_scan \<Rightarrow> string \<Rightarrow> uuid \<Rightarrow> pg \<Rightarrow> pg \<times> (pg_error + bool)" where
  "ExistsFalsePositiveByHash down scan hashCode productID =
     pg_query down (\<lambda>s. Some (\<exists>fid\<in>set (scan s).
       case finding_rows s fid of
         None \<Rightarrow> False
       | Some row \<Rightarrow> fi_hash row = hashCode \<and> fi_product row = productID \<and> fi_false_positive row))"

text \<open>Closing by hash codes: \<open>testID\<close> and \<open>productID\<close> are parsed, nil when that fails.\<close>

definition closesRow :: "uuid \<Rightarrow> uuid \<Rightarrow> string list \<Rightarrow> finding \<Rightarrow> bool" where
  "closesRow testID productID activeHashes row \<longleftrightarrow>
     fi_test row = testID \<and> fi_product row = productID \<and> fi_active row
   \<and> fi_hash row \<notin> set activeHashes"

definition RepoCloseOldFindings ::
  "outage \<Rightarrow> (nat \<Rightarrow> timestamp) \<Rightarrow> row_scan \<Rightarrow> (string \<Rightarrow> uuid option) \<Rightarrow> string \<Rightarrow> string
     \<Rightarrow> string list \<Rightarrow> pg \<Rightarrow> pg \<times> (pg_error + int)" where
  "RepoCloseOldFindings down clock scan parse testID productID activeHashes s =
     (let now = clock (statements s);
          P = closesRow (mustParseUUID parse testID) (mustParseUUID parse productID) activeHashes
      in case pg_exec down (updateWhere P
                (\<lambda>row. row\<lparr>fi_active := False, fi_mitigated := True, fi_mitigated_at := Some now,
                           fi_updated := now\<rparr>)) s of
           (s', Some e) \<Rightarrow> (s', Inl e)
         | (s', None) \<Rightarrow> (s', Inr (affectedRows scan P s)))"

datatype reactivate_error = InvalidProductID | ReactivateStore pg_error

definition ReactivateByHashes ::
  "outage \<Rightarrow> (nat \<Rightarrow> timestamp) \<Rightarrow> row_scan \<Rightarrow> (string \<Rightarrow> uuid option) \<Rightarrow> string list \<Rightarrow> string
     \<Rightarrow> pg \<Rightarrow> pg \<times> (reactivate_error + int)" where
  "ReactivateByHashes down clock scan parse hashes productID s =
     (if hashes = [] then (s, Inr 0)
      else case parse productID of
        None \<Rightarrow> (s, Inl InvalidProductID)
      | Some pid \<Rightarrow>
          (let now = clock (statements s);
               P = (\<lambda>row. fi_hash row \<in> set hashes \<and> fi_product row = pid \<and> \<not> fi_active row)
           in case pg_exec down (updateWhere P
                     (\<lambda>row. row\<lparr>fi_active := True, fi_mitigated := False, fi_mitigated_at := None,
                                fi_updated := now\<rparr>)) s of
                (s', Some e) \<Rightarrow> (s', Inl (ReactivateStore e))
              | (s', None) \<Rightarrow> (s', Inr (affectedRows scan P s))))"

section \<open>Status transitions and bulk operations\<close>

datatype finding_op_error =
    NotFound pg_error | Refused finding_error | NotSaved pg_error | UnknownOperation
  | BulkLimitExceeded

definition changeFinding ::
  "outage \<Rightarrow> (nat \<Rightarrow> timestamp) \<Rightarrow> (timestamp \<Rightarrow> finding \<Rightarrow> finding_error + finding) \<Rightarrow> uuid \<Rightarrow> pg
     \<Rightarrow> pg \<times> finding_op_error option" where
  "changeFinding down clock mutate fid s =
     (case FindingFindByID down fid s of
        (s1, Inl e) \<Rightarrow> (s1, Some (NotFound e))
      | (s1, Inr f) \<Rightarrow>
          (case mutate (clock (statements s1)) f of
             Inl e \<Rightarrow> (s1, Some (Refused e))
           | Inr g \<Rightarrow>
               (case FindingSave down clock g s1 of
                  (s2, Some e) \<Rightarrow> (s2, Some (NotSaved e))
                | (s2, None) \<Rightarrow> (s2, None))))"

datatype bulk_op =
    BulkClose | BulkReopen | BulkFalsePos | BulkOutOfScope | BulkAcceptRisk | BulkDelete
  | BulkAddTags | BulkRemoveTags | BulkSetSeverity | BulkOther string

fun bulkTransition ::
  "(string \<Rightarrow> uuid option) \<Rightarrow> uuid \<Rightarrow> bulk_op \<Rightarrow> timestamp \<Rightarrow> finding \<Rightarrow> finding_error + finding" where
  "bulkTransition parse requester BulkClose now f = Close parse now (Some requester) f"
| "bulkTransition parse requester BulkReopen now f = Reopen now f"
| "bulkTransition parse requester BulkFalsePos now f = MarkFalsePositive now f"
| "bulkTransition parse requester BulkOutOfScope now f = MarkOutOfScope now f"
| "bulkTransition parse requester BulkAcceptRisk now f = AcceptRisk now f"
| "bulkTransition parse requester op now f = Inr f"

text \<open>A mutation sets the severity of the finding it loaded (its tags are not modelled) and saves it.\<close>

definition bulkMutation :: "bulk_op \<Rightarrow> string \<Rightarrow> timestamp \<Rightarrow> finding \<Rightarrow> finding_error + finding" where
  "bulkMutation op severity now f =
     Inr (if op = BulkSetSeverity \<and> severity \<noteq> []
          then f\<lparr>fi_severity := severity, fi_numerical := Numerical severity\<rparr> else f)"

definition bulkOne ::
  "outage \<Rightarrow> (nat \<Rightarrow> timestamp) \<Rightarrow> (string \<Rightarrow> uuid option) \<Rightarrow> uuid \<Rightarrow> bulk_op \<Rightarrow> string \<Rightarrow> uuid
     \<Rightarrow> pg \<Rightarrow> pg \<times> finding_op_error option" where
  "bulkOne down clock parse requester op severity fid s =
     (if op \<in> {BulkClose, BulkReopen, BulkFalsePos, BulkOutOfScope, BulkAcceptRisk}
      then changeFinding down clock (bulkTransition parse requester op) fid s
      else if op = BulkDelete
      then (case FindingDelete down fid s of
              (s', None) \<Rightarrow> (s', None) | (s', Some e) \<Rightarrow> (s', Some (NotSaved e)))
      else if op \<in> {BulkAddTags, BulkRemoveTags, BulkSetSeverity}
      then changeFinding down clock (bulkMutation op severity) fid s
      else (s, Some UnknownOperation))"

record bulk_result =
  bu_updated :: int
  bu_failed :: int
  bu_errors :: "(uuid \<times> finding_op_error) list"

fun bulkLoop ::
  "(uuid \<Rightarrow> pg \<Rightarrow> pg \<times> finding_op_error option) \<Rightarrow> uuid list \<Rightarrow> pg \<Rightarrow> bulk_result
     \<Rightarrow> pg \<times> bulk_result" where
  "bulkLoop one [] s r = (s, r)"
| "bulkLoop one (fid # fids) s r =
     (case one fid s of
        (s', None) \<Rightarrow> bulkLoop one fids s' (r\<lparr>bu_updated := bu_updated r + 1\<rparr>)
      | (s', Some e) \<Rightarrow>
          bulkLoop one fids s'
            (r\<lparr>bu_failed := bu_failed r + 1, bu_errors := bu_errors r @ [(fid, e)]\<rparr>))"

definition BulkUpdate ::
  "outage \<Rightarrow> (nat \<Rightarrow> timestamp) \<Rightarrow> (string \<Rightarrow> uuid option) \<Rightarrow> uuid list \<Rightarrow> bulk_op \<Rightarrow> string \<Rightarrow> uuid
     \<Rightarrow> pg \<Rightarrow> pg \<times> (finding_op_error + bulk_result)" where
  "BulkUpdate down clock parse ids op severity requester s =
     (let r0 = \<lparr>bu_updated = 0, bu_failed = 0, bu_errors = []\<rparr> in
      if ids = [] then (s, Inr r0)
      else if length ids > 1000 then (s, Inl BulkLimitExceeded)
      else (case bulkLoop (bulkOne down clock parse requester op severity) ids s r0 of
              (s', r) \<Rightarrow> (s', Inr r)))"

text \<open>\<open>CloseOldFindingsUseCase\<close>.\<close>

definition CloseOldFindings ::
  "outage \<Rightarrow> (nat \<Rightarrow> timestamp) \<Rightarrow> row_scan \<Rightarrow> uuid \<Rightarrow> uuid list \<Rightarrow> uuid \<Rightarrow> pg
     \<Rightarrow> pg \<times> (pg_error + int)" where
  "CloseOldFindings down clock scan testID excludeIDs mitigatedBy s =
     (case FindActiveByTest down scan testID excludeIDs s of
        (s1, Inl e) \<Rightarrow> (s1, Inl e)
      | (s1, Inr ids) \<Rightarrow>
          if ids = [] then (s1, Inr 0)
          else (case BulkSetMitigated down clock ids mitigatedBy s1 of
                  (s2, Some e) \<Rightarrow> (s2, Inl e)
                | (s2, None) \<Rightarrow> (s2, Inr (int (length ids)))))"

end
