(* ===== verification/FindingRequests.thy ===== *)
theory FindingRequests
  imports FindingStore
begin

text \<open>
  The creation of findings in batches (\<open>usecase/finding/use_cases.go\<close>) and in bulk
  (\<open>usecase/findingbulk/usecase.go\<close>), and the history of the table of findings under all requests
  of the finding service, those on risk acceptances included: which requests keep the flags of
  every stored finding in agreement, and which do not. An input holds the fields that are read.
\<close>

section \<open>Creating findings\<close>

text \<open>The normalized input of a batch, as far as it is read.\<close>

record finding_input =
  in_title :: string
  in_sev :: string
  in_cve :: string
  in_component :: string
  in_component_version :: string
  in_active :: bool
  in_hash :: string
  in_date :: "timestamp option"

definition batchFinding ::
  "(string \<Rightarrow> string) \<Rightarrow> uuid \<Rightarrow> timestamp \<Rightarrow> uuid \<Rightarrow> uuid \<Rightarrow> uuid \<Rightarrow> finding_input
     \<Rightarrow> finding_error + finding" where
  "batchFinding sha256 newID now testID engagementID productID fi =
     (case NewFinding sha256 newID now (in_title fi) (in_sev fi) testID engagementID productID
             (in_component fi) (in_component_version fi) (in_cve fi) of
        Inl e \<Rightarrow> Inl e
      | Inr f \<Rightarrow> Inr (f\<lparr>fi_cve := in_cve fi, fi_active := in_active fi,
                        fi_component := in_component fi,
                        fi_component_version := in_component_version fi,
                        fi_hash := in_hash fi\<rparr>))"

fun batchFindings ::
  "(nat \<Rightarrow> finding_input \<Rightarrow> finding_error + finding) \<Rightarrow> nat \<Rightarrow> finding_input list
     \<Rightarrow> finding_error + finding list" where
  "batchFindings mk n [] = Inr []"
| "batchFindings mk n (fi # fis) =
     (case mk n fi of
        Inl e \<Rightarrow> Inl e
      | Inr f \<Rightarrow> (case batchFindings mk (Suc n) fis of Inl e \<Rightarrow> Inl e | Inr fs \<Rightarrow> Inr (f # fs)))"

datatype batch_error = BatchInvalid finding_error | BatchStore pg_error

text \<open>
  Batches of at most 100, each in its own transaction; \<open>n\<close> numbers the findings (each has a
  fresh identifier and a time).
\<close>

function batchLoop ::
  "outage \<Rightarrow> (nat \<Rightarrow> finding_input \<Rightarrow> finding_error + finding) \<Rightarrow> nat \<Rightarrow> finding_input list
     \<Rightarrow> pg \<Rightarrow> pg \<times> (batch_error + uuid list)" where
  "batchLoop down mk n inputs s =
     (if inputs = [] then (s, Inr [])
      else case batchFindings mk n (take 100 inputs) of
        Inl e \<Rightarrow> (s, Inl (BatchInvalid e))
      | Inr fs \<Rightarrow>
          (case FindingBulkCreate down fs s of
             (s1, Inl e) \<Rightarrow> (s1, Inl (BatchStore e))
           | (s1, Inr ids) \<Rightarrow>
               (case batchLoop down mk (n + 100) (drop 100 inputs) s1 of
                  (s2, Inl e) \<Rightarrow> (s2, Inl e)
                | (s2, Inr ids') \<Rightarrow> (s2, Inr (ids @ ids')))))"
  by pat_completeness auto
termination by (relation "measure (\<lambda>(down, mk, n, inputs, s). length inputs)") auto

declare batchLoop.simps [simp del]

definition BatchCreateFindings ::
  "outage \<Rightarrow> (string \<Rightarrow> string) \<Rightarrow> (nat \<Rightarrow> uuid) \<Rightarrow> (nat \<Rightarrow> timestamp) \<Rightarrow> uuid \<Rightarrow> uuid \<Rightarrow> uuid
     \<Rightarrow> finding_input list \<Rightarrow> pg \<Rightarrow> pg \<times> (batch_error + uuid list)" where
  "BatchCreateFindings down sha256 fresh clock testID engagementID productID inputs s =
     batchLoop down
       (\<lambda>n. batchFinding sha256 (fresh n) (clock n) testID engagementID productID) 0 inputs s"

text \<open>Bulk creation: names and numbers of severities.\<close>

definition severityNum :: "string \<Rightarrow> nat" where
  "severityNum s =
     (let t = to_lower (trim_space s) in
      if t = ''critical'' then 5 else if t = ''high'' then 4 else if t = ''medium'' then 3
      else if t = ''low'' then 2 else if t = ''info'' \<or> t = ''informational'' then 1 else 0)"

definition normalizeCapSeverity :: "string \<Rightarrow> string" where
  "normalizeCapSeverity s =
     (let t = to_lower (trim_space s) in
      if t = ''critical'' then ''Critical'' else if t = ''high'' then ''High''
      else if t = ''medium'' then ''Medium'' else if t = ''low'' then ''Low'' else ''Info'')"

definition inputHash :: "(string \<Rightarrow> string) \<Rightarrow> finding_input \<Rightarrow> string" where
  "inputHash sha256 fi =
     hex_encode (sha256 (join ''|''
       [trim_space (in_title fi), trim_space (in_component fi),
        trim_space (in_component_version fi), to_upper (trim_space (in_cve fi))]))"

definition bulkFinding ::
  "uuid \<Rightarrow> timestamp \<Rightarrow> uuid \<Rightarrow> uuid \<Rightarrow> uuid \<Rightarrow> string \<Rightarrow> finding_input \<Rightarrow> finding" where
  "bulkFinding newID now testID engagementID productID hashCode fi =
     (let sev = normalizeCapSeverity (in_sev fi) in
      \<lparr>fi_id = newID, fi_title = in_title fi, fi_severity = sev, fi_numerical = Numerical sev,
       fi_cve = in_cve fi, fi_component = in_component fi,
       fi_component_version = in_component_version fi, fi_active = True, fi_false_positive = False,
       fi_duplicate = False, fi_out_of_scope = False, fi_mitigated = False,
       fi_risk_accepted = False,
       fi_date = (case in_date fi of None \<Rightarrow> now | Some d \<Rightarrow> d), fi_mitigated_at = None,
       fi_mitigated_by = None, fi_last_status_update = None, fi_sla_expiration = None,
       fi_test = testID, fi_engagement = engagementID, fi_product = productID,
       fi_duplicate_of = None, fi_hash = hashCode, fi_created = now, fi_updated = now\<rparr>)"

datatype bulk_status = BulkCreated uuid | BulkDuplicate uuid | BulkSkipped | BulkError pg_error

record bulk_output =
  bo_created :: int
  bo_duplicate :: int
  bo_skipped :: int
  bo_failed :: int
  bo_results :: "(nat \<times> bulk_status) list"

definition bulkCreateOne ::
  "outage \<Rightarrow> row_scan \<Rightarrow> (string \<Rightarrow> string) \<Rightarrow> (nat \<Rightarrow> uuid) \<Rightarrow> (nat \<Rightarrow> timestamp) \<Rightarrow> string
     \<Rightarrow> uuid \<Rightarrow> uuid \<Rightarrow> uuid \<Rightarrow> finding_input \<Rightarrow> pg \<Rightarrow> pg \<times> bulk_status" where
  "bulkCreateOne down scan sha256 fresh clock minimum testID engagementID productID fi s =
     (if severityNum minimum > 0 \<and> severityNum (in_sev fi) < severityNum minimum
      then (s, BulkSkipped)
      else
        (let hashCode = inputHash sha256 fi in
         case FindByHashCode down scan hashCode testID False None None s of
           (s1, Inr dup) \<Rightarrow> (s1, BulkDuplicate (fi_id dup))
         | (s1, Inl _) \<Rightarrow>
             (let i = statements s1;
                  f = bulkFinding (fresh i) (clock i) testID engagementID productID hashCode fi
              in case FindingCreate down f s1 of
                   (s2, Some e) \<Rightarrow> (s2, BulkError e)
                 | (s2, None) \<Rightarrow> (s2, BulkCreated (fi_id f)))))"

definition countStatus :: "nat \<Rightarrow> bulk_status \<Rightarrow> bulk_output \<Rightarrow> bulk_output" where
  "countStatus i st out =
     (let out = out\<lparr>bo_results := bo_results out @ [(i, st)]\<rparr> in
      case st of
        BulkCreated _ \<Rightarrow> out\<lparr>bo_created := bo_created out + 1\<rparr>
      | BulkDuplicate _ \<Rightarrow> out\<lparr>bo_duplicate := bo_duplicate out + 1\<rparr>
      | BulkSkipped \<Rightarrow> out\<lparr>bo_skipped := bo_skipped out + 1\<rparr>
      | BulkError _ \<Rightarrow> out\<lparr>bo_failed := bo_failed out + 1\<rparr>)"

fun bulkCreateLoop ::
  "(finding_input \<Rightarrow> pg \<Rightarrow> pg \<times> bulk_status) \<Rightarrow> nat \<Rightarrow> finding_input list \<Rightarrow> pg \<Rightarrow> bulk_output
     \<Rightarrow> pg \<times> bulk_output" where
  "bulkCreateLoop one i [] s out = (s, out)"
| "bulkCreateLoop one i (fi # fis) s out =
     (case one fi s of (s', st) \<Rightarrow> bulkCreateLoop one (Suc i) fis s' (countStatus i st out))"

datatype bulk_error = BulkTooMany | TestNotFound pg_error | EngagementNotFound pg_error

text \<open>\<open>BulkCreate\<close>; the repositories of tests and engagements are lookups of the ids they hold.\<close>

definition BulkCreate ::
  "outage \<Rightarrow> row_scan \<Rightarrow> (string \<Rightarrow> string) \<Rightarrow> (nat \<Rightarrow> uuid) \<Rightarrow> (nat \<Rightarrow> timestamp)
     \<Rightarrow> (uuid \<Rightarrow> uuid option) \<Rightarrow> (uuid \<Rightarrow> uuid option) \<Rightarrow> uuid \<Rightarrow> finding_input list \<Rightarrow> string
     \<Rightarrow> pg \<Rightarrow> pg \<times> (bulk_error + bulk_output)" where
  "BulkCreate down scan sha256 fresh clock tests engagements testID inputs minimum s =
     (let out0 = \<lparr>bo_created = 0, bo_duplicate = 0, bo_skipped = 0, bo_failed = 0, bo_results = []\<rparr> in
      if inputs = [] then (s, Inr out0)
      else if length inputs > 500 then (s, Inl BulkTooMany)
      else case pg_query down (\<lambda>_. tests testID) s of
        (s1, Inl e) \<Rightarrow> (s1, Inl (TestNotFound e))
      | (s1, Inr engagementID) \<Rightarrow>
          (case pg_query down (\<lambda>_. engagements engagementID) s1 of
             (s2, Inl e) \<Rightarrow> (s2, Inl (EngagementNotFound e))
           | (s2, Inr productID) \<Rightarrow>
               (case bulkCreateLoop
                       (bulkCreateOne down scan sha256 fresh clock minimum testID engagementID productID)
                       0 inputs s2 out0 of
                  (s3, out) \<Rightarrow> (s3, Inr out))))"

section \<open>The flags of the rows\<close>

text \<open>
  A row is keyed by its identifier and its flags agree: it is active exactly in the active
  state, it has at most one closing flag, and a time of mitigation exactly when mitigated.
  (\<open>finding_ok\<close> without the original of a duplicate, which \<open>Save\<close> does not store.)
\<close>

definition row_ok :: "finding \<Rightarrow> bool" where
  "row_ok f \<longleftrightarrow> finding_ok (f\<lparr>fi_duplicate_of := if fi_duplicate f then Some uuid_nil else None\<rparr>)"

definition rows_ok :: "pg \<Rightarrow> bool" where
  "rows_ok s \<longleftrightarrow> (\<forall>fid row. finding_rows s fid = Some row \<longrightarrow> fi_id row = fid \<and> row_ok row)"

lemma rows_ok_upd:
  "rows_ok s \<Longrightarrow> fi_id row = fid \<Longrightarrow> row_ok row \<Longrightarrow>
   finding_rows s' = (finding_rows s)(fid \<mapsto> row) \<Longrightarrow> rows_ok s'"
  by (auto simp: rows_ok_def)

lemma rows_ok_cong: "finding_rows s' = finding_rows s \<Longrightarrow> rows_ok s' \<longleftrightarrow> rows_ok s"
  by (simp add: rows_ok_def)

lemma rows_ok_query: "rows_ok (fst (pg_query down q s)) = rows_ok s"
  by (simp add: rows_ok_def)

lemma rows_ok_exec: "rows_ok s \<Longrightarrow> rows_ok (upd s) \<Longrightarrow> rows_ok (fst (pg_exec down upd s))"
  by (auto simp: pg_exec_def rows_ok_def)

lemma rows_ok_updateWhere:
  assumes "rows_ok s" and "\<And>row. row_ok row \<Longrightarrow> P row \<Longrightarrow> row_ok (g row) \<and> fi_id (g row) = fi_id row"
  shows "rows_ok (updateWhere P g s)"
  using assms by (auto simp: rows_ok_def updateWhere_def)


lemma rows_ok_pg_exec:
  "(\<And>s'. s' = s \<Longrightarrow> rows_ok (upd s')) \<Longrightarrow> rows_ok s \<Longrightarrow> rows_ok (fst (pg_exec down upd s))"
  by (simp add: rows_ok_exec)

text \<open>Every guarded transition keeps the flags in agreement; so does a mutation.\<close>

definition keeps_rows :: "(timestamp \<Rightarrow> finding \<Rightarrow> finding_error + finding) \<Rightarrow> bool" where
  "keeps_rows mutate \<longleftrightarrow>
     (\<forall>now f g. row_ok f \<longrightarrow> mutate now f = Inr g \<longrightarrow> row_ok g \<and> fi_id g = fi_id f)"

lemma row_ok_of_finding_ok: "finding_ok f \<Longrightarrow> row_ok f"
  by (simp add: row_ok_def finding_ok_def CurrentState_def)

lemma row_ok_dup_of [simp]: "row_ok (f\<lparr>fi_duplicate_of := x\<rparr>) = row_ok f"
  by (simp add: row_ok_def)

lemma keeps_rows_of_ok:
  assumes ok: "\<And>now f g. finding_ok f \<Longrightarrow> mutate now f = Inr g \<Longrightarrow> finding_ok g"
    and commutes: "\<And>now f x. mutate now (f\<lparr>fi_duplicate_of := x\<rparr>)
      = map_sum id (\<lambda>g. g\<lparr>fi_duplicate_of := x\<rparr>) (mutate now f)"
    and ids: "\<And>now f g. mutate now f = Inr g \<Longrightarrow> fi_id g = fi_id f"
  shows "keeps_rows mutate"
  unfolding keeps_rows_def
proof (intro allI impI conjI)
  fix now f g assume f: "row_ok f" and run: "mutate now f = Inr g"
  let ?x = "if fi_duplicate f then Some uuid_nil else None"
  have "mutate now (f\<lparr>fi_duplicate_of := ?x\<rparr>) = Inr (g\<lparr>fi_duplicate_of := ?x\<rparr>)"
    by (simp only: commutes run map_sum.simps)
  with f have "finding_ok (g\<lparr>fi_duplicate_of := ?x\<rparr>)" unfolding row_ok_def by (rule ok)
  then have "row_ok (g\<lparr>fi_duplicate_of := ?x\<rparr>)" by (rule row_ok_of_finding_ok)
  then show "row_ok g" by simp
qed (rule ids)

lemma CurrentState_dup_of [simp]: "CurrentState (f\<lparr>fi_duplicate_of := x\<rparr>) = CurrentState f"
  by (simp add: CurrentState_def)

lemma transitions_dup_of:
  "Close parse now b (f\<lparr>fi_duplicate_of := x\<rparr>) = map_sum id (\<lambda>g. g\<lparr>fi_duplicate_of := x\<rparr>) (Close parse now b f)"
  "Reopen now (f\<lparr>fi_duplicate_of := x\<rparr>) = map_sum id (\<lambda>g. g\<lparr>fi_duplicate_of := x\<rparr>) (Reopen now f)"
  "MarkFalsePositive now (f\<lparr>fi_duplicate_of := x\<rparr>)
     = map_sum id (\<lambda>g. g\<lparr>fi_duplicate_of := x\<rparr>) (MarkFalsePositive now f)"
  "AcceptRisk now (f\<lparr>fi_duplicate_of := x\<rparr>) = map_sum id (\<lambda>g. g\<lparr>fi_duplicate_of := x\<rparr>) (AcceptRisk now f)"
  "MarkOutOfScope now (f\<lparr>fi_duplicate_of := x\<rparr>)
     = map_sum id (\<lambda>g. g\<lparr>fi_duplicate_of := x\<rparr>) (MarkOutOfScope now f)"
  by (cases b; simp add: transition_defs) (simp_all add: transition_defs)

lemma transitions_id:
  "Close parse now b f = Inr g \<Longrightarrow> fi_id g = fi_id f"
  "Reopen now f = Inr g \<Longrightarrow> fi_id g = fi_id f"
  "MarkFalsePositive now f = Inr g \<Longrightarrow> fi_id g = fi_id f"
  "AcceptRisk now f = Inr g \<Longrightarrow> fi_id g = fi_id f"
  "MarkOutOfScope now f = Inr g \<Longrightarrow> fi_id g = fi_id f"
  by (cases b; auto simp: transition_defs split: if_splits)
    (auto simp: transition_defs split: if_splits)

lemma keeps_close: "keeps_rows (\<lambda>now. Close parse now by_id)"
proof (rule keeps_rows_of_ok)
qed (fact finding_ok_transition(1) transitions_dup_of(1) transitions_id(1))+

lemma keeps_reopen: "keeps_rows Reopen"
proof (rule keeps_rows_of_ok)
qed (fact finding_ok_transition(2) transitions_dup_of(2) transitions_id(2))+

lemma keeps_false_positive: "keeps_rows MarkFalsePositive"
proof (rule keeps_rows_of_ok)
qed (fact finding_ok_transition(3) transitions_dup_of(3) transitions_id(3))+

lemma keeps_accept: "keeps_rows AcceptRisk"
proof (rule keeps_rows_of_ok)
qed (fact finding_ok_transition(4) transitions_dup_of(4) transitions_id(4))+

lemma keeps_out_of_scope: "keeps_rows MarkOutOfScope"
proof (rule keeps_rows_of_ok)
qed (fact finding_ok_transition(5) transitions_dup_of(5) transitions_id(5))+

lemmas keeps_transitions = keeps_close keeps_reopen keeps_false_positive keeps_accept keeps_out_of_scope

lemma bulkTransition_is:
  "bulkTransition parse r BulkClose = (\<lambda>now. Close parse now (Some r))"
  "bulkTransition parse r BulkReopen = Reopen"
  "bulkTransition parse r BulkFalsePos = MarkFalsePositive"
  "bulkTransition parse r BulkOutOfScope = MarkOutOfScope"
  "bulkTransition parse r BulkAcceptRisk = AcceptRisk"
  by (simp_all add: fun_eq_iff)

lemma keeps_bulkTransition: "keeps_rows (bulkTransition parse requester op)"
proof (cases op)
qed (simp_all only: bulkTransition_is keeps_transitions, simp_all add: keeps_rows_def)

lemma keeps_bulkMutation: "keeps_rows (bulkMutation op severity)"
  by (simp add: keeps_rows_def bulkMutation_def row_ok_def finding_ok_def CurrentState_def)

lemma row_ok_loaded: "row_ok (loadedFinding fid row) = row_ok row"
  by (simp add: row_ok_def loadedFinding_def finding_ok_def CurrentState_def)

lemma rows_ok_load:
  assumes "rows_ok s" and "FindingFindByID down fid s = (s1, Inr f)"
  shows "rows_ok s1 \<and> finding_rows s1 = finding_rows s \<and> row_ok f \<and> fi_id f = fid"
proof -
  obtain row where "finding_rows s fid = Some row" and "f = loadedFinding fid row"
    and "finding_rows s1 = finding_rows s"
    using assms(2) by (auto simp: FindingFindByID_def pg_query_def split: if_splits option.splits)
  then show ?thesis
    using assms(1) by (simp add: rows_ok_def row_ok_loaded) (simp add: loadedFinding_def)
qed

lemma rows_ok_load_fst: "rows_ok (fst (FindingFindByID down fid s)) = rows_ok s"
  by (simp add: FindingFindByID_def pg_query_def rows_ok_def)

lemma row_ok_updated: "row_ok f \<Longrightarrow> row_ok (updatedRow now f row)"
  by (simp add: row_ok_def updatedRow_def finding_ok_def CurrentState_def)

lemma rows_ok_FindingSave:
  assumes "rows_ok s" and "row_ok f"
  shows "rows_ok (fst (FindingSave down clock f s))"
  unfolding FindingSave_def
  by (rule rows_ok_exec [OF assms(1)])
    (use assms in \<open>auto simp: rows_ok_def row_ok_updated\<close>, simp add: updatedRow_def)

lemma rows_ok_changeFinding:
  assumes ok: "rows_ok s" and keeps: "keeps_rows mutate"
  shows "rows_ok (fst (changeFinding down clock mutate fid s))"
proof (cases "FindingFindByID down fid s")
  case (Pair s1 r)
  show ?thesis
  proof (cases r)
    case (Inl e)
    then show ?thesis
      using Pair ok rows_ok_load_fst [of down fid s] by (simp add: changeFinding_def)
  next
    case (Inr f)
    note loaded = rows_ok_load [OF ok Pair [unfolded Inr]]
    show ?thesis
    proof (cases "mutate (clock (statements s1)) f")
      case (Inl e)
      then show ?thesis using Pair Inr loaded by (simp add: changeFinding_def)
    next
      case (Inr g)
      then have "row_ok g" using keeps loaded by (auto simp: keeps_rows_def)
      then have "rows_ok (fst (FindingSave down clock g s1))"
        using loaded by (simp add: rows_ok_FindingSave)
      then show ?thesis
        using Pair \<open>r = Inr f\<close> Inr
        by (cases "FindingSave down clock g s1") (simp add: changeFinding_def split: option.split)
    qed
  qed
qed

lemma rows_ok_bulkOne:
  assumes "rows_ok s"
  shows "rows_ok (fst (bulkOne down clock parse requester op severity fid s))"
proof -
  have "rows_ok (fst (FindingDelete down fid s))"
    unfolding FindingDelete_def
    by (rule rows_ok_exec [OF assms]) (use assms in \<open>auto simp: rows_ok_def\<close>)
  then show ?thesis
    using assms rows_ok_changeFinding [OF assms keeps_bulkTransition]
      rows_ok_changeFinding [OF assms keeps_bulkMutation]
    by (auto simp: bulkOne_def split: prod.splits option.splits)
qed

lemma rows_ok_bulkLoop:
  assumes "\<And>fid s. rows_ok s \<Longrightarrow> rows_ok (fst (one fid s))" and "rows_ok s"
  shows "rows_ok (fst (bulkLoop one fids s r))"
  using assms(2)
proof (induction fids arbitrary: s r)
  case (Cons fid fids)
  then show ?case
    using assms(1) [OF Cons.prems, of fid] by (cases "one fid s") (auto split: option.splits)
qed simp

lemma rows_ok_BulkUpdate:
  assumes "rows_ok s"
  shows "rows_ok (fst (BulkUpdate down clock parse ids op severity requester s))"
proof -
  have "rows_ok (fst (bulkLoop (bulkOne down clock parse requester op severity) ids s r))" for r
    by (rule rows_ok_bulkLoop [OF rows_ok_bulkOne assms])
  then show ?thesis using assms by (simp add: BulkUpdate_def Let_def split_beta)
qed


text \<open>The insertions and the updates of many rows.\<close>

lemma rows_ok_FindingCreate:
  assumes "rows_ok s" and "row_ok f"
  shows "rows_ok (fst (FindingCreate down f s))"
proof (cases "finding_rows s (fi_id f) = None")
  case True
  have "row_ok (f\<lparr>fi_last_status_update := None, fi_duplicate_of := None\<rparr>)"
    using assms(2) by (simp add: row_ok_def finding_ok_def CurrentState_def)
  then have "rows_ok (insertFinding f s)"
    using assms(1) by (auto simp: rows_ok_def insertFinding_def)
  then show ?thesis
    using True assms(1) by (simp add: FindingCreate_def rows_ok_exec)
next
  case False
  then show ?thesis using assms(1) by (simp add: FindingCreate_def rows_ok_def)
qed

lemma rows_ok_insertAll:
  "rows_ok s \<Longrightarrow> list_all row_ok fs \<Longrightarrow> rows_ok (fst (insertAll down fs s))"
proof (induction fs arbitrary: s)
  case (Cons f fs)
  then show ?case
    using rows_ok_FindingCreate [of s f down]
    by (cases "FindingCreate down f s") (auto split: option.splits)
qed simp

lemma rows_ok_rolledBack: "rows_ok (rolledBack s s') = rows_ok s"
  by (simp add: rolledBack_def rows_ok_def)

lemma rows_ok_no_update: "rows_ok (fst (pg_exec down id s)) = rows_ok s"
  by (simp add: pg_exec_def rows_ok_def)

lemma rows_ok_FindingBulkCreate:
  assumes "rows_ok s" and "list_all row_ok fs"
  shows "rows_ok (fst (FindingBulkCreate down fs s))"
proof -
  obtain s1 r1 where 1: "pg_exec down id s = (s1, r1)" by fastforce
  have ok1: "rows_ok s1" using assms(1) rows_ok_no_update [of down s] 1 by simp
  obtain s2 r2 where 2: "insertAll down fs s1 = (s2, r2)" by fastforce
  have ok2: "rows_ok s2" using rows_ok_insertAll [OF ok1 assms(2), of down] 2 by simp
  obtain s3 r3 where 3: "pg_exec down id s2 = (s3, r3)" by fastforce
  have ok3: "rows_ok s3" using ok2 rows_ok_no_update [of down s2] 3 by simp
  show ?thesis
    using assms(1) ok1 ok2 ok3
    by (cases r1; cases r2; cases r3) (simp_all add: FindingBulkCreate_def 1 2 3 rows_ok_rolledBack)
qed

lemma rows_ok_setSLADates:
  "rows_ok s \<Longrightarrow> rows_ok (fst (setSLADates down clock us s))"
proof (induction us arbitrary: s)
  case (Cons u us)
  obtain fid date where u: "u = (fid, date)" by fastforce
  let ?g = "\<lambda>row. row\<lparr>fi_sla_expiration := Some date, fi_updated := clock (statements s)\<rparr>"
  have "rows_ok (fst (pg_exec down (updateWhere (\<lambda>row. fi_id row = fid) ?g) s))"
    using Cons.prems by (intro rows_ok_exec rows_ok_updateWhere)
      (simp_all add: row_ok_def finding_ok_def CurrentState_def)
  then show ?case
    using Cons.IH u
    by (cases "pg_exec down (updateWhere (\<lambda>row. fi_id row = fid) ?g) s")
      (simp add: Let_def split: option.split)
qed simp

lemma rows_ok_BulkUpdateSLADates:
  assumes "rows_ok s"
  shows "rows_ok (fst (BulkUpdateSLADates down clock us s))"
proof -
  obtain s1 r1 where 1: "pg_exec down id s = (s1, r1)" by fastforce
  have ok1: "rows_ok s1" using assms(1) rows_ok_no_update [of down s] 1 by simp
  obtain s2 r2 where 2: "setSLADates down clock us s1 = (s2, r2)" by fastforce
  have ok2: "rows_ok s2" using rows_ok_setSLADates [OF ok1, of down clock us] 2 by simp
  obtain s3 r3 where 3: "pg_exec down id s2 = (s3, r3)" by fastforce
  have ok3: "rows_ok s3" using ok2 rows_ok_no_update [of down s2] 3 by simp
  show ?thesis
    using assms(1) ok1 ok2 ok3
    by (cases r1; cases r2; cases r3) (simp_all add: BulkUpdateSLADates_def 1 2 3 rows_ok_rolledBack)
qed

text \<open>A row that is active has no closing flag, so it may be closed by a statement.\<close>

lemma row_ok_closed:
  assumes "row_ok row" and "fi_active row"
  shows "row_ok (row\<lparr>fi_active := False, fi_mitigated := True, fi_mitigated_at := Some t,
           fi_mitigated_by := b, fi_updated := t\<rparr>)"
    and "row_ok (row\<lparr>fi_active := False, fi_mitigated := True, fi_mitigated_at := Some t,
           fi_updated := t\<rparr>)"
proof -
  from assms have "finding_ok (row\<lparr>fi_duplicate_of := if fi_duplicate row then Some uuid_nil else None\<rparr>)"
    by (simp add: row_ok_def)
  from finding_ok_state(1) [OF this] assms
  have "\<not> fi_duplicate row \<and> \<not> fi_false_positive row \<and> \<not> fi_out_of_scope row \<and> \<not> fi_risk_accepted row"
    by (simp add: row_ok_def finding_ok_def)
  then show "row_ok (row\<lparr>fi_active := False, fi_mitigated := True, fi_mitigated_at := Some t,
           fi_mitigated_by := b, fi_updated := t\<rparr>)"
    and "row_ok (row\<lparr>fi_active := False, fi_mitigated := True, fi_mitigated_at := Some t,
           fi_updated := t\<rparr>)"
    by (simp_all add: row_ok_def finding_ok_def CurrentState_def)
qed

lemma rows_ok_RepoCloseOldFindings:
  assumes "rows_ok s"
  shows "rows_ok (fst (RepoCloseOldFindings down clock scan parse testID productID hashes s))"
proof -
  let ?P = "closesRow (mustParseUUID parse testID) (mustParseUUID parse productID) hashes"
  let ?g = "\<lambda>row. row\<lparr>fi_active := False, fi_mitigated := True,
    fi_mitigated_at := Some (clock (statements s)), fi_updated := clock (statements s)\<rparr>"
  have "rows_ok (updateWhere ?P ?g s)"
    by (rule rows_ok_updateWhere [OF assms]) (use row_ok_closed(2) in \<open>auto simp: closesRow_def\<close>)
  from rows_ok_exec [where down = down and upd = "updateWhere ?P ?g", OF assms this] show ?thesis
    by (cases "pg_exec down (updateWhere ?P ?g) s")
      (simp add: RepoCloseOldFindings_def Let_def split: option.split)
qed

lemma rows_ok_CloseOldFindings:
  assumes "rows_ok s"
  shows "rows_ok (fst (CloseOldFindings down clock scan testID excludeIDs by_id s))"
proof (cases "FindActiveByTest down scan testID excludeIDs s")
  case (Pair s1 r)
  then have rows: "finding_rows s1 = finding_rows s"
    by (auto simp: FindActiveByTest_def pg_query_def)
  then have ok1: "rows_ok s1" using assms by (simp add: rows_ok_def)
  show ?thesis
  proof (cases r)
    case (Inl e)
    then show ?thesis using Pair ok1 by (simp add: CloseOldFindings_def)
  next
    case (Inr ids)
    have act: "fi_active row" if "fid \<in> set ids" "finding_rows s1 fid = Some row" for fid row
      using Pair Inr that rows
      by (auto simp: FindActiveByTest_def pg_query_def split: if_splits)
    let ?g = "\<lambda>row. row\<lparr>fi_active := False, fi_mitigated := True,
      fi_mitigated_at := Some (clock (statements s1)), fi_mitigated_by := Some by_id,
      fi_updated := clock (statements s1)\<rparr>"
    have "fi_id row = fid \<and> row_ok row \<and> (fid \<in> set ids \<longrightarrow> row_ok (?g row))"
      if "finding_rows s1 fid = Some row" for fid row
      using that ok1 act [of fid row] row_ok_closed(1) [of row] by (simp add: rows_ok_def)
    then have "rows_ok (updateWhere (\<lambda>row. fi_id row \<in> set ids) ?g s1)"
      by (auto simp: rows_ok_def updateWhere_def)
    note done_ok = rows_ok_exec [where down = down and upd = "updateWhere (\<lambda>row. fi_id row \<in> set ids) ?g", OF ok1 this]
    have "rows_ok (fst (BulkSetMitigated down clock ids by_id s1))"
      using ok1 done_ok by (simp add: BulkSetMitigated_def Let_def)
    then show ?thesis
      using Pair Inr ok1
      by (cases "BulkSetMitigated down clock ids by_id s1")
        (simp add: CloseOldFindings_def split: option.split)
  qed
qed


lemma row_ok_bulkFinding: "row_ok (bulkFinding newID now t e p h fi)"
  by (simp add: bulkFinding_def Let_def row_ok_def finding_ok_def CurrentState_def)

lemma rows_ok_bulkCreateOne:
  assumes "rows_ok s"
  shows "rows_ok (fst (bulkCreateOne down scan sha256 fresh clock minimum t e p fi s))"
proof (cases "FindByHashCode down scan (inputHash sha256 fi) t False None None s")
  case (Pair s1 r)
  then have "rows_ok s1"
    using assms by (auto simp: FindByHashCode_def Let_def pg_query_def rows_ok_def)
  then have "rows_ok (fst (FindingCreate down (bulkFinding i now t e p h fi) s1))" for i now h
    by (rule rows_ok_FindingCreate) (rule row_ok_bulkFinding)
  then show ?thesis
    using assms \<open>rows_ok s1\<close> Pair
    by (simp add: bulkCreateOne_def Let_def split: sum.split prod.split option.split)
      (metis fst_conv)
qed

lemma rows_ok_bulkCreateLoop:
  assumes "\<And>fi s. rows_ok s \<Longrightarrow> rows_ok (fst (one fi s))" and "rows_ok s"
  shows "rows_ok (fst (bulkCreateLoop one i fis s out))"
  using assms(2)
proof (induction fis arbitrary: i s out)
  case (Cons fi fis)
  then show ?case using assms(1) [OF Cons.prems, of fi] by (cases "one fi s") simp
qed simp

lemma rows_ok_BulkCreate:
  assumes "rows_ok s"
  shows "rows_ok (fst (BulkCreate down scan sha256 fresh clock tests engs t inputs minimum s))"
proof -
  have query: "rows_ok s1" if "pg_query down q s0 = (s1, r)" "rows_ok s0"
    for q :: "pg \<Rightarrow> uuid option" and s0 s1 r
    using that rows_ok_query [of down q s0] by simp
  have loop': "rows_ok s3"
    if "bulkCreateLoop (bulkCreateOne down scan sha256 fresh clock minimum t e p) 0 inputs s0 o0 = (s3, o3)"
      "rows_ok s0" for e p s0 o0 s3 o3
  proof -
    have "rows_ok (fst (bulkCreateLoop
        (bulkCreateOne down scan sha256 fresh clock minimum t e p) 0 inputs s0 o0))"
      by (rule rows_ok_bulkCreateLoop [OF rows_ok_bulkCreateOne that(2)])
    then show ?thesis using that(1) by simp
  qed
  show ?thesis
    using assms by (auto simp: BulkCreate_def Let_def split: prod.split sum.split dest!: query loop')
qed

lemma batchFindings_rows:
  assumes "\<And>n fi f. mk n fi = Inr f \<Longrightarrow> in_active fi \<Longrightarrow> row_ok f"
  shows "batchFindings mk n fis = Inr fs \<Longrightarrow> list_all in_active fis \<Longrightarrow> list_all row_ok fs"
  using assms by (induction fis arbitrary: n fs) (auto split: sum.splits)

lemma row_ok_batchFinding:
  assumes "batchFinding sha256 i now t e p fi = Inr f" and "in_active fi"
  shows "row_ok f"
  using assms
  by (auto simp: batchFinding_def NewFinding_def Let_def row_ok_def finding_ok_def CurrentState_def
      split: if_splits)

lemma rows_ok_batchLoop:
  "(\<And>n fi f. mk n fi = Inr f \<Longrightarrow> in_active fi \<Longrightarrow> row_ok f) \<Longrightarrow>
   rows_ok s \<Longrightarrow> list_all in_active fis \<Longrightarrow> rows_ok (fst (batchLoop down mk n fis s))"
proof (induction down mk n fis s rule: batchLoop.induct)
  case (1 down mk n fis s)
  show ?case
  proof (cases "fis = []")
    case False
    show ?thesis
    proof (cases "batchFindings mk n (take 100 fis)")
      case (Inl e)
      then show ?thesis using False 1 by (subst batchLoop.simps) simp
    next
      case (Inr fs)
      have "list_all in_active (take 100 fis)" "list_all in_active (drop 100 fis)"
        using 1(4) by (auto simp: list_all_iff dest: in_set_takeD in_set_dropD)
      have "list_all row_ok fs"
      proof (rule batchFindings_rows [OF _ Inr])
        show "list_all in_active (take 100 fis)" by fact
      qed (rule 1(2))
      obtain s1 r where create: "FindingBulkCreate down fs s = (s1, r)" by fastforce
      have "rows_ok s1"
        using rows_ok_FindingBulkCreate [OF 1(3) \<open>list_all row_ok fs\<close>, of down] create by simp
      then show ?thesis
        using False Inr create 1(1) [OF False Inr create [symmetric]] 1(2-4)
          \<open>list_all in_active (drop 100 fis)\<close>
        by (subst batchLoop.simps) (auto split: sum.splits prod.splits)
    qed
  qed (use 1 in \<open>simp add: batchLoop.simps\<close>)
qed


text \<open>Risk acceptances change findings through the same loads, transitions and saves.\<close>

lemma rows_ok_AddFinding: "rows_ok (fst (AddFinding down raID fid s)) = rows_ok s"
  by (simp add: AddFinding_def pg_exec_def rows_ok_def linkFinding_def)

lemma reopenOne_change: "reopenOne down clock fid s = fst (changeFinding down clock Reopen fid s)"
  by (simp add: reopenOne_def changeFinding_def split: prod.split sum.split option.split)

lemma rows_ok_acceptOne:
  assumes "rows_ok s"
  shows "rows_ok (acceptOne down clock raID fid s)"
proof (cases "FindingFindByID down fid s")
  case (Pair s1 r)
  have ok1: "rows_ok s1" using assms rows_ok_load_fst [of down fid s] Pair by simp
  have "rows_ok (fst (FindingSave down clock g s1))"
    if "r = Inr f" "AcceptRisk (clock (statements s1)) f = Inr g" for f g
  proof (rule rows_ok_FindingSave [OF ok1])
    have "row_ok f" using rows_ok_load [OF assms] Pair that(1) by blast
    then show "row_ok g" using keeps_accept that(2) by (auto simp: keeps_rows_def)
  qed
  then show ?thesis
    using Pair ok1 by (simp add: acceptOne_def rows_ok_AddFinding split: sum.split)
qed

lemma rows_ok_fold: "(\<And>x s. rows_ok s \<Longrightarrow> rows_ok (f x s)) \<Longrightarrow> rows_ok s \<Longrightarrow> rows_ok (fold f xs s)"
  by (induction xs arbitrary: s) auto

lemma rows_ok_publish: "rows_ok (publish e s) = rows_ok s"
  by (simp add: publish_def rows_ok_def)

lemma rows_ok_GetRole: "GetRole down p u s = (s1, r) \<Longrightarrow> rows_ok s \<Longrightarrow> rows_ok s1"
  using rows_ok_query [of down "\<lambda>s. map_option pm_role (member_rows s (p, u))" s]
  by (auto simp: GetRole_def split: prod.splits sum.splits)

lemma rows_ok_AcceptanceSave:
  assumes "rows_ok s"
  shows "rows_ok (fst (AcceptanceSave down clock fr ra s))"
proof -
  have "rows_ok (fst (pg_exec down (upsertAcceptance ra') s))" for ra'
    by (rule rows_ok_exec [OF assms]) (use assms in \<open>simp add: upsertAcceptance_def rows_ok_def\<close>)
  then have "rows_ok s1" if "pg_exec down (upsertAcceptance ra') s = (s1, r)" for ra' s1 r
    using that by (metis fst_conv)
  then show ?thesis
    by (auto simp: AcceptanceSave_def Let_def rows_ok_AddFinding intro!: rows_ok_fold
        split: prod.split option.split)
qed

lemma rows_ok_CreateRiskAcceptance:
  assumes "rows_ok s"
  shows "rows_ok (fst (CreateRiskAcceptance down clock pub f1 f2 req s))"
proof -
  obtain s1 r where role: "GetRole down (in_product req) (in_requester req) s = (s1, r)" by fastforce
  then have ok1: "rows_ok s1" using assms by (rule rows_ok_GetRole)
  show ?thesis
  proof (cases "r = Some RoleOwner \<or> r = Some RoleMaintainer")
    case True
    define ra where "ra = (newAcceptance f1 (clock (statements s1)) (in_product req) (in_requester req) (in_name req))
                  \<lparr>ra_expiration := in_expiration req, ra_notes := in_notes req,
                   ra_proof_file := in_proof_file req, ra_reactivate := in_reactivate req,
                   ra_reactivate_note := in_reactivate_note req,
                   ra_restart_sla := in_restart_sla req, ra_findings := in_findings req\<rparr>"
    obtain s2 r2 where save: "AcceptanceSave down clock f2 ra s1 = (s2, r2)" by fastforce
    have ok2: "rows_ok s2" using rows_ok_AcceptanceSave [OF ok1, of down clock f2 ra] save by simp
    have "rows_ok (fold (acceptOne down clock i) fids s2)" for i fids
      by (rule rows_ok_fold [OF rows_ok_acceptOne ok2])
    then show ?thesis
      using True role save ok2
      by (cases r2) (auto simp: CreateRiskAcceptance_def ra_def [symmetric] rows_ok_publish Let_def)
  next
    case False
    then show ?thesis
      using role ok1 by (cases r) (auto simp: CreateRiskAcceptance_def)
  qed
qed

lemma rows_ok_RemoveFindingFromRA:
  assumes "rows_ok s"
  shows "rows_ok (fst (RemoveFindingFromRA down clock raID fid requester s))"
proof -
  have find: "rows_ok s1" if "AcceptanceFindByID down raID s = (s1, r)" for s1 r
    using that assms by (auto simp: AcceptanceFindByID_def loadFindingIDs_def pg_query_def rows_ok_def
        Let_def split: prod.splits sum.splits option.splits if_splits)
  have remove: "rows_ok s3" if "RemoveFinding down raID fid s2 = (s3, r)" "rows_ok s2" for s2 s3 r
    using that by (auto simp: RemoveFinding_def pg_exec_def rows_ok_def split: if_splits)
  have load: "rows_ok s4" if "FindingFindByID down fid s3 = (s4, r)" "rows_ok s3" for s3 s4 r
    using that rows_ok_load_fst [of down fid s3] by simp
  have save: "rows_ok (fst (FindingSave down clock
      (case Reopen (clock (statements s4)) f of Inl _ \<Rightarrow> f | Inr g \<Rightarrow> g) s4))"
    if "FindingFindByID down fid s3 = (s4, Inr f)" "rows_ok s3" for s3 s4 f
    using rows_ok_load [OF that(2,1)] keeps_reopen
    by (intro rows_ok_FindingSave) (auto simp: keeps_rows_def split: sum.split)
  obtain s1 r1 where 1: "AcceptanceFindByID down raID s = (s1, r1)" by fastforce
  have ok1: "rows_ok s1" using find [OF 1] .
  show ?thesis
  proof (cases r1)
    case (Inr ra)
    obtain s2 r2 where 2: "GetRole down (ra_product ra) requester s1 = (s2, r2)" by fastforce
    have ok2: "rows_ok s2" using 2 ok1 by (rule rows_ok_GetRole)
    obtain s3 r3 where 3: "RemoveFinding down raID fid s2 = (s3, r3)" by fastforce
    have ok3: "rows_ok s3" using remove [OF 3 ok2] .
    obtain s4 r4 where 4: "FindingFindByID down fid s3 = (s4, r4)" by fastforce
    have ok4: "rows_ok s4" using load [OF 4 ok3] .
    show ?thesis
    proof (cases r4)
      case (Inr f)
      with 4 have "rows_ok (fst (FindingSave down clock
          (case Reopen (clock (statements s4)) f of Inl _ \<Rightarrow> f | Inr g \<Rightarrow> g) s4))"
        using save ok3 by blast
      then show ?thesis
        using 1 2 3 4 \<open>r1 = Inr ra\<close> Inr ok2 ok3
        by (cases r2; cases r3) (simp_all add: RemoveFindingFromRA_def Let_def)
    qed (use 1 2 3 4 Inr ok2 ok3 ok4 in \<open>cases r2; cases r3; simp add: RemoveFindingFromRA_def\<close>)
  qed (use 1 ok1 in \<open>simp add: RemoveFindingFromRA_def\<close>)
qed

lemma rows_ok_ExpireRiskAcceptances:
  assumes "rows_ok s"
  shows "rows_ok (fst (ExpireRiskAcceptances down clock pub s))"
proof -
  have expire: "rows_ok (fst (expireOne down clock pub ra s))" if "rows_ok s" for ra s
  proof -
    obtain s1 r where 1: "MarkExpired down clock (ra_id ra) s = (s1, r)" by fastforce
    then have ok1: "rows_ok s1"
      using that by (auto simp: MarkExpired_def pg_exec_def rows_ok_def split: if_splits)
    have "rows_ok (fold (reopenOne down clock) fids t)" if "rows_ok t" for fids t
      by (rule rows_ok_fold [OF _ that]) (simp add: reopenOne_change rows_ok_changeFinding keeps_reopen)
    then show ?thesis
      using 1 ok1 by (cases r) (simp_all add: expireOne_def Let_def rows_ok_publish)
  qed
  obtain s1 r where 1: "ListExpiring down (clock (statements s) div day * day) s = (s1, r)" by fastforce
  then have "rows_ok s1" using assms by (auto simp: ListExpiring_def pg_query_def rows_ok_def)
  then have "rows_ok (fst (for_each (expireOne down clock pub) ras s1))" for ras
    by (rule for_each_inv [where P = rows_ok]) (rule expire)
  then show ?thesis
    using 1 \<open>rows_ok s1\<close> by (cases r) (simp_all add: ExpireRiskAcceptances_def Let_def)
qed

text \<open>The transitions of \<open>StatusTransitionUseCase\<close>.\<close>

datatype status_op = OpClose string | OpReopen | OpFalsePositive | OpAcceptRisk

fun statusMutation ::
  "(string \<Rightarrow> uuid option) \<Rightarrow> status_op \<Rightarrow> timestamp \<Rightarrow> finding \<Rightarrow> finding_error + finding" where
  "statusMutation parse (OpClose by_id) now f = Close parse now (Some by_id) f"
| "statusMutation parse OpReopen now f = Reopen now f"
| "statusMutation parse OpFalsePositive now f = MarkFalsePositive now f"
| "statusMutation parse OpAcceptRisk now f = AcceptRisk now f"

definition StatusTransition ::
  "outage \<Rightarrow> (nat \<Rightarrow> timestamp) \<Rightarrow> (string \<Rightarrow> uuid option) \<Rightarrow> status_op \<Rightarrow> uuid \<Rightarrow> pg
     \<Rightarrow> pg \<times> finding_op_error option" where
  "StatusTransition down clock parse op fid = changeFinding down clock (statusMutation parse op) fid"

lemma statusMutation_is:
  "statusMutation parse (OpClose b) = (\<lambda>now. Close parse now (Some b))"
  "statusMutation parse OpReopen = Reopen"
  "statusMutation parse OpFalsePositive = MarkFalsePositive"
  "statusMutation parse OpAcceptRisk = AcceptRisk"
  by (simp_all add: fun_eq_iff)

lemma keeps_statusMutation: "keeps_rows (statusMutation parse op)"
  by (cases op) (simp_all only: statusMutation_is keeps_transitions)

section \<open>The life of the table of findings\<close>

text \<open>
  The requests that change findings, each with its own outage and clock: transitions, bulk
  updates, the closing of old findings by either way, creations, SLA dates and risk acceptances.
  Left out are the statements that reactivate (\<open>ReactivateByHashes\<close>, \<open>BulkReactivate\<close>) and
  batches with inactive findings, which do not keep the flags in agreement (below).
\<close>

inductive finding_request :: "row_scan \<Rightarrow> pg \<Rightarrow> pg \<Rightarrow> bool" for scan where
  req_transition: "finding_request scan s (fst (StatusTransition down clock parse op fid s))"
| req_bulk: "finding_request scan s (fst (BulkUpdate down clock parse ids bop sev requester s))"
| req_close_old: "finding_request scan s (fst (CloseOldFindings down clock scan t ids by_id s))"
| req_close_hashes: "finding_request scan s (fst (RepoCloseOldFindings down clock scan parse t p hashes s))"
| req_create: "finding_request scan s
    (fst (BulkCreate down scan sha256 fresh clock tests engs t inputs minimum s))"
| req_batch: "list_all in_active inputs \<Longrightarrow> finding_request scan s
    (fst (BatchCreateFindings down sha256 fresh clock t e p inputs s))"
| req_sla: "finding_request scan s (fst (BulkUpdateSLADates down clock us s))"
| req_accept: "finding_request scan s (fst (CreateRiskAcceptance down clock pub f1 f2 ra s))"
| req_remove: "finding_request scan s (fst (RemoveFindingFromRA down clock raID fid requester s))"
| req_expire: "finding_request scan s (fst (ExpireRiskAcceptances down clock pub s))"

inductive finding_history :: "row_scan \<Rightarrow> pg \<Rightarrow> pg \<Rightarrow> bool" for scan where
  history_start: "finding_history scan s s"
| history_step: "finding_history scan s t \<Longrightarrow> finding_request scan t u \<Longrightarrow> finding_history scan s u"

inductive_cases finding_requestE: "finding_request scan s t"

lemma rows_ok_BatchCreateFindings:
  "rows_ok s \<Longrightarrow> list_all in_active inputs \<Longrightarrow>
   rows_ok (fst (BatchCreateFindings down sha256 fresh clock t e p inputs s))"
  unfolding BatchCreateFindings_def by (rule rows_ok_batchLoop) (erule (1) row_ok_batchFinding)

lemma rows_ok_request: "finding_request scan s t \<Longrightarrow> rows_ok s \<Longrightarrow> rows_ok t"
  by (erule finding_requestE)
    (simp_all add: StatusTransition_def rows_ok_changeFinding keeps_statusMutation rows_ok_BulkUpdate
      rows_ok_CloseOldFindings rows_ok_RepoCloseOldFindings rows_ok_BulkCreate
      rows_ok_BatchCreateFindings rows_ok_BulkUpdateSLADates rows_ok_CreateRiskAcceptance
      rows_ok_RemoveFindingFromRA rows_ok_ExpireRiskAcceptances)


definition ex_pg :: pg where
  "ex_pg = \<lparr>finding_rows = Map.empty, acceptance_rows = [], acceptance_links = [],
     member_rows = Map.empty, published = [], statements = 0\<rparr>"

definition ex_input :: "string \<Rightarrow> string \<Rightarrow> finding_input" where
  "ex_input title sev = \<lparr>in_title = title, in_sev = sev, in_cve = ''CVE-1'', in_component = ''c'',
     in_component_version = ''1'', in_active = True, in_hash = ''h'', in_date = None\<rparr>"

definition ex_scan :: row_scan where
  "ex_scan s = filter (\<lambda>fid. finding_rows s fid \<noteq> None) [''id0'', ''id1'', ''id2'', ''id3'', ''id4'', ''id5'']"

definition ex_fresh :: "nat \<Rightarrow> uuid" where
  "ex_fresh n = (if n < 6 then [''id0'', ''id1'', ''id2'', ''id3'', ''id4'', ''id5''] ! n else [])"



text \<open>
  The two statements that reactivate set the flags of every row they match, whatever closed it:
  a false positive comes back as active and false positive at once, outside the states of the
  state machine.
\<close>

lemma ReactivateByHashes_breaks_flags:
  assumes "finding_rows s fid = Some row" and "fi_hash row \<in> set hashes"
    and "fi_product row = pid" and "parse productID = Some pid"
    and "\<not> fi_active row" and "\<not> down (statements s)"
    and closed: "CurrentState row \<in> {StateFalsePositive, StateOutOfScope, StateRiskAccepted, StateDuplicate}"
  shows "\<exists>row'. finding_rows (fst (ReactivateByHashes down clock scan parse hashes productID s)) fid
       = Some row' \<and> fi_active row' \<and> CurrentState row' = CurrentState row \<and> \<not> row_ok row'"
proof -
  have "hashes \<noteq> []" using assms(2) by auto
  then show ?thesis
    using assms(1-6) closed
    by (simp add: ReactivateByHashes_def Let_def pg_exec_def updateWhere_def row_ok_def finding_ok_def)
      (auto simp: CurrentState_def split: if_splits)
qed

text \<open>The repository does not store severities or tags with a finding that it saves.\<close>

definition severities :: "pg \<Rightarrow> uuid \<Rightarrow> string option" where
  "severities s fid = map_option fi_severity (finding_rows s fid)"

lemma severities_changeFinding:
  "severities (fst (changeFinding down clock mutate fid s)) = severities s"
proof -
  have load: "severities (fst (FindingFindByID down fid s0)) = severities s0" for s0
    by (simp add: FindingFindByID_def pg_query_def severities_def fun_eq_iff)
  have save: "severities (fst (FindingSave down clock g s0)) = severities s0" for s0 g
    by (auto simp: FindingSave_def pg_exec_def severities_def updatedRow_def fun_eq_iff
        option.map_comp o_def)
  obtain s1 r where 1: "FindingFindByID down fid s = (s1, r)" by fastforce
  then have 2: "severities s1 = severities s" using load [of s] by simp
  show ?thesis
  proof (cases r)
    case (Inl e)
    then show ?thesis using 1 2 by (simp add: changeFinding_def)
  next
    case (Inr f)
    show ?thesis
    proof (cases "mutate (clock (statements s1)) f")
      case (Inl e)
      then show ?thesis using 1 2 Inr by (simp add: changeFinding_def)
    next
      case (Inr g)
      then show ?thesis
        using 1 2 \<open>r = Inr f\<close> save [of g s1]
        by (cases "FindingSave down clock g s1") (simp add: changeFinding_def split: option.split)
    qed
  qed
qed

lemma bulkLoop_counts:
  "bulkLoop one fids s r = (s', r') \<Longrightarrow>
     bu_updated r' + bu_failed r' = bu_updated r + bu_failed r + int (length fids)
   \<and> int (length (bu_errors r')) - bu_failed r' = int (length (bu_errors r)) - bu_failed r"
  by (induction fids arbitrary: s r) (auto split: prod.splits option.splits)

lemma severities_bulkLoop:
  assumes "\<And>fid s. severities (fst (one fid s)) = severities s"
  shows "severities (fst (bulkLoop one fids s r)) = severities s"
proof (induction fids arbitrary: s r)
  case (Cons fid fids)
  then show ?case
    using assms [of fid s] by (cases "one fid s") (auto split: option.splits)
qed simp

text \<open>A bulk operation of at most 1000 findings visits every one of them, whatever fails:
  updated and failed sum up to the number of findings and there is one error message for each
  failure. An operation that sets the severity leaves every stored severity as it was, although
  it counts the findings as updated: the statement that saves a finding has no such column.\<close>

theorem BulkUpdate_severity_lost:
  assumes "BulkUpdate down clock parse ids op severity requester s = (s', Inr r)"
  shows "bu_updated r + bu_failed r = int (length ids) \<and> int (length (bu_errors r)) = bu_failed r
     \<and> length ids \<le> 1000
     \<and> (op \<in> {BulkSetSeverity, BulkAddTags, BulkRemoveTags} \<longrightarrow> severities s' = severities s)"
proof (cases "ids = []")
  case True
  then show ?thesis using assms by (auto simp: BulkUpdate_def)
next
  case False
  let ?r0 = "\<lparr>bu_updated = 0, bu_failed = 0, bu_errors = []\<rparr>"
  from False assms have len: "length ids \<le> 1000"
    and loop: "bulkLoop (bulkOne down clock parse requester op severity) ids s ?r0 = (s', r)"
    by (auto simp: BulkUpdate_def Let_def split: if_splits prod.splits)
  have "severities s' = severities s" if "op \<in> {BulkSetSeverity, BulkAddTags, BulkRemoveTags}"
    using severities_bulkLoop [of "bulkOne down clock parse requester op severity" ids s ?r0] loop that
    by (auto simp: bulkOne_def severities_changeFinding)
  then show ?thesis using bulkLoop_counts [OF loop] len by simp
qed

lemma BulkUpdate_severity_lost_witness:
  "\<exists>s' r. BulkUpdate (\<lambda>_. False) int (\<lambda>_. None) [''x''] BulkSetSeverity ''Low'' ''u'' ex_pg = (s', Inr r)
     \<and> bu_failed r = 1 \<and> bu_updated r + bu_failed r = 1 \<and> severities s' = severities ex_pg"
proof -
  have run: "snd (BulkUpdate (\<lambda>_. False) int (\<lambda>_. None) [''x''] BulkSetSeverity ''Low'' ''u'' ex_pg)
      = Inr \<lparr>bu_updated = 0, bu_failed = 1, bu_errors = [(''x'', NotFound NoRows)]\<rparr>"
    by code_simp
  then obtain s' where "BulkUpdate (\<lambda>_. False) int (\<lambda>_. None) [''x''] BulkSetSeverity ''Low'' ''u'' ex_pg
      = (s', Inr \<lparr>bu_updated = 0, bu_failed = 1, bu_errors = [(''x'', NotFound NoRows)]\<rparr>)"
    by (metis prod.collapse)
  with BulkUpdate_severity_lost [OF this] show ?thesis by auto
qed


section \<open>Bulk creation\<close>

text \<open>The hash of an input is the hash the entity itself computes, as the source requires.\<close>

lemma inputHash_is_ComputeHash:
  "inputHash sha256 fi = ComputeHash sha256 (bulkFinding newID now t e p h fi)"
  by (simp add: inputHash_def ComputeHash_def hashInput_def bulkFinding_def Let_def)

text \<open>What the counts of an output say of its results.\<close>

definition counts_ok :: "bulk_output \<Rightarrow> bool" where
  "counts_ok out \<longleftrightarrow>
     (let sts = map snd (bo_results out) in
      bo_created out = int (length (filter (\<lambda>st. case st of BulkCreated _ \<Rightarrow> True | _ \<Rightarrow> False) sts))
    \<and> bo_duplicate out = int (length (filter (\<lambda>st. case st of BulkDuplicate _ \<Rightarrow> True | _ \<Rightarrow> False) sts))
    \<and> bo_skipped out = int (length (filter (\<lambda>st. st = BulkSkipped) sts))
    \<and> bo_failed out = int (length (filter (\<lambda>st. case st of BulkError _ \<Rightarrow> True | _ \<Rightarrow> False) sts)))"

lemma counts_ok_countStatus: "counts_ok out \<Longrightarrow> counts_ok (countStatus i st out)"
  by (cases st) (simp_all add: counts_ok_def countStatus_def Let_def)

lemma results_countStatus: "bo_results (countStatus i st out) = bo_results out @ [(i, st)]"
  by (cases st) (simp_all add: countStatus_def Let_def)

lemma bulkCreateLoop_counts:
  "counts_ok out \<Longrightarrow> bulkCreateLoop one i fis s out = (s', out') \<Longrightarrow>
     counts_ok out' \<and> map fst (bo_results out') = map fst (bo_results out) @ [i..<i + length fis]"
proof (induction fis arbitrary: i s out)
  case (Cons fi fis)
  obtain s1 st where one: "one fi s = (s1, st)" by fastforce
  have "counts_ok out' \<and> map fst (bo_results out')
      = map fst (bo_results (countStatus i st out)) @ [Suc i..<Suc i + length fis]"
    using Cons.prems one by (intro Cons.IH) (auto simp: counts_ok_countStatus)
  moreover have "[i..<i + length (fi # fis)] = i # [Suc i..<Suc i + length fis]"
    by (simp add: upt_conv_Cons del: upt_Suc)
  ultimately show ?case by (simp only: results_countStatus) simp
qed simp

lemma counts_ok_sum:
  "counts_ok out \<Longrightarrow>
     bo_created out + bo_duplicate out + bo_skipped out + bo_failed out = int (length (bo_results out))"
proof -
  have "int (length (filter (\<lambda>st. case st of BulkCreated _ \<Rightarrow> True | _ \<Rightarrow> False) sts))
    + int (length (filter (\<lambda>st. case st of BulkDuplicate _ \<Rightarrow> True | _ \<Rightarrow> False) sts))
    + int (length (filter (\<lambda>st. st = BulkSkipped) sts))
    + int (length (filter (\<lambda>st. case st of BulkError _ \<Rightarrow> True | _ \<Rightarrow> False) sts)) = int (length sts)"
    for sts :: "bulk_status list"
    by (induction sts) (auto split: bulk_status.split)
  from this [of "map snd (bo_results out)"] show "counts_ok out \<Longrightarrow> ?thesis"
    by (simp add: counts_ok_def Let_def)
qed

text \<open>A test holds at most one finding of each hash.\<close>

definition unique_hashes :: "uuid \<Rightarrow> pg \<Rightarrow> bool" where
  "unique_hashes t s \<longleftrightarrow>
     (\<forall>i j f g. finding_rows s i = Some f \<longrightarrow> finding_rows s j = Some g \<longrightarrow>
        fi_test f = t \<longrightarrow> fi_test g = t \<longrightarrow> fi_hash f = fi_hash g \<longrightarrow> i = j)"

lemma FindByHashCode_none:
  assumes "scan_ok scan" and "\<not> down (statements s)"
    and "FindByHashCode down scan h t False None None s = (s1, Inl e)"
  shows "finding_rows s1 = finding_rows s"
    and "finding_rows s i = Some f \<Longrightarrow> fi_test f = t \<Longrightarrow> fi_hash f \<noteq> h"
proof -
  let ?Q = "\<lambda>fid. case finding_rows s fid of None \<Rightarrow> False | Some row \<Rightarrow> fi_hash row = h \<and> fi_test row = t"
  show "finding_rows s1 = finding_rows s"
    using assms(3) by (auto simp: FindByHashCode_def pg_query_def)
  have none: "Option.bind (find ?Q (scan s)) (finding_rows s) = None"
    using assms(2,3) by (auto simp: FindByHashCode_def pg_query_def split: option.splits)
  have "find ?Q (scan s) = None"
  proof (cases "find ?Q (scan s)")
    case (Some fid)
    then have "?Q fid" by (auto simp: find_Some_iff)
    then show ?thesis using none Some by (auto split: option.splits)
  qed
  then show "finding_rows s i = Some f \<Longrightarrow> fi_test f = t \<Longrightarrow> fi_hash f \<noteq> h"
    using assms(1) by (auto simp: find_None_iff scan_ok_def)
qed

lemma unique_hashes_insert:
  assumes "unique_hashes t s"
    and "\<And>i f. finding_rows s i = Some f \<Longrightarrow> fi_test f = t \<Longrightarrow> fi_hash f \<noteq> fi_hash g"
  shows "unique_hashes t (insertFinding g s)"
proof -
  have other: "fi_hash g \<noteq> fi_hash f" if "finding_rows s i = Some f" "fi_test f = t" for i f
    using assms(2) [OF that] by auto
  show ?thesis
    using assms(1) by (auto simp: unique_hashes_def insertFinding_def dest: other assms(2))
qed

lemma unique_hashes_bulkCreateOne:
  assumes scan: "scan_ok scan" and up: "\<And>n. \<not> down n" and uniq: "unique_hashes t s"
  shows "unique_hashes t (fst (bulkCreateOne down scan sha256 fresh clock minimum t e p fi s))"
proof (cases "FindByHashCode down scan (inputHash sha256 fi) t False None None s")
  case (Pair s1 r)
  show ?thesis
  proof (cases r)
    case (Inr dup)
    have "finding_rows s1 = finding_rows s"
      using Pair by (auto simp: FindByHashCode_def pg_query_def)
    then show ?thesis using Pair Inr uniq by (simp add: bulkCreateOne_def Let_def unique_hashes_def)
  next
    case (Inl err)
    note same = FindByHashCode_none(1) [OF scan up Pair [unfolded Inl]]
    note none = FindByHashCode_none(2) [OF scan up Pair [unfolded Inl]]
    define f where "f = bulkFinding (fresh (statements s1)) (clock (statements s1)) t e p
      (inputHash sha256 fi) fi"
    have hash: "fi_hash f = inputHash sha256 fi" by (simp add: f_def bulkFinding_def Let_def)
    have uniq1: "unique_hashes t s1" using uniq same by (simp add: unique_hashes_def)
    have "unique_hashes t (insertFinding f s1)"
      by (rule unique_hashes_insert [OF uniq1]) (simp add: hash same none)
    then have "unique_hashes t (fst (FindingCreate down f s1))"
      using uniq1 by (simp add: FindingCreate_def pg_exec_def up unique_hashes_def)
    moreover have "fst (bulkCreateOne down scan sha256 fresh clock minimum t e p fi s)
        \<in> {s, fst (FindingCreate down f s1)}"
      using Pair Inl
      by (simp add: bulkCreateOne_def Let_def f_def [symmetric] split: prod.split option.split)
    ultimately show ?thesis using uniq by auto
  qed
qed

lemma unique_hashes_loop:
  assumes "\<And>fi s. unique_hashes t s \<Longrightarrow> unique_hashes t (fst (one fi s))" and "unique_hashes t s"
  shows "unique_hashes t (fst (bulkCreateLoop one i fis s out))"
  using assms(2)
proof (induction fis arbitrary: i s out)
  case (Cons fi fis)
  then show ?case using assms(1) [OF Cons.prems, of fi] by (cases "one fi s") simp
qed simp

text \<open>C29: A bulk creation that is served reports one result for each input, in order, and its four
  counts are the numbers of the results of each kind, so they sum up to the number of inputs (at
  most 500). While the database answers, a test that holds at most one finding of each hash does
  so afterwards. (A failing lookup is taken for "no duplicate", see
  \<open>BulkCreate_outage_duplicates\<close>.)\<close>

theorem BulkCreate_accounts:
  assumes "BulkCreate down scan sha256 fresh clock tests engs t inputs minimum s = (s', Inr out)"
  shows "map fst (bo_results out) = [0..<length inputs] \<and> counts_ok out \<and> length inputs \<le> 500
    \<and> bo_created out + bo_duplicate out + bo_skipped out + bo_failed out = int (length inputs)
    \<and> (scan_ok scan \<longrightarrow> (\<forall>n. \<not> down n) \<longrightarrow> unique_hashes t s \<longrightarrow> unique_hashes t s')"
proof (cases "inputs = []")
  case True
  then show ?thesis using assms by (auto simp: BulkCreate_def counts_ok_def)
next
  case False
  let ?o = "\<lparr>bo_created = 0, bo_duplicate = 0, bo_skipped = 0, bo_failed = 0, bo_results = []\<rparr>"
  let ?s2 = "s\<lparr>statements := Suc (Suc (statements s))\<rparr>"
  from False assms have len: "length inputs \<le> 500"
    by (auto simp: BulkCreate_def Let_def split: if_splits)
  from False assms obtain e p where
    loop: "bulkCreateLoop (bulkCreateOne down scan sha256 fresh clock minimum t e p) 0 inputs ?s2 ?o = (s', out)"
    by (auto simp: BulkCreate_def Let_def pg_query_def split: if_splits prod.splits sum.splits option.splits)
  have counts: "counts_ok out" "map fst (bo_results out) = [0..<length inputs]"
    using bulkCreateLoop_counts [OF _ loop] by (auto simp: counts_ok_def)
  then have "length (bo_results out) = length inputs" using length_map [of fst "bo_results out"] by simp
  moreover have "unique_hashes t s'" if "scan_ok scan" "\<forall>n. \<not> down n" "unique_hashes t s"
  proof -
    have "unique_hashes t ?s2" using that(3) by (simp add: unique_hashes_def)
    have "unique_hashes t (fst (bulkCreateLoop (bulkCreateOne down scan sha256 fresh clock minimum t e p)
        0 inputs ?s2 ?o))"
      by (rule unique_hashes_loop [OF unique_hashes_bulkCreateOne \<open>unique_hashes t ?s2\<close>])
        (use that in auto)
    then show ?thesis using loop by simp
  qed
  ultimately show ?thesis using counts counts_ok_sum len by simp
qed

lemma BulkCreate_accounts_witness:
  "\<exists>s' out. BulkCreate (\<lambda>_. False) ex_scan id ex_fresh int (\<lambda>t. Some ''e'') (\<lambda>e. Some ''p'') ''t''
       [ex_input ''a'' ''high'', ex_input ''a'' ''low'', ex_input ''b'' ''info''] ''Low'' ex_pg = (s', Inr out)
     \<and> bo_created out = 1 \<and> bo_duplicate out = 1 \<and> bo_skipped out = 1 \<and> counts_ok out"
proof -
  let ?run = "BulkCreate (\<lambda>_. False) ex_scan id ex_fresh int (\<lambda>t. Some ''e'') (\<lambda>e. Some ''p'') ''t''
       [ex_input ''a'' ''high'', ex_input ''a'' ''low'', ex_input ''b'' ''info''] ''Low'' ex_pg"
  let ?out = "\<lparr>bo_created = 1, bo_duplicate = 1, bo_skipped = 1, bo_failed = 0,
    bo_results = [(0, BulkCreated ''id3''), (1, BulkDuplicate ''id3''), (2, BulkSkipped)]\<rparr>"
  have "snd ?run = Inr ?out" by code_simp
  then have "?run = (fst ?run, Inr ?out)" by (metis prod.collapse)
  with BulkCreate_accounts [OF this] show ?thesis
    by (intro exI [of _ "fst ?run"] exI [of _ ?out]) simp
qed

text \<open>When the lookup fails and the insertion does not, the same finding is stored twice.\<close>

lemma BulkCreate_outage_duplicates:
  "let s = fst (BulkCreate (\<lambda>n. n = 4) ex_scan id ex_fresh int (\<lambda>t. Some ''e'') (\<lambda>e. Some ''p'') ''t''
       [ex_input ''a'' ''high'', ex_input ''a'' ''high''] [] ex_pg)
   in map (\<lambda>i. map_option (\<lambda>f. (fi_title f, fi_test f)) (finding_rows s i)) [''id3'', ''id5'']
        = [Some (''a'', ''t''), Some (''a'', ''t'')]"
  by code_simp

text \<open>
  The gRPC method passes an empty product and the identifiers of the findings to keep as their
  hashes; the statement then looks for the product nil.
\<close>

definition GrpcCloseOldFindings ::
  "outage \<Rightarrow> (nat \<Rightarrow> timestamp) \<Rightarrow> row_scan \<Rightarrow> (string \<Rightarrow> uuid option) \<Rightarrow> string \<Rightarrow> string list
     \<Rightarrow> pg \<Rightarrow> pg \<times> (pg_error + int)" where
  "GrpcCloseOldFindings down clock scan parse testID excludeIDs =
     RepoCloseOldFindings down clock scan parse testID [] excludeIDs"

lemma GrpcCloseOldFindings_closes_none:
  assumes "parse [] = None" and "\<And>i f. finding_rows s i = Some f \<Longrightarrow> fi_product f \<noteq> uuid_nil"
    and "\<not> down (statements s)"
  shows "snd (GrpcCloseOldFindings down clock scan parse testID ids s) = Inr 0
    \<and> finding_rows (fst (GrpcCloseOldFindings down clock scan parse testID ids s)) = finding_rows s"
proof -
  have never: "\<not> closesRow tid uuid_nil ids f" if "finding_rows s i = Some f" for i f tid
    using assms(2) [OF that] by (simp add: closesRow_def)
  have "(case finding_rows s fid of None \<Rightarrow> False | Some row \<Rightarrow> closesRow tid uuid_nil ids row) = False"
    for fid tid using never by (simp split: option.split)
  moreover have "map_option (\<lambda>row. if closesRow tid uuid_nil ids row then g row else row)
      (finding_rows s fid) = finding_rows s fid" for tid g fid
    using never by (cases "finding_rows s fid") auto
  ultimately show ?thesis
    using assms(1,3) by (simp add: GrpcCloseOldFindings_def RepoCloseOldFindings_def Let_def pg_exec_def
        mustParseUUID_def updateWhere_def affectedRows_def)
qed

end
