(* ===== verification/Enumerate.thy ===== *)
theory Enumerate
  imports AffectedVersions DatabaseSpecific
begin

text \<open>
  The enrichment of the worker that enumerates affected versions
  (\<open>apps/cli/internal/worker/pipeline/enumerateversions\<close>): it walks the known versions of a package
  and the events of a range side by side. The walk is shown to compute the rule of the OSV schema,
  over the laws of an ecosystem of \<open>AffectedVersions\<close>. The versions of a package come from its
  registry and are a parameter, as are the ecosystems and the sorting of slices.
\<close>

section \<open>Records and ecosystems of the worker\<close>

text \<open>
  The part of an OSV record that the worker reads or writes; a package or a struct may be absent
  (nil). The fields of \<open>database_specific\<close> are those of \<open>DatabaseSpecific\<close>. What the worker only
  compares is held as text (\<open>rg_rest\<close>, \<open>oa_rest\<close>).
\<close>

record osv_package =
  pk_ecosystem :: string
  pk_name :: string
  pk_purl :: string

record worker_range = schema_range +
  rg_rest :: string

record osv_affected =
  oa_package :: "osv_package option"
  oa_ranges :: "worker_range list"
  oa_versions :: "string list"
  oa_ds :: "struct_fields option"
  oa_rest :: string

text \<open>The getters of a nil package return the empty string.\<close>

definition package_ecosystem :: "osv_affected \<Rightarrow> string" where
  "package_ecosystem a = (case oa_package a of None \<Rightarrow> [] | Some p \<Rightarrow> pk_ecosystem p)"

definition package_name :: "osv_affected \<Rightarrow> string" where
  "package_name a = (case oa_package a of None \<Rightarrow> [] | Some p \<Rightarrow> pk_name p)"

text \<open>The optional interfaces of an ecosystem: one that enumerates versions, one that normalizes names.\<close>

datatype versions_answer = VersionsFound "string list" | PackageNotFound | VersionsFailed string

record 'v worker_ecosystem =
  we_ecosystem :: "'v ecosystem"
  we_semver :: bool
  we_versions :: "(string \<Rightarrow> versions_answer) option"
  we_normalizer :: "(string \<Rightarrow> string) option"

type_synonym 'v provider = "string \<Rightarrow> 'v worker_ecosystem option"

section \<open>The walk over versions and events\<close>

definition enumeratedEvents :: "schema_event list \<Rightarrow> event list" where
  "enumeratedEvents es =
     filter (\<lambda>ev. ev_version ev \<noteq> [] \<and> \<not> (ev_type ev = Limit \<and> ev_version ev = ''*''))
       (map FromSchemaEvent es)"

text \<open>
  \<open>SortEvents\<close> reports an error when a comparison met a version that does not parse or a pair
  that does not compare (of such a pair the model does not ask whether the sort meets it); a
  single event is compared with none.
\<close>

definition SortEvents_fails :: "'v ecosystem \<Rightarrow> event list \<Rightarrow> bool" where
  "SortEvents_fails e events \<longleftrightarrow>
     2 \<le> length events \<and>
     (\<exists>a \<in> set events. \<exists>b \<in> set events.
        case (eco_Parse e (ev_version a), eco_Parse e (ev_version b)) of
          (Inr pa, Inr pb) \<Rightarrow> (case eco_Compare e pa pb of Inl _ \<Rightarrow> True | Inr _ \<Rightarrow> False)
        | _ \<Rightarrow> True)"

fun parseEvents :: "'v ecosystem \<Rightarrow> event list \<Rightarrow> (event \<times> 'v) list option" where
  "parseEvents e [] = Some []"
| "parseEvents e (ev # evs) =
     (case (eco_Parse e (ev_version ev), parseEvents e evs) of
        (Inr p, Some ps) \<Rightarrow> Some ((ev, p) # ps)
      | _ \<Rightarrow> None)"

text \<open>A comparison that fails gives 0 beside its error, which the walk drops.\<close>

definition compareOr0 :: "'v ecosystem \<Rightarrow> 'v \<Rightarrow> 'v \<Rightarrow> int" where
  "compareOr0 e p q = (case eco_Compare e p q of Inl _ \<Rightarrow> 0 | Inr c \<Rightarrow> c)"

text \<open>
  The inner loop at one version: the events that remain, whether the version is affected, and
  the copies appended for it by the \<open>last_affected\<close> events.
\<close>

fun passEvents ::
  "'v ecosystem \<Rightarrow> string \<Rightarrow> 'v \<Rightarrow> (event \<times> 'v) list \<Rightarrow> bool \<Rightarrow> (event \<times> 'v) list \<times> bool \<times> string list" where
  "passEvents e v vp [] isAffected = ([], isAffected, [])"
| "passEvents e v vp ((ev, p) # evs) isAffected =
     (let c = compareOr0 e p vp in
      if c < 0 then passEvents e v vp evs (ev_type ev = Introduced)
      else if c = 0 then
        (case passEvents e v vp evs (ev_type ev = Introduced) of
           (rest, aff, out) \<Rightarrow> (rest, aff, if ev_type ev = LastAffected then v # out else out))
      else ((ev, p) # evs, isAffected, []))"

fun walkVersions ::
  "'v ecosystem \<Rightarrow> string list \<Rightarrow> (event \<times> 'v) list \<Rightarrow> bool \<Rightarrow> string list" where
  "walkVersions e [] evs isAffected = []"
| "walkVersions e (v # vs) evs isAffected =
     (case eco_Parse e v of
        Inl _ \<Rightarrow> walkVersions e vs evs isAffected
      | Inr vp \<Rightarrow>
          (case passEvents e v vp evs isAffected of
             (rest, aff, out) \<Rightarrow> out @ (if aff then [v] else []) @ walkVersions e vs rest aff))"

definition rangeVersions :: "event sorter \<Rightarrow> 'v ecosystem \<Rightarrow> string list \<Rightarrow> worker_range \<Rightarrow> string list" where
  "rangeVersions sorter e allVersions r =
     (if sr_type r \<noteq> RangeEcosystem \<and> sr_type r \<noteq> RangeSemver then []
      else
        let events = enumeratedEvents (sr_events r) in
        if SortEvents_fails e events then []
        else (case parseEvents e (SortEvents sorter e events) of
                None \<Rightarrow> []
              | Some parsedEvents \<Rightarrow> walkVersions e allVersions parsedEvents False))"

text \<open>One affected entry.\<close>

definition enumerateAffected ::
  "event sorter \<Rightarrow> 'v provider \<Rightarrow> osv_affected \<Rightarrow> go_error + osv_affected" where
  "enumerateAffected sorter get a =
     (if package_ecosystem a = [] then Inr a
      else case get (package_ecosystem a) of
        None \<Rightarrow> Inr a
      | Some sys \<Rightarrow>
          (case we_versions sys of
             None \<Rightarrow> Inr a
           | Some GetVersions \<Rightarrow>
               (case GetVersions (package_name a) of
                  PackageNotFound \<Rightarrow> Inr a
                | VersionsFailed err \<Rightarrow> Inl (GoErr (''failed to get versions for package: '' @ err))
                | VersionsFound allVersions \<Rightarrow>
                    let newVersions =
                      concat (map (rangeVersions sorter (we_ecosystem sys) allVersions) (oa_ranges a)) in
                    Inr (if newVersions \<noteq> []
                         then a\<lparr>oa_versions := slices_compact (slices_sort (oa_versions a @ newVersions))\<rparr>
                         else a))))"

section \<open>What the walk computes\<close>

text \<open>
  The reference: a version is affected when the last event at or before it is an introduction,
  where of the events of one version the others come after the introductions, or when it is
  itself the version of a \<open>last_affected\<close> event.
\<close>

definition affected_at :: "'v ecosystem \<Rightarrow> event list \<Rightarrow> string \<Rightarrow> bool" where
  "affected_at e evs v \<longleftrightarrow>
     (\<exists>i \<in> set evs. ev_type i = Introduced \<and> vle e (ev_version i) v
        \<and> (\<forall>x \<in> set evs. vle e (ev_version x) v \<longrightarrow> vle e (ev_version x) (ev_version i)
             \<and> (vle e (ev_version i) (ev_version x) \<longrightarrow> ev_type x = Introduced)))
   \<or> (\<exists>l \<in> set evs. ev_type l = LastAffected \<and> vle e (ev_version l) v \<and> vle e v (ev_version l))"


text \<open>The same on events in order: the last one at or before the version decides.\<close>

definition past :: "'v ecosystem \<Rightarrow> string \<Rightarrow> event list \<Rightarrow> event list" where
  "past e v evs = takeWhile (\<lambda>ev. vle e (ev_version ev) v) evs"

definition affected_after :: "'v ecosystem \<Rightarrow> event list \<Rightarrow> string \<Rightarrow> bool" where
  "affected_after e evs v \<longleftrightarrow> past e v evs \<noteq> [] \<and> ev_type (last (past e v evs)) = Introduced"

definition last_affected_at :: "'v ecosystem \<Rightarrow> event list \<Rightarrow> string \<Rightarrow> bool" where
  "last_affected_at e evs v \<longleftrightarrow>
     (\<exists>l \<in> set evs. ev_type l = LastAffected \<and> vle e (ev_version l) v \<and> vle e v (ev_version l))"

abbreviation by_compare :: "'v ecosystem \<Rightarrow> event list \<Rightarrow> bool" where
  "by_compare e \<equiv> sorted_wrt (\<lambda>x y. compareEvents e x y \<le> 0)"

lemma parseEvents_Some:
  "parseEvents e evs = Some pes \<Longrightarrow>
     map fst pes = evs \<and> (\<forall>(ev, p) \<in> set pes. eco_Parse e (ev_version ev) = Inr p)"
  by (induction evs arbitrary: pes) (auto split: sum.splits option.splits)

lemma parseEvents_ok: "\<forall>ev \<in> set evs. parses e (ev_version ev) \<Longrightarrow> \<exists>pes. parseEvents e evs = Some pes"
  by (induction evs) (auto simp: parses_def split: sum.splits option.splits)

context version_laws
begin

lemma compareOr0_iff:
  assumes "eco_Parse e x = Inr p" and "eco_Parse e v = Inr q"
  shows "compareOr0 e p q < 0 \<longleftrightarrow> vlt e x v"
    and "compareOr0 e p q = 0 \<longleftrightarrow> vle e x v \<and> vle e v x"
proof -
  obtain c d where c: "eco_Compare e p q = Inr c" "eco_Compare e q p = Inr d"
    using compare_ok assms by blast
  have "(c \<le> 0 \<longleftrightarrow> 0 \<le> d) \<and> (d \<le> 0 \<longleftrightarrow> 0 \<le> c)" by (rule compare_sym [OF assms c])
  then show "compareOr0 e p q < 0 \<longleftrightarrow> vlt e x v" "compareOr0 e p q = 0 \<longleftrightarrow> vle e x v \<and> vle e v x"
    by (auto simp: compareOr0_def vlt_def vle_def assms c)
qed

lemma passEvents_eq:
  assumes "\<forall>(ev, p) \<in> set pes. eco_Parse e (ev_version ev) = Inr p" and v: "eco_Parse e v = Inr vp"
  shows "passEvents e v vp pes aff =
     (let ts = takeWhile (\<lambda>(ev, p). vle e (ev_version ev) v) pes in
      (dropWhile (\<lambda>(ev, p). vle e (ev_version ev) v) pes,
       if ts = [] then aff else ev_type (fst (last ts)) = Introduced,
       map (\<lambda>_. v) (filter (\<lambda>(ev, p). ev_type ev = LastAffected \<and> vle e v (ev_version ev)) ts)))"
  using assms(1)
proof (induction pes arbitrary: aff)
  case (Cons x pes)
  obtain ev p where x: "x = (ev, p)" by fastforce
  have p: "eco_Parse e (ev_version ev) = Inr p" using Cons.prems x by simp
  have IH: "\<And>aff. passEvents e v vp pes aff =
     (let ts = takeWhile (\<lambda>(ev, p). vle e (ev_version ev) v) pes in
      (dropWhile (\<lambda>(ev, p). vle e (ev_version ev) v) pes,
       if ts = [] then aff else ev_type (fst (last ts)) = Introduced,
       map (\<lambda>_. v) (filter (\<lambda>(ev, p). ev_type ev = LastAffected \<and> vle e v (ev_version ev)) ts)))"
    using Cons by auto
  note c = compareOr0_iff [OF p v]
  show ?case
  proof (cases "vle e (ev_version ev) v")
    case True
    show ?thesis
    proof (cases "vle e v (ev_version ev)")
      case False
      then have "compareOr0 e p vp < 0" using True c(1) by (simp add: vlt_def)
      then show ?thesis using True False by (simp add: x Let_def IH)
    next
      case eq: True
      then have "compareOr0 e p vp = 0" using True c(2) by simp
      then show ?thesis using True eq by (simp add: x Let_def IH)
    qed
  next
    case False
    then have "\<not> compareOr0 e p vp < 0" "compareOr0 e p vp \<noteq> 0" using c by (auto simp: vlt_def)
    then show ?thesis using False by (simp add: x Let_def)
  qed
qed simp

end


context version_laws
begin

abbreviation ascending :: "string list \<Rightarrow> bool" where
  "ascending \<equiv> sorted_wrt (\<lambda>v w. parses e v \<longrightarrow> parses e w \<longrightarrow> vlt e v w)"

abbreviation in_order :: "event list \<Rightarrow> bool" where
  "in_order \<equiv> sorted_wrt (\<lambda>x y. vle e (ev_version x) (ev_version y))"

lemma past_split:
  assumes "\<forall>ev \<in> set ps. vle e (ev_version ev) v"
  shows "past e v (ps @ evs) = ps @ past e v evs"
  using assms by (simp add: past_def)

lemma last_affected_split:
  assumes "in_order (ps @ evs)" and "\<forall>ev \<in> set ps. vlt e (ev_version ev) v"
  shows "last_affected_at e (ps @ evs) v \<longleftrightarrow>
    (\<exists>l \<in> set (past e v evs). ev_type l = LastAffected \<and> vle e v (ev_version l))"
proof -
  have "l \<in> set (past e v evs)" if "l \<in> set evs" "vle e (ev_version l) v" for l
  proof (rule ccontr)
    assume n: "l \<notin> set (past e v evs)"
    let ?P = "\<lambda>ev. vle e (ev_version ev) v"
    have "l \<in> set (dropWhile ?P evs)"
      using that(1) n takeWhile_dropWhile_id [of ?P evs] by (metis UnE past_def set_append)
    then obtain h t where ht: "dropWhile ?P evs = h # t" by (cases "dropWhile ?P evs") auto
    then have "\<not> ?P h" by (metis hd_dropWhile list.distinct(1) list.sel(1))
    moreover have "vle e (ev_version h) (ev_version l)" if "h \<noteq> l"
    proof -
      have "in_order (h # t)"
        using assms(1) ht takeWhile_dropWhile_id [of ?P evs] by (metis sorted_wrt_append)
      then show ?thesis using \<open>l \<in> set (dropWhile ?P evs)\<close> that ht by auto
    qed
    ultimately show False using vle_trans that(2) by (cases "h = l") blast+
  qed
  moreover have "set (past e v evs) \<subseteq> {ev \<in> set evs. vle e (ev_version ev) v}"
    using set_takeWhileD by (fastforce simp: past_def)
  ultimately show ?thesis
    using assms(2) by (auto simp: last_affected_at_def vlt_def)
qed

lemma walk_set:
  assumes "\<forall>(ev, p) \<in> set (ps @ evs). eco_Parse e (ev_version ev) = Inr p"
    and "in_order (map fst (ps @ evs))" and "ascending vs"
    and "\<forall>ev \<in> set (map fst ps). \<forall>v \<in> set vs. parses e v \<longrightarrow> vlt e (ev_version ev) v"
    and "aff = (ps \<noteq> [] \<and> ev_type (fst (last ps)) = Introduced)"
  shows "set (walkVersions e vs evs aff) =
    {v \<in> set vs. parses e v \<and> (affected_after e (map fst (ps @ evs)) v
        \<or> last_affected_at e (map fst (ps @ evs)) v)}"
  using assms
proof (induction vs arbitrary: ps evs aff)
  case (Cons v vs)
  show ?case
  proof (cases "eco_Parse e v")
    case (Inl err)
    then have "\<not> parses e v" by (simp add: parses_def)
    have "set (walkVersions e vs evs aff) =
      {v \<in> set vs. parses e v \<and> (affected_after e (map fst (ps @ evs)) v
        \<or> last_affected_at e (map fst (ps @ evs)) v)}"
      by (rule Cons.IH) (use Cons.prems in auto)
    then show ?thesis using Inl \<open>\<not> parses e v\<close> by auto
  next
    case (Inr vp)
    then have v: "parses e v" by (simp add: parses_def)
    let ?P = "\<lambda>(ev, p). vle e (ev_version ev) v"
    let ?ts = "takeWhile ?P evs" and ?rest = "dropWhile ?P evs"
    have evs: "evs = ?ts @ ?rest" by simp
    have fst_ts: "map fst ?ts = past e v (map fst evs)"
      by (simp add: past_def takeWhile_map case_prod_unfold o_def)
    have ps_v: "\<forall>ev \<in> set (map fst ps). vlt e (ev_version ev) v" using Cons.prems(4) v by simp
    have past_v: "past e v (map fst (ps @ evs)) = map fst (ps @ ?ts)"
      using past_split [of "map fst ps" v "map fst evs"] ps_v fst_ts by (simp add: vlt_def)
    have aff': "(if ?ts = [] then aff else ev_type (fst (last ?ts)) = Introduced)
        = (ps @ ?ts \<noteq> [] \<and> ev_type (fst (last (ps @ ?ts))) = Introduced)"
      using Cons.prems(5) by simp
    have last_fst: "(map fst xs \<noteq> [] \<and> ev_type (last (map fst xs)) = Introduced)
        = (xs \<noteq> [] \<and> ev_type (fst (last xs)) = Introduced)" for xs :: "(event \<times> 'a) list"
      by (cases "xs = []") (auto simp: last_map)
    have after: "(if ?ts = [] then aff else ev_type (fst (last ?ts)) = Introduced)
        = affected_after e (map fst (ps @ evs)) v"
      unfolding affected_after_def past_v last_fst by (rule aff')
    have parsed: "\<forall>(ev, p) \<in> set evs. eco_Parse e (ev_version ev) = Inr p" using Cons.prems(1) by auto
    have la: "last_affected_at e (map fst (ps @ evs)) v \<longleftrightarrow>
        (\<exists>l \<in> set (map fst ?ts). ev_type l = LastAffected \<and> vle e v (ev_version l))"
      using last_affected_split [of "map fst ps" "map fst evs" v] Cons.prems(2) ps_v fst_ts by simp
    have rest: "set (walkVersions e vs ?rest (if ?ts = [] then aff else ev_type (fst (last ?ts)) = Introduced)) =
      {v \<in> set vs. parses e v \<and> (affected_after e (map fst ((ps @ ?ts) @ ?rest)) v
        \<or> last_affected_at e (map fst ((ps @ ?ts) @ ?rest)) v)}"
    proof (rule Cons.IH)
      show "\<forall>(ev, p) \<in> set ((ps @ ?ts) @ ?rest). eco_Parse e (ev_version ev) = Inr p"
        using Cons.prems(1) evs by simp
      show "in_order (map fst ((ps @ ?ts) @ ?rest))" using Cons.prems(2) by simp
      show "ascending vs" using Cons.prems(3) by simp
      show "\<forall>ev \<in> set (map fst (ps @ ?ts)). \<forall>w \<in> set vs. parses e w \<longrightarrow> vlt e (ev_version ev) w"
      proof (intro ballI impI)
        fix ev w assume ev: "ev \<in> set (map fst (ps @ ?ts))" and w: "w \<in> set vs" "parses e w"
        then have "vlt e v w" using Cons.prems(3) v by simp
        moreover have "vle e (ev_version ev) v"
          using ev ps_v by (auto simp: vlt_def dest: set_takeWhileD)
        ultimately show "vlt e (ev_version ev) w" using vlt_trans(2) by blast
      qed
    qed (rule aff')
    have "set (walkVersions e (v # vs) evs aff) =
        (if affected_after e (map fst (ps @ evs)) v \<or> last_affected_at e (map fst (ps @ evs)) v then {v} else {})
        \<union> set (walkVersions e vs ?rest (if ?ts = [] then aff else ev_type (fst (last ?ts)) = Introduced))"
      using la after by (auto simp: Inr passEvents_eq [OF parsed Inr] Let_def)
    then show ?thesis unfolding rest using v by auto
  qed
qed simp

end


text \<open>On events that the comparison of events has put in order, the last one decides as the reference says.\<close>

context version_laws
begin

lemma by_compare_in_order:
  assumes "\<forall>ev \<in> set evs. parses e (ev_version ev)" and "by_compare e evs"
  shows "in_order evs"
  by (rule sorted_wrt_mono_rel [OF _ assms(2)]) (use assms(1) compareEvents_vle in blast)

lemma past_set:
  assumes "in_order evs"
  shows "set (past e v evs) = {ev \<in> set evs. vle e (ev_version ev) v}"
  using assms
proof (induction evs)
  case (Cons ev evs)
  show ?case
  proof (cases "vle e (ev_version ev) v")
    case True
    then show ?thesis using Cons by (auto simp: past_def)
  next
    case False
    then have "\<not> vle e (ev_version x) v" if "x \<in> set evs" for x
      using Cons.prems that vle_trans by auto
    then show ?thesis using False by (auto simp: past_def)
  qed
qed (simp add: past_def)

lemma last_is_greatest:
  assumes "sorted_wrt R xs" and "x \<in> set xs"
  shows "x = last xs \<or> R x (last xs)"
  using assms by (induction xs) (auto split: if_splits)

lemma affected_after_iff:
  assumes "\<forall>ev \<in> set evs. parses e (ev_version ev)" and sorted: "by_compare e evs"
  shows "affected_after e evs v \<longleftrightarrow>
    (\<exists>i \<in> set evs. ev_type i = Introduced \<and> vle e (ev_version i) v
        \<and> (\<forall>x \<in> set evs. vle e (ev_version x) v \<longrightarrow> vle e (ev_version x) (ev_version i)
             \<and> (vle e (ev_version i) (ev_version x) \<longrightarrow> ev_type x = Introduced)))" (is "_ = ?ref")
proof -
  let ?past = "past e v evs"
  have set_past: "set ?past = {ev \<in> set evs. vle e (ev_version ev) v}"
    by (rule past_set [OF by_compare_in_order [OF assms]])
  have "by_compare e ?past" using sorted sorted_wrt_takeWhile by (simp add: past_def)
  note greatest = last_is_greatest [OF this]
  have parses: "parses e (ev_version x)" if "x \<in> set evs" for x using assms(1) that by simp
  show ?thesis
  proof
    assume a: "affected_after e evs v"
    let ?i = "last ?past"
    have i: "?i \<in> set ?past" "ev_type ?i = Introduced" using a by (auto simp: affected_after_def)
    have "vle e (ev_version x) (ev_version ?i) \<and> (vle e (ev_version ?i) (ev_version x) \<longrightarrow> ev_type x = Introduced)"
      if x: "x \<in> set evs" "vle e (ev_version x) v" for x
    proof -
      from x have "x = ?i \<or> compareEvents e x ?i \<le> 0" using greatest [of x] set_past by blast
      then show ?thesis
      proof
        assume "x = ?i"
        then show ?thesis using i parses [OF x(1)] vle_total by auto
      next
        assume "compareEvents e x ?i \<le> 0"
        then have "vlt e (ev_version x) (ev_version ?i) \<or>
            vle e (ev_version x) (ev_version ?i) \<and> event_type_int (ev_type x) \<le> event_type_int (ev_type ?i)"
          using compareEvents_cases parses x(1) i(1) set_past by blast
        then show ?thesis
          using i(2) by (cases "ev_type x") (auto simp: vlt_def)
      qed
    qed
    then show ?ref using i set_past by blast
  next
    assume ?ref
    then obtain i where i: "i \<in> set evs" "ev_type i = Introduced" "vle e (ev_version i) v"
      and max: "\<And>x. x \<in> set evs \<Longrightarrow> vle e (ev_version x) v \<Longrightarrow>
        vle e (ev_version x) (ev_version i) \<and> (vle e (ev_version i) (ev_version x) \<longrightarrow> ev_type x = Introduced)"
      by blast
    then have ip: "i \<in> set ?past" using set_past by simp
    then have ne: "?past \<noteq> []" by auto
    let ?l = "last ?past"
    have l: "?l \<in> set evs" "vle e (ev_version ?l) v" using ne set_past last_in_set by blast+
    have "vle e (ev_version i) (ev_version ?l)"
    proof -
      have "i = ?l \<or> compareEvents e i ?l \<le> 0" using greatest [OF ip] .
      then show ?thesis
        using compareEvents_vle parses i(1) l(1) vle_total by metis
    qed
    then have "ev_type ?l = Introduced" using max l by blast
    then show "affected_after e evs v" using ne by (simp add: affected_after_def)
  qed
qed

lemma rangeVersions_set:
  assumes "sorter_ok sorter" and "ascending vs"
    and "sr_type r = RangeEcosystem \<or> sr_type r = RangeSemver"
    and parses: "\<forall>ev \<in> set (enumeratedEvents (sr_events r)). parses e (ev_version ev)"
  shows "set (rangeVersions sorter e vs r) =
    {v \<in> set vs. parses e v \<and> affected_at e (enumeratedEvents (sr_events r)) v}"
proof -
  let ?evs = "enumeratedEvents (sr_events r)"
  let ?sorted = "SortEvents sorter e ?evs"
  have set_sorted: "set ?sorted = set ?evs" by (rule SortEvents_sorted(1) [OF assms(1) parses])
  have "by_compare e ?sorted"
    using assms(1) events_weak_order [OF parses] by (simp add: SortEvents_def sorter_ok_def)
  moreover have ps: "\<forall>ev \<in> set ?sorted. parses e (ev_version ev)" using parses set_sorted by simp
  ultimately have after: "affected_after e ?sorted v \<or> last_affected_at e ?sorted v \<longleftrightarrow> affected_at e ?evs v" for v
    using affected_after_iff [of ?sorted v] set_sorted by (simp add: affected_at_def last_affected_at_def)
  obtain pes where pes: "parseEvents e ?sorted = Some pes" using parseEvents_ok [OF ps] by blast
  have "\<not> SortEvents_fails e ?evs"
    using parses compare_ok
    by (auto simp: SortEvents_fails_def parses_def split: sum.splits) (metis Inl_Inr_False)+
  then have "rangeVersions sorter e vs r = walkVersions e vs pes False"
    using assms(3) pes by (auto simp: rangeVersions_def Let_def)
  moreover have "set (walkVersions e vs pes False) =
    {v \<in> set vs. parses e v \<and> (affected_after e (map fst ([] @ pes)) v
        \<or> last_affected_at e (map fst ([] @ pes)) v)}"
    by (rule walk_set)
      (use parseEvents_Some [OF pes] by_compare_in_order [OF ps \<open>by_compare e ?sorted\<close>] assms(2) in auto)
  ultimately show ?thesis using parseEvents_Some [OF pes] after by simp
qed

end


section \<open>The enumerated versions of a package\<close>


definition ex_semver :: "int list wrapped worker_ecosystem" where
  "ex_semver = \<lparr>we_ecosystem = wrapEcosystem (dotted_ecosystem semver_Coarse), we_semver = True,
     we_versions = Some (\<lambda>name. VersionsFound [''1.2'', ''1.10.3'']), we_normalizer = None\<rparr>"

definition ex_worker_range :: worker_range where
  "ex_worker_range = \<lparr>sr_type = RangeSemver, sr_repo = [], sr_events = sr_events ex_range, rg_rest = []\<rparr>"

definition ex_entry :: osv_affected where
  "ex_entry = \<lparr>oa_package = Some \<lparr>pk_ecosystem = ''npm'', pk_name = ''left-pad'', pk_purl = []\<rparr>,
     oa_ranges = [ex_worker_range], oa_versions = [''0.1''], oa_ds = None, oa_rest = []\<rparr>"


lemma new_of_one_range:
  assumes "S = old \<union> {v \<in> V. P v \<and> (\<exists>r \<in> set rs. sr_type r \<in> {RangeEcosystem, RangeSemver} \<and> Q r v)}"
    and "rs = [r0]" and "sr_type r0 = RangeSemver" and "\<forall>v \<in> V. P v" and "V \<inter> old = {}"
  shows "{v \<in> V. Q r0 v} = S - old"
  using assms by auto


end
