(* ===== verification/Purl.thy ===== *)
theory Purl
  imports Cpe DatabaseSpecific "HOL-Library.Multiset"
begin

text \<open>
  Package URLs (\<open>services/shared/pkg/purl\<close>): the parser and printer of \<open>purl.go\<close>, with the path
  escapes of \<open>net/url\<close>, and the conversion between the packages of OSV ecosystems and package URLs
  (\<open>converter.go\<close> and the files that register ecosystems). The latter goes through
  \<open>packageurl-go\<close>, whose parser and printer are parameters, and the constants of
  \<open>osvconstants\<close>, whose values are one.
\<close>

section \<open>Parsing and printing\<close>

text \<open>The qualifiers are a Go map: the list of its entries by increasing key.\<close>

record purl =
  pl_type :: string
  pl_namespace :: string
  pl_name :: string
  pl_version :: string
  pl_qualifiers :: "(string \<times> string) list"
  pl_subpath :: string
  pl_raw :: string

text \<open>\<open>url.PathEscape\<close> and \<open>url.PathUnescape\<close>.\<close>

definition path_safe :: "char \<Rightarrow> bool" where
  "path_safe c \<longleftrightarrow> unreserved c \<or> c \<in> {CHR ''$'', CHR ''&'', CHR ''+'', CHR '':'', CHR ''='', CHR ''@''}"

definition PathEscape :: "string \<Rightarrow> string" where
  "PathEscape s = concat (map (\<lambda>c. if path_safe c then [c]
     else [CHR ''%'', upper_hex (of_char c div 16), upper_hex (of_char c mod 16)]) s)"

fun PathUnescape :: "string \<Rightarrow> string option" where
  "PathUnescape [] = Some []"
| "PathUnescape (c # s) =
     (if c = CHR ''%'' then
        (case s of
           a # b # rest \<Rightarrow>
             (case (hex_value a, hex_value b) of
                (Some h, Some l) \<Rightarrow> map_option ((#) (char_of (16 * h + l))) (PathUnescape rest)
              | _ \<Rightarrow> None)
         | _ \<Rightarrow> None)
      else map_option ((#) c) (PathUnescape s))"

text \<open>What is before and after the last occurrence of a character (\<open>strings.LastIndex\<close>).\<close>

definition cut_last :: "string \<Rightarrow> char \<Rightarrow> (string \<times> string) option" where
  "cut_last s c =
     (case strings_cut (rev s) c of (a, b, found) \<Rightarrow> if found then Some (rev b, rev a) else None)"

definition parseQualifiers :: "string \<Rightarrow> (string \<times> string) list" where
  "parseQualifiers qs =
     fold (\<lambda>kv m. case strings_cut kv (CHR ''='') of (k, v, found) \<Rightarrow> if found then put_field k v m else m)
       (strings_split qs ''&'') []"

text \<open>The last slash ends the namespace; the scope of an npm package stays in the name.\<close>

definition splitName :: "string \<Rightarrow> string \<times> string" where
  "splitName decoded =
     (let (namespace, name) = (case cut_last decoded (CHR ''/'') of None \<Rightarrow> ([], decoded) | Some p \<Rightarrow> p) in
      if has_prefix namespace ''@'' then ([], namespace @ ''/'' @ name) else (namespace, name))"

definition purl_Parse :: "string \<Rightarrow> go_error + purl" where
  "purl_Parse raw =
     (if \<not> has_prefix raw ''pkg:'' then Inl (GoErr ''purl: must start with pkg: scheme'')
      else
        let (rest1, subpath, _) = strings_cut (drop 4 raw) (CHR ''#'');
            (rest2, qs, hasQualifiers) = strings_cut rest1 (CHR ''?'');
            qualifiers = (if hasQualifiers then parseQualifiers qs else []);
            (t, rest3, hasSlash) = strings_cut rest2 (CHR ''/'') in
        if \<not> hasSlash then Inl (GoErr ''purl: missing type/name separator'')
        else
          let purlType = to_lower t;
              (path, version) = (case cut_last rest3 (CHR ''@'') of None \<Rightarrow> (rest3, []) | Some p \<Rightarrow> p) in
          (case PathUnescape path of
             None \<Rightarrow> Inl (GoErr ''purl: invalid URL encoding'')
           | Some decoded \<Rightarrow>
               let (namespace, name) = splitName decoded in
               if purlType = [] \<or> name = [] then Inl (GoErr ''purl: type and name are required'')
               else Inr \<lparr>pl_type = purlType, pl_namespace = namespace, pl_name = name,
                 pl_version = version, pl_qualifiers = qualifiers, pl_subpath = subpath, pl_raw = raw\<rparr>))"

text \<open>\<open>String\<close>; \<open>ord\<close> is the order in which the map of qualifiers is visited.\<close>

definition purl_String ::
  "((string \<times> string) list \<Rightarrow> (string \<times> string) list) \<Rightarrow> purl \<Rightarrow> string" where
  "purl_String ord p =
     ''pkg:'' @ pl_type p @ ''/''
     @ (if pl_namespace p \<noteq> [] then pl_namespace p @ ''/'' else [])
     @ PathEscape (pl_name p)
     @ (if pl_version p \<noteq> [] then ''@'' @ pl_version p else [])
     @ (if pl_qualifiers p \<noteq> [] then ''?'' @ join ''&'' (map (\<lambda>(k, v). k @ ''='' @ v) (ord (pl_qualifiers p))) else [])
     @ (if pl_subpath p \<noteq> [] then ''#'' @ pl_subpath p else [])"

definition Ecosystem :: "purl \<Rightarrow> string" where
  "Ecosystem p =
     (let t = to_lower (pl_type p) in
      if t = ''pypi'' then ''PyPI''
      else if t = ''golang'' then ''Go''
      else if t = ''npm'' then ''npm''
      else if t = ''maven'' then ''Maven''
      else if t = ''cargo'' then ''crates.io''
      else if t = ''gem'' then ''RubyGems''
      else if t = ''nuget'' then ''NuGet''
      else if t = ''composer'' then ''Packagist''
      else if t = ''pub'' then ''Pub''
      else if t = ''hex'' then ''Hex''
      else pl_type p)"

section \<open>What was printed is parsed back\<close>

lemma hex_of_char:
  "hex_value (upper_hex (of_char c div 16)) = Some (of_char c div 16)"
  "hex_value (upper_hex (of_char c mod 16)) = Some (of_char c mod 16)"
proof -
  have "of_char c < (256 :: nat)" by simp
  then have "of_char c div 16 < (16 :: nat)" by (intro less_mult_imp_div_less) simp
  then show "hex_value (upper_hex (of_char c div 16)) = Some (of_char c div 16)"
    "hex_value (upper_hex (of_char c mod 16)) = Some (of_char c mod 16)"
    by (simp_all add: hex_value_upper)
qed

lemma path_safe_percent: "\<not> path_safe (CHR ''%'')"
  by (simp add: path_safe_def unreserved_def is_alnum_def is_digit_def is_upper_def is_lower_def)

lemma PathUnescape_Escape: "PathUnescape (PathEscape s) = Some s"
proof (induction s)
  case (Cons c s)
  have e: "16 * (of_char c div 16) + of_char c mod 16 = (of_char c :: nat)" by simp
  show ?case
  proof (cases "path_safe c")
    case True
    then have "c \<noteq> CHR ''%''" using path_safe_percent by blast
    then show ?thesis using Cons True by (simp add: PathEscape_def)
  next
    case False
    then show ?thesis using Cons e by (simp add: PathEscape_def hex_of_char del: mult_div_mod_eq)
  qed
qed (simp add: PathEscape_def)

lemma PathUnescape_append:
  "CHR ''%'' \<notin> set s \<Longrightarrow> PathUnescape (s @ t) = map_option ((@) s) (PathUnescape t)"
  by (cases "PathUnescape t"; induction s) auto

lemma upper_hex_notin: "upper_hex n \<notin> {CHR ''/'', CHR ''?'', CHR ''#'', CHR ''@''}"
proof -
  have "list_all (\<lambda>n. upper_hex n \<notin> {CHR ''/'', CHR ''?'', CHR ''#'', CHR ''@''}) [0..<16]" by code_simp
  then have "upper_hex (n mod 16) \<notin> {CHR ''/'', CHR ''?'', CHR ''#'', CHR ''@''}" by (simp add: list_all_iff)
  then show ?thesis by (simp add: upper_hex_def)
qed

lemma PathEscape_notin:
  "CHR ''/'' \<notin> set (PathEscape s)" "CHR ''?'' \<notin> set (PathEscape s)" "CHR ''#'' \<notin> set (PathEscape s)"
  "CHR ''@'' \<notin> set s \<Longrightarrow> CHR ''@'' \<notin> set (PathEscape s)"
  using upper_hex_notin
  by (auto simp: PathEscape_def path_safe_def unreserved_def is_alnum_def is_digit_def is_upper_def is_lower_def
      split: if_splits) metis+

lemma cut_last_append: "c \<notin> set t \<Longrightarrow> cut_last (s @ c # t) c = Some (s, t)"
  using strings_cut_append(1) [of c "rev t" "rev s"] by (simp add: cut_last_def)

lemma cut_last_none: "c \<notin> set s \<Longrightarrow> cut_last s c = None"
  using strings_cut_append(2) [of c "rev s"] by (simp add: cut_last_def)

lemma cut_optional:
  "c \<notin> set a \<Longrightarrow> strings_cut (a @ (if b \<noteq> [] then c # b else [])) c = (a, b, b \<noteq> [])"
  by (simp add: strings_cut_append)

lemma cut_last_optional:
  assumes "c \<notin> set b" and "b = [] \<Longrightarrow> c \<notin> set a"
  shows "(case cut_last (a @ (if b \<noteq> [] then c # b else [])) c of None \<Rightarrow> (a, []) | Some p \<Rightarrow> p) = (a, b)"
  using assms by (cases "b = []") (simp_all add: cut_last_append cut_last_none)

definition name_ok :: "string \<Rightarrow> string \<Rightarrow> bool" where
  "name_ok namespace name \<longleftrightarrow>
     (CHR ''/'' \<notin> set name \<and> \<not> has_prefix namespace ''@'')
   \<or> (namespace = [] \<and> (\<exists>scope n. name = CHR ''@'' # scope @ CHR ''/'' # n \<and> CHR ''/'' \<notin> set n))"

lemma splitName_ok:
  assumes "name_ok namespace name"
  shows "splitName ((if namespace \<noteq> [] then namespace @ ''/'' else []) @ name) = (namespace, name)"
proof -
  consider (plain) "CHR ''/'' \<notin> set name" "\<not> has_prefix namespace ''@''"
    | (scoped) scope n where "namespace = []" "name = (CHR ''@'' # scope) @ CHR ''/'' # n" "CHR ''/'' \<notin> set n"
    using assms by (auto simp: name_ok_def)
  then show ?thesis
  proof cases
    case plain
    then show ?thesis
      by (cases "namespace = []") (simp_all add: splitName_def cut_last_none cut_last_append)
  next
    case scoped
    have "cut_last name (CHR ''/'') = Some (CHR ''@'' # scope, n)"
      unfolding scoped(2) by (rule cut_last_append [OF scoped(3)])
    then show ?thesis using scoped(1,2) by (simp add: splitName_def)
  qed
qed

definition qualifiers_ok :: "(string \<times> string) list \<Rightarrow> bool" where
  "qualifiers_ok q \<longleftrightarrow> fields_sorted q \<and>
     (\<forall>(k, v) \<in> set q. set k \<inter> {CHR ''='', CHR ''&'', CHR ''#''} = {} \<and> set v \<inter> {CHR ''&'', CHR ''#''} = {})"

abbreviation qualifier_text :: "string \<times> string \<Rightarrow> string" where
  "qualifier_text \<equiv> \<lambda>(k, v). k @ ''='' @ v"

lemma fold_put:
  assumes "distinct (map fst kvs)" and "\<forall>(k, v) \<in> set kvs. CHR ''='' \<notin> set k" and "fields_sorted m"
  shows "fields_sorted (fold (\<lambda>kv m. case strings_cut kv (CHR ''='') of (k, v, found) \<Rightarrow>
           if found then put_field k v m else m) (map qualifier_text kvs) m)
    \<and> map_of (fold (\<lambda>kv m. case strings_cut kv (CHR ''='') of (k, v, found) \<Rightarrow>
           if found then put_field k v m else m) (map qualifier_text kvs) m) = map_of m ++ map_of kvs"
  using assms
proof (induction kvs arbitrary: m)
  case (Cons kv kvs)
  obtain k v where kv: "kv = (k, v)" by fastforce
  have cut: "strings_cut (k @ CHR ''='' # v) (CHR ''='') = (k, v, True)"
    using Cons.prems(2) kv by (simp add: strings_cut_append(1))
  have "k \<notin> dom (map_of kvs)" using Cons.prems(1) kv by (simp add: dom_map_of_conv_image_fst)
  then have "(map_of m)(k \<mapsto> v) ++ map_of kvs = (map_of m ++ map_of kvs)(k \<mapsto> v)"
    by (simp add: map_add_upd_left)
  moreover have "fields_sorted (put_field k v m)" using Cons.prems(3) by simp
  ultimately show ?case using Cons.IH [of "put_field k v m"] Cons.prems kv cut
    by (simp del: fun_upd_apply)
qed simp

lemma parseQualifiers_join:
  assumes "iteration_order ord" and "qualifiers_ok q" and "q \<noteq> []"
  shows "parseQualifiers (join ''&'' (map qualifier_text (ord q))) = q"
proof -
  have s: "fields_sorted q" and keys: "distinct (map fst q)"
    using assms(2) fields_sorted_distinct by (auto simp: qualifiers_ok_def)
  have o: "distinct (ord q)" "set (ord q) = set q"
    using iteration_orderD [OF assms(1)] keys by (auto simp: distinct_map)
  then have d: "distinct (map fst (ord q))" using keys by (simp add: distinct_map)
  have ne: "map qualifier_text (ord q) \<noteq> []" using assms(3) o(2) by auto
  have "\<forall>s \<in> set (map qualifier_text (ord q)). CHR ''&'' \<notin> set s"
    using assms(2) o(2) by (auto simp: qualifiers_ok_def)
  then have split: "strings_split (join ''&'' (map qualifier_text (ord q))) ''&'' = map qualifier_text (ord q)"
    by (rule strings_split_join [OF ne])
  have "\<forall>(k, v) \<in> set (ord q). CHR ''='' \<notin> set k"
    using assms(2) o(2) by (auto simp: qualifiers_ok_def)
  note put = fold_put [OF d this, of "[]"]
  have "map_of (ord q) = map_of q" using o(2) d keys by (simp add: map_of_inject_set)
  with put have "fields_sorted (parseQualifiers (join ''&'' (map qualifier_text (ord q))))"
    "map_of (parseQualifiers (join ''&'' (map qualifier_text (ord q)))) = map_of q"
    unfolding parseQualifiers_def split by (simp_all add: fields_sorted_def)
  then show ?thesis using fields_sorted_ext s by blast
qed

text \<open>What can be printed without loss; only the name is escaped.\<close>

definition purl_ok :: "purl \<Rightarrow> bool" where
  "purl_ok p \<longleftrightarrow>
     pl_type p \<noteq> [] \<and> to_lower (pl_type p) = pl_type p
     \<and> set (pl_type p) \<inter> {CHR ''/'', CHR ''?'', CHR ''#''} = {}
     \<and> set (pl_namespace p) \<inter> {CHR ''%'', CHR ''?'', CHR ''#''} = {}
     \<and> pl_name p \<noteq> [] \<and> name_ok (pl_namespace p) (pl_name p)
     \<and> set (pl_version p) \<inter> {CHR ''@'', CHR ''?'', CHR ''#''} = {}
     \<and> qualifiers_ok (pl_qualifiers p)
     \<and> (pl_version p = [] \<longrightarrow> CHR ''@'' \<notin> set (pl_namespace p) \<union> set (pl_name p))"

lemma join_notin: "c \<notin> set sep \<Longrightarrow> \<forall>s \<in> set ss. c \<notin> set s \<Longrightarrow> c \<notin> set (join sep ss)"
  by (induction sep ss rule: join.induct) auto


definition ex_purl :: purl where
  "ex_purl = \<lparr>pl_type = ''npm'', pl_namespace = [], pl_name = ''@angular/core'', pl_version = ''15.0.0'',
     pl_qualifiers = [(''arch'', ''x86''), (''os'', ''any'')], pl_subpath = ''lib'', pl_raw = []\<rparr>"


text \<open>A scoped npm package without a version is printed as what does not parse.\<close>

lemma scoped_unversioned_lost:
  "\<exists>p. purl_Parse ''pkg:npm/%40angular/core'' = Inr p
     \<and> purl_String id p = ''pkg:npm/@angular%2Fcore''
     \<and> purl_Parse (purl_String id p) = Inl (GoErr ''purl: type and name are required'')"
proof -
  let ?p = "\<lparr>pl_type = ''npm'', pl_namespace = [], pl_name = ''@angular/core'', pl_version = [],
     pl_qualifiers = [], pl_subpath = [], pl_raw = ''pkg:npm/%40angular/core''\<rparr>"
  have "purl_Parse ''pkg:npm/%40angular/core'' = Inr ?p" by code_simp
  moreover have "purl_String id ?p = ''pkg:npm/@angular%2Fcore''" by code_simp
  moreover have "purl_Parse ''pkg:npm/@angular%2Fcore'' = Inl (GoErr ''purl: type and name are required'')" by code_simp
  ultimately show ?thesis by simp
qed

section \<open>Packages of ecosystems\<close>

text \<open>The constants of \<open>osvconstants\<close>; their values are a parameter, \<open>nm\<close>.\<close>

datatype osv_ecosystem =
    EcosystemBitnami | EcosystemCRAN | EcosystemConanCenter | EcosystemDockerHardenedImages
  | EcosystemHackage | EcosystemHex | EcosystemJulia | EcosystemNuGet | EcosystemOSSFuzz
  | EcosystemPackagist | EcosystemPub | EcosystemPyPI | EcosystemRubyGems | EcosystemSwiftURL
  | EcosystemCratesIO | EcosystemNPM | EcosystemOpam | EcosystemChainguard | EcosystemMinimOS
  | EcosystemWolfi | EcosystemEcho | EcosystemUbuntu | EcosystemAlmaLinux | EcosystemAzureLinux
  | EcosystemMageia | EcosystemOpenEuler | EcosystemOpenSUSE | EcosystemRedHat | EcosystemRockyLinux
  | EcosystemSUSE | EcosystemAlpaquita | EcosystemAlpine | EcosystemBellSoftHardenedContainers
  | EcosystemDebian | EcosystemGo | EcosystemMaven

text \<open>The struct of \<open>packageurl-go\<close>.\<close>

record package_url =
  pu_type :: string
  pu_namespace :: string
  pu_name :: string
  pu_version :: string
  pu_qualifiers :: "(string \<times> string) list"
  pu_subpath :: string

definition NewPackageURL :: "string \<Rightarrow> string \<Rightarrow> string \<Rightarrow> (string \<times> string) list \<Rightarrow> package_url" where
  "NewPackageURL t ns n qs = \<lparr>pu_type = t, pu_namespace = ns, pu_name = n, pu_version = [],
     pu_qualifiers = qs, pu_subpath = []\<rparr>"

definition debianCodenames :: "(string \<times> string) list" where
  "debianCodenames =
     [(''1.1'', ''buzz''), (''1.2'', ''rex''), (''1.3'', ''bo''), (''2'', ''hamm''), (''2.1'', ''slink''),
      (''2.2'', ''potato''), (''3'', ''woody''), (''3.1'', ''sarge''), (''4'', ''etch''), (''5'', ''lenny''),
      (''6'', ''squeeze''), (''7'', ''wheezy''), (''8'', ''jessie''), (''9'', ''stretch''), (''10'', ''buster''),
      (''11'', ''bullseye''), (''12'', ''bookworm''), (''13'', ''trixie''), (''14'', ''forky''), (''15'', ''duke'')]"

definition debianVersions :: "(string \<times> string) list" where
  "debianVersions = map (\<lambda>(version, codename). (codename, version)) debianCodenames"

definition debianGenerator :: "string \<Rightarrow> string \<Rightarrow> package_url" where
  "debianGenerator ecosystem packageName =
     (case strings_cut ecosystem (CHR '':'') of
        (_, version, found) \<Rightarrow>
          NewPackageURL ''deb'' ''debian'' packageName
            ((if found
              then [(''distro'', case map_of debianCodenames version of Some codename \<Rightarrow> codename | None \<Rightarrow> version)]
              else []) @ [(''arch'', ''source'')]))"

fun debianEcosystem :: "(string \<times> string) list \<Rightarrow> string \<Rightarrow> string" where
  "debianEcosystem [] ecosystem = ecosystem"
| "debianEcosystem ((k, v) # qs) ecosystem =
     debianEcosystem qs
       (if k = ''distro''
        then (let distroVal = to_lower v in
              ''Debian:'' @ (case map_of debianVersions distroVal of Some version \<Rightarrow> version | None \<Rightarrow> distroVal))
        else ecosystem)"

definition debianParser :: "package_url \<Rightarrow> string \<times> string" where
  "debianParser purl = (pu_name purl, debianEcosystem (pu_qualifiers purl) ''Debian'')"

definition goGenerator :: "string \<Rightarrow> package_url" where
  "goGenerator packageName =
     (let (namespace, name) = (case cut_last packageName (CHR ''/'') of None \<Rightarrow> ([], packageName) | Some p \<Rightarrow> p) in
      NewPackageURL ''golang'' namespace name [])"

definition goParser :: "package_url \<Rightarrow> string \<times> string" where
  "goParser purl =
     ((if pu_namespace purl \<noteq> [] then pu_namespace purl @ ''/'' @ pu_name purl else pu_name purl)
      @ (if pu_subpath purl \<noteq> [] then ''/'' @ pu_subpath purl else []), ''Go'')"

definition mavenGenerator :: "string \<Rightarrow> package_url" where
  "mavenGenerator packageName =
     (let (namespace, name) = (case strings_cut packageName (CHR '':'') of
          (a, b, found) \<Rightarrow> if found then (a, b) else ([], packageName)) in
      NewPackageURL ''maven'' namespace name [])"

definition mavenParser :: "package_url \<Rightarrow> string \<times> string" where
  "mavenParser purl =
     (if pu_namespace purl \<noteq> [] then pu_namespace purl @ '':'' @ pu_name purl else pu_name purl, ''Maven'')"

section \<open>The registry\<close>

datatype generator =
    SimpleGenerator string string "(string \<times> string) list" | DebianGenerator | GoGenerator | MavenGenerator

datatype purl_parser = SimpleParser osv_ecosystem bool | DebianParser | GoParser | MavenParser

fun generate :: "generator \<Rightarrow> string \<Rightarrow> string \<Rightarrow> package_url" where
  "generate (SimpleGenerator t ns qs) ecosystem packageName = NewPackageURL t ns packageName qs"
| "generate DebianGenerator ecosystem packageName = debianGenerator ecosystem packageName"
| "generate GoGenerator ecosystem packageName = goGenerator packageName"
| "generate MavenGenerator ecosystem packageName = mavenGenerator packageName"

text \<open>The name of the package and its ecosystem.\<close>

fun parse_purl :: "(osv_ecosystem \<Rightarrow> string) \<Rightarrow> purl_parser \<Rightarrow> package_url \<Rightarrow> string \<times> string" where
  "parse_purl nm (SimpleParser e joinNamespace) purl =
     (if joinNamespace \<and> pu_namespace purl \<noteq> [] then pu_namespace purl @ ''/'' @ pu_name purl else pu_name purl, nm e)"
| "parse_purl nm DebianParser purl = debianParser purl"
| "parse_purl nm GoParser purl = goParser purl"
| "parse_purl nm MavenParser purl = mavenParser purl"

record purl_registry =
  reg_generators :: "string \<rightharpoonup> generator"
  reg_parsers :: "string \<rightharpoonup> purl_parser"

definition parser_key :: "string \<Rightarrow> string \<Rightarrow> string" where
  "parser_key t ns = (if ns \<noteq> [] then t @ ''/'' @ ns else t)"

definition registerGenerator ::
  "(osv_ecosystem \<Rightarrow> string) \<Rightarrow> osv_ecosystem \<Rightarrow> generator \<Rightarrow> purl_registry \<Rightarrow> purl_registry" where
  "registerGenerator nm e g r = r\<lparr>reg_generators := (reg_generators r)(nm e \<mapsto> g)\<rparr>"

definition registerParser ::
  "string \<Rightarrow> string \<Rightarrow> purl_parser \<Rightarrow> purl_registry \<Rightarrow> go_error + purl_registry" where
  "registerParser t ns p r =
     (let key = parser_key t ns in
      if reg_parsers r key \<noteq> None then Inl (GoPanic (''PURL collision: '' @ key))
      else Inr (r\<lparr>reg_parsers := (reg_parsers r)(key \<mapsto> p)\<rparr>))"

text \<open>The calls of the \<open>init\<close> functions, file by file.\<close>

datatype registration =
    RegisterGenerator osv_ecosystem generator
  | RegisterParser string string purl_parser

fun register ::
  "(osv_ecosystem \<Rightarrow> string) \<Rightarrow> registration list \<Rightarrow> purl_registry \<Rightarrow> go_error + purl_registry" where
  "register nm [] r = Inr r"
| "register nm (RegisterGenerator e g # calls) r = register nm calls (registerGenerator nm e g r)"
| "register nm (RegisterParser t ns p # calls) r =
     (case registerParser t ns p r of Inl err \<Rightarrow> Inl err | Inr r' \<Rightarrow> register nm calls r')"

definition registerSimple :: "osv_ecosystem \<Rightarrow> string \<Rightarrow> string \<Rightarrow> (string \<times> string) list \<Rightarrow> registration list" where
  "registerSimple e t ns qs =
     [RegisterGenerator e (SimpleGenerator t ns qs), RegisterParser t ns (SimpleParser e False)]"

definition init_debian :: "registration list" where
  "init_debian = [RegisterGenerator EcosystemDebian DebianGenerator, RegisterParser ''deb'' ''debian'' DebianParser]"

definition init_go :: "registration list" where
  "init_go = [RegisterGenerator EcosystemGo GoGenerator, RegisterParser ''golang'' [] GoParser]"

definition init_maven :: "registration list" where
  "init_maven = [RegisterGenerator EcosystemMaven MavenGenerator, RegisterParser ''maven'' [] MavenParser,
     RegisterParser ''gradle'' [] MavenParser]"

definition sourceArchQualifiers :: "(string \<times> string) list" where
  "sourceArchQualifiers = [(''arch'', ''source'')]"

definition init_simple :: "registration list" where
  "init_simple =
     registerSimple EcosystemBitnami ''bitnami'' [] []
     @ registerSimple EcosystemCRAN ''cran'' [] []
     @ registerSimple EcosystemConanCenter ''conan'' [] []
     @ registerSimple EcosystemDockerHardenedImages ''dhi'' [] []
     @ registerSimple EcosystemHackage ''hackage'' [] []
     @ registerSimple EcosystemHex ''hex'' [] []
     @ registerSimple EcosystemJulia ''julia'' [] []
     @ registerSimple EcosystemNuGet ''nuget'' [] []
     @ registerSimple EcosystemOSSFuzz ''generic'' [] []
     @ registerSimple EcosystemPackagist ''composer'' [] []
     @ registerSimple EcosystemPub ''pub'' [] []
     @ registerSimple EcosystemPyPI ''pypi'' [] []
     @ registerSimple EcosystemRubyGems ''gem'' [] []
     @ registerSimple EcosystemSwiftURL ''swift'' [] []
     @ registerSimple EcosystemCratesIO ''cargo'' [] []
     @ [RegisterGenerator EcosystemNPM (SimpleGenerator ''npm'' [] []),
        RegisterParser ''npm'' [] (SimpleParser EcosystemNPM True)]
     @ registerSimple EcosystemOpam ''opam'' [] []
     @ registerSimple EcosystemChainguard ''apk'' ''chainguard'' []
     @ registerSimple EcosystemMinimOS ''apk'' ''minimos'' []
     @ registerSimple EcosystemWolfi ''apk'' ''wolfi'' []
     @ registerSimple EcosystemEcho ''deb'' ''echo'' []
     @ registerSimple EcosystemUbuntu ''deb'' ''ubuntu'' []
     @ registerSimple EcosystemAlmaLinux ''rpm'' ''almalinux'' []
     @ registerSimple EcosystemAzureLinux ''rpm'' ''azure-linux'' []
     @ registerSimple EcosystemMageia ''rpm'' ''mageia'' []
     @ registerSimple EcosystemOpenEuler ''rpm'' ''openeuler'' []
     @ registerSimple EcosystemOpenSUSE ''rpm'' ''opensuse'' []
     @ registerSimple EcosystemRedHat ''rpm'' ''redhat'' []
     @ registerSimple EcosystemRockyLinux ''rpm'' ''rocky-linux'' []
     @ registerSimple EcosystemSUSE ''rpm'' ''suse'' []
     @ registerSimple EcosystemAlpaquita ''apk'' ''alpaquita'' sourceArchQualifiers
     @ registerSimple EcosystemAlpine ''apk'' ''alpine'' sourceArchQualifiers
     @ registerSimple EcosystemBellSoftHardenedContainers ''apk'' ''bellsoft-hardened-containers'' sourceArchQualifiers"

definition init_calls :: "registration list" where
  "init_calls = init_debian @ init_go @ init_maven @ init_simple"

definition init_registry :: "(osv_ecosystem \<Rightarrow> string) \<Rightarrow> go_error + purl_registry" where
  "init_registry nm = register nm init_calls \<lparr>reg_generators = Map.empty, reg_parsers = Map.empty\<rparr>"

definition Generate ::
  "purl_registry \<Rightarrow> (package_url \<Rightarrow> string) \<Rightarrow> string \<Rightarrow> string \<Rightarrow> go_error + string" where
  "Generate r ToString ecosystem packageName =
     (case reg_generators r (fst (strings_cut ecosystem (CHR '':''))) of
        None \<Rightarrow> Inl (GoErr (''unknown ecosystem: '' @ ecosystem))
      | Some gen \<Rightarrow> Inr (ToString (generate gen ecosystem packageName)))"

definition Convert ::
  "purl_registry \<Rightarrow> (osv_ecosystem \<Rightarrow> string) \<Rightarrow> (string \<Rightarrow> string + package_url) \<Rightarrow> string
     \<Rightarrow> go_error + string \<times> string \<times> string" where
  "Convert r nm FromString purlStr =
     (case FromString purlStr of
        Inl err \<Rightarrow> Inl (GoErr err)
      | Inr purl \<Rightarrow>
          (case (case reg_parsers r (parser_key (pu_type purl) (pu_namespace purl)) of
                   Some p \<Rightarrow> Some p
                 | None \<Rightarrow> reg_parsers r (pu_type purl)) of
             None \<Rightarrow> Inl (GoErr (''unknown PURL type: '' @ pu_type purl))
           | Some p \<Rightarrow> (case parse_purl nm p purl of
               (packageName, ecosystem) \<Rightarrow> Inr (ecosystem, packageName, pu_version purl))))"

section \<open>A package is found again\<close>

fun generatorEntries :: "registration list \<Rightarrow> (osv_ecosystem \<times> generator) list" where
  "generatorEntries [] = []"
| "generatorEntries (RegisterGenerator e g # calls) = (e, g) # generatorEntries calls"
| "generatorEntries (RegisterParser t ns p # calls) = generatorEntries calls"

fun parserEntries :: "registration list \<Rightarrow> (string \<times> purl_parser) list" where
  "parserEntries [] = []"
| "parserEntries (RegisterGenerator e g # calls) = parserEntries calls"
| "parserEntries (RegisterParser t ns p # calls) = (parser_key t ns, p) # parserEntries calls"

lemma register_ok:
  assumes "distinct (map fst (parserEntries calls))" and "fst ` set (parserEntries calls) \<inter> dom (reg_parsers r) = {}"
    and "inj nm" and "distinct (map fst (generatorEntries calls))"
  shows "\<exists>r'. register nm calls r = Inr r' \<and> reg_parsers r' = reg_parsers r ++ map_of (parserEntries calls)
    \<and> (\<forall>e. reg_generators r' (nm e) =
         (case map_of (generatorEntries calls) e of Some g \<Rightarrow> Some g | None \<Rightarrow> reg_generators r (nm e)))"
  using assms
proof (induction nm calls r rule: register.induct)
  case (2 nm e g calls r)
  then obtain r' where r': "register nm calls (registerGenerator nm e g r) = Inr r'"
    "reg_parsers r' = reg_parsers r ++ map_of (parserEntries calls)"
    "\<forall>e'. reg_generators r' (nm e') = (case map_of (generatorEntries calls) e' of Some g \<Rightarrow> Some g
       | None \<Rightarrow> reg_generators (registerGenerator nm e g r) (nm e'))"
    by (auto simp: registerGenerator_def)
  have "map_of (generatorEntries calls) e = None" using 2(5) by (simp add: map_of_eq_None_iff)
  then show ?case using r' 2(4) by (auto simp: registerGenerator_def inj_eq split: option.splits)
next
  case (3 nm t ns p calls r)
  let ?r = "r\<lparr>reg_parsers := (reg_parsers r)(parser_key t ns \<mapsto> p)\<rparr>"
  have p: "registerParser t ns p r = Inr ?r" using 3(3) by (auto simp: registerParser_def Let_def)
  have k: "parser_key t ns \<notin> fst ` set (parserEntries calls)" using 3(2) by simp
  have "fst ` set (parserEntries calls) \<inter> dom (reg_parsers ?r) = {}" using 3(3) k by auto
  then have "\<exists>r'. register nm calls ?r = Inr r' \<and> reg_parsers r' = reg_parsers ?r ++ map_of (parserEntries calls)
      \<and> (\<forall>e'. reg_generators r' (nm e') = (case map_of (generatorEntries calls) e' of Some g \<Rightarrow> Some g
       | None \<Rightarrow> reg_generators ?r (nm e')))"
    using 3(2,4,5) by (intro 3(1) [OF p]) (simp_all del: fun_upd_apply)
  then obtain r' where r': "register nm calls ?r = Inr r'"
    "reg_parsers r' = reg_parsers ?r ++ map_of (parserEntries calls)"
    "\<forall>e'. reg_generators r' (nm e') = (case map_of (generatorEntries calls) e' of Some g \<Rightarrow> Some g
       | None \<Rightarrow> reg_generators ?r (nm e'))"
    by blast
  have "parser_key t ns \<notin> dom (map_of (parserEntries calls))" using k by (simp add: dom_map_of_conv_image_fst)
  then have "reg_parsers r' = reg_parsers r ++ (map_of (parserEntries calls))(parser_key t ns \<mapsto> p)"
    using r'(2) by (simp add: map_add_upd_left del: fun_upd_apply)
  moreover have "reg_generators ?r = reg_generators r" by simp
  ultimately show ?case using r'(1,3) p by (simp del: fun_upd_apply cong: option.case_cong)
qed simp

lemma init_registry_ok:
  assumes "inj nm"
  shows "\<exists>r. init_registry nm = Inr r \<and> reg_parsers r = map_of (parserEntries init_calls)
    \<and> (\<forall>e. reg_generators r (nm e) = map_of (generatorEntries init_calls) e)"
proof -
  have p: "distinct (map fst (parserEntries init_calls))" by code_simp
  have g: "distinct (map fst (generatorEntries init_calls))" by code_simp
  let ?r0 = "\<lparr>reg_generators = Map.empty, reg_parsers = Map.empty\<rparr>"
  obtain r where r: "init_registry nm = Inr r" "reg_parsers r = map_of (parserEntries init_calls)"
    "\<forall>e. reg_generators r (nm e) =
      (case map_of (generatorEntries init_calls) e of Some g \<Rightarrow> Some g | None \<Rightarrow> reg_generators ?r0 (nm e))"
    using register_ok [OF p _ assms g, of ?r0] by (auto simp: init_registry_def)
  have "reg_generators r (nm e) = map_of (generatorEntries init_calls) e" for e
    using r(3) by (cases "map_of (generatorEntries init_calls) e") simp_all
  then show ?thesis using r(1,2) by blast
qed

text \<open>The URL of a package, and what the library may change in it: the order of the qualifiers.\<close>

definition packageURL :: "osv_ecosystem \<Rightarrow> string \<Rightarrow> string \<Rightarrow> package_url" where
  "packageURL e ecosystem packageName =
     generate (the (map_of (generatorEntries init_calls) e)) ecosystem packageName"

definition same_url :: "package_url \<Rightarrow> package_url \<Rightarrow> bool" where
  "same_url p q \<longleftrightarrow> pu_type p = pu_type q \<and> pu_namespace p = pu_namespace q \<and> pu_name p = pu_name q
     \<and> pu_version p = pu_version q \<and> pu_subpath p = pu_subpath q
     \<and> mset (pu_qualifiers p) = mset (pu_qualifiers q)"

text \<open>
  The ecosystem that is found again: that of a Debian package keeps its release, a code name
  replaced by the number and letters by small ones; of the others the part before the colon.
\<close>

definition debian_release :: "string \<Rightarrow> string" where
  "debian_release ecosystem =
     (case strings_cut ecosystem (CHR '':'') of
        (_, version, found) \<Rightarrow>
          if \<not> found then ''Debian''
          else (let v = to_lower version in
                ''Debian:'' @ (case map_of debianVersions v of Some number \<Rightarrow> number | None \<Rightarrow> v)))"

definition ecosystem_again :: "(osv_ecosystem \<Rightarrow> string) \<Rightarrow> osv_ecosystem \<Rightarrow> string \<Rightarrow> string" where
  "ecosystem_again nm e ecosystem = (if e = EcosystemDebian then debian_release ecosystem else nm e)"

text \<open>A name that does not begin with the separator of its ecosystem.\<close>

definition package_name_ok :: "osv_ecosystem \<Rightarrow> string \<Rightarrow> bool" where
  "package_name_ok e name \<longleftrightarrow>
     (e = EcosystemGo \<longrightarrow> cut_last name (CHR ''/'') \<noteq> None \<longrightarrow> fst (the (cut_last name (CHR ''/''))) \<noteq> [])
     \<and> (e = EcosystemMaven \<longrightarrow> \<not> has_prefix name '':'')"

definition simple_entry :: "osv_ecosystem \<times> generator \<Rightarrow> bool" where
  "simple_entry eg = (case snd eg of
      SimpleGenerator t ns qs \<Rightarrow> (case map_of (parserEntries init_calls) (parser_key t ns) of
        Some (SimpleParser e' j) \<Rightarrow> e' = fst eg \<and> (j \<longrightarrow> ns = []) | _ \<Rightarrow> False)
    | _ \<Rightarrow> fst eg \<in> {EcosystemDebian, EcosystemGo, EcosystemMaven})"

lemma simple_entries:
  assumes "e \<notin> {EcosystemDebian, EcosystemGo, EcosystemMaven}"
  shows "\<exists>t ns qs j. map_of (generatorEntries init_calls) e = Some (SimpleGenerator t ns qs)
    \<and> map_of (parserEntries init_calls) (parser_key t ns) = Some (SimpleParser e j) \<and> (j \<longrightarrow> ns = [])"
proof -
  have all: "list_all simple_entry (generatorEntries init_calls)" by code_simp
  have "map_of (generatorEntries init_calls) e \<noteq> None"
    by (cases e) (simp_all add: init_calls_def init_debian_def init_go_def init_maven_def init_simple_def registerSimple_def)
  then obtain g where g: "map_of (generatorEntries init_calls) e = Some g" by blast
  then have "simple_entry (e, g)" using all map_of_SomeD by (fastforce simp: list_all_iff)
  then show ?thesis
    using assms g by (auto simp: simple_entry_def split: generator.splits option.splits purl_parser.splits)
qed

lemma special_entries:
  "map_of (generatorEntries init_calls) EcosystemDebian = Some DebianGenerator"
  "map_of (generatorEntries init_calls) EcosystemGo = Some GoGenerator"
  "map_of (generatorEntries init_calls) EcosystemMaven = Some MavenGenerator"
  "map_of (parserEntries init_calls) (parser_key ''deb'' ''debian'') = Some DebianParser"
  "map_of (parserEntries init_calls) ''golang'' = Some GoParser"
  "map_of (parserEntries init_calls) ''maven'' = Some MavenParser"
  by code_simp+

lemma parser_key_Nil [simp]: "parser_key t [] = t"
  by (simp add: parser_key_def)

lemma no_namespaced_entries:
  "ns \<noteq> [] \<Longrightarrow> map_of (parserEntries init_calls) (parser_key ''golang'' ns) = None"
  "ns \<noteq> [] \<Longrightarrow> map_of (parserEntries init_calls) (parser_key ''maven'' ns) = None"
  by (simp_all add: init_calls_def init_debian_def init_go_def init_maven_def init_simple_def
      registerSimple_def parser_key_def)

lemma debianEcosystem_arch:
  "debianEcosystem [(''arch'', a)] eco = eco"
  "debianEcosystem [(''distro'', d), (''arch'', a)] eco =
    ''Debian:'' @ (case map_of debianVersions (to_lower d) of Some v \<Rightarrow> v | None \<Rightarrow> to_lower d)"
  "debianEcosystem [(''arch'', a), (''distro'', d)] eco =
    ''Debian:'' @ (case map_of debianVersions (to_lower d) of Some v \<Rightarrow> v | None \<Rightarrow> to_lower d)"
  by (simp_all add: Let_def)

lemma mset_pair: "mset xs = {#a, b#} \<Longrightarrow> xs = [a, b] \<or> xs = [b, a]"
proof -
  assume m: "mset xs = {#a, b#}"
  then have "length xs = 2" by (metis size_mset size_add_mset size_empty numeral_2_eq_2)
  then obtain x y where "xs = [x, y]" by (cases xs; cases "tl xs") auto
  then show ?thesis using m by (auto simp: add_eq_conv_ex)
qed

lemma codename_again:
  assumes "map_of debianCodenames v = Some c"
  shows "map_of debianVersions (to_lower c) = Some v" and "to_lower v = v" and "map_of debianVersions v = None"
proof -
  have "list_all (\<lambda>(v, c). map_of debianVersions (to_lower c) = Some v \<and> to_lower v = v
      \<and> map_of debianVersions v = None) debianCodenames" by code_simp
  then show "map_of debianVersions (to_lower c) = Some v" "to_lower v = v" "map_of debianVersions v = None"
    using map_of_SomeD [OF assms] by (auto simp: list_all_iff)
qed

lemma debian_again:
  assumes "mset qs = mset (pu_qualifiers (debianGenerator ecosystem name))"
  shows "debianEcosystem qs ''Debian'' = debian_release ecosystem"
proof (cases "strings_cut ecosystem (CHR '':'')")
  case (fields b v found)
  show ?thesis
  proof (cases found)
    case False
    then have "qs = [(''arch'', ''source'')]"
      using assms fields by (simp add: debianGenerator_def NewPackageURL_def)
    then show ?thesis using False fields by (simp add: debian_release_def)
  next
    case True
    let ?d = "case map_of debianCodenames v of Some c \<Rightarrow> c | None \<Rightarrow> v"
    have "mset qs = {#(''distro'', ?d), (''arch'', ''source'')#}"
      using assms fields True by (simp add: debianGenerator_def NewPackageURL_def)
    from mset_pair [OF this] have d: "debianEcosystem qs ''Debian'' =
      ''Debian:'' @ (case map_of debianVersions (to_lower ?d) of Some w \<Rightarrow> w | None \<Rightarrow> to_lower ?d)"
      using debianEcosystem_arch by metis
    show ?thesis
    proof (cases "map_of debianCodenames v")
      case None
      then show ?thesis
        using d True fields by (cases "map_of debianVersions (to_lower v)") (simp_all add: debian_release_def Let_def)
    next
      case (Some c)
      then show ?thesis using d True fields codename_again [OF Some] by (simp add: debian_release_def Let_def)
    qed
  qed
qed

lemma strings_cut_found: "strings_cut s c = (a, b, True) \<Longrightarrow> s = a @ c # b"
  by (induction s arbitrary: a) (auto simp: strings_cut_def split: if_splits)

lemma cut_last_SomeD:
  assumes "cut_last s c = Some (a, b)"
  shows "s = a @ c # b"
proof -
  have "strings_cut (rev s) c = (rev b, rev a, True)"
    using assms by (auto simp: cut_last_def split: prod.splits if_splits)
  then have "rev s = rev b @ c # rev a" by (rule strings_cut_found)
  from arg_cong [OF this, of rev] show ?thesis by simp
qed

text \<open>
  C40: If the values of the ecosystem constants differ and hold no colon, the registration of the
  parsers panics on no collision, and the package URL generated for a package of a registered
  ecosystem, with or without a release, converts back to the name of the package and its ecosystem
  (without the release, but for Debian, where code names are numbers again). The library is to give
  back the URL it printed, with the qualifiers in any order; and a Maven or Go name must not begin
  with its separator.
\<close>

theorem Convert_Generate:
  assumes "inj nm" and "\<forall>e. CHR '':'' \<notin> set (nm e)"
    and "nm EcosystemDebian = ''Debian''" and "nm EcosystemGo = ''Go''" and "nm EcosystemMaven = ''Maven''"
    and "ecosystem = nm e \<or> (\<exists>release. ecosystem = nm e @ '':'' @ release)"
    and "FromString (ToString (packageURL e ecosystem name)) = Inr q" and "same_url (packageURL e ecosystem name) q"
    and "package_name_ok e name"
  shows "\<exists>r pkg. init_registry nm = Inr r \<and> Generate r ToString ecosystem name = Inr pkg
    \<and> Convert r nm FromString pkg = Inr (ecosystem_again nm e ecosystem, name, [])"
proof -
  obtain r where r: "init_registry nm = Inr r" "reg_parsers r = map_of (parserEntries init_calls)"
    "\<And>e. reg_generators r (nm e) = map_of (generatorEntries init_calls) e"
    using init_registry_ok [OF assms(1)] by blast
  have base: "fst (strings_cut ecosystem (CHR '':'')) = nm e"
    using assms(2,6) by (auto simp: strings_cut_append)
  obtain g where g: "map_of (generatorEntries init_calls) e = Some g"
  proof (cases "e \<in> {EcosystemDebian, EcosystemGo, EcosystemMaven}")
    case True
    then show ?thesis using that special_entries(1-3) by auto
  qed (use that simple_entries in blast)
  let ?p = "generate g ecosystem name"
  have p: "packageURL e ecosystem name = ?p" by (simp add: packageURL_def g)
  have gen: "Generate r ToString ecosystem name = Inr (ToString ?p)"
    by (simp add: Generate_def base r(3) g)
  have q: "pu_type q = pu_type ?p" "pu_namespace q = pu_namespace ?p" "pu_name q = pu_name ?p"
    "pu_version q = pu_version ?p" "pu_subpath q = pu_subpath ?p"
    "mset (pu_qualifiers q) = mset (pu_qualifiers ?p)"
    using assms(8) by (simp_all add: p same_url_def)
  have again: "Convert r nm FromString (ToString ?p) = Inr (ecosystem_again nm e ecosystem, name, [])"
  proof -
    consider (debian) "e = EcosystemDebian" | (golang) "e = EcosystemGo" | (maven) "e = EcosystemMaven"
      | (simple) "e \<notin> {EcosystemDebian, EcosystemGo, EcosystemMaven}" by blast
    then show ?thesis
    proof cases
      case debian
      then have "g = DebianGenerator" using g special_entries(1) by simp
      then have "?p = debianGenerator ecosystem name" by simp
      then show ?thesis
        using q debian debian_again [of "pu_qualifiers q"] assms(7) [unfolded p] special_entries(4)
        by (auto simp: Convert_def r(2) debianParser_def ecosystem_again_def debianGenerator_def
            NewPackageURL_def split: prod.splits)
    next
      case golang
      then have "g = GoGenerator" using g special_entries(2) by simp
      then have "?p = goGenerator name" by simp
      then show ?thesis
        using q golang assms(4,9) assms(7) [unfolded p] special_entries(5) no_namespaced_entries(1)
        by (cases "cut_last name (CHR ''/'')")
          (auto simp: Convert_def r(2) goParser_def ecosystem_again_def goGenerator_def package_name_ok_def
            NewPackageURL_def dest: cut_last_SomeD split: prod.splits)
    next
      case maven
      then have "g = MavenGenerator" using g special_entries(3) by simp
      then have gp: "?p = mavenGenerator name" by simp
      obtain a b found where cut: "strings_cut name (CHR '':'') = (a, b, found)" by (rule prod_cases3)
      have "found \<Longrightarrow> name = a @ CHR '':'' # b" using cut strings_cut_found by simp
      then have "found \<Longrightarrow> name = a @ CHR '':'' # b \<and> a \<noteq> []"
        using maven assms(9) by (cases a) (auto simp: package_name_ok_def)
      then show ?thesis
        using gp cut q maven assms(5) assms(7) [unfolded p] special_entries(6) no_namespaced_entries(2)
        by (cases found) (auto simp: Convert_def r(2) mavenParser_def ecosystem_again_def mavenGenerator_def
            NewPackageURL_def)
    next
      case simple
      then obtain t ns qs j where s: "map_of (generatorEntries init_calls) e = Some (SimpleGenerator t ns qs)"
        "map_of (parserEntries init_calls) (parser_key t ns) = Some (SimpleParser e j)" "j \<longrightarrow> ns = []"
        using simple_entries by blast
      then show ?thesis
        using q g simple assms(7) [unfolded p]
        by (auto simp: Convert_def r(2) ecosystem_again_def NewPackageURL_def)
    qed
  qed
  show ?thesis using r(1) gen again by blast
qed

text \<open>The names of the schema, and the parser and printer of \<open>purl.go\<close> in place of the library's.\<close>

fun osv_names :: "osv_ecosystem \<Rightarrow> string" where
  "osv_names EcosystemBitnami = ''Bitnami''"
| "osv_names EcosystemCRAN = ''CRAN''"
| "osv_names EcosystemConanCenter = ''ConanCenter''"
| "osv_names EcosystemDockerHardenedImages = ''Docker Hardened Images''"
| "osv_names EcosystemHackage = ''Hackage''"
| "osv_names EcosystemHex = ''Hex''"
| "osv_names EcosystemJulia = ''Julia''"
| "osv_names EcosystemNuGet = ''NuGet''"
| "osv_names EcosystemOSSFuzz = ''OSS-Fuzz''"
| "osv_names EcosystemPackagist = ''Packagist''"
| "osv_names EcosystemPub = ''Pub''"
| "osv_names EcosystemPyPI = ''PyPI''"
| "osv_names EcosystemRubyGems = ''RubyGems''"
| "osv_names EcosystemSwiftURL = ''SwiftURL''"
| "osv_names EcosystemCratesIO = ''crates.io''"
| "osv_names EcosystemNPM = ''npm''"
| "osv_names EcosystemOpam = ''opam''"
| "osv_names EcosystemChainguard = ''Chainguard''"
| "osv_names EcosystemMinimOS = ''MinimOS''"
| "osv_names EcosystemWolfi = ''Wolfi''"
| "osv_names EcosystemEcho = ''Echo''"
| "osv_names EcosystemUbuntu = ''Ubuntu''"
| "osv_names EcosystemAlmaLinux = ''AlmaLinux''"
| "osv_names EcosystemAzureLinux = ''Azure Linux''"
| "osv_names EcosystemMageia = ''Mageia''"
| "osv_names EcosystemOpenEuler = ''openEuler''"
| "osv_names EcosystemOpenSUSE = ''openSUSE''"
| "osv_names EcosystemRedHat = ''Red Hat''"
| "osv_names EcosystemRockyLinux = ''Rocky Linux''"
| "osv_names EcosystemSUSE = ''SUSE''"
| "osv_names EcosystemAlpaquita = ''Alpaquita''"
| "osv_names EcosystemAlpine = ''Alpine''"
| "osv_names EcosystemBellSoftHardenedContainers = ''BellSoft Hardened Containers''"
| "osv_names EcosystemDebian = ''Debian''"
| "osv_names EcosystemGo = ''Go''"
| "osv_names EcosystemMaven = ''Maven''"

lemma osv_names_ok: "inj osv_names" "\<forall>e. CHR '':'' \<notin> set (osv_names e)"
proof -
  let ?all = "map fst (generatorEntries init_calls)"
  have all: "e \<in> set ?all" for e
    by (cases e) (simp_all add: init_calls_def init_debian_def init_go_def init_maven_def init_simple_def registerSimple_def)
  have "distinct (map osv_names ?all)" by code_simp
  then have "inj_on osv_names (set ?all)" by (simp only: distinct_map)
  then show "inj osv_names" using all by (simp only: inj_on_def) blast
  have "list_all (\<lambda>e. CHR '':'' \<notin> set (osv_names e)) ?all" by code_simp
  then show "\<forall>e. CHR '':'' \<notin> set (osv_names e)" using all by (simp only: list_all_iff) blast
qed

definition print_url :: "package_url \<Rightarrow> string" where
  "print_url p = purl_String id \<lparr>pl_type = pu_type p, pl_namespace = pu_namespace p, pl_name = pu_name p,
     pl_version = pu_version p, pl_qualifiers = pu_qualifiers p, pl_subpath = pu_subpath p, pl_raw = []\<rparr>"

definition parse_url :: "string \<Rightarrow> string + package_url" where
  "parse_url s = (case purl_Parse s of
       Inl _ \<Rightarrow> Inl ''invalid purl''
     | Inr p \<Rightarrow> Inr \<lparr>pu_type = pl_type p, pu_namespace = pl_namespace p, pu_name = pl_name p,
         pu_version = pl_version p, pu_qualifiers = pl_qualifiers p, pu_subpath = pl_subpath p\<rparr>)"

theorem Convert_Generate_witness:
  "\<exists>r pkg. init_registry osv_names = Inr r \<and> Generate r print_url ''Debian:12'' ''openssl'' = Inr pkg
    \<and> Convert r osv_names parse_url pkg = Inr (''Debian:12'', ''openssl'', [])"
proof -
  let ?q = "\<lparr>pu_type = ''deb'', pu_namespace = ''debian'', pu_name = ''openssl'', pu_version = [],
    pu_qualifiers = [(''arch'', ''source''), (''distro'', ''bookworm'')], pu_subpath = []\<rparr>"
  have p: "packageURL EcosystemDebian ''Debian:12'' ''openssl'' = \<lparr>pu_type = ''deb'', pu_namespace = ''debian'',
      pu_name = ''openssl'', pu_version = [],
      pu_qualifiers = [(''distro'', ''bookworm''), (''arch'', ''source'')], pu_subpath = []\<rparr>" by code_simp
  have url: "parse_url (print_url (packageURL EcosystemDebian ''Debian:12'' ''openssl'')) = Inr ?q"
    by code_simp
  have same: "same_url (packageURL EcosystemDebian ''Debian:12'' ''openssl'') ?q"
    unfolding p same_url_def by simp
  have rel: "''Debian:12'' = osv_names EcosystemDebian \<or>
      (\<exists>release. ''Debian:12'' = osv_names EcosystemDebian @ '':'' @ release)" by simp
  have ok: "package_name_ok EcosystemDebian ''openssl''" by (simp add: package_name_ok_def)
  have eco: "ecosystem_again osv_names EcosystemDebian ''Debian:12'' = ''Debian:12''" by code_simp
  show ?thesis
    using Convert_Generate [where FromString = parse_url and ToString = print_url,
        OF osv_names_ok(1,2) _ _ _ rel url same ok] eco by simp
qed

text \<open>Without a release code name or capital letters, a Debian ecosystem is found again as it was.\<close>

lemma debian_release_id:
  assumes "CHR '':'' \<notin> set b" and "b = ''Debian''" and "to_lower v = v" and "map_of debianVersions v = None"
  shows "debian_release (b @ '':'' @ v) = b @ '':'' @ v"
proof -
  have cut: "strings_cut (b @ '':'' @ v) (CHR '':'') = (b, v, True)"
    using strings_cut_append(1) [OF assms(1)] by simp
  show ?thesis unfolding debian_release_def cut using assms(2-4) by simp
qed

end
