(* ===== verification/Enrichers.thy ===== *)
theory Enrichers
  imports Enumerate Purl VulnStore RelationsStore
begin

text \<open>
  The pipeline of the worker (\<open>apps/cli/internal/worker/pipeline\<close>): nine enrichers that a record
  goes through, in the order of \<open>registry.go\<close>, each with what it reads from the source, the
  ecosystems, the known state and the relations store. An enricher changes a copy of the record, so
  it is a function from the record to the record or an error.
\<close>

section \<open>Records and parameters\<close>

text \<open>
  The part of a record that the worker reads or writes. A timestamp may be absent (nil); what the worker
  only compares is held as text (\<open>ov_rest\<close>).
\<close>

record osv_vuln =
  ov_id :: vuln_id
  ov_schema_version :: string
  ov_published :: "timestamp option"
  ov_modified :: "timestamp option"
  ov_withdrawn :: "timestamp option"
  ov_summary :: string
  ov_details :: string
  ov_aliases :: "vuln_id list"
  ov_related :: "vuln_id list"
  ov_upstream :: "vuln_id list"
  ov_affected :: "osv_affected list"
  ov_rest :: string

text \<open>\<open>AsTime\<close> of a timestamp, which of a nil one is the start of Unix time.\<close>

definition AsTime :: "timestamp option \<Rightarrow> timestamp" where
  "AsTime t = (case t of None \<Rightarrow> 0 | Some t \<Rightarrow> t)"

text \<open>A source; its analysis of git ranges is never nil (\<open>source_repository.go\<close>).\<close>

record source_repo =
  sp_ignore_git :: bool
  sp_detect_cherrypicks :: bool
  sp_all_branches :: bool
  sp_accepted :: "string list"
  sp_link :: string

record relations_store =
  rl_GetAliases :: "vuln_id \<Rightarrow> (vuln_id list \<times> timestamp) relation_result"
  rl_GetRelated :: "vuln_id \<Rightarrow> (vuln_id list \<times> timestamp) relation_result"
  rl_GetUpstream :: "vuln_id \<Rightarrow> (vuln_id list \<times> timestamp) relation_result"

record 'v enrich_params =
  ep_path :: string
  ep_source :: source_repo
  ep_provider :: "'v provider"
  ep_existing :: "osv_vuln option"
  ep_relations :: "relations_store option"

text \<open>
  What is fixed at the start of the program: how slices are sorted, the ecosystems of the embedded
  schema, the registry of package URLs, the library that reads them, and \<open>osvconstants.SchemaVersion\<close>.
\<close>

record pipeline_env =
  pe_sorter :: "event sorter"
  pe_validEcosystems :: "string list"
  pe_purls :: purl_registry
  pe_FromString :: "string \<Rightarrow> string + package_url"
  pe_ToString :: "package_url \<Rightarrow> string"
  pe_SchemaVersion :: string

type_synonym 'v enricher = "'v enrich_params \<Rightarrow> osv_vuln \<Rightarrow> go_error + osv_vuln"

fun map_result :: "('a \<Rightarrow> 'e + 'b) \<Rightarrow> 'a list \<Rightarrow> 'e + 'b list" where
  "map_result f [] = Inr []"
| "map_result f (x # xs) =
     (case f x of
        Inl e \<Rightarrow> Inl e
      | Inr y \<Rightarrow> (case map_result f xs of Inl e \<Rightarrow> Inl e | Inr ys \<Rightarrow> Inr (y # ys)))"

section \<open>The enrichers\<close>

definition NormalizePackageName :: "'v worker_ecosystem \<Rightarrow> string \<Rightarrow> string" where
  "NormalizePackageName sys name = (case we_normalizer sys of Some f \<Rightarrow> f name | None \<Rightarrow> name)"

definition normalizeAffected :: "'v provider \<Rightarrow> osv_affected \<Rightarrow> osv_affected" where
  "normalizeAffected get a =
     (if package_ecosystem a = [] then a
      else case get (package_ecosystem a) of
        None \<Rightarrow> a
      | Some sys \<Rightarrow>
          a\<lparr>oa_package := map_option (\<lambda>p. p\<lparr>pk_name := NormalizePackageName sys (pk_name p)\<rparr>) (oa_package a)\<rparr>)"

definition namenormalize :: "'v enricher" where
  "namenormalize params v = Inr (v\<lparr>ov_affected := map (normalizeAffected (ep_provider params)) (ov_affected v)\<rparr>)"

definition IsKnownEcosystem :: "string list \<Rightarrow> string \<Rightarrow> bool" where
  "IsKnownEcosystem validEcosystems ecosystem \<longleftrightarrow> fst (strings_cut ecosystem (CHR '':'')) \<in> set validEcosystems"

text \<open>One entry: kept, kept for its git ranges without the package, or dropped.\<close>

definition filterAffected :: "string list \<Rightarrow> string list \<Rightarrow> osv_affected \<Rightarrow> osv_affected list" where
  "filterAffected validEcosystems acceptedEcos a =
     (case oa_package a of
        None \<Rightarrow> [a]
      | Some pkg \<Rightarrow>
          let ecoBase = fst (strings_cut (pk_ecosystem pkg) (CHR '':''));
              shouldRemove = (''*'' \<notin> set acceptedEcos \<and> ecoBase \<notin> set acceptedEcos)
                \<or> \<not> IsKnownEcosystem validEcosystems ecoBase in
          if \<not> shouldRemove then [a]
          else
            let gitRanges = filter (\<lambda>r. sr_type r = RangeGit) (oa_ranges a) in
            if gitRanges \<noteq> [] then [a\<lparr>oa_ranges := gitRanges, oa_package := None\<rparr>] else [])"

definition filterecosystem :: "pipeline_env \<Rightarrow> 'v enricher" where
  "filterecosystem env params v =
     Inr (v\<lparr>ov_affected := concat (map (filterAffected (pe_validEcosystems env) (sp_accepted (ep_source params)))
       (ov_affected v))\<rparr>)"

text \<open>
  The strict regular expression of semantic versions: three numbers, a pre-release and a build, where
  a plus begins the build, as it occurs nowhere else, and the first minus before it the pre-release.
\<close>

definition semver_number :: "string \<Rightarrow> bool" where
  "semver_number s \<longleftrightarrow> s = ''0'' \<or> (s \<noteq> [] \<and> hd s \<noteq> CHR ''0'' \<and> (\<forall>c \<in> set s. is_digit c))"

definition semver_ident :: "string \<Rightarrow> bool" where
  "semver_ident s \<longleftrightarrow> s \<noteq> [] \<and> (\<forall>c \<in> set s. is_alnum c \<or> c = CHR ''-'')"

definition strictSemver :: "string \<Rightarrow> bool" where
  "strictSemver s =
     (let (v, build, hasBuild) = strings_cut s (CHR ''+'');
          (core, pre, hasPre) = strings_cut v (CHR ''-'');
          numbers = strings_split core ''.'' in
      length numbers = 3 \<and> (\<forall>n \<in> set numbers. semver_number n)
      \<and> (hasPre \<longrightarrow> (\<forall>i \<in> set (strings_split pre ''.'').
            semver_ident i \<and> ((\<forall>c \<in> set i. is_digit c) \<longrightarrow> semver_number i)))
      \<and> (hasBuild \<longrightarrow> (\<forall>i \<in> set (strings_split build ''.''). semver_ident i)))"

definition event_value :: "schema_event \<Rightarrow> string" where
  "event_value e =
     (if se_introduced e \<noteq> [] then se_introduced e
      else if se_fixed e \<noteq> [] then se_fixed e
      else se_last_affected e)"

definition semverRange :: "worker_range \<Rightarrow> worker_range" where
  "semverRange r =
     (if sr_type r \<noteq> RangeEcosystem then r
      else if \<forall>e \<in> set (sr_events r). event_value e = ''0'' \<or> strictSemver (event_value e)
           then r\<lparr>sr_type := RangeSemver\<rparr> else r)"

definition semverAffected :: "'v provider \<Rightarrow> osv_affected \<Rightarrow> osv_affected" where
  "semverAffected get a =
     (if package_ecosystem a = [] then a
      else case get (package_ecosystem a) of
        None \<Rightarrow> a
      | Some sys \<Rightarrow> if we_semver sys then a\<lparr>oa_ranges := map semverRange (oa_ranges a)\<rparr> else a)"

definition makesemver :: "'v enricher" where
  "makesemver params v = Inr (v\<lparr>ov_affected := map (semverAffected (ep_provider params)) (ov_affected v)\<rparr>)"

definition enumerateversions :: "pipeline_env \<Rightarrow> 'v enricher" where
  "enumerateversions env params v =
     (case map_result (enumerateAffected (pe_sorter env) (ep_provider params)) (ov_affected v) of
        Inl err \<Rightarrow> Inl err
      | Inr as \<Rightarrow> Inr (v\<lparr>ov_affected := as\<rparr>))"

definition schemaversion :: "pipeline_env \<Rightarrow> 'v enricher" where
  "schemaversion env params v = Inr (v\<lparr>ov_schema_version := pe_SchemaVersion env\<rparr>)"

text \<open>A valid URL loses its version; one that is invalid or missing is generated, where possible.\<close>

definition purlPackage :: "pipeline_env \<Rightarrow> osv_package \<Rightarrow> osv_package" where
  "purlPackage env p =
     (case (if pk_purl p = [] then None
            else case pe_FromString env (pk_purl p) of Inl _ \<Rightarrow> None | Inr u \<Rightarrow> Some u) of
        Some pkgPURL \<Rightarrow>
          if pu_version pkgPURL \<noteq> [] then p\<lparr>pk_purl := pe_ToString env (pkgPURL\<lparr>pu_version := []\<rparr>)\<rparr> else p
      | None \<Rightarrow>
          if pk_ecosystem p = [] \<or> pk_name p = [] then p\<lparr>pk_purl := []\<rparr>
          else case Generate (pe_purls env) (pe_ToString env) (pk_ecosystem p) (pk_name p) of
            Inl _ \<Rightarrow> p\<lparr>pk_purl := []\<rparr>
          | Inr purlStr \<Rightarrow> p\<lparr>pk_purl := purlStr\<rparr>)"

definition purlEnrich :: "pipeline_env \<Rightarrow> 'v enricher" where
  "purlEnrich env params v =
     Inr (v\<lparr>ov_affected := map (\<lambda>a. a\<lparr>oa_package := map_option (purlPackage env) (oa_package a)\<rparr>) (ov_affected v)\<rparr>)"

text \<open>
  A struct that is there but empty has a nil map of fields, as it is unmarshalled, and writing to
  it panics; a struct the enricher makes itself has a map.
\<close>

definition sourceAffected :: "string \<Rightarrow> osv_affected \<Rightarrow> go_error + osv_affected" where
  "sourceAffected sourceLink a =
     (case oa_ds a of
        None \<Rightarrow> Inr (a\<lparr>oa_ds := Some [(''source'', JStr sourceLink)]\<rparr>)
      | Some [] \<Rightarrow> Inl (GoPanic ''assignment to entry in nil map'')
      | Some fs \<Rightarrow> Inr (a\<lparr>oa_ds := Some (put_field ''source'' (JStr sourceLink) fs)\<rparr>))"

definition sourcelink :: "'v enricher" where
  "sourcelink params v =
     (if sp_link (ep_source params) = [] then Inr v
      else case map_result (sourceAffected (sp_link (ep_source params) @ ep_path params)) (ov_affected v) of
        Inl err \<Rightarrow> Inl err
      | Inr as \<Rightarrow> Inr (v\<lparr>ov_affected := as\<rparr>))"

definition publishedDate :: "'v enrich_params \<Rightarrow> osv_vuln \<Rightarrow> timestamp option" where
  "publishedDate params v =
     (if ov_published v \<noteq> None then ov_published v
      else case ep_existing params of
        Some current \<Rightarrow> if ov_published current \<noteq> None then ov_published current else ov_modified v
      | None \<Rightarrow> ov_modified v)"

definition published :: "'v enricher" where
  "published params v = Inr (v\<lparr>ov_published := publishedDate params v\<rparr>)"

text \<open>What one kind of relation sets, and the date of modification it moves forward.\<close>

definition relate ::
  "string \<Rightarrow> (vuln_id list \<times> timestamp) relation_result \<Rightarrow> (vuln_id list \<Rightarrow> osv_vuln \<Rightarrow> osv_vuln) \<Rightarrow> osv_vuln
     \<Rightarrow> go_error + osv_vuln" where
  "relate msg result put v =
     (case result of
        RelNotFound \<Rightarrow> Inr v
      | RelFailed err \<Rightarrow> Inl (GoErr (msg @ err))
      | RelFound (ids, modified) \<Rightarrow>
          let v1 = put ids v in
          Inr (if AsTime (ov_modified v1) < modified then v1\<lparr>ov_modified := Some modified\<rparr> else v1))"

definition relations :: "'v enricher" where
  "relations params v =
     (case ep_relations params of
        None \<Rightarrow> Inl (GoErr ''relations store not provided'')
      | Some rs \<Rightarrow>
          (case relate ''failed getting aliases: '' (rl_GetAliases rs (ov_id v)) (\<lambda>ids. ov_aliases_update (\<lambda>_. ids)) v of
             Inl err \<Rightarrow> Inl err
           | Inr v1 \<Rightarrow>
               (case relate ''failed getting related: '' (rl_GetRelated rs (ov_id v1)) (\<lambda>ids. ov_related_update (\<lambda>_. ids)) v1 of
                  Inl err \<Rightarrow> Inl err
                | Inr v2 \<Rightarrow>
                    relate ''failed getting upstream: '' (rl_GetUpstream rs (ov_id v2)) (\<lambda>ids. ov_upstream_update (\<lambda>_. ids)) v2)))"

text \<open>
  The enricher that asks a language model for the texts that are missing. No code registers it
  (\<open>maybeRegisterAIEnricher\<close> is not called).
\<close>

definition aiEnrich :: "(vuln_id \<Rightarrow> (string \<times> string) option) \<Rightarrow> 'v enricher" where
  "aiEnrich EnrichCVE params v =
     (if ov_id v = [] then Inr v
      else case EnrichCVE (ov_id v) of
        None \<Rightarrow> Inr v
      | Some (summaryShort, summaryLong) \<Rightarrow>
          let v1 = (if ov_summary v = [] \<and> summaryShort \<noteq> [] then v\<lparr>ov_summary := summaryShort\<rparr> else v) in
          Inr (if ov_details v1 = [] \<and> summaryLong \<noteq> [] then v1\<lparr>ov_details := summaryLong\<rparr> else v1))"

section \<open>The pipeline\<close>

definition enricher_List :: "pipeline_env \<Rightarrow> 'v enricher list" where
  "enricher_List env =
     [namenormalize, filterecosystem env, makesemver, enumerateversions env, schemaversion env,
      purlEnrich env, sourcelink, published, relations]"

fun enrich :: "'v enricher list \<Rightarrow> 'v enricher" where
  "enrich [] params v = Inr v"
| "enrich (e # es) params v = (case e params v of Inl err \<Rightarrow> Inl err | Inr v' \<Rightarrow> enrich es params v')"

section \<open>What the pipeline does to a record\<close>

lemma map_result_Inr: "map_result f xs = Inr ys \<longleftrightarrow> list_all2 (\<lambda>x y. f x = Inr y) xs ys"
proof
  show "map_result f xs = Inr ys \<Longrightarrow> list_all2 (\<lambda>x y. f x = Inr y) xs ys"
    by (induction xs arbitrary: ys) (auto split: sum.splits)
  show "list_all2 (\<lambda>x y. f x = Inr y) xs ys \<Longrightarrow> map_result f xs = Inr ys"
    by (induction rule: list_all2_induct) auto
qed

text \<open>The affected entries after the enrichers that cannot fail, and after the two that can.\<close>

definition acceptedAffected :: "pipeline_env \<Rightarrow> 'v enrich_params \<Rightarrow> osv_affected list \<Rightarrow> osv_affected list" where
  "acceptedAffected env params as =
     map (semverAffected (ep_provider params))
       (concat (map (filterAffected (pe_validEcosystems env) (sp_accepted (ep_source params)))
         (map (normalizeAffected (ep_provider params)) as)))"

definition linkAffected :: "'v enrich_params \<Rightarrow> osv_affected list \<Rightarrow> go_error + osv_affected list" where
  "linkAffected params as =
     (if sp_link (ep_source params) = [] then Inr as
      else map_result (sourceAffected (sp_link (ep_source params) @ ep_path params)) as)"

definition enrichAffected :: "pipeline_env \<Rightarrow> 'v enrich_params \<Rightarrow> osv_affected list \<Rightarrow> go_error + osv_affected list" where
  "enrichAffected env params as =
     (case map_result (enumerateAffected (pe_sorter env) (ep_provider params)) (acceptedAffected env params as) of
        Inl err \<Rightarrow> Inl err
      | Inr as1 \<Rightarrow>
          linkAffected params (map (\<lambda>a. a\<lparr>oa_package := map_option (purlPackage env) (oa_package a)\<rparr>) as1))"

lemma publishedDate_update [simp]:
  "publishedDate params (v\<lparr>ov_affected := as\<rparr>) = publishedDate params v"
  "publishedDate params (v\<lparr>ov_schema_version := t\<rparr>) = publishedDate params v"
  by (auto simp: publishedDate_def split: option.splits)

lemma enrich_List:
  "enrich (enricher_List env) params v =
     (case enrichAffected env params (ov_affected v) of
        Inl err \<Rightarrow> Inl err
      | Inr as \<Rightarrow> relations params (v\<lparr>ov_schema_version := pe_SchemaVersion env, ov_affected := as,
          ov_published := publishedDate params v\<rparr>))"
proof -
  let ?as1 = "map_result (enumerateAffected (pe_sorter env) (ep_provider params))
    (acceptedAffected env params (ov_affected v))"
  let ?purl = "map (\<lambda>a. a\<lparr>oa_package := map_option (purlPackage env) (oa_package a)\<rparr>)"
  have link: "sourcelink params w = (case linkAffected params (ov_affected w) of
      Inl err \<Rightarrow> Inl err | Inr as \<Rightarrow> Inr (w\<lparr>ov_affected := as\<rparr>))" for w
    by (simp add: sourcelink_def linkAffected_def)
  show ?thesis
  proof (cases ?as1)
    case (Inl err)
    then show ?thesis
      by (simp add: enricher_List_def namenormalize_def filterecosystem_def makesemver_def enumerateversions_def
          enrichAffected_def acceptedAffected_def)
  next
    case (Inr as)
    then show ?thesis
      by (cases "linkAffected params (?purl as)")
        (simp_all add: enricher_List_def namenormalize_def filterecosystem_def makesemver_def enumerateversions_def
          enrichAffected_def acceptedAffected_def schemaversion_def purlEnrich_def link published_def split: sum.splits)
  qed
qed

text \<open>What the relations store has of one kind replaces what the record says.\<close>

definition found_or :: "'a \<Rightarrow> ('a \<times> timestamp) relation_result \<Rightarrow> 'a" where
  "found_or old result = (case result of RelFound (new, t) \<Rightarrow> new | _ \<Rightarrow> old)"

lemma relations_Inr:
  assumes "relations params v = Inr v'"
  obtains rs t where "ep_relations params = Some rs"
    and "v' = v\<lparr>ov_aliases := found_or (ov_aliases v) (rl_GetAliases rs (ov_id v)),
           ov_related := found_or (ov_related v) (rl_GetRelated rs (ov_id v)),
           ov_upstream := found_or (ov_upstream v) (rl_GetUpstream rs (ov_id v)), ov_modified := t\<rparr>"
    and "AsTime (ov_modified v) \<le> AsTime t"
proof -
  obtain rs where rs: "ep_relations params = Some rs"
    using assms by (auto simp: relations_def split: option.splits)
  have step: "\<exists>t. w' = (case result of RelFound (ids, _) \<Rightarrow> put ids w | _ \<Rightarrow> w)\<lparr>ov_modified := t\<rparr>
      \<and> AsTime (ov_modified w) \<le> AsTime t"
    if "relate msg result put w = Inr w'" and "\<And>ids. ov_modified (put ids w) = ov_modified w"
    for msg result put w w'
  proof (cases result)
    case (RelFound p)
    then obtain ids m where "result = RelFound (ids, m)" by (cases p) auto
    note found = this
    show ?thesis
    proof (cases "AsTime (ov_modified (put ids w)) < m")
      case True
      then have "w' = (put ids w)\<lparr>ov_modified := Some m\<rparr>"
        using that(1) found by (simp add: relate_def)
      then show ?thesis
        using True found by (intro exI [of _ "Some m"]) (simp add: AsTime_def that(2))
    next
      case False
      then have "w' = put ids w" using that(1) found by (simp add: relate_def)
      then have "w' = (put ids w)\<lparr>ov_modified := ov_modified (put ids w)\<rparr>" by simp
      then show ?thesis
        using found that(2) by (intro exI [of _ "ov_modified (put ids w)"]) simp
    qed
  qed (use that in \<open>auto simp: relate_def intro!: exI [of _ "ov_modified w"]\<close>)
  obtain v1 where v1: "relate ''failed getting aliases: '' (rl_GetAliases rs (ov_id v)) (\<lambda>ids. ov_aliases_update (\<lambda>_. ids)) v = Inr v1"
    using assms rs by (auto simp: relations_def split: sum.splits)
  obtain t1 where t1: "v1 = v\<lparr>ov_aliases := found_or (ov_aliases v) (rl_GetAliases rs (ov_id v)), ov_modified := t1\<rparr>"
    "AsTime (ov_modified v) \<le> AsTime t1"
    using step [OF v1] by (auto simp: found_or_def split: relation_result.splits)
  obtain v2 where v2: "relate ''failed getting related: '' (rl_GetRelated rs (ov_id v1)) (\<lambda>ids. ov_related_update (\<lambda>_. ids)) v1 = Inr v2"
    using assms rs v1 by (auto simp: relations_def split: sum.splits)
  obtain t2 where t2: "v2 = v1\<lparr>ov_related := found_or (ov_related v1) (rl_GetRelated rs (ov_id v1)), ov_modified := t2\<rparr>"
    "AsTime (ov_modified v1) \<le> AsTime t2"
    using step [OF v2] by (auto simp: found_or_def split: relation_result.splits)
  have v3: "relate ''failed getting upstream: '' (rl_GetUpstream rs (ov_id v2)) (\<lambda>ids. ov_upstream_update (\<lambda>_. ids)) v2 = Inr v'"
    using assms rs v1 v2 by (auto simp: relations_def)
  obtain t3 where t3: "v' = v2\<lparr>ov_upstream := found_or (ov_upstream v2) (rl_GetUpstream rs (ov_id v2)), ov_modified := t3\<rparr>"
    "AsTime (ov_modified v2) \<le> AsTime t3"
    using step [OF v3] by (auto simp: found_or_def split: relation_result.splits)
  show thesis
    by (rule that [OF rs, of t3]) (use t1 t2 t3 in simp_all)
qed


abbreviation git_ranges :: "osv_affected \<Rightarrow> worker_range list" where
  "git_ranges a \<equiv> filter (\<lambda>r. sr_type r = RangeGit) (oa_ranges a)"

text \<open>A package that a source may report: of an ecosystem it is accepted for, that the schema knows.\<close>

definition accepted_package :: "pipeline_env \<Rightarrow> source_repo \<Rightarrow> osv_affected \<Rightarrow> bool" where
  "accepted_package env source a \<longleftrightarrow>
     (case oa_package a of
        None \<Rightarrow> True
      | Some p \<Rightarrow>
          (''*'' \<in> set (sp_accepted source) \<or> fst (strings_cut (pk_ecosystem p) (CHR '':'')) \<in> set (sp_accepted source))
          \<and> fst (strings_cut (pk_ecosystem p) (CHR '':'')) \<in> set (pe_validEcosystems env))"

text \<open>What no enricher after the filter changes in an entry.\<close>

definition keeps :: "osv_affected \<Rightarrow> osv_affected \<Rightarrow> bool" where
  "keeps a b \<longleftrightarrow> git_ranges b = git_ranges a
     \<and> map_option pk_ecosystem (oa_package b) = map_option pk_ecosystem (oa_package a)"

lemma keeps_refl [simp]: "keeps a a"
  by (simp add: keeps_def)

lemma keeps_list_trans: "list_all2 keeps as bs \<Longrightarrow> list_all2 keeps bs cs \<Longrightarrow> list_all2 keeps as cs"
  by (rule list_all2_trans [where ?P1.0 = keeps and ?P2.0 = keeps]) (auto simp: keeps_def)

lemma keeps_list_map: "(\<And>a. keeps a (f a)) \<Longrightarrow> list_all2 keeps as (map f as)"
  by (simp add: list_all2_map2 list.rel_refl)

lemma keeps_result:
  assumes "map_result f as = Inr bs" and "\<And>a b. f a = Inr b \<Longrightarrow> keeps a b"
  shows "list_all2 keeps as bs"
  using assms(1) unfolding map_result_Inr by (rule list_all2_mono) (rule assms(2))

lemma keeps_normalize: "keeps a (normalizeAffected get a)"
  by (cases "oa_package a") (auto simp: normalizeAffected_def keeps_def split: option.splits)

lemma git_semverRange: "filter (\<lambda>r. sr_type r = RangeGit) (map semverRange rs) = filter (\<lambda>r. sr_type r = RangeGit) rs"
  by (induction rs) (auto simp: semverRange_def)

lemma keeps_semver: "keeps a (semverAffected get a)"
  by (auto simp: semverAffected_def keeps_def git_semverRange split: option.splits)

lemma keeps_enumerate: "enumerateAffected sorter get a = Inr b \<Longrightarrow> keeps a b"
  by (auto simp: enumerateAffected_def keeps_def Let_def split: if_splits option.splits versions_answer.splits)

lemma keeps_purl: "keeps a (a\<lparr>oa_package := map_option (purlPackage env) (oa_package a)\<rparr>)"
proof -
  have "pk_ecosystem (purlPackage env p) = pk_ecosystem p" for p
    by (auto simp: purlPackage_def split: option.splits sum.splits)
  then show ?thesis by (cases "oa_package a") (simp_all add: keeps_def)
qed

lemma keeps_source: "sourceAffected l a = Inr b \<Longrightarrow> keeps a b"
  by (auto simp: sourceAffected_def keeps_def split: option.splits list.splits)

lemma keeps_link: "linkAffected params as = Inr bs \<Longrightarrow> list_all2 keeps as bs"
  by (auto simp: linkAffected_def list.rel_refl split: if_splits intro: keeps_result keeps_source)

lemma keeps_git: "list_all2 keeps as bs \<Longrightarrow> concat (map git_ranges bs) = concat (map git_ranges as)"
  by (induction rule: list_all2_induct) (simp_all add: keeps_def)

lemma keeps_accepted:
  "list_all2 keeps as bs \<Longrightarrow> \<forall>a \<in> set as. accepted_package env source a \<Longrightarrow> \<forall>b \<in> set bs. accepted_package env source b"
  by (induction rule: list_all2_induct)
    (auto simp: keeps_def accepted_package_def split: option.splits)

lemma strings_cut_again: "fst (strings_cut (fst (strings_cut s c)) c) = fst (strings_cut s c)"
  using set_takeWhileD by (fastforce simp: strings_cut_def)

lemma filterAffected_ok:
  "concat (map git_ranges (filterAffected (pe_validEcosystems env) (sp_accepted source) a)) = git_ranges a"
  "b \<in> set (filterAffected (pe_validEcosystems env) (sp_accepted source) a) \<Longrightarrow> accepted_package env source b"
  by (auto simp: filterAffected_def accepted_package_def Let_def IsKnownEcosystem_def strings_cut_again
      filter_empty_conv split: option.splits if_splits)

lemma enrichAffected_ok:
  assumes "enrichAffected env params as = Inr bs"
  shows "concat (map git_ranges bs) = concat (map git_ranges as)"
    and "b \<in> set bs \<Longrightarrow> accepted_package env (ep_source params) b"
proof -
  let ?get = "ep_provider params" and ?source = "ep_source params"
  define as1 where "as1 = map (normalizeAffected ?get) as"
  define as2 where "as2 = concat (map (filterAffected (pe_validEcosystems env) (sp_accepted ?source)) as1)"
  obtain as4 where as4: "map_result (enumerateAffected (pe_sorter env) ?get) (map (semverAffected ?get) as2) = Inr as4"
    "linkAffected params (map (\<lambda>a. a\<lparr>oa_package := map_option (purlPackage env) (oa_package a)\<rparr>) as4) = Inr bs"
    using assms by (auto simp: enrichAffected_def acceptedAffected_def as1_def as2_def split: sum.splits)
  have "list_all2 keeps as2 (map (semverAffected ?get) as2)" by (rule keeps_list_map) (rule keeps_semver)
  moreover have "list_all2 keeps (map (semverAffected ?get) as2) as4"
    using as4(1) by (rule keeps_result) (rule keeps_enumerate)
  moreover have "list_all2 keeps as4 (map (\<lambda>a. a\<lparr>oa_package := map_option (purlPackage env) (oa_package a)\<rparr>) as4)"
    by (rule keeps_list_map) (rule keeps_purl)
  ultimately have after: "list_all2 keeps as2 bs"
    using keeps_link [OF as4(2)] keeps_list_trans by blast
  have "list_all2 keeps as as1" unfolding as1_def by (rule keeps_list_map) (rule keeps_normalize)
  moreover have "concat (map git_ranges as2) = concat (map git_ranges as1)"
    unfolding as2_def by (induction as1) (simp_all add: filterAffected_ok(1))
  ultimately show "concat (map git_ranges bs) = concat (map git_ranges as)"
    using keeps_git [OF after] keeps_git by simp
  show "b \<in> set bs \<Longrightarrow> accepted_package env ?source b"
    using keeps_accepted [OF after] filterAffected_ok(2) by (auto simp: as2_def)
qed

lemma linkAffected_ok:
  assumes "linkAffected params as = Inr bs" and "sp_link (ep_source params) \<noteq> []" and "b \<in> set bs"
  shows "\<exists>fs. oa_ds b = Some fs \<and> map_of fs ''source'' = Some (JStr (sp_link (ep_source params) @ ep_path params))"
proof -
  have "list_all2 (\<lambda>a b. sourceAffected (sp_link (ep_source params) @ ep_path params) a = Inr b) as bs"
    using assms(1,2) by (simp add: linkAffected_def map_result_Inr)
  then obtain a where "sourceAffected (sp_link (ep_source params) @ ep_path params) a = Inr b"
    using assms(3) by (auto simp: list_all2_conv_all_nth in_set_conv_nth)
  then show ?thesis by (auto simp: sourceAffected_def split: option.splits list.splits)
qed

lemma enrich_Inr:
  assumes run: "enrich (enricher_List env) params v = Inr e"
  obtains as rs t where "ep_relations params = Some rs"
    and "e = v\<lparr>ov_schema_version := pe_SchemaVersion env, ov_affected := as, ov_published := publishedDate params v,
        ov_aliases := found_or (ov_aliases v) (rl_GetAliases rs (ov_id v)),
        ov_related := found_or (ov_related v) (rl_GetRelated rs (ov_id v)),
        ov_upstream := found_or (ov_upstream v) (rl_GetUpstream rs (ov_id v)), ov_modified := t\<rparr>"
    and "enrichAffected env params (ov_affected v) = Inr as"
    and "relations params (v\<lparr>ov_schema_version := pe_SchemaVersion env, ov_affected := as,
      ov_published := publishedDate params v\<rparr>) = Inr e"
    and "AsTime (ov_modified v) \<le> AsTime t"
proof -
  obtain as where as: "enrichAffected env params (ov_affected v) = Inr as"
    and rel: "relations params (v\<lparr>ov_schema_version := pe_SchemaVersion env, ov_affected := as,
      ov_published := publishedDate params v\<rparr>) = Inr e"
    using run by (auto simp: enrich_List split: sum.splits)
  show thesis
    by (rule relations_Inr [OF rel], rule that [OF _ _ as rel]) simp_all
qed

text \<open>
  C37: When the pipeline lets a record through, the record keeps its identifier, texts and withdrawal;
  its packages are all of ecosystems that the schema knows and the source is accepted for, while no
  git range is lost or reordered, those of the dropped packages included; each entry points to the
  file in the source, if the source has a link; the schema version is the current one; the date of
  publication is that of the record, else the stored one, else that of modification; the relations
  are the computed ones, where there are any; and the date of modification did not move back.
\<close>

theorem enrich_record:
  assumes run: "enrich (enricher_List env) params v = Inr e"
  shows "ov_id e = ov_id v \<and> ov_withdrawn e = ov_withdrawn v \<and> ov_summary e = ov_summary v
      \<and> ov_details e = ov_details v \<and> ov_rest e = ov_rest v
    \<and> (\<forall>a \<in> set (ov_affected e). accepted_package env (ep_source params) a)
    \<and> concat (map git_ranges (ov_affected e)) = concat (map git_ranges (ov_affected v))
    \<and> (sp_link (ep_source params) \<noteq> [] \<longrightarrow> (\<forall>a \<in> set (ov_affected e). \<exists>fs. oa_ds a = Some fs
          \<and> map_of fs ''source'' = Some (JStr (sp_link (ep_source params) @ ep_path params))))
    \<and> ov_schema_version e = pe_SchemaVersion env \<and> ov_published e = publishedDate params v
    \<and> (\<exists>rs. ep_relations params = Some rs
        \<and> ov_aliases e = found_or (ov_aliases v) (rl_GetAliases rs (ov_id v))
        \<and> ov_related e = found_or (ov_related v) (rl_GetRelated rs (ov_id v))
        \<and> ov_upstream e = found_or (ov_upstream v) (rl_GetUpstream rs (ov_id v)))
    \<and> AsTime (ov_modified v) \<le> AsTime (ov_modified e)"
proof -
  obtain as rs t where rs: "ep_relations params = Some rs"
    and e: "e = v\<lparr>ov_schema_version := pe_SchemaVersion env, ov_affected := as, ov_published := publishedDate params v,
        ov_aliases := found_or (ov_aliases v) (rl_GetAliases rs (ov_id v)),
        ov_related := found_or (ov_related v) (rl_GetRelated rs (ov_id v)),
        ov_upstream := found_or (ov_upstream v) (rl_GetUpstream rs (ov_id v)), ov_modified := t\<rparr>"
    and as: "enrichAffected env params (ov_affected v) = Inr as" and t: "AsTime (ov_modified v) \<le> AsTime t"
    using enrich_Inr [OF run] by metis
  obtain bs where link: "linkAffected params bs = Inr as"
    using as by (auto simp: enrichAffected_def split: sum.splits)
  have "sp_link (ep_source params) \<noteq> [] \<longrightarrow> (\<forall>a \<in> set as. \<exists>fs. oa_ds a = Some fs
      \<and> map_of fs ''source'' = Some (JStr (sp_link (ep_source params) @ ep_path params)))"
    using linkAffected_ok [OF link] by blast
  then show ?thesis using enrichAffected_ok [OF as] rs t by (simp add: e)
qed

definition ex_npm :: "int list wrapped provider" where
  "ex_npm eco = (if eco = ''npm'' then Some ex_semver else None)"

definition ex_env :: pipeline_env where
  "ex_env = \<lparr>pe_sorter = insertionSort, pe_validEcosystems = [''npm''],
     pe_purls = \<lparr>reg_generators = [''npm'' \<mapsto> SimpleGenerator ''npm'' [] []], reg_parsers = Map.empty\<rparr>,
     pe_FromString = parse_url, pe_ToString = print_url, pe_SchemaVersion = ''1.7.0''\<rparr>"

definition ex_git_range :: worker_range where
  "ex_git_range = \<lparr>sr_type = RangeGit, sr_repo = ''https://example.com/r'', sr_events =
     [\<lparr>se_introduced = ''0'', se_last_affected = [], se_fixed = [], se_limit = []\<rparr>], rg_rest = []\<rparr>"

definition ex_vuln :: osv_vuln where
  "ex_vuln = \<lparr>ov_id = ''V-1'', ov_schema_version = [], ov_published = None, ov_modified = Some 100, ov_withdrawn = None,
     ov_summary = ''s'', ov_details = [], ov_aliases = [''A-9''], ov_related = [], ov_upstream = [],
     ov_affected = [ex_entry, \<lparr>oa_package = Some \<lparr>pk_ecosystem = ''PyPI'', pk_name = ''p'', pk_purl = []\<rparr>,
        oa_ranges = [ex_worker_range, ex_git_range], oa_versions = [], oa_ds = None, oa_rest = []\<rparr>],
     ov_rest = []\<rparr>"

definition ex_relations :: relations_store where
  "ex_relations = \<lparr>rl_GetAliases = (\<lambda>_. RelFound ([''CVE-1''], 150)), rl_GetRelated = (\<lambda>_. RelNotFound),
     rl_GetUpstream = (\<lambda>_. RelNotFound)\<rparr>"

definition ex_params :: "int list wrapped enrich_params" where
  "ex_params = \<lparr>ep_path = ''v/V-1.json'', ep_source = \<lparr>sp_ignore_git = False, sp_detect_cherrypicks = True,
       sp_all_branches = False, sp_accepted = [''npm''], sp_link = ''https://example.com/''\<rparr>,
     ep_provider = ex_npm, ep_existing = None, ep_relations = Some ex_relations\<rparr>"

definition ex_enriched :: osv_vuln where
  "ex_enriched = (case enrich (enricher_List ex_env) ex_params ex_vuln of Inr e \<Rightarrow> e | Inl _ \<Rightarrow> ex_vuln)"

lemma ex_enrich: "enrich (enricher_List ex_env) ex_params ex_vuln = Inr ex_enriched"
proof -
  have "(case enrich (enricher_List ex_env) ex_params ex_vuln of Inr e \<Rightarrow> True | Inl _ \<Rightarrow> False)" by code_simp
  then show ?thesis by (simp add: ex_enriched_def split: sum.splits)
qed

theorem enrich_record_witness:
  "concat (map git_ranges (ov_affected ex_enriched)) = [ex_git_range]
   \<and> list_all (accepted_package ex_env (ep_source ex_params)) (ov_affected ex_enriched)
   \<and> ov_aliases ex_enriched = [''CVE-1''] \<and> ov_published ex_enriched = Some 100"
proof -
  have "concat (map git_ranges (ov_affected ex_vuln)) = [ex_git_range]" by code_simp
  moreover have "found_or (ov_aliases ex_vuln) (rl_GetAliases ex_relations (ov_id ex_vuln)) = [''CVE-1'']"
    by (simp add: found_or_def ex_relations_def)
  moreover have "publishedDate ex_params ex_vuln = Some 100"
    by (simp add: publishedDate_def ex_params_def ex_vuln_def)
  moreover have "ep_relations ex_params = Some ex_relations" by (simp add: ex_params_def)
  ultimately show ?thesis using enrich_record [OF ex_enrich] by (simp add: list_all_iff)
qed

text \<open>An entry whose \<open>database_specific\<close> is there but empty stops the worker.\<close>

lemma empty_struct_panics:
  "enrich (enricher_List ex_env) ex_params (ex_vuln\<lparr>ov_affected := [ex_entry\<lparr>oa_ds := Some []\<rparr>]\<rparr>)
   = Inl (GoPanic ''assignment to entry in nil map'')"
proof -
  have "(case enrich (enricher_List ex_env) ex_params (ex_vuln\<lparr>ov_affected := [ex_entry\<lparr>oa_ds := Some []\<rparr>]\<rparr>) of
      Inl err \<Rightarrow> err = GoPanic ''assignment to entry in nil map'' | Inr _ \<Rightarrow> False)" by code_simp
  then show ?thesis by (simp split: sum.splits)
qed

text \<open>The stored state enters only through the date of publication.\<close>

lemma relate_published:
  assumes "\<And>ids w. put ids (w\<lparr>ov_published := p\<rparr>) = (put ids w)\<lparr>ov_published := p\<rparr>"
  shows "relate msg result put (v\<lparr>ov_published := p\<rparr>) =
    (case relate msg result put v of Inl err \<Rightarrow> Inl err | Inr w \<Rightarrow> Inr (w\<lparr>ov_published := p\<rparr>))"
  using assms by (auto simp: relate_def Let_def split: relation_result.splits)

lemma relations_published:
  "relations params (v\<lparr>ov_published := p\<rparr>) =
    (case relations params v of Inl err \<Rightarrow> Inl err | Inr w \<Rightarrow> Inr (w\<lparr>ov_published := p\<rparr>))"
  by (auto simp: relations_def relate_published split: option.splits sum.splits)

lemma enrich_existing:
  "enrich (enricher_List env) (params\<lparr>ep_existing := x\<rparr>) v =
     (case enrich (enricher_List env) params v of
        Inl err \<Rightarrow> Inl err
      | Inr e \<Rightarrow> Inr (e\<lparr>ov_published := publishedDate (params\<lparr>ep_existing := x\<rparr>) v\<rparr>))"
proof -
  have "linkAffected (params\<lparr>ep_existing := x\<rparr>) = linkAffected params"
    by (simp add: fun_eq_iff linkAffected_def)
  then have as: "enrichAffected env (params\<lparr>ep_existing := x\<rparr>) = enrichAffected env params"
    by (intro ext) (simp add: enrichAffected_def acceptedAffected_def cong: sum.case_cong)
  have "relations (params\<lparr>ep_existing := x\<rparr>) = relations params"
    by (simp add: fun_eq_iff relations_def)
  then show ?thesis
    by (simp add: enrich_List as relations_published split: sum.splits)
qed

end
