(* ===== verification/Worker.thy ===== *)
theory Worker
  imports Enrichers
begin

text \<open>
  The worker (\<open>apps/cli/internal/worker\<close>): it takes messages about records from a queue
  (\<open>subscriber.go\<close>), enriches and writes or withdraws the record (\<open>engine.go\<close>), and asks gitter
  for the commits and tags of git ranges (\<open>affectedcommits.go\<close>). The stores, the queue, gitter's
  HTTP answers, the decoders and the clock are parameters; what the stores hold is a state.
\<close>

section \<open>Affected commits\<close>

record affected_request =
  aq_url :: string
  aq_all_branches :: bool
  aq_cherrypicks_introduced :: bool
  aq_cherrypicks_fixed :: bool
  aq_cherrypicks_limit :: bool
  aq_events :: "event list"
  aq_ref_id :: string

text \<open>An event of gitter is one of ours with a hash for its version.\<close>

record gitter_response =
  gr_tags :: "string list"
  gr_cherry_picked :: "event list"
  gr_commits :: "string list"

text \<open>A call that fails (the URL, the request or the connection), or a status with the decoded body.\<close>

datatype http_answer = HttpFailed string | HttpStatus nat "string + gitter_response"

text \<open>The client answers by the requests sent before.\<close>

type_synonym http_client = "affected_request list \<Rightarrow> affected_request \<Rightarrow> http_answer"

fun requestEvents :: "schema_event list \<Rightarrow> go_error + event list" where
  "requestEvents [] = Inr []"
| "requestEvents (e # es) =
     (case (if se_introduced e \<noteq> [] then Some \<lparr>ev_type = Introduced, ev_version = se_introduced e\<rparr>
            else if se_fixed e \<noteq> [] then Some \<lparr>ev_type = Fixed, ev_version = se_fixed e\<rparr>
            else if se_last_affected e \<noteq> [] then Some \<lparr>ev_type = LastAffected, ev_version = se_last_affected e\<rparr>
            else if se_limit e \<noteq> [] then Some \<lparr>ev_type = Limit, ev_version = se_limit e\<rparr>
            else None) of
        None \<Rightarrow> Inl (GoErr ''event does not have known field'')
      | Some ev \<Rightarrow> (case requestEvents es of Inl err \<Rightarrow> Inl err | Inr evs \<Rightarrow> Inr (ev # evs)))"

definition newAffectedCommitsRequest ::
  "worker_range \<Rightarrow> source_repo \<Rightarrow> string \<Rightarrow> go_error + affected_request" where
  "newAffectedCommitsRequest r source refID =
     (case requestEvents (sr_events r) of
        Inl err \<Rightarrow> Inl err
      | Inr evs \<Rightarrow> Inr \<lparr>aq_url = sr_repo r, aq_all_branches = sp_all_branches source,
          aq_cherrypicks_introduced = sp_detect_cherrypicks source,
          aq_cherrypicks_fixed = sp_detect_cherrypicks source,
          aq_cherrypicks_limit = sp_detect_cherrypicks source, aq_events = evs, aq_ref_id = refID\<rparr>)"

definition fetchAffectedCommits ::
  "http_client \<Rightarrow> affected_request list \<Rightarrow> worker_range \<Rightarrow> source_repo \<Rightarrow> string
     \<Rightarrow> affected_request list \<times> (go_error + gitter_response option)" where
  "fetchAffectedCommits client sent r source refID =
     (case newAffectedCommitsRequest r source refID of
        Inl _ \<Rightarrow> (sent, Inl (GoErr ''failed constructing gitter request''))
      | Inr req \<Rightarrow>
          (sent @ [req],
           case client sent req of
             HttpFailed err \<Rightarrow> Inl (GoErr (''error from gitter: '' @ err))
           | HttpStatus status body \<Rightarrow>
               if status = 403 \<or> status = 404 then Inr None
               else if status \<noteq> 200 then Inl (GoErr ''gitter responded with an error'')
               else (case body of
                   Inl err \<Rightarrow> Inl (GoErr (''failed to read gitter response: '' @ err))
                 | Inr resp \<Rightarrow> Inr (Some resp))))"

fun event_field :: "event_type \<Rightarrow> schema_event \<Rightarrow> string" where
  "event_field Introduced e = se_introduced e"
| "event_field Fixed e = se_fixed e"
| "event_field Limit e = se_limit e"
| "event_field LastAffected e = se_last_affected e"

definition newEvent :: "event_type \<Rightarrow> string \<Rightarrow> schema_event" where
  "newEvent t hash =
     \<lparr>se_introduced = (if t = Introduced then hash else []), se_last_affected = (if t = LastAffected then hash else []),
      se_fixed = (if t = Fixed then hash else []), se_limit = (if t = Limit then hash else [])\<rparr>"

definition addCherry :: "event \<Rightarrow> schema_event list \<Rightarrow> schema_event list" where
  "addCherry cherry es =
     (if \<exists>e \<in> set es. event_field (ev_type cherry) e = ev_version cherry then es
      else es @ [newEvent (ev_type cherry) (ev_version cherry)])"

text \<open>The versions of the entry and the range after the tags and cherry-picked events are in.\<close>

definition applyAffectedCommitsAndTags ::
  "gitter_response \<Rightarrow> string list \<Rightarrow> worker_range \<Rightarrow> string list \<times> worker_range" where
  "applyAffectedCommitsAndTags resp versions r =
     (fold set_add (gr_tags resp) versions,
      r\<lparr>sr_events := fold addCherry (gr_cherry_picked resp) (sr_events r)\<rparr>)"

text \<open>The ranges of one entry: the requests sent, and the ranges, the versions and the commits.\<close>

fun populateRanges ::
  "http_client \<Rightarrow> source_repo \<Rightarrow> string \<Rightarrow> affected_request list \<Rightarrow> string list \<Rightarrow> worker_range list
     \<Rightarrow> affected_request list \<times> (go_error + worker_range list \<times> string list \<times> string list)" where
  "populateRanges client source refID sent versions [] = (sent, Inr ([], versions, []))"
| "populateRanges client source refID sent versions (r # rs) =
     (if sr_type r \<noteq> RangeGit \<or> sr_repo r = [] then
        (case populateRanges client source refID sent versions rs of
           (sent', Inl err) \<Rightarrow> (sent', Inl err)
         | (sent', Inr (rs', vs', cs)) \<Rightarrow> (sent', Inr (r # rs', vs', cs)))
      else
        (case fetchAffectedCommits client sent r source refID of
           (sent1, Inl err) \<Rightarrow> (sent1, Inl err)
         | (sent1, Inr None) \<Rightarrow>
             (case populateRanges client source refID sent1 versions rs of
                (sent', Inl err) \<Rightarrow> (sent', Inl err)
              | (sent', Inr (rs', vs', cs)) \<Rightarrow> (sent', Inr (r # rs', vs', cs)))
         | (sent1, Inr (Some resp)) \<Rightarrow>
             (case applyAffectedCommitsAndTags resp versions r of
                (versions1, r1) \<Rightarrow>
                  (case populateRanges client source refID sent1 versions1 rs of
                     (sent', Inl err) \<Rightarrow> (sent', Inl err)
                   | (sent', Inr (rs', vs', cs)) \<Rightarrow> (sent', Inr (r1 # rs', vs', gr_commits resp @ cs))))))"

fun populateEntries ::
  "http_client \<Rightarrow> source_repo \<Rightarrow> string \<Rightarrow> affected_request list \<Rightarrow> osv_affected list
     \<Rightarrow> affected_request list \<times> (go_error + osv_affected list \<times> string list)" where
  "populateEntries client source refID sent [] = (sent, Inr ([], []))"
| "populateEntries client source refID sent (a # as) =
     (case populateRanges client source refID sent (oa_versions a) (oa_ranges a) of
        (sent1, Inl err) \<Rightarrow> (sent1, Inl err)
      | (sent1, Inr (rs, vs, cs)) \<Rightarrow>
          (case populateEntries client source refID sent1 as of
             (sent2, Inl err) \<Rightarrow> (sent2, Inl err)
           | (sent2, Inr (as', cs')) \<Rightarrow>
               (sent2, Inr (a\<lparr>oa_ranges := rs, oa_versions := vs\<rparr> # as', cs @ cs'))))"

definition populateAffectedCommitsAndTags ::
  "http_client \<Rightarrow> string \<Rightarrow> source_repo \<Rightarrow> osv_vuln \<Rightarrow> go_error + osv_vuln \<times> string list" where
  "populateAffectedCommitsAndTags client gitterHost source v =
     (if sp_ignore_git source then Inr (v, [])
      else if gitterHost = [] then Inl (GoErr ''GitterHost not set'')
      else (case snd (populateEntries client source (ov_id v) [] (ov_affected v)) of
              Inl err \<Rightarrow> Inl err
            | Inr (as, commits) \<Rightarrow> Inr (v\<lparr>ov_affected := as\<rparr>, commits)))"

section \<open>The engine\<close>

datatype task_type = TaskUnknown | TaskUpdate | TaskDelete

record task =
  tk_type :: task_type
  tk_vuln :: "osv_vuln option"
  tk_source :: string
  tk_path :: string
  tk_received :: "int option"
  tk_source_time :: "int option"
  tk_sha256 :: string

record worker_write =
  ww_id :: vuln_id
  ww_source :: string
  ww_path :: string
  ww_raw :: "osv_vuln option"
  ww_enriched :: osv_vuln
  ww_commits :: "string list"
  ww_skip :: bool

text \<open>The interfaces of \<open>shared/pkg/models\<close> the engine calls; a part that may be nil is an option.\<close>

record 's worker_stores =
  ws_SourceRepo_Get :: "'s \<Rightarrow> string \<Rightarrow> string + source_repo"
  ws_Get :: "'s \<Rightarrow> vuln_id \<Rightarrow> osv_vuln read_result"
  ws_GetWithMetadata :: "'s \<Rightarrow> vuln_id \<Rightarrow> (osv_vuln \<times> source_ref) read_result"
  ws_Write :: "worker_write \<Rightarrow> 's \<Rightarrow> 's \<times> string option"
  ws_Relations :: "('s \<Rightarrow> relations_store) option"
  ws_Clear :: "(vuln_id \<Rightarrow> 's \<Rightarrow> 's \<times> string option) option"
  ws_Publish :: "(string \<Rightarrow> 's \<Rightarrow> 's \<times> string option) option"

record ('s, 'v) engine =
  en_Stores :: "'s worker_stores"
  en_Pipeline :: "'v enricher list"
  en_GitterHost :: string
  en_GitterClient :: http_client
  en_NotifyPyPI :: bool
  en_Provider :: "'v provider"
  en_Marshal :: "osv_vuln \<Rightarrow> string + string"

definition hasPyPI :: "osv_vuln \<Rightarrow> bool" where
  "hasPyPI v \<longleftrightarrow> (\<exists>a \<in> set (ov_affected v). package_ecosystem a = ''PyPI'')"

definition isPyPI :: "osv_affected \<Rightarrow> bool" where
  "isPyPI a \<longleftrightarrow> package_ecosystem a = ''PyPI''"

text \<open>What is sent to PyPI: a record that left it is sent as withdrawn, with the old entries.\<close>

definition toNotify :: "timestamp \<Rightarrow> osv_vuln \<Rightarrow> osv_vuln option \<Rightarrow> osv_vuln option" where
  "toNotify now v old =
     (let newHasPyPI = hasPyPI v; oldHasPyPI = (case old of None \<Rightarrow> False | Some o' \<Rightarrow> hasPyPI o') in
      if \<not> newHasPyPI \<and> \<not> oldHasPyPI then None
      else if oldHasPyPI \<and> \<not> newHasPyPI
      then Some (v\<lparr>ov_withdrawn := Some now, ov_affected := ov_affected v @ filter isPyPI (ov_affected (the old))\<rparr>)
      else Some v)"

definition notifyPyPI :: "('s, 'v) engine \<Rightarrow> timestamp \<Rightarrow> osv_vuln \<Rightarrow> osv_vuln option \<Rightarrow> 's \<Rightarrow> 's" where
  "notifyPyPI e now v old s =
     (case ws_Publish (en_Stores e) of
        None \<Rightarrow> s
      | Some publish \<Rightarrow>
          (case toNotify now v old of
             None \<Rightarrow> s
           | Some n \<Rightarrow> (case en_Marshal e n of Inl _ \<Rightarrow> s | Inr msg \<Rightarrow> fst (publish msg s))))"

text \<open>\<open>cmp.Equal\<close> but for the dates and the schema version.\<close>

definition isSemanticallyDifferent :: "osv_vuln \<Rightarrow> osv_vuln \<Rightarrow> bool" where
  "isSemanticallyDifferent v1 v2 \<longleftrightarrow>
     v1\<lparr>ov_modified := None, ov_published := None, ov_schema_version := []\<rparr>
     \<noteq> v2\<lparr>ov_modified := None, ov_published := None, ov_schema_version := []\<rparr>"

text \<open>The date of modification that is written; a withdrawal is a modification.\<close>

definition modifiedDate :: "timestamp \<Rightarrow> osv_vuln option \<Rightarrow> osv_vuln \<Rightarrow> timestamp option" where
  "modifiedDate now current enriched =
     (let m = (case current of
                 None \<Rightarrow> Some now
               | Some cur \<Rightarrow>
                   if isSemanticallyDifferent cur enriched then Some now
                   else if AsTime (ov_modified cur) > AsTime (ov_modified enriched) then ov_modified cur
                   else ov_modified enriched)
      in if ov_withdrawn enriched \<noteq> None \<and> AsTime (ov_withdrawn enriched) > AsTime m
         then ov_withdrawn enriched else m)"

text \<open>The writes come last: \<open>clock\<close> gives the time of each call of \<open>Now\<close>, in their order.\<close>

definition handleUpdate ::
  "('s, 'v) engine \<Rightarrow> (nat \<Rightarrow> timestamp) \<Rightarrow> task \<Rightarrow> 's \<Rightarrow> 's \<times> go_error option" where
  "handleUpdate e clock t s =
     (let stores = en_Stores e in
      case ws_SourceRepo_Get stores s (tk_source t) of
        Inl err \<Rightarrow> (s, Some (GoErr err))
      | Inr source \<Rightarrow>
          (case tk_vuln t of
             None \<Rightarrow> (s, Some (GoErr ''vuln not provided''))
           | Some raw \<Rightarrow>
               (case ws_Get stores s (ov_id raw) of
                  ReadFailed err \<Rightarrow> (s, Some (GoErr (''failed to get current vuln state: '' @ err)))
                | got \<Rightarrow>
                    let current = (case got of ReadOk v \<Rightarrow> Some v | _ \<Rightarrow> None);
                        params = \<lparr>ep_path = tk_path t, ep_source = source, ep_provider = en_Provider e,
                          ep_existing = current,
                          ep_relations = map_option (\<lambda>rs. rs s) (ws_Relations stores)\<rparr> in
                    (case enrich (en_Pipeline e) params raw of
                       Inl err \<Rightarrow> (s, Some err)
                     | Inr enriched \<Rightarrow>
                         (case populateAffectedCommitsAndTags (en_GitterClient e) (en_GitterHost e) source enriched of
                            Inl err \<Rightarrow> (s, Some err)
                          | Inr (enriched1, commits) \<Rightarrow>
                              let final = enriched1\<lparr>ov_modified := modifiedDate (clock 0) current enriched1\<rparr> in
                              (case ws_Write stores \<lparr>ww_id = ov_id final, ww_source = tk_source t,
                                      ww_path = tk_path t, ww_raw = Some raw, ww_enriched = final,
                                      ww_commits = commits, ww_skip = False\<rparr> s of
                                 (s1, Some err) \<Rightarrow> (s1, Some (GoErr err))
                               | (s1, None) \<Rightarrow>
                                   let s2 = (if en_NotifyPyPI e then notifyPyPI e (clock 1) final current s1 else s1) in
                                   (case ws_Clear stores of
                                      None \<Rightarrow> (s2, None)
                                    | Some clear \<Rightarrow> (fst (clear (ov_id final) s2), None))))))))"

text \<open>\<open>path.Base\<close> and \<open>path.Ext\<close>.\<close>

definition last_element :: "string \<Rightarrow> string" where
  "last_element p = rev (takeWhile (\<lambda>c. c \<noteq> CHR ''/'') (rev p))"

definition path_Base :: "string \<Rightarrow> string" where
  "path_Base p =
     (if p = [] then ''.''
      else let b = last_element (rev (dropWhile (\<lambda>c. c = CHR ''/'') (rev p))) in
        if b = [] then ''/'' else b)"

definition path_Ext :: "string \<Rightarrow> string" where
  "path_Ext p = (case cut_last (last_element p) (CHR ''.'') of None \<Rightarrow> [] | Some (_, ext) \<Rightarrow> ''.'' @ ext)"

definition idFromPath :: "string \<Rightarrow> string" where
  "idFromPath p = trim_suffix (path_Base p) (path_Ext p)"

definition handleDelete ::
  "('s, 'v) engine \<Rightarrow> (nat \<Rightarrow> timestamp) \<Rightarrow> task \<Rightarrow> 's \<Rightarrow> 's \<times> go_error option" where
  "handleDelete e clock t s =
     (let stores = en_Stores e; vid = idFromPath (tk_path t) in
      case ws_GetWithMetadata stores s vid of
        ErrNotFound \<Rightarrow> (s, None)
      | ReadFailed err \<Rightarrow> (s, Some (GoErr err))
      | ReadOk (existing, ref) \<Rightarrow>
          if ref_path ref \<noteq> tk_path t then (s, None)
          else if ov_withdrawn existing \<noteq> None then (s, None)
          else
            let withdrawn = existing\<lparr>ov_withdrawn := Some (clock 0), ov_modified := Some (clock 1)\<rparr> in
            (case ws_Write stores \<lparr>ww_id = vid, ww_source = tk_source t, ww_path = tk_path t, ww_raw = None,
                    ww_enriched = withdrawn, ww_commits = [], ww_skip = False\<rparr> s of
               (s1, Some err) \<Rightarrow> (s1, Some (GoErr err))
             | (s1, None) \<Rightarrow>
                 ((if en_NotifyPyPI e then notifyPyPI e (clock 2) withdrawn (Some existing) s1 else s1), None)))"

definition RunTask ::
  "('s, 'v) engine \<Rightarrow> (nat \<Rightarrow> timestamp) \<Rightarrow> task \<Rightarrow> 's \<Rightarrow> 's \<times> go_error option" where
  "RunTask e clock t s =
     (case tk_type t of
        TaskDelete \<Rightarrow> handleDelete e clock t s
      | TaskUpdate \<Rightarrow> handleUpdate e clock t s
      | TaskUnknown \<Rightarrow> (s, Some (GoErr ''unknown task type'')))"

section \<open>Messages\<close>

record message =
  ms_attributes :: "string \<rightharpoonup> string"
  ms_data :: string

datatype answer = Ack | Nack | Crash string

text \<open>The value of an attribute, empty if it is missing.\<close>

definition attribute :: "message \<Rightarrow> string \<Rightarrow> string" where
  "attribute m k = (case ms_attributes m k of None \<Rightarrow> [] | Some v \<Rightarrow> v)"

definition parseVuln ::
  "(string \<Rightarrow> string + string) \<Rightarrow> (string \<Rightarrow> string + osv_vuln) \<Rightarrow> message \<Rightarrow> go_error + osv_vuln option" where
  "parseVuln zstd unmarshal m =
     (if ms_data m = [] then Inr None
      else
        let encoding = attribute m ''content_encoding'';
            decoded = (if encoding = [] then Inr (ms_data m)
              else if encoding = ''zstd'' then
                (case zstd (ms_data m) of
                   Inl err \<Rightarrow> Inl (''failed to decompress vulnerability: '' @ err)
                 | Inr d \<Rightarrow> Inr d)
              else Inl (''unrecognized content encoding: '' @ encoding)) in
        (case decoded of
           Inl err \<Rightarrow> Inl (GoErr err)
         | Inr d \<Rightarrow>
             (case unmarshal d of
                Inl err \<Rightarrow> Inl (GoErr (''failed to unmarshal vulnerability: '' @ err))
              | Inr v \<Rightarrow> Inr (Some v))))"

definition ParseBool :: "string \<Rightarrow> bool option" where
  "ParseBool s =
     (if s \<in> {''1'', ''t'', ''T'', ''TRUE'', ''true'', ''True''} then Some True
      else if s \<in> {''0'', ''f'', ''F'', ''FALSE'', ''false'', ''False''} then Some False
      else None)"

definition taskOf :: "message \<Rightarrow> osv_vuln option \<Rightarrow> task" where
  "taskOf m v =
     \<lparr>tk_type = (if ParseBool (attribute m ''deleted'') = Some True then TaskDelete else TaskUpdate),
      tk_vuln = v, tk_source = attribute m ''source'', tk_path = attribute m ''path'',
      tk_received = strconv_Atoi (attribute m ''req_timestamp''),
      tk_source_time = (if attribute m ''src_timestamp'' \<noteq> [] then strconv_Atoi (attribute m ''src_timestamp'') else None),
      tk_sha256 = (if ms_attributes m ''skip_hash_check'' = Some ''true'' then [] else attribute m ''original_sha256'')\<rparr>"

text \<open>A panic is not recovered: the process ends and the message is delivered again.\<close>

definition handleMessage ::
  "('s, 'v) engine \<Rightarrow> (nat \<Rightarrow> timestamp) \<Rightarrow> (string \<Rightarrow> string + string) \<Rightarrow> (string \<Rightarrow> string + osv_vuln)
     \<Rightarrow> message \<Rightarrow> 's \<Rightarrow> 's \<times> answer" where
  "handleMessage e clock zstd unmarshal m s =
     (if attribute m ''type'' \<noteq> ''update'' then (s, Ack)
      else case parseVuln zstd unmarshal m of
        Inl _ \<Rightarrow> (s, Nack)
      | Inr v \<Rightarrow>
          (case RunTask e clock (taskOf m v) s of
             (s1, None) \<Rightarrow> (s1, Ack)
           | (s1, Some (GoErr _)) \<Rightarrow> (s1, Nack)
           | (s1, Some (GoPanic msg)) \<Rightarrow> (s1, Crash msg)))"

section \<open>What gitter adds\<close>

abbreviation analysed :: "worker_range \<Rightarrow> bool" where
  "analysed r \<equiv> sr_type r = RangeGit \<and> sr_repo r \<noteq> []"

text \<open>A range after the analysis: its events go on with the cherry-picked ones.\<close>

definition range_extends :: "worker_range \<Rightarrow> worker_range \<Rightarrow> bool" where
  "range_extends r r' \<longleftrightarrow> (\<exists>new. r' = r\<lparr>sr_events := sr_events r @ new\<rparr> \<and> (new \<noteq> [] \<longrightarrow> analysed r))"

definition entry_extends :: "osv_affected \<Rightarrow> osv_affected \<Rightarrow> bool" where
  "entry_extends a a' \<longleftrightarrow> (\<exists>rs tags. a' = a\<lparr>oa_ranges := rs, oa_versions := oa_versions a @ tags\<rparr>
     \<and> list_all2 range_extends (oa_ranges a) rs \<and> distinct tags \<and> set tags \<inter> set (oa_versions a) = {})"

lemma range_extends_refl [simp]: "range_extends r r"
  by (auto simp: range_extends_def intro: exI [of _ "[]"])

lemma fold_set_add_extends:
  "\<exists>new. fold set_add xs ys = ys @ new \<and> distinct new \<and> set new \<inter> set ys = {}"
proof (induction xs arbitrary: ys)
  case (Cons x xs)
  obtain new where new: "fold set_add xs (set_add x ys) = set_add x ys @ new" "distinct new"
    "set new \<inter> set (set_add x ys) = {}" using Cons by blast
  show ?case
  proof (cases "x \<in> set ys")
    case True
    then have "set_add x ys = ys" by (simp add: set_add_def)
    then show ?thesis using new by auto
  next
    case False
    then have "set_add x ys = ys @ [x]" by (simp add: set_add_def)
    then show ?thesis using new False by (intro exI [of _ "x # new"]) auto
  qed
qed simp

lemma fold_addCherry_extends: "\<exists>new. fold addCherry cs es = es @ new"
proof (induction cs arbitrary: es)
  case (Cons c cs)
  then obtain new where "fold addCherry cs (addCherry c es) = addCherry c es @ new" by blast
  moreover have "\<exists>new'. addCherry c es = es @ new'" by (auto simp: addCherry_def)
  ultimately show ?case by auto
qed simp

lemma apply_extends:
  assumes "applyAffectedCommitsAndTags resp vs r = (vs', r')" and "analysed r"
  shows "range_extends r r' \<and> (\<exists>tags. vs' = vs @ tags \<and> distinct tags \<and> set tags \<inter> set vs = {})"
proof -
  have "vs' = fold set_add (gr_tags resp) vs" "r' = r\<lparr>sr_events := fold addCherry (gr_cherry_picked resp) (sr_events r)\<rparr>"
    using assms(1) by (auto simp: applyAffectedCommitsAndTags_def)
  moreover obtain new where "fold addCherry (gr_cherry_picked resp) (sr_events r) = sr_events r @ new"
    using fold_addCherry_extends by blast
  ultimately show ?thesis using fold_set_add_extends assms(2) by (auto simp: range_extends_def)
qed

lemma fetch_sent:
  assumes "fetchAffectedCommits client sent r source refID = (sent1, Inr resp)"
  shows "map aq_url sent1 = map aq_url sent @ [sr_repo r]"
  using assms
  by (auto simp: fetchAffectedCommits_def newAffectedCommitsRequest_def split: sum.splits http_answer.splits if_splits)

lemma distinct_new:
  "distinct t1 \<Longrightarrow> set t1 \<inter> set vs = {} \<Longrightarrow> distinct t2 \<Longrightarrow> set t2 \<inter> set (vs @ t1) = {} \<Longrightarrow>
    distinct (t1 @ t2) \<and> set (t1 @ t2) \<inter> set vs = {}"
  by auto

lemma populateRanges_extends:
  assumes "populateRanges client source refID sent vs rs = (sent', Inr (rs', vs', cs))"
  shows "list_all2 range_extends rs rs'
    \<and> (\<exists>tags. vs' = vs @ tags \<and> distinct tags \<and> set tags \<inter> set vs = {})
    \<and> map aq_url sent' = map aq_url sent @ map sr_repo (filter analysed rs)"
  using assms
proof (induction rs arbitrary: sent vs sent' rs' vs' cs)
  case Nil
  then show ?case by auto
next
  case (Cons r rs)
  show ?case
  proof (cases "analysed r")
    case False
    then obtain rs1 where run: "populateRanges client source refID sent vs rs = (sent', Inr (rs1, vs', cs))" "rs' = r # rs1"
      using Cons.prems by (auto split: prod.splits sum.splits)
    then show ?thesis using Cons.IH [OF run(1)] False by auto
  next
    case True
    then obtain sent1 got where fetch: "fetchAffectedCommits client sent r source refID = (sent1, Inr got)"
      using Cons.prems by (auto split: prod.splits sum.splits)
    note urls = fetch_sent [OF fetch]
    show ?thesis
    proof (cases got)
      case None
      then obtain rs1 where run: "populateRanges client source refID sent1 vs rs = (sent', Inr (rs1, vs', cs))"
        "rs' = r # rs1"
        using Cons.prems True fetch by (auto split: prod.splits sum.splits)
      show ?thesis using Cons.IH [OF run(1)] urls run(2) True by simp
    next
      case (Some resp)
      obtain vs1 r1 where ap: "applyAffectedCommitsAndTags resp vs r = (vs1, r1)" by fastforce
      then obtain rs1 cs1 where run: "populateRanges client source refID sent1 vs1 rs = (sent', Inr (rs1, vs', cs1))"
        "rs' = r1 # rs1"
        using Cons.prems True fetch Some by (auto split: prod.splits sum.splits)
      obtain t1 where t1: "vs1 = vs @ t1" "distinct t1" "set t1 \<inter> set vs = {}"
        and r1: "range_extends r r1"
        using apply_extends [OF ap True] by blast
      note IH = Cons.IH [OF run(1)]
      then obtain t2 where t2: "vs' = vs1 @ t2" "distinct t2" "set t2 \<inter> set vs1 = {}" by blast
      have "vs' = vs @ (t1 @ t2) \<and> distinct (t1 @ t2) \<and> set (t1 @ t2) \<inter> set vs = {}"
        using t1 t2 by auto
      then show ?thesis using IH r1 urls run(2) True by auto
    qed
  qed
qed

lemma populateEntries_extends:
  assumes "populateEntries client source refID sent as = (sent', Inr (as', cs))"
  shows "list_all2 entry_extends as as'
    \<and> map aq_url sent' = map aq_url sent @ map sr_repo (filter analysed (concat (map oa_ranges as)))"
  using assms
proof (induction as arbitrary: sent sent' as' cs)
  case (Cons a as)
  obtain sent1 rs vs cs1 where p: "populateRanges client source refID sent (oa_versions a) (oa_ranges a)
      = (sent1, Inr (rs, vs, cs1))"
    using Cons.prems by (auto split: prod.splits sum.splits)
  obtain as1 cs2 where run: "populateEntries client source refID sent1 as = (sent', Inr (as1, cs2))"
    "as' = a\<lparr>oa_ranges := rs, oa_versions := vs\<rparr> # as1"
    using Cons.prems p by (auto split: prod.splits sum.splits)
  show ?case
    using Cons.IH [OF run(1)] populateRanges_extends [OF p] run(2) by (auto simp: entry_extends_def)
qed simp

section \<open>Updates\<close>

text \<open>What an update reads and asks to write, and what it does after the write.\<close>

definition currentState :: "('s, 'v) engine \<Rightarrow> task \<Rightarrow> 's \<Rightarrow> osv_vuln option" where
  "currentState e t s =
     (case tk_vuln t of
        None \<Rightarrow> None
      | Some raw \<Rightarrow> (case ws_Get (en_Stores e) s (ov_id raw) of ReadOk v \<Rightarrow> Some v | _ \<Rightarrow> None))"

definition updateParams :: "('s, 'v) engine \<Rightarrow> task \<Rightarrow> source_repo \<Rightarrow> 's \<Rightarrow> 'v enrich_params" where
  "updateParams e t source s =
     \<lparr>ep_path = tk_path t, ep_source = source, ep_provider = en_Provider e, ep_existing = currentState e t s,
      ep_relations = map_option (\<lambda>rs. rs s) (ws_Relations (en_Stores e))\<rparr>"

definition updateRequest :: "('s, 'v) engine \<Rightarrow> timestamp \<Rightarrow> task \<Rightarrow> 's \<Rightarrow> go_error + worker_write" where
  "updateRequest e now t s =
     (case ws_SourceRepo_Get (en_Stores e) s (tk_source t) of
        Inl err \<Rightarrow> Inl (GoErr err)
      | Inr source \<Rightarrow>
          (case tk_vuln t of
             None \<Rightarrow> Inl (GoErr ''vuln not provided'')
           | Some raw \<Rightarrow>
               (case ws_Get (en_Stores e) s (ov_id raw) of
                  ReadFailed err \<Rightarrow> Inl (GoErr (''failed to get current vuln state: '' @ err))
                | _ \<Rightarrow>
                    (case enrich (en_Pipeline e) (updateParams e t source s) raw of
                       Inl err \<Rightarrow> Inl err
                     | Inr enriched \<Rightarrow>
                         (case populateAffectedCommitsAndTags (en_GitterClient e) (en_GitterHost e) source enriched of
                            Inl err \<Rightarrow> Inl err
                          | Inr (enriched1, commits) \<Rightarrow>
                              Inr \<lparr>ww_id = ov_id enriched1, ww_source = tk_source t, ww_path = tk_path t,
                                ww_raw = Some raw,
                                ww_enriched = enriched1\<lparr>ov_modified := modifiedDate now (currentState e t s) enriched1\<rparr>,
                                ww_commits = commits, ww_skip = False\<rparr>)))))"

definition afterWrite :: "('s, 'v) engine \<Rightarrow> timestamp \<Rightarrow> worker_write \<Rightarrow> osv_vuln option \<Rightarrow> 's \<Rightarrow> 's" where
  "afterWrite e now w current s1 =
     (let s2 = (if en_NotifyPyPI e then notifyPyPI e now (ww_enriched w) current s1 else s1) in
      case ws_Clear (en_Stores e) of None \<Rightarrow> s2 | Some clear \<Rightarrow> fst (clear (ov_id (ww_enriched w)) s2))"

lemma handleUpdate_request:
  "handleUpdate e clock t s =
     (case updateRequest e (clock 0) t s of
        Inl err \<Rightarrow> (s, Some err)
      | Inr w \<Rightarrow>
          (case ws_Write (en_Stores e) w s of
             (s1, Some err) \<Rightarrow> (s1, Some (GoErr err))
           | (s1, None) \<Rightarrow> (afterWrite e (clock 1) w (currentState e t s) s1, None)))"
proof (cases "tk_vuln t")
  case (Some raw)
  show ?thesis
    by (cases "ws_Get (en_Stores e) s (ov_id raw)")
      (simp_all add: handleUpdate_def updateRequest_def updateParams_def currentState_def afterWrite_def Let_def Some
        split: sum.splits prod.splits option.splits)
qed (simp add: handleUpdate_def updateRequest_def Let_def split: sum.splits)

text \<open>The record asked to be written is the one from the pipeline, extended by gitter, with its date.\<close>

lemma updateRequest_Inr:
  assumes "updateRequest e now t s = Inr w"
  obtains source raw enriched enriched1 commits where "ws_SourceRepo_Get (en_Stores e) s (tk_source t) = Inr source"
    and "tk_vuln t = Some raw" and "\<And>err. ws_Get (en_Stores e) s (ov_id raw) \<noteq> ReadFailed err"
    and "enrich (en_Pipeline e) (updateParams e t source s) raw = Inr enriched"
    and "populateAffectedCommitsAndTags (en_GitterClient e) (en_GitterHost e) source enriched = Inr (enriched1, commits)"
    and "w = \<lparr>ww_id = ov_id enriched1, ww_source = tk_source t, ww_path = tk_path t, ww_raw = Some raw,
      ww_enriched = enriched1\<lparr>ov_modified := modifiedDate now (currentState e t s) enriched1\<rparr>,
      ww_commits = commits, ww_skip = False\<rparr>"
  using assms by (auto simp: updateRequest_def split: sum.splits option.splits read_result.splits)

lemma populate_keeps:
  assumes "populateAffectedCommitsAndTags client host source v = Inr (v1, commits)"
  shows "\<exists>as. v1 = v\<lparr>ov_affected := as\<rparr> \<and> list_all2 entry_extends (ov_affected v) as"
proof -
  have refl: "entry_extends a a" for a
    unfolding entry_extends_def
    by (intro exI [of _ "oa_ranges a"] exI [of _ "[]"]) (simp add: list.rel_refl)
  show ?thesis
  proof (cases "sp_ignore_git source")
    case True
    then show ?thesis using assms refl
      by (intro exI [of _ "ov_affected v"]) (simp add: populateAffectedCommitsAndTags_def list.rel_refl)
  next
    case False
    then obtain sent as cs where run: "populateEntries client source (ov_id v) [] (ov_affected v) = (sent, Inr (as, cs))"
      "v1 = v\<lparr>ov_affected := as\<rparr>"
      using assms
      by (cases "populateEntries client source (ov_id v) [] (ov_affected v)")
        (auto simp: populateAffectedCommitsAndTags_def split: if_splits sum.splits)
    then show ?thesis using populateEntries_extends by blast
  qed
qed

lemma modifiedDate_bounds:
  "AsTime (ov_withdrawn v) \<le> AsTime (modifiedDate now cur v) \<or> ov_withdrawn v = None"
  "cur = None \<Longrightarrow> now \<le> AsTime (modifiedDate now cur v)"
  "cur = Some c \<Longrightarrow> isSemanticallyDifferent c v \<Longrightarrow> now \<le> AsTime (modifiedDate now cur v)"
  "cur = Some c \<Longrightarrow> AsTime (ov_modified c) \<le> now \<Longrightarrow> AsTime (ov_modified c) \<le> AsTime (modifiedDate now cur v)"
  by (auto simp: modifiedDate_def Let_def AsTime_def split: option.splits)

lemma accepted_extends: "entry_extends a a' \<Longrightarrow> accepted_package env source a' = accepted_package env source a"
  by (auto simp: entry_extends_def accepted_package_def)

lemma accepted_extends_all:
  "list_all2 entry_extends as bs \<Longrightarrow> \<forall>a \<in> set as. accepted_package env source a
    \<Longrightarrow> \<forall>b \<in> set bs. accepted_package env source b"
  by (induction rule: list_all2_induct) (simp_all add: accepted_extends)


section \<open>A second run\<close>

text \<open>What the stores promise: a record that was written is read, and nothing else changes what is read.\<close>

definition reads_alike :: "'s worker_stores \<Rightarrow> 's \<Rightarrow> 's \<Rightarrow> bool" where
  "reads_alike stores s s1 \<longleftrightarrow>
     ws_SourceRepo_Get stores s1 = ws_SourceRepo_Get stores s \<and> ws_Get stores s1 = ws_Get stores s
     \<and> ws_GetWithMetadata stores s1 = ws_GetWithMetadata stores s
     \<and> (\<forall>rs. ws_Relations stores = Some rs \<longrightarrow> rs s1 = rs s)"

definition worker_store_laws :: "'s worker_stores \<Rightarrow> bool" where
  "worker_store_laws stores \<longleftrightarrow>
     (\<forall>w s s1. ws_Write stores w s = (s1, None) \<longrightarrow>
        ws_Get stores s1 (ww_id w) = ReadOk (ww_enriched w)
        \<and> (\<exists>ref. ws_GetWithMetadata stores s1 (ww_id w) = ReadOk (ww_enriched w, ref))
        \<and> ws_SourceRepo_Get stores s1 = ws_SourceRepo_Get stores s
        \<and> (\<forall>rs. ws_Relations stores = Some rs \<longrightarrow> rs s1 = rs s))
     \<and> (\<forall>clear vid s. ws_Clear stores = Some clear \<longrightarrow> reads_alike stores s (fst (clear vid s)))
     \<and> (\<forall>publish msg s. ws_Publish stores = Some publish \<longrightarrow> reads_alike stores s (fst (publish msg s)))"

lemma reads_alike_refl [simp]: "reads_alike stores s s"
  by (simp add: reads_alike_def)

lemma reads_alike_trans: "reads_alike stores s s1 \<Longrightarrow> reads_alike stores s1 s2 \<Longrightarrow> reads_alike stores s s2"
  unfolding reads_alike_def by auto

lemma notifyPyPI_alike:
  "worker_store_laws (en_Stores e) \<Longrightarrow> reads_alike (en_Stores e) s (notifyPyPI e now v old s)"
  by (auto simp: notifyPyPI_def worker_store_laws_def split: option.splits sum.splits)

lemma afterWrite_alike:
  assumes "worker_store_laws (en_Stores e)"
  shows "reads_alike (en_Stores e) s (afterWrite e now w cur s)"
proof -
  let ?s2 = "if en_NotifyPyPI e then notifyPyPI e now (ww_enriched w) cur s else s"
  have s2: "reads_alike (en_Stores e) s ?s2" using notifyPyPI_alike [OF assms] by simp
  have clear: "reads_alike (en_Stores e) ?s2 (fst (clear vid ?s2))" if "ws_Clear (en_Stores e) = Some clear" for clear vid
    using assms that by (simp add: worker_store_laws_def)
  have "afterWrite e now w cur s = (case ws_Clear (en_Stores e) of None \<Rightarrow> ?s2
      | Some clear \<Rightarrow> fst (clear (ov_id (ww_enriched w)) ?s2))" by (simp only: afterWrite_def Let_def)
  then show ?thesis
    using s2 reads_alike_trans [OF s2 clear] by (cases "ws_Clear (en_Stores e)") (simp_all only: option.case)
qed

lemma relate_le:
  assumes "relate msg result put v = Inr v'" and "\<And>ids. ov_modified (put ids v) = ov_modified v"
    and "AsTime (ov_modified v) \<le> T" and "\<And>ids m. result = RelFound (ids, m) \<Longrightarrow> m \<le> T"
  shows "AsTime (ov_modified v') \<le> T"
  using assms by (auto simp: relate_def Let_def AsTime_def split: relation_result.splits if_splits)

lemma relate_id:
  assumes "relate msg result put v = Inr v'" and "\<And>ids. ov_id (put ids v) = ov_id v"
  shows "ov_id v' = ov_id v"
  using assms by (auto simp: relate_def Let_def split: relation_result.splits if_splits)

definition relations_by :: "timestamp \<Rightarrow> relations_store \<Rightarrow> vuln_id \<Rightarrow> bool" where
  "relations_by T rs vid \<longleftrightarrow>
     (\<forall>ids m. rl_GetAliases rs vid = RelFound (ids, m) \<longrightarrow> m \<le> T)
     \<and> (\<forall>ids m. rl_GetRelated rs vid = RelFound (ids, m) \<longrightarrow> m \<le> T)
     \<and> (\<forall>ids m. rl_GetUpstream rs vid = RelFound (ids, m) \<longrightarrow> m \<le> T)"

lemma relations_le:
  assumes "relations params v = Inr v'" and rs: "ep_relations params = Some rs"
    and dates: "relations_by T rs (ov_id v)" and "AsTime (ov_modified v) \<le> T"
  shows "AsTime (ov_modified v') \<le> T"
proof -
  obtain v1 where v1: "relate ''failed getting aliases: '' (rl_GetAliases rs (ov_id v)) (\<lambda>ids. ov_aliases_update (\<lambda>_. ids)) v = Inr v1"
    using assms(1) rs by (auto simp: relations_def split: sum.splits)
  have m1: "AsTime (ov_modified v1) \<le> T"
    by (rule relate_le [OF v1 _ assms(4)]) (use dates in \<open>auto simp: relations_by_def\<close>)
  have i1: "ov_id v1 = ov_id v" by (rule relate_id [OF v1]) simp
  obtain v2 where v2: "relate ''failed getting related: '' (rl_GetRelated rs (ov_id v1)) (\<lambda>ids. ov_related_update (\<lambda>_. ids)) v1 = Inr v2"
    using assms(1) rs v1 by (auto simp: relations_def split: sum.splits)
  have m2: "AsTime (ov_modified v2) \<le> T"
    by (rule relate_le [OF v2 _ m1]) (use dates i1 in \<open>auto simp: relations_by_def\<close>)
  have i2: "ov_id v2 = ov_id v1" by (rule relate_id [OF v2]) simp
  have v3: "relate ''failed getting upstream: '' (rl_GetUpstream rs (ov_id v2)) (\<lambda>ids. ov_upstream_update (\<lambda>_. ids)) v2 = Inr v'"
    using assms(1) rs v1 v2 by (auto simp: relations_def)
  show ?thesis
    by (rule relate_le [OF v3 _ m2]) (use dates i1 i2 in \<open>auto simp: relations_by_def\<close>)
qed

lemma modifiedDate_keep:
  assumes "AsTime (ov_modified v) \<le> AsTime m" and "ov_withdrawn v = None \<or> AsTime (ov_withdrawn v) \<le> AsTime m"
    and "AsTime m = AsTime (ov_modified v) \<Longrightarrow> m = ov_modified v"
  shows "modifiedDate now (Some (v\<lparr>ov_modified := m\<rparr>)) v = m"
proof -
  have "\<not> isSemanticallyDifferent (v\<lparr>ov_modified := m\<rparr>) v" by (simp add: isSemanticallyDifferent_def)
  moreover have "(if AsTime m > AsTime (ov_modified v) then m else ov_modified v) = m" using assms(1,3) by auto
  moreover have "\<not> (ov_withdrawn v \<noteq> None \<and> AsTime (ov_withdrawn v) > AsTime m)" using assms(2) by auto
  ultimately show ?thesis
    unfolding modifiedDate_def Let_def by (cases "AsTime (ov_modified v) < AsTime m") auto
qed

lemma modifiedDate_settled:
  assumes "AsTime (ov_modified v) \<le> now" and "0 < now"
  shows "modifiedDate now' (Some (v\<lparr>ov_modified := modifiedDate now cur v\<rparr>)) v = modifiedDate now cur v"
proof -
  let ?m = "modifiedDate now cur v"
  let ?base = "case cur of None \<Rightarrow> Some now
    | Some c \<Rightarrow> if isSemanticallyDifferent c v then Some now
        else if AsTime (ov_modified c) > AsTime (ov_modified v) then ov_modified c else ov_modified v"
  have m: "?m = (if ov_withdrawn v \<noteq> None \<and> AsTime (ov_withdrawn v) > AsTime ?base then ov_withdrawn v else ?base)"
    unfolding modifiedDate_def Let_def by (rule refl)
  have "?base = Some now \<or> AsTime (ov_modified v) < AsTime ?base \<or> ?base = ov_modified v"
    by (cases cur) simp_all
  moreover have "AsTime (Some now) = now" by (simp add: AsTime_def)
  moreover have "ov_modified v = None \<Longrightarrow> AsTime (ov_modified v) = 0" by (simp add: AsTime_def)
  ultimately have "AsTime (ov_modified v) \<le> AsTime ?base \<and> (AsTime ?base = AsTime (ov_modified v) \<longrightarrow> ?base = ov_modified v)"
    using assms by (cases "ov_modified v") (auto simp: AsTime_def)
  then have "AsTime (ov_modified v) \<le> AsTime ?m" "ov_withdrawn v = None \<or> AsTime (ov_withdrawn v) \<le> AsTime ?m"
    "AsTime ?m = AsTime (ov_modified v) \<longrightarrow> ?m = ov_modified v"
    unfolding m by auto
  then show ?thesis by (intro modifiedDate_keep) blast+
qed


section \<open>Deletions\<close>

text \<open>
  A deletion looks at the path of the stored record, not at its source: a record of another source
  at the same path is withdrawn as well.
\<close>

lemma handleDelete_any_source:
  assumes "ws_GetWithMetadata (en_Stores e) s (idFromPath (tk_path t)) = ReadOk (existing, ref)"
    and "ref_path ref = tk_path t" and "ref_source ref \<noteq> tk_source t" and "ov_withdrawn existing = None"
    and "ws_Write (en_Stores e) \<lparr>ww_id = idFromPath (tk_path t), ww_source = tk_source t, ww_path = tk_path t,
      ww_raw = None, ww_enriched = existing\<lparr>ov_withdrawn := Some (clock 0), ov_modified := Some (clock 1)\<rparr>,
      ww_commits = [], ww_skip = False\<rparr> s = (s1, None)" and "\<not> en_NotifyPyPI e"
  shows "handleDelete e clock t s = (s1, None)"
  using assms by (simp add: handleDelete_def Let_def)


section \<open>Answers to messages\<close>

lemma handleUpdate_fails:
  assumes "handleUpdate e clock t s = (s1, Some err)"
  shows "s1 = s \<or> (\<exists>w msg. ws_Write (en_Stores e) w s = (s1, Some msg))"
  using assms by (auto simp: handleUpdate_request split: sum.splits prod.splits option.splits)

lemma handleDelete_fails:
  assumes "handleDelete e clock t s = (s1, Some err)"
  shows "s1 = s \<or> (\<exists>w msg. ws_Write (en_Stores e) w s = (s1, Some msg))"
  using assms
  by (auto simp: handleDelete_def Let_def split: read_result.splits prod.splits option.splits if_splits)

text \<open>
  C36: A message that is not acknowledged, and will be delivered again, has left the stores as they were,
  unless a write to the vulnerability store was tried and failed; and a message that is no update is
  acknowledged and changes nothing.
\<close>

theorem handleMessage_not_acked:
  "(snd (handleMessage e clock zstd unmarshal m s) \<noteq> Ack \<longrightarrow>
      fst (handleMessage e clock zstd unmarshal m s) = s
      \<or> (\<exists>w msg. ws_Write (en_Stores e) w s = (fst (handleMessage e clock zstd unmarshal m s), Some msg)))
   \<and> (attribute m ''type'' \<noteq> ''update'' \<longrightarrow> handleMessage e clock zstd unmarshal m s = (s, Ack))"
proof (cases "attribute m ''type'' = ''update''")
  case False
  then show ?thesis by (simp add: handleMessage_def)
next
  case True
  show ?thesis
  proof (cases "parseVuln zstd unmarshal m")
    case (Inl err)
    then show ?thesis using True by (simp add: handleMessage_def)
  next
    case (Inr v)
    obtain s1 r where run: "RunTask e clock (taskOf m v) s = (s1, r)" by fastforce
    have fails: "s1 = s \<or> (\<exists>w msg. ws_Write (en_Stores e) w s = (s1, Some msg))" if "r = Some err" for err
      using run that
      by (cases "tk_type (taskOf m v)") (auto simp: RunTask_def dest!: handleUpdate_fails handleDelete_fails)
    show ?thesis
    proof (cases r)
      case None
      then show ?thesis using True Inr run by (simp add: handleMessage_def)
    next
      case (Some err)
      then show ?thesis
        using True Inr run fails by (cases err) (auto simp: handleMessage_def)
    qed
  qed
qed

section \<open>An engine in memory\<close>

type_synonym memory = "vuln_id \<rightharpoonup> osv_vuln \<times> source_ref"

definition mem_stores :: "memory worker_stores" where
  "mem_stores = \<lparr>ws_SourceRepo_Get = (\<lambda>_ _. Inr (ep_source ex_params)),
     ws_Get = (\<lambda>m vid. case m vid of None \<Rightarrow> ErrNotFound | Some (v, _) \<Rightarrow> ReadOk v),
     ws_GetWithMetadata = (\<lambda>m vid. case m vid of None \<Rightarrow> ErrNotFound | Some vr \<Rightarrow> ReadOk vr),
     ws_Write = (\<lambda>w m. (m(ww_id w \<mapsto> (ww_enriched w, \<lparr>ref_id = ww_id w, ref_source = ww_source w,
       ref_path = ww_path w, ref_modified_raw = 0\<rparr>)), None)),
     ws_Relations = Some (\<lambda>_. ex_relations), ws_Clear = Some (\<lambda>_ m. (m, None)),
     ws_Publish = Some (\<lambda>_ m. (m, None))\<rparr>"

definition ex_engine :: "(memory, int list wrapped) engine" where
  "ex_engine = \<lparr>en_Stores = mem_stores, en_Pipeline = enricher_List ex_env, en_GitterHost = ''http://gitter'',
     en_GitterClient = (\<lambda>_ _. HttpStatus 200 (Inr \<lparr>gr_tags = [''v1''],
       gr_cherry_picked = [\<lparr>ev_type = Fixed, ev_version = ''abc''\<rparr>], gr_commits = [''c1'', ''c2'']\<rparr>)),
     en_NotifyPyPI = True, en_Provider = ex_npm, en_Marshal = (\<lambda>_. Inr ''{}'')\<rparr>"

definition ex_task :: task where
  "ex_task = \<lparr>tk_type = TaskUpdate, tk_vuln = Some ex_vuln, tk_source = ''test'', tk_path = ''v/V-1.json'',
     tk_received = None, tk_source_time = None, tk_sha256 = []\<rparr>"

definition ex_stored :: memory where
  "ex_stored = fst (handleUpdate ex_engine (\<lambda>_. 500) ex_task Map.empty)"

definition ex_deleted :: memory where
  "ex_deleted = fst (handleDelete ex_engine (\<lambda>_. 900) ex_task ex_stored)"

lemma worker_mem_laws: "worker_store_laws (en_Stores ex_engine)"
  by (auto simp: worker_store_laws_def reads_alike_def mem_stores_def ex_engine_def)

lemma ex_engine_pipeline: "en_Pipeline ex_engine = enricher_List ex_env"
  by (simp add: ex_engine_def)

lemma ex_update: "handleUpdate ex_engine (\<lambda>_. 500) ex_task Map.empty = (ex_stored, None)"
proof -
  have "snd (handleUpdate ex_engine (\<lambda>_. 500) ex_task Map.empty) = None" by code_simp
  then show ?thesis by (simp add: ex_stored_def prod_eq_iff)
qed

lemma ex_delete: "handleDelete ex_engine (\<lambda>_. 900) ex_task ex_stored = (ex_deleted, None)"
proof -
  have "snd (handleDelete ex_engine (\<lambda>_. 900) ex_task ex_stored) = None" by code_simp
  then show ?thesis by (simp add: ex_deleted_def prod_eq_iff)
qed

text \<open>Tag and event of gitter are in the record stored, beside its commits.\<close>

lemma ex_stored_record:
  "(case updateRequest ex_engine 500 ex_task Map.empty of
      Inl _ \<Rightarrow> False
    | Inr w \<Rightarrow> ww_commits w = [''c1'', ''c2'']
        \<and> map oa_versions (ov_affected (ww_enriched w)) = [[''0.1'', ''1.2''], [''v1'']]
        \<and> map (map FromSchemaEvent \<circ> sr_events) (oa_ranges (ov_affected (ww_enriched w) ! 1))
            = [[\<lparr>ev_type = Introduced, ev_version = ''0''\<rparr>, \<lparr>ev_type = Fixed, ev_version = ''abc''\<rparr>]])"
  by code_simp




definition ex_message :: message where
  "ex_message = \<lparr>ms_attributes = [''type'' \<mapsto> ''update'', ''content_encoding'' \<mapsto> ''gzip''], ms_data = ''x''\<rparr>"

theorem handleMessage_not_acked_witness:
  "handleMessage ex_engine (\<lambda>_. 0) (\<lambda>_. Inl []) (\<lambda>_. Inl []) ex_message ex_stored = (ex_stored, Nack)"
proof -
  let ?r = "handleMessage ex_engine (\<lambda>_. 0) (\<lambda>_. Inl []) (\<lambda>_. Inl []) ex_message ex_stored"
  have n: "snd ?r = Nack"
    by (simp add: handleMessage_def ex_message_def attribute_def parseVuln_def)
  have "ws_Write (en_Stores ex_engine) w ex_stored \<noteq> (s, Some msg)" for w s msg
    by (simp add: ex_engine_def mem_stores_def)
  then have "fst ?r = ex_stored"
    using n handleMessage_not_acked [of ex_engine "\<lambda>_. 0" "\<lambda>_. Inl []" "\<lambda>_. Inl []" ex_message ex_stored] by simp
  then show ?thesis using n by (simp add: prod_eq_iff)
qed

end
