(* ===== verification/Spec2Isabelle.thy ===== *)
theory Spec2Isabelle
  imports Prelude Worklist Datastore AliasGroups RelatedGroups UpstreamGroups Updater
    Strings Repository RepoWalk FindingState Dedup Sla Members RiskAcceptance
    Grading Resilience VersionCompare Coarse AffectedVersions Listed VulnStore RelationsStore
    DatabaseSpecific Ranges Tags Conversion Cpe FindingStore FindingRequests
    Enumerate Purl Enrichers Worker
begin

text \<open>
  This development models the core logic of the OSV.dev platform, a set of Go services and
  command line workers around a database of vulnerabilities, and proves what makes it correct.

  \<^bold>\<open>The program and its parts.\<close> Vulnerabilities are imported and written to Cloud Datastore and
  cloud storage by the vulnerability store (\<open>services/shared/pkg/database/datastore\<close>). A write
  stores the vulnerability, the entity the website lists it by, the entities that answer queries by
  version, with bounds that the ecosystems of \<open>services/shared/pkg/ecosystem/impl\<close> give as coarse
  versions, and the commits that git ranges affect. Those commits come from gitter
  (\<open>apps/cli/cmd/gitter\<close>), which keeps the commit graph of a repository and walks it. The relations
  worker (\<open>apps/cli/cmd/relations\<close>) groups vulnerabilities by aliases, related ones and upstreams, and
  writes the groups and the updates they entail; the relations store reads the groups back. The
  finding service (\<open>services/finding-service\<close>) keeps the findings of scanners in the products of a
  user: their states, duplicates, deadlines, risk acceptances, grades, and the members who may
  change them. The converters of \<open>vulnfeeds\<close> make OSV records of the CVEs of the NVD: they find the
  commits of the versions of a CVE by the tags of its repositories and group the ranges they get.
  Between the sources and the store stands the worker (\<open>apps/cli/internal/worker\<close>): it takes a record
  from a queue, sends it through a pipeline of enrichers, asks gitter for the commits of its git
  ranges, dates it by what changed, and writes or withdraws it.
  \<open>services/shared/pkg/resilience\<close>, \<open>version\<close>, \<open>cpe\<close> and \<open>purl\<close> are used by all.

  \<^bold>\<open>Which theory models what.\<close>

  \<^item> \<open>Prelude\<close>, \<open>Worklist\<close>, \<open>Strings\<close>: Go's slices, sets, maps, loops with an early return and
    strings; breadth-first search over a finite graph as a locale; hexadecimal text.
  \<^item> \<open>Datastore\<close>, \<open>AliasGroups\<close>, \<open>RelatedGroups\<close>, \<open>UpstreamGroups\<close>, \<open>Updater\<close>: the relations
    worker, file by file (\<open>alias.go\<close>, \<open>related.go\<close>, \<open>upstream.go\<close>, \<open>update.go\<close>). The state of a run
    is a record of the calls made to Datastore, what has been visited and what changed.
  \<^item> \<open>RelationsStore\<close>: \<open>relations.go\<close>, the client of those groups.
  \<^item> \<open>Repository\<close>, \<open>RepoWalk\<close>: \<open>repository.go\<close> and \<open>persistence.go\<close>: the commit graph as the git log
    builds it, its invariant \<open>repo_ok\<close>, and the three walks over it.
  \<^item> \<open>Coarse\<close>: \<open>Coarse\<close> of ten ecosystems with the helper they share; \<open>AffectedVersions\<close>:
    \<open>affected_versions.go\<close>, \<open>event.go\<close> and the wrapper of ecosystems; \<open>Listed\<close>:
    \<open>listed_vulnerability.go\<close>; \<open>VulnStore\<close>: \<open>vulnerability.go\<close>.
  \<^item> \<open>FindingState\<close>, \<open>Dedup\<close>, \<open>Sla\<close>, \<open>Members\<close>, \<open>RiskAcceptance\<close>, \<open>Grading\<close>: the finding service: the
    entity and its state machine, deduplication, deadlines, members with their Postgres
    repository, risk acceptances with theirs, and the two grading algorithms.
  \<^item> \<open>FindingStore\<close>, \<open>FindingRequests\<close>: the statements of \<open>finding_repo.go\<close> with their transactions, the
    bulk operations, the closing of old findings and the creation of new ones; a history of the
    table is a sequence of requests of all these use cases, each with its own outage.
  \<^item> \<open>DatabaseSpecific\<close>, \<open>Ranges\<close>, \<open>Tags\<close>, \<open>Conversion\<close>: \<open>vulnfeeds/conversion\<close> and \<open>vulnfeeds/git\<close>: JSON
    structs and their merging, ranges that point to structs of a store (they share them) and
    their grouping, normalized versions and tags, and the flow of \<open>CVEToOSV\<close>; \<open>Cpe\<close>: the two
    notations of a CPE name.
  \<^item> \<open>Enumerate\<close>, \<open>Purl\<close>, \<open>Enrichers\<close>, \<open>Worker\<close>: \<open>enumerateversions.go\<close>; \<open>shared/pkg/purl\<close>, parser and
    printer, and the conversion between packages and package URLs with its registry; the enrichers
    of \<open>pipeline\<close> in the order of \<open>registry.go\<close>; \<open>affectedcommits.go\<close>, \<open>engine.go\<close> and \<open>subscriber.go\<close> over a
    state of the stores. A record has the fields the worker reads or writes, the others as text.
  \<^item> \<open>Resilience\<close>: \<open>circuit_breaker.go\<close> and \<open>retry.go\<close>; \<open>VersionCompare\<close>: \<open>version.go\<close>.

  \<^bold>\<open>What is proved.\<close> For the relations worker, that a run leaves exactly the connected components
  (aliases), the closure (upstreams) and the inverse-closed relation (related), that every update
  sent agrees with what is stored, that a second run changes nothing and that no run panics; and
  that a reader of the alias groups then finds a vulnerability in at most one. For gitter, that
  reading a log keeps the graph well formed and that the walks return the commits they should,
  by reachability. For the vulnerability store, that the base entities are written together or not
  at all, that what was written is read back, that the pages of commits are exact, and that the
  coarse bounds of the stored entities hold the coarse version of every version a range affects;
  for the coarse versions, that text order is number order and that the ecosystems agree on
  dotted versions. For the finding service, the invariants of the entity, the meaning of each
  transition, the behaviour of the use cases on all branches, and that every history of requests
  keeps the flags of the stored findings in agreement, but for the statements that reactivate.
  For the converters, that grouping refines its specification on values, that resolving loses no
  range, and which entries a CVE gets; for CPE names and package URLs, round trips. For the worker, that
  the enumerated versions are those the schema calls affected, what the pipeline keeps of a record
  and what it adds, how the date of modification moves, that a second run of an update asks for the
  same write, that a deletion takes effect once, and that a message is given back only when nothing
  was written or a write failed. For the breaker, a refinement
  of its specification and its reachable states; for retries, the number of attempts.

  \<^bold>\<open>Interfaces.\<close> Locales state what one part needs of another: a graph with symmetric links
  (interpreted by the alias graph), a store of records and its transitions (interpreted by the
  findings), a comparison (interpreted by versions), the contract of a coarse version and of an
  ecosystem (interpreted by the ecosystems and by the wrapper).

  \<^bold>\<open>Parameters and hypotheses.\<close> What is not in the repository is an argument: the clients of
  Cloud Datastore, cloud storage, Postgres and queues, the clock, registries of packages, \<open>packageurl-go\<close>, the
  values of \<open>osvconstants\<close>, HTTP answers of gitter as its client sees them, git (as the text it prints), the
  library that parses and compares versions, \<open>url.Parse\<close>, the order in which Go visits a map
  (\<open>iteration_order\<close>) and in which \<open>slices.SortFunc\<close> leaves equal elements (\<open>sorter_ok\<close>). What
  they document is a named hypothesis (\<open>datastore_laws\<close>, \<open>store_laws\<close>, \<open>group_query\<close>,
  \<open>version_laws\<close>, \<open>worker_store_laws\<close>), shown to be satisfiable by an instance that computes.

  \<^bold>\<open>Bounds and fuel.\<close> Loops over slices are structural; searches over graphs are \<open>while\<close>
  loops or functions with a measure on what is not visited yet; the walk along first parents
  terminates on acyclic first parents, which \<open>repo_ok\<close> gives. Alias groups have at most 32
  members and vulnerabilities with more than 5 aliases do not count, as in the code. Coarse versions
  have two digits for the epoch and eight for each of three numbers. Pages hold 10000 commits.

  \<^bold>\<open>Not modelled.\<close> HTTP handlers, request decoding and the gateway's proxying; subprocesses and
  files; SQL texts beyond the statements the use cases issue (a table is a map of its rows); the
  parsers of the reports of third-party scanners; the extraction of versions and repositories from
  NVD texts (regular expressions over prose), which \<open>Conversion\<close> takes as parameters; the polling of
  sources by the importer; authentication over cryptographic libraries; logging and metrics; JSON escapes of U+2028 and U+2029; the fields of findings no operation reads.
  Strings are sequences of bytes, and case folding is ASCII; floating point numbers are reals
  or rationals. Concurrency is a sequence of atomic steps: locks make the breaker's operations
  atomic, and a channel is the list of what is received.
\<close>

end
